(* ===== verification/Prelude.thy ===== *)
theory Prelude
  imports Main "HOL-Library.Word"
begin

text \<open>
  Shared vocabulary of the development: the machine types of the C code, its error
  values and their propagation, byte-string literals, and the generic facts on lists,
  words and numerals that the component theories build on.

  \<^item> \<open>byte\<close> is the C \<open>char\<close>/\<open>uint8_t\<close>; where the source compares signed \<open>char\<close> values
    the model reads the byte with \<open>sint\<close>.
  \<^item> \<open>derr_type\<close> enumerates the error types registered in \<open>libdstr/common.c\<close> and \<open>libimaildir/imaildir.c\<close>, with
    \<open>E_NONE\<close> for the null pointer that means success.
  \<^item> \<open>ifok\<close> is the \<open>PROP\<close> macro: the rest of the function runs only when the call
    before it returned \<open>E_NONE\<close>, and otherwise the error is returned with whatever
    state the failing call left behind.
\<close>

named_theorems dstr_defs \<open>definitions of the string buffer operations\<close>
named_theorems dstr_laws \<open>behaviour of the string buffer operations\<close>
named_theorems codec_defs \<open>definitions of the encoders and decoders\<close>
named_theorems heap_simps \<open>reads after writes in pointer stores\<close>
named_theorems step_defs \<open>definitions of the operations of a state machine\<close>

section \<open>Machine types\<close>

type_synonym byte = "8 word"
type_synonym u16 = "16 word"
type_synonym u32 = "32 word"
type_synonym u64 = "64 word"

text \<open>
  \<open>malloc\<close> and \<open>realloc\<close> may fail. An \<open>allocator\<close> says which request sizes are granted;
  the theorems on single operations of \<open>libdstr\<close> quantify over it, and those on whole components fix it to
  \<open>alloc_ok\<close>, which grants every request.
\<close>

type_synonym allocator = "nat \<Rightarrow> bool"

abbreviation alloc_ok :: allocator where
  "alloc_ok \<equiv> \<lambda>_. True"

section \<open>Errors\<close>

datatype derr_type =
    E_NONE | E_NOMEM | E_SOCK | E_CONN | E_VALUE | E_FIXEDSIZE | E_OS | E_BADIDX
  | E_OPEN | E_PARAM | E_INTERNAL | E_FS | E_RESPONSE | E_USERMSG | E_CANCELED | E_BUSY | E_IMAILDIR

definition ifok :: "derr_type \<times> 's \<Rightarrow> ('s \<Rightarrow> derr_type \<times> 't) \<Rightarrow> ('s \<Rightarrow> 't) \<Rightarrow> derr_type \<times> 't" where
  "ifok r k f = (case r of (t, s) \<Rightarrow> if t = E_NONE then k s else (t, f s))"

lemma ifok_none [simp]: "ifok (E_NONE, s) k f = k s"
  by (simp add: ifok_def)

lemma ifok_err [simp]: "t \<noteq> E_NONE \<Longrightarrow> ifok (t, s) k f = (t, f s)"
  by (simp add: ifok_def)

lemma ifok_eq_noneE [elim]:
  assumes "ifok r k f = (E_NONE, u)"
  obtains s where "r = (E_NONE, s)" and "k s = (E_NONE, u)"
  using assms by (auto simp: ifok_def split: prod.splits if_splits)

section \<open>Byte strings\<close>

text \<open>A C string literal as the list of its bytes.\<close>

definition lit :: "string \<Rightarrow> byte list" where
  "lit s = map of_char s"

lemma lit_append: "lit (s @ t) = lit s @ lit t"
  by (simp add: lit_def)

lemma lit_Nil [simp]: "lit [] = []"
  by (simp add: lit_def)

lemma lit_Cons [simp]: "lit (c # s) = of_char c # lit s"
  by (simp add: lit_def)

section \<open>Lists\<close>

lemma take_drop_split: "i \<le> j \<Longrightarrow> take (j - i) (drop i xs) @ drop j xs = drop i xs"
  by (metis append_take_drop_id drop_drop le_add_diff_inverse2)

lemma drop_eq_ConsD: "drop i xs = y # ys \<Longrightarrow> i < length xs \<and> xs ! i = y \<and> drop (Suc i) xs = ys"
  by (metis Cons_nth_drop_Suc drop_eq_Nil list.distinct(1) list.inject not_le)

lemma append_eq_take_drop: "xs = take (length ys) xs @ zs \<Longrightarrow> zs = drop (length ys) xs"
  by (metis append_take_drop_id same_append_eq)

lemma list_all_in: "list_all P xs \<longleftrightarrow> (\<forall>x\<in>set xs. P x)"
  by (simp add: list_all_iff)

section \<open>Words\<close>

lemma word_le_unat: "(a :: 'a::len word) \<le> b \<longleftrightarrow> unat a \<le> unat b"
  by (rule word_le_nat_alt)

lemma word_less_unat: "(a :: 'a::len word) < b \<longleftrightarrow> unat a < unat b"
  by (rule word_less_nat_alt)

lemma byte_unat_less [simp]: "unat (b :: byte) < 256"
  using unsigned_less [of b] by simp

lemma u32_unat_less [simp]: "unat (u :: u32) < 4294967296"
  using unsigned_less [of u] by simp

lemma u64_unat_less [simp]: "unat (u :: u64) < 18446744073709551616"
  using unsigned_less [of u] by simp

lemma u32_unat_le [simp]: "unat (u :: u32) \<le> 4294967295"
  using u32_unat_less [of u] by linarith

lemma u32_unat_le64 [simp]: "unat (u :: u32) \<le> 18446744073709551615"
  using u32_unat_less [of u] by linarith

lemma u64_unat_le [simp]: "unat (u :: u64) \<le> 18446744073709551615"
  using u64_unat_less [of u] by linarith

lemma unat_minus_of_nat:
  assumes "unat (c :: byte) \<ge> k" and "k < 256"
  shows "unat (c - of_nat k) = unat c - k"
proof -
  have "of_nat k \<le> c"
    using assms by (simp add: word_le_nat_alt unat_of_nat)
  then have "unat (c - of_nat k) = unat c - unat (of_nat k :: byte)"
    by (rule unat_sub)
  then show ?thesis using assms by (simp add: unat_of_nat)
qed

lemma ifok_id: "ifok r (\<lambda>s. (E_NONE, s)) id = r"
  by (cases r) (simp add: ifok_def)

lemma byte_bits: "n < LENGTH(8) \<Longrightarrow> n = 7 \<or> n = 6 \<or> n = 5 \<or> n = 4 \<or> n = 3 \<or> n = 2 \<or> n = 1 \<or> n = 0" for n :: nat
  by fastforce

lemma u16_bits:
  "n < LENGTH(16) \<Longrightarrow> n = 15 \<or> n = 14 \<or> n = 13 \<or> n = 12 \<or> n = 11 \<or> n = 10 \<or> n = 9 \<or> n = 8 \<or>
     n = 7 \<or> n = 6 \<or> n = 5 \<or> n = 4 \<or> n = 3 \<or> n = 2 \<or> n = 1 \<or> n = 0" for n :: nat
  by simp presburger

lemma u32_bits:
  fixes n :: nat
  assumes "n < LENGTH(32)"
  shows "n < LENGTH(16) \<or> n = 31 \<or> n = 30 \<or> n = 29 \<or> n = 28 \<or> n = 27 \<or> n = 26 \<or> n = 25 \<or> n = 24 \<or>
     n = 23 \<or> n = 22 \<or> n = 21 \<or> n = 20 \<or> n = 19 \<or> n = 18 \<or> n = 17 \<or> n = 16"
  using assms by simp presburger

end
