(* ===== verification/Dstr.thy ===== *)
theory Dstr
  imports Prelude
begin

text \<open>
  The string buffer \<open>dstr_t\<close> of \<open>libdstr/common.c\<close>, on which every other library of the
  program is built.  The record keeps the four fields of the struct: \<open>ddata\<close> holds the
  bytes \<open>data[0] \<dots> data[len-1]\<close> (so \<open>len\<close> is \<open>length (ddata d)\<close>), \<open>dnull\<close> says that the
  data pointer is NULL, \<open>dsize\<close> is the capacity in bytes and \<open>dfixed\<close> the \<open>fixed_size\<close>
  flag.  Bytes of the buffer past \<open>len\<close> are not part of the value.  Sizes are natural
  numbers; \<open>pow2_from_bound\<close> shows that no computed capacity wraps around a 64-bit
  \<open>size_t\<close> as long as the requested size is at most \<open>2^63\<close>.
\<close>

record dstr =
  ddata :: "byte list"
  dnull :: bool
  dsize :: nat
  dfixed :: bool

abbreviation dlen :: "dstr \<Rightarrow> nat" where
  "dlen d \<equiv> length (ddata d)"

definition zero_dstr :: dstr where
  "zero_dstr = \<lparr>ddata = [], dnull = True, dsize = 0, dfixed = False\<rparr>"

text \<open>\<open>DSTR_WRAP\<close>: a fixed-size view of existing bytes; \<open>DSTR_VAR\<close>: an empty fixed-size buffer.\<close>

definition dstr_wrap :: "byte list \<Rightarrow> bool \<Rightarrow> dstr" where
  "dstr_wrap bs nt = \<lparr>ddata = bs, dnull = False,
     dsize = length bs + (if nt then 1 else 0), dfixed = True\<rparr>"

definition dstr_var :: "nat \<Rightarrow> dstr" where
  "dstr_var n = \<lparr>ddata = [], dnull = False, dsize = n, dfixed = True\<rparr>"

section \<open>Allocation\<close>

text \<open>
  The capacity loop \<open>while(newsize < min_size) newsize *= 2\<close>.  Its callers start it at 2
  or more; the test \<open>0 < n\<close> only serves termination.
\<close>

function pow2_from :: "nat \<Rightarrow> nat \<Rightarrow> nat" where
  "pow2_from n m = (if n < m \<and> 0 < n then pow2_from (n * 2) m else n)"
  by pat_completeness auto
termination
  by (relation "measure (\<lambda>(n, m). m - n)") auto

declare pow2_from.simps [simp del]

definition dstr_new_quiet :: "allocator \<Rightarrow> dstr \<Rightarrow> nat \<Rightarrow> derr_type \<times> dstr" where
  "dstr_new_quiet A ds sz =
     (let new_size = pow2_from 2 sz in
      if \<not> A new_size then (E_NOMEM, ds\<lparr>dnull := True\<rparr>)
      else (E_NONE, \<lparr>ddata = [], dnull = False, dsize = new_size, dfixed = False\<rparr>))"

definition dstr_new :: "allocator \<Rightarrow> dstr \<Rightarrow> nat \<Rightarrow> derr_type \<times> dstr" where
  "dstr_new A ds sz = dstr_new_quiet A ds sz"

definition dstr_zeroize :: "dstr \<Rightarrow> dstr" where
  "dstr_zeroize ds = ds\<lparr>ddata := replicate (min (dsize ds) (dlen ds)) 0 @ drop (dsize ds) (ddata ds)\<rparr>"

definition dstr_free :: "dstr \<Rightarrow> dstr" where
  "dstr_free ds = (if dnull ds then ds else zero_dstr)"

definition dstr_free0 :: "dstr \<Rightarrow> dstr" where
  "dstr_free0 ds = (if dnull ds then ds else (let _ = dstr_zeroize ds in zero_dstr))"

definition dstr_from_cstr :: "byte list option \<Rightarrow> dstr" where
  "dstr_from_cstr cstr =
     (let s = (case cstr of None \<Rightarrow> [] | Some bs \<Rightarrow> takeWhile (\<lambda>b. b \<noteq> 0) bs) in
      \<lparr>ddata = s, dnull = (cstr = None), dsize = length s + 1, dfixed = True\<rparr>)"

definition dstr_from_cstrn :: "byte list \<Rightarrow> nat \<Rightarrow> bool \<Rightarrow> dstr" where
  "dstr_from_cstrn cstr n null_terminated =
     \<lparr>ddata = take n cstr, dnull = False,
      dsize = n + (if null_terminated then 1 else 0), dfixed = True\<rparr>"

section \<open>Substrings and stripping\<close>

definition dstr_sub :: "dstr \<Rightarrow> nat \<Rightarrow> nat \<Rightarrow> dstr" where
  "dstr_sub inp start end =
     (let so = min (dlen inp) start;
          eo = min (dlen inp) (if end \<noteq> 0 then end else dlen inp);
          eo' = max so eo
      in \<lparr>ddata = take (eo' - so) (drop so (ddata inp)), dnull = dnull inp,
          dsize = eo' - so, dfixed = True\<rparr>)"

definition dstr_sub2 :: "dstr \<Rightarrow> nat \<Rightarrow> nat \<Rightarrow> dstr" where
  "dstr_sub2 inp start end =
     (let so = min (dlen inp) start;
          eo = min (dlen inp) end;
          eo' = max so eo
      in \<lparr>ddata = take (eo' - so) (drop so (ddata inp)), dnull = dnull inp,
          dsize = eo' - so, dfixed = True\<rparr>)"

definition dstr_empty_space :: "dstr \<Rightarrow> dstr" where
  "dstr_empty_space inp =
     \<lparr>ddata = [], dnull = dnull inp, dsize = dsize inp - min (dsize inp) (dlen inp),
      dfixed = True\<rparr>"

lemma dstr_sub2_data: "ddata (dstr_sub2 d s e) = take (e - s) (drop s (ddata d))"
  by (auto simp: dstr_sub2_def Let_def min_def max_def)

lemma dstr_sub_data: "e \<noteq> 0 \<Longrightarrow> ddata (dstr_sub d s e) = take (e - s) (drop s (ddata d))"
  by (auto simp: dstr_sub_def Let_def min_def max_def)

lemma dstr_sub_data0: "ddata (dstr_sub d s 0) = drop s (ddata d)"
  by (auto simp: dstr_sub_def Let_def min_def max_def)

function dstr_lstrip_chars :: "dstr \<Rightarrow> byte list \<Rightarrow> dstr" where
  "dstr_lstrip_chars out chars =
     (if dlen out \<noteq> 0 \<and> ddata out ! 0 \<in> set chars
      then dstr_lstrip_chars (dstr_sub2 out 1 (dlen out)) chars else out)"
  by pat_completeness auto
termination
  by (relation "measure (\<lambda>(d, _). dlen d)") (auto simp: dstr_sub2_data)

function dstr_rstrip_chars :: "dstr \<Rightarrow> byte list \<Rightarrow> dstr" where
  "dstr_rstrip_chars out chars =
     (if dlen out \<noteq> 0 \<and> ddata out ! (dlen out - 1) \<in> set chars
      then dstr_rstrip_chars (out\<lparr>ddata := butlast (ddata out)\<rparr>) chars else out)"
  by pat_completeness auto
termination
  by (relation "measure (\<lambda>(d, _). dlen d)") auto

declare dstr_lstrip_chars.simps [simp del] dstr_rstrip_chars.simps [simp del]

definition dstr_strip_chars :: "dstr \<Rightarrow> byte list \<Rightarrow> dstr" where
  "dstr_strip_chars inp chars = dstr_lstrip_chars (dstr_rstrip_chars inp chars) chars"

section \<open>Comparison and case\<close>

definition ichar :: "byte \<Rightarrow> byte" where
  "ichar c = (if 97 \<le> c \<and> c \<le> 122 then c - 32 else c)"

definition noichar :: "byte \<Rightarrow> byte" where
  "noichar c = c"

text \<open>The comparison loop and the tail that looks at the longer string.\<close>

fun cmp_loop :: "(byte \<Rightarrow> byte) \<Rightarrow> byte list \<Rightarrow> byte list \<Rightarrow> int" where
  "cmp_loop f (a # as) (b # bs) =
     (if f a \<noteq> f b then sint (f a) - sint (f b) else cmp_loop f as bs)"
| "cmp_loop f (a # as) [] = sint (f a)"
| "cmp_loop f [] (b # bs) = - sint (f b)"
| "cmp_loop f [] [] = 0"

definition do_dstr_cmp2 :: "dstr \<Rightarrow> dstr \<Rightarrow> bool \<Rightarrow> int" where
  "do_dstr_cmp2 a b sensitive =
     (if dnull a \<and> dnull b then 0
      else if dlen a = 0 \<and> dlen b = 0 then 0
      else if dnull a \<or> dnull b
        then sint (hd (if \<not> dnull a then ddata a else ddata b))
      else cmp_loop (if sensitive then noichar else ichar) (ddata a) (ddata b))"

definition do_dstr_eq :: "dstr \<Rightarrow> dstr \<Rightarrow> bool \<Rightarrow> bool" where
  "do_dstr_eq a b sensitive \<longleftrightarrow> dlen a = dlen b \<and> do_dstr_cmp2 a b sensitive = 0"

definition dstr_cmp :: "dstr \<Rightarrow> dstr \<Rightarrow> int" where
  "dstr_cmp a b = do_dstr_cmp2 a b True"

definition dstr_eq :: "dstr \<Rightarrow> dstr \<Rightarrow> bool" where
  "dstr_eq a b = do_dstr_eq a b True"

definition dstr_icmp :: "dstr \<Rightarrow> dstr \<Rightarrow> int" where
  "dstr_icmp a b = do_dstr_cmp2 a b False"

definition dstr_ieq :: "dstr \<Rightarrow> dstr \<Rightarrow> bool" where
  "dstr_ieq a b = do_dstr_eq a b False"

definition dstr_upper :: "dstr \<Rightarrow> dstr" where
  "dstr_upper t = t\<lparr>ddata := map (\<lambda>c. if 97 \<le> c \<and> c \<le> 122 then c - 32 else c) (ddata t)\<rparr>"

definition dstr_lower :: "dstr \<Rightarrow> dstr" where
  "dstr_lower t = t\<lparr>ddata := map (\<lambda>c. if 65 \<le> c \<and> c \<le> 90 then c + 32 else c) (ddata t)\<rparr>"

fun in_list_from :: "dstr \<Rightarrow> dstr list \<Rightarrow> nat \<Rightarrow> nat option" where
  "in_list_from val [] i = None"
| "in_list_from val (x # xs) i =
     (if dstr_cmp val x = 0 then Some i else in_list_from val xs (Suc i))"

definition in_list :: "dstr \<Rightarrow> dstr list \<Rightarrow> nat option" where
  "in_list val xs = in_list_from val xs 0"

section \<open>Growing and appending\<close>

definition dstr_grow_quiet :: "allocator \<Rightarrow> dstr \<Rightarrow> nat \<Rightarrow> derr_type \<times> dstr" where
  "dstr_grow_quiet A ds min_size =
     (if min_size \<le> dsize ds then (E_NONE, ds)
      else if dfixed ds then (E_FIXEDSIZE, ds)
      else let newsize = pow2_from (max (dsize ds) 2) min_size in
        if \<not> A newsize then (E_NOMEM, ds)
        else (E_NONE, ds\<lparr>dsize := newsize, dnull := False\<rparr>))"

definition dstr_grow :: "allocator \<Rightarrow> dstr \<Rightarrow> nat \<Rightarrow> derr_type \<times> dstr" where
  "dstr_grow A ds min_size = dstr_grow_quiet A ds min_size"

text \<open>The zeroizing variant copies into a fresh buffer; it leaves \<open>size\<close> as it was.\<close>

definition dstr_grow0_quiet :: "allocator \<Rightarrow> dstr \<Rightarrow> nat \<Rightarrow> derr_type \<times> dstr" where
  "dstr_grow0_quiet A ds min_size =
     (if min_size \<le> dsize ds then (E_NONE, ds)
      else if dfixed ds then (E_FIXEDSIZE, ds)
      else let newsize = pow2_from (max (dsize ds) 2) min_size in
        if \<not> A newsize then (E_NOMEM, ds)
        else (E_NONE, ds\<lparr>dnull := False\<rparr>))"

definition dstr_grow0 :: "allocator \<Rightarrow> dstr \<Rightarrow> nat \<Rightarrow> derr_type \<times> dstr" where
  "dstr_grow0 A ds min_size = dstr_grow_quiet A ds min_size"

definition do_dstr_append ::
  "dstr \<Rightarrow> byte list \<Rightarrow> (dstr \<Rightarrow> nat \<Rightarrow> derr_type \<times> dstr) \<Rightarrow> derr_type \<times> dstr" where
  "do_dstr_append ds new_text grow_fn =
     ifok (if dlen ds + length new_text > dsize ds
           then grow_fn ds (dlen ds + length new_text) else (E_NONE, ds))
       (\<lambda>ds'. (E_NONE, ds'\<lparr>ddata := ddata ds' @ new_text\<rparr>)) id"

definition dstr_append_quiet :: "allocator \<Rightarrow> dstr \<Rightarrow> byte list \<Rightarrow> derr_type \<times> dstr" where
  "dstr_append_quiet A ds new_text = do_dstr_append ds new_text (dstr_grow_quiet A)"

definition dstr_append :: "allocator \<Rightarrow> dstr \<Rightarrow> byte list \<Rightarrow> derr_type \<times> dstr" where
  "dstr_append A ds new_text = do_dstr_append ds new_text (dstr_grow_quiet A)"

definition dstr_append0_quiet :: "allocator \<Rightarrow> dstr \<Rightarrow> byte list \<Rightarrow> derr_type \<times> dstr" where
  "dstr_append0_quiet A ds new_text = do_dstr_append ds new_text (dstr_grow0_quiet A)"

definition dstr_append_char :: "allocator \<Rightarrow> dstr \<Rightarrow> byte \<Rightarrow> derr_type \<times> dstr" where
  "dstr_append_char A ds val =
     ifok (if dlen ds \<ge> dsize ds then dstr_grow_quiet A ds (dlen ds + 1) else (E_NONE, ds))
       (\<lambda>ds'. (E_NONE, ds'\<lparr>ddata := ddata ds' @ [val]\<rparr>)) id"

definition dstr_append_char_n :: "allocator \<Rightarrow> dstr \<Rightarrow> byte \<Rightarrow> nat \<Rightarrow> derr_type \<times> dstr" where
  "dstr_append_char_n A ds val n =
     ifok (if dlen ds + n > dsize ds then dstr_grow_quiet A ds (dlen ds + n) else (E_NONE, ds))
       (\<lambda>ds'. (E_NONE, ds'\<lparr>ddata := ddata ds' @ replicate n val\<rparr>)) id"

definition dstr_copystrn :: "allocator \<Rightarrow> byte list \<Rightarrow> nat \<Rightarrow> dstr \<Rightarrow> derr_type \<times> dstr" where
  "dstr_copystrn A inp n out =
     ifok (if n \<noteq> 0 then dstr_grow A out n else (E_NONE, out))
       (\<lambda>out'. (E_NONE, out'\<lparr>ddata := take n inp\<rparr>)) id"

definition dstr_copystr :: "allocator \<Rightarrow> byte list option \<Rightarrow> dstr \<Rightarrow> derr_type \<times> dstr" where
  "dstr_copystr A inp out =
     (case inp of
        Some s \<Rightarrow> let t = takeWhile (\<lambda>b. b \<noteq> 0) s in dstr_copystrn A t (length t) out
      | None \<Rightarrow> (E_NONE, out\<lparr>ddata := []\<rparr>))"

definition dstr_copy :: "allocator \<Rightarrow> dstr \<Rightarrow> dstr \<Rightarrow> derr_type \<times> dstr" where
  "dstr_copy A inp out = dstr_copystrn A (ddata inp) (dlen inp) out"

definition dstr_dupstr :: "allocator \<Rightarrow> dstr \<Rightarrow> derr_type \<times> byte list option" where
  "dstr_dupstr A inp =
     (if \<not> A (dlen inp + 1) then (E_NOMEM, None) else (E_NONE, Some (ddata inp @ [0])))"

definition dstr_leftshift :: "dstr \<Rightarrow> nat \<Rightarrow> dstr" where
  "dstr_leftshift buffer count =
     (if count = 0 then buffer
      else let shift = min count (dlen buffer);
               newlen = dlen buffer - shift
        in if newlen = 0 then buffer\<lparr>ddata := []\<rparr>
           else buffer\<lparr>ddata := take newlen (drop shift (ddata buffer))\<rparr>)"

text \<open>The terminator goes to \<open>data[len]\<close>, past the value; only the capacity is visible.\<close>

definition dstr_null_terminate_quiet :: "allocator \<Rightarrow> dstr \<Rightarrow> derr_type \<times> dstr" where
  "dstr_null_terminate_quiet A ds =
     (if dlen ds \<ge> dsize ds then dstr_grow_quiet A ds (dlen ds + 1) else (E_NONE, ds))"

section \<open>Typed lists\<close>

text \<open>
  The \<open>LIST(type)\<close> template: \<open>lst_size\<close> is in bytes, \<open>esz\<close> is \<open>sizeof(type)\<close>.
  \<open>list_delete\<close> computes \<open>len - 1\<close> on a \<open>size_t\<close>: on an empty list that is \<open>SIZE_MAX\<close>, and
  the code then moves memory it does not own, so the model has no result there.
\<close>

record 'a lst =
  lst_data :: "'a list"
  lst_size :: nat
  lst_fixed :: bool

definition list_var :: "nat \<Rightarrow> nat \<Rightarrow> 'a lst" where
  "list_var esz n = \<lparr>lst_data = [], lst_size = n * esz, lst_fixed = True\<rparr>"

definition list_new :: "allocator \<Rightarrow> nat \<Rightarrow> 'a lst \<Rightarrow> nat \<Rightarrow> derr_type \<times> 'a lst" where
  "list_new A esz l num_items =
     (let newsize = pow2_from 2 (num_items * esz) in
      if \<not> A newsize then (E_NOMEM, l)
      else (E_NONE, \<lparr>lst_data = [], lst_size = newsize, lst_fixed = False\<rparr>))"

definition list_grow :: "allocator \<Rightarrow> nat \<Rightarrow> 'a lst \<Rightarrow> nat \<Rightarrow> derr_type \<times> 'a lst" where
  "list_grow A esz l num_items =
     (let min_size = num_items * esz in
      if lst_size l < min_size then
        if lst_fixed l then (E_FIXEDSIZE, l)
        else let newsize = pow2_from (max (lst_size l) 2) min_size in
          if \<not> A newsize then (E_NOMEM, l) else (E_NONE, l\<lparr>lst_size := newsize\<rparr>)
      else (E_NONE, l))"

definition list_append :: "allocator \<Rightarrow> nat \<Rightarrow> 'a lst \<Rightarrow> 'a \<Rightarrow> derr_type \<times> 'a lst" where
  "list_append A esz l element =
     ifok (list_grow A esz l (length (lst_data l) + 1))
       (\<lambda>l'. (E_NONE, l'\<lparr>lst_data := lst_data l' @ [element]\<rparr>)) id"

definition list_delete :: "'a lst \<Rightarrow> nat \<Rightarrow> 'a lst option" where
  "list_delete l index =
     (if lst_data l = [] then None
      else if length (lst_data l) - 1 = index then Some (l\<lparr>lst_data := butlast (lst_data l)\<rparr>)
      else if length (lst_data l) - 1 > index
        then Some (l\<lparr>lst_data := take index (lst_data l) @ drop (Suc index) (lst_data l)\<rparr>)
      else Some l)"


section \<open>Capacity\<close>

lemma pow2_from_start: "n \<le> pow2_from n m"
  by (induction n m rule: pow2_from.induct) (subst pow2_from.simps, auto)

lemma pow2_from_reaches: "0 < n \<Longrightarrow> m \<le> pow2_from n m"
proof (induction n m rule: pow2_from.induct)
  case (1 n m)
  then show ?case by (cases "n < m") (auto simp: pow2_from.simps [of n m])
qed

lemma pow2_from_least: "n < m \<Longrightarrow> pow2_from n m < 2 * m"
proof (induction n m rule: pow2_from.induct)
  case (1 n m)
  show ?case
  proof (cases "0 < n \<and> n * 2 < m")
    case True
    with 1 show ?thesis by (simp add: pow2_from.simps [of n m])
  next
    case False
    with "1.prems" show ?thesis
      by (auto simp: pow2_from.simps [of n m] pow2_from.simps [of "n * 2" m])
  qed
qed

lemma pow2_from_pow2: "\<exists>j. pow2_from (2 ^ k) m = 2 ^ j"
proof (induction "2 ^ k :: nat" m arbitrary: k rule: pow2_from.induct)
  case (1 m)
  have "\<exists>j. pow2_from (2 ^ k * 2) m = 2 ^ j" if "2 ^ k < m"
    using "1.hyps" [of "Suc k"] that by (simp add: mult.commute)
  then show ?case by (cases "2 ^ k < m") (auto simp: pow2_from.simps [of "2 ^ k" m])
qed

section \<open>Well-formed buffers\<close>

definition dstr_ok :: "dstr \<Rightarrow> bool" where
  "dstr_ok d \<longleftrightarrow> dlen d \<le> dsize d \<and> (dnull d \<longrightarrow> dsize d = 0)"

lemma dstr_ok_zero [simp, intro]: "dstr_ok zero_dstr"
  by (simp add: dstr_ok_def zero_dstr_def)

lemma dstr_ok_var [simp, intro]: "dstr_ok (dstr_var n)"
  by (simp add: dstr_ok_def dstr_var_def)

lemma dstr_ok_wrap [simp, intro]: "dstr_ok (dstr_wrap bs nt)"
  by (simp add: dstr_ok_def dstr_wrap_def)

lemma dstr_ok_sub2: "dstr_ok d \<Longrightarrow> dstr_ok (dstr_sub2 d s e)"
  by (auto simp: dstr_ok_def dstr_sub2_def Let_def)

text \<open>Every outcome of \<open>dstr_grow_quiet\<close>.\<close>

lemma dstr_grow_quiet_cases:
  obtains (fits) "m \<le> dsize d" "dstr_grow_quiet A d m = (E_NONE, d)"
  | (fixed) "dsize d < m" "dfixed d" "dstr_grow_quiet A d m = (E_FIXEDSIZE, d)"
  | (nomem) "dsize d < m" "\<not> dfixed d" "dstr_grow_quiet A d m = (E_NOMEM, d)"
  | (grown) n where "dsize d < m" "\<not> dfixed d" "m \<le> n" "dsize d < n" "A n"
      "dstr_grow_quiet A d m = (E_NONE, d\<lparr>dsize := n, dnull := False\<rparr>)"
proof -
  define n where "n = pow2_from (max (dsize d) 2) m"
  have n: "m \<le> n" unfolding n_def by (rule pow2_from_reaches) simp
  have eq: "dstr_grow_quiet A d m =
    (if m \<le> dsize d then (E_NONE, d) else if dfixed d then (E_FIXEDSIZE, d)
     else if \<not> A n then (E_NOMEM, d) else (E_NONE, d\<lparr>dsize := n, dnull := False\<rparr>))"
    by (simp add: dstr_grow_quiet_def n_def Let_def)
  consider "m \<le> dsize d" | "dsize d < m" "dfixed d" | "dsize d < m" "\<not> dfixed d" "\<not> A n"
    | "dsize d < m" "\<not> dfixed d" "A n" by linarith
  then show ?thesis
  proof cases
    case 1 then show ?thesis by (rule fits) (simp add: eq 1)
  next
    case 2 then show ?thesis by (intro fixed) (simp_all add: eq)
  next
    case 3 then show ?thesis by (intro nomem) (simp_all add: eq)
  next
    case 4 with n show ?thesis by (intro grown [of n]) (simp_all add: eq)
  qed
qed

text \<open>Every outcome of an append, whichever of the append functions made it.\<close>

lemma dstr_append_cases:
  assumes "dstr_ok d"
  obtains (ok) d' where "dstr_append_quiet A d t = (E_NONE, d')" "ddata d' = ddata d @ t"
      "dstr_ok d'" "dsize d \<le> dsize d'" "dfixed d' = dfixed d"
      "dfixed d \<longrightarrow> dsize d' = dsize d"
  | (err) e where "dstr_append_quiet A d t = (e, d)" "dsize d < dlen d + length t"
      "e = E_FIXEDSIZE \<and> dfixed d \<or> e = E_NOMEM \<and> \<not> dfixed d"
proof (cases "dlen d + length t > dsize d")
  case False
  with assms show ?thesis
    by (intro ok [of "d\<lparr>ddata := ddata d @ t\<rparr>"])
      (auto simp: dstr_append_quiet_def do_dstr_append_def dstr_ok_def)
next
  case True
  then show ?thesis
  proof (cases rule: dstr_grow_quiet_cases [where m = "dlen d + length t" and d = d and A = A])
    case (grown n)
    with True assms show ?thesis
      by (intro ok [of "d\<lparr>dsize := n, dnull := False, ddata := ddata d @ t\<rparr>"])
        (auto simp: dstr_append_quiet_def do_dstr_append_def dstr_ok_def)
  qed (use True assms in \<open>auto intro: err simp: dstr_append_quiet_def do_dstr_append_def\<close>)
qed

lemma dstr_append_eq_quiet [simp]: "dstr_append A d t = dstr_append_quiet A d t"
  by (simp add: dstr_append_def dstr_append_quiet_def)

lemma dstr_append_char_eq [simp]: "dstr_append_char A d c = dstr_append_quiet A d [c]"
  by (simp add: dstr_append_char_def dstr_append_quiet_def do_dstr_append_def Suc_le_eq less_Suc_eq_le)

lemma dstr_append_char_n_eq [simp]:
  "dstr_append_char_n A d c n = dstr_append_quiet A d (replicate n c)"
  by (simp add: dstr_append_char_n_def dstr_append_quiet_def do_dstr_append_def)

lemma dstr_append_fits:
  "dlen d + length t \<le> dsize d \<Longrightarrow>
   dstr_append_quiet A d t = (E_NONE, d\<lparr>ddata := ddata d @ t\<rparr>)"
  by (simp add: dstr_append_quiet_def do_dstr_append_def)

section \<open>Sinks\<close>

text \<open>
  What the encoders and marshallers rely on: a destination to which chunks are appended
  one after the other, until one append fails.  \<open>put_all\<close> is that loop.
\<close>

fun put_all :: "('s \<Rightarrow> 'b \<Rightarrow> derr_type \<times> 's) \<Rightarrow> 's \<Rightarrow> 'b list \<Rightarrow> derr_type \<times> 's" where
  "put_all put s [] = (E_NONE, s)"
| "put_all put s (c # cs) = ifok (put s c) (\<lambda>s'. put_all put s' cs) id"

locale byte_sink =
  fixes put :: "'s \<Rightarrow> 'b list \<Rightarrow> derr_type \<times> 's"
    and contents :: "'s \<Rightarrow> 'b list"
    and ok :: "'s \<Rightarrow> bool"
  assumes put_none: "ok s \<Longrightarrow> put s t = (E_NONE, s') \<Longrightarrow> ok s' \<and> contents s' = contents s @ t"
    and put_err: "ok s \<Longrightarrow> put s t = (e, s') \<Longrightarrow> e \<noteq> E_NONE \<Longrightarrow> s' = s"
begin

lemma put_all_append:
  "put_all put s (cs @ ds) = ifok (put_all put s cs) (\<lambda>s'. put_all put s' ds) id"
  by (induction cs arbitrary: s) (auto simp: ifok_def split: prod.splits)

lemma put_all_none:
  "ok s \<Longrightarrow> put_all put s cs = (E_NONE, s') \<Longrightarrow> ok s' \<and> contents s' = contents s @ concat cs"
proof (induction cs arbitrary: s)
  case (Cons c cs)
  from Cons.prems(2) obtain s1 where s1: "put s c = (E_NONE, s1)" "put_all put s1 cs = (E_NONE, s')"
    by auto
  with put_none [OF Cons.prems(1) s1(1)] Cons.IH [of s1] show ?case by simp
qed simp

lemma put_all_prefix:
  "ok s \<Longrightarrow> put_all put s cs = (e, s') \<Longrightarrow>
   ok s' \<and> (\<exists>n \<le> length cs. contents s' = contents s @ concat (take n cs) \<and> (e = E_NONE \<longrightarrow> n = length cs))"
proof (induction cs arbitrary: s)
  case (Cons c cs)
  obtain e1 s1 where s1: "put s c = (e1, s1)" by force
  show ?case
  proof (cases "e1 = E_NONE")
    case True
    with put_none Cons.prems s1 have "ok s1" "contents s1 = contents s @ c" by auto
    moreover from Cons.prems True s1 have "put_all put s1 cs = (e, s')" by simp
    ultimately obtain n where "ok s'" "n \<le> length cs" "e = E_NONE \<longrightarrow> n = length cs"
      "contents s' = contents s @ c @ concat (take n cs)"
      using Cons.IH [of s1] by auto
    then show ?thesis by (auto intro!: exI [of _ "Suc n"])
  next
    case False
    with Cons.prems s1 put_err [OF Cons.prems(1) s1] show ?thesis by (auto intro!: exI [of _ 0])
  qed
qed simp

end

interpretation dstr_sink: byte_sink "dstr_append_quiet A" ddata dstr_ok for A
proof
  fix s t s' assume ok: "dstr_ok s" and "dstr_append_quiet A s t = (E_NONE, s')"
  then show "dstr_ok s' \<and> ddata s' = ddata s @ t"
    using dstr_append_cases [OF ok, of A t] by force
next
  fix s t e s' assume ok: "dstr_ok s" and "dstr_append_quiet A s t = (e, s')" "e \<noteq> E_NONE"
  then show "s' = s" using dstr_append_cases [OF ok, of A t] by force
qed

text \<open>A buffer with enough room never refuses.\<close>

lemma put_all_fits:
  "dlen d + length (concat cs) \<le> dsize d \<Longrightarrow>
   put_all (dstr_append_quiet A) d cs = (E_NONE, d\<lparr>ddata := ddata d @ concat cs\<rparr>)"
  by (induction cs arbitrary: d) (auto simp: dstr_append_fits)

text \<open>An unbounded buffer with a willing allocator never refuses either.\<close>

lemma dstr_append_grows:
  assumes "dstr_ok d" and "\<not> dfixed d"
  shows "\<exists>d'. dstr_append_quiet alloc_ok d t = (E_NONE, d') \<and> ddata d' = ddata d @ t \<and>
    dstr_ok d' \<and> \<not> dfixed d'"
proof -
  have "dstr_append_quiet alloc_ok d t \<noteq> (E_NOMEM, d)"
    by (auto simp: dstr_append_quiet_def do_dstr_append_def dstr_grow_quiet_def Let_def assms(2))
  with assms show ?thesis by (cases rule: dstr_append_cases [OF assms(1), of alloc_ok t]) auto
qed

lemma put_all_grows:
  assumes "dstr_ok d" and "\<not> dfixed d"
  shows "\<exists>d'. put_all (dstr_append_quiet alloc_ok) d cs = (E_NONE, d') \<and>
    ddata d' = ddata d @ concat cs \<and> dstr_ok d' \<and> \<not> dfixed d'"
  using assms
proof (induction cs arbitrary: d)
  case (Cons c cs)
  from dstr_append_grows [OF Cons.prems, of c] obtain d1 where
    d1: "dstr_append_quiet alloc_ok d c = (E_NONE, d1)" "ddata d1 = ddata d @ c"
      "dstr_ok d1" "\<not> dfixed d1" by blast
  with Cons.IH [of d1] show ?case by force
qed simp


section \<open>Comparison\<close>

lemma sint_eq_0 [simp]: "sint (b :: byte) = 0 \<longleftrightarrow> b = 0"
  by (metis sint_0 signed_word_eqI)

lemma sint_eq_iff [simp]: "sint (a :: byte) = sint b \<longleftrightarrow> a = b"
  by (metis signed_word_eqI)

lemma cmp_loop_sym: "cmp_loop f xs ys = - cmp_loop f ys xs"
  by (induction f xs ys rule: cmp_loop.induct) auto

lemma cmp_loop_refl [simp]: "cmp_loop f xs xs = 0"
  by (induction xs) auto

lemma cmp_loop_eq_length: "length xs = length ys \<Longrightarrow> cmp_loop f xs ys = 0 \<longleftrightarrow> map f xs = map f ys"
  by (induction f xs ys rule: cmp_loop.induct) auto

lemma cmp_loop_0_iff:
  "cmp_loop noichar xs ys = 0 \<longleftrightarrow>
   xs = ys \<or> (\<exists>ts. xs = ys @ 0 # ts) \<or> (\<exists>ts. ys = xs @ 0 # ts)"
proof (induction xs arbitrary: ys)
  case Nil
  then show ?case by (cases ys) (auto simp: noichar_def)
next
  case (Cons x xs)
  then show ?case by (cases ys) (auto simp: noichar_def)
qed

lemma do_dstr_eq_map:
  assumes "dstr_ok a" and "dstr_ok b"
  shows "do_dstr_eq a b sens \<longleftrightarrow>
    map (if sens then noichar else ichar) (ddata a) = map (if sens then noichar else ichar) (ddata b)"
proof (cases "dlen a = dlen b")
  case True
  moreover have "ddata a = []" if "dnull a \<or> dnull b"
    using that assms True by (auto simp: dstr_ok_def)
  moreover have "ddata b = []" if "dnull a \<or> dnull b"
    using that assms True by (auto simp: dstr_ok_def)
  ultimately show ?thesis
    by (auto simp: do_dstr_eq_def do_dstr_cmp2_def cmp_loop_eq_length split: if_splits)
next
  case False
  then show ?thesis by (auto simp: do_dstr_eq_def dest: map_eq_imp_length_eq)
qed

lemma dstr_eq_iff: "dstr_ok a \<Longrightarrow> dstr_ok b \<Longrightarrow> dstr_eq a b \<longleftrightarrow> ddata a = ddata b"
  by (simp add: dstr_eq_def do_dstr_eq_map noichar_def map_idI cong: map_cong)

section \<open>Stripping and shifting\<close>

lemma dstr_lstrip_data: "ddata (dstr_lstrip_chars d cs) = dropWhile (\<lambda>c. c \<in> set cs) (ddata d)"
proof (induction d cs rule: dstr_lstrip_chars.induct)
  case (1 d cs)
  show ?case
  proof (cases "ddata d")
    case Nil
    then show ?thesis by (simp add: dstr_lstrip_chars.simps [of d cs])
  next
    case (Cons c rest)
    with 1 show ?thesis
      by (cases "c \<in> set cs") (simp_all add: dstr_lstrip_chars.simps [of d cs] dstr_sub2_data)
  qed
qed

lemma dstr_rstrip_data:
  "ddata (dstr_rstrip_chars d cs) = rev (dropWhile (\<lambda>c. c \<in> set cs) (rev (ddata d)))"
proof (induction d cs rule: dstr_rstrip_chars.induct)
  case (1 d cs)
  show ?case
  proof (cases "ddata d" rule: rev_cases)
    case Nil
    then show ?thesis by (simp add: dstr_rstrip_chars.simps [of d cs])
  next
    case (snoc rest c)
    with 1 show ?thesis
      by (cases "c \<in> set cs") (simp_all add: dstr_rstrip_chars.simps [of d cs])
  qed
qed

lemma dstr_leftshift_data: "ddata (dstr_leftshift d n) = drop n (ddata d)"
  by (auto simp: dstr_leftshift_def Let_def min_def)

section \<open>Properties of the buffer\<close>

text \<open>
  C30. What an append does, in every case.  If the bytes fit, they are added at the end and nothing else changes.
  A fixed-size buffer that is too small is left as it was, with \<open>E_FIXEDSIZE\<close>.  A growable one asks the
  allocator exactly once, for a capacity between the required length and twice that: if the
  allocator grants it, the bytes are added and the capacity is recorded, and only if it refuses, the buffer is
  left as it was, with \<open>E_NOMEM\<close>.  The buffer stays well formed.
\<close>

theorem dstr_append_correct:
  assumes "dstr_ok d"
  shows "(if dlen d + length t \<le> dsize d then dstr_append A d t = (E_NONE, d\<lparr>ddata := ddata d @ t\<rparr>)
    else if dfixed d then dstr_append A d t = (E_FIXEDSIZE, d)
    else (\<exists>n. dlen d + length t \<le> n \<and> n \<le> 2 * (dlen d + length t) \<and>
      dstr_append A d t = (if A n then (E_NONE, d\<lparr>ddata := ddata d @ t, dsize := n, dnull := False\<rparr>) else (E_NOMEM, d)))) \<and>
    dstr_ok (snd (dstr_append A d t))"
proof (rule conjI)
  let ?m = "dlen d + length t" and ?n = "pow2_from (max (dsize d) 2) (dlen d + length t)"
  have n: "?m \<le> ?n" by (rule pow2_from_reaches) simp
  have "?n \<le> 2 * ?m" if "dsize d < ?m"
  proof (cases "max (dsize d) 2 < ?m")
    case True
    then show ?thesis using pow2_from_least [of "max (dsize d) 2" ?m] by simp
  next
    case False
    then have "?n = max (dsize d) 2" by (subst pow2_from.simps) (rule if_not_P, blast)
    moreover have "max (dsize d) 2 \<le> 2 * ?m" using that by (simp add: max_def)
    ultimately show ?thesis by simp
  qed
  then show "if ?m \<le> dsize d then dstr_append A d t = (E_NONE, d\<lparr>ddata := ddata d @ t\<rparr>)
    else if dfixed d then dstr_append A d t = (E_FIXEDSIZE, d)
    else (\<exists>n. ?m \<le> n \<and> n \<le> 2 * ?m \<and>
      dstr_append A d t = (if A n then (E_NONE, d\<lparr>ddata := ddata d @ t, dsize := n, dnull := False\<rparr>) else (E_NOMEM, d)))"
    using n by (auto simp: dstr_append_quiet_def do_dstr_append_def dstr_grow_quiet_def Let_def intro!: exI [of _ ?n])
  show "dstr_ok (snd (dstr_append A d t))" by (cases rule: dstr_append_cases [OF assms, of A t]) (auto simp: assms)
qed

theorem dstr_append_correct_witness:
  "dstr_append alloc_ok (dstr_var 2) [1, 2, 3] = (E_FIXEDSIZE, dstr_var 2) \<and> dstr_ok (snd (dstr_append alloc_ok (dstr_var 2) [1, 2, 3]))"
  using dstr_append_correct [of "dstr_var 2" "[1, 2, 3]" alloc_ok] by (simp add: dstr_var_def dstr_ok_def)

text \<open>
  The capacity a growing buffer asks for reaches the requested minimum and stays below
  twice that minimum, so for requests of at most \<open>2^63\<close> bytes the doubling loop stops
  before a 64-bit \<open>size_t\<close> wraps around; started at a power of two it stays one.
\<close>

theorem pow2_from_bound:
  assumes "n = 2 ^ k" and "n < m" and "m \<le> 2 ^ 63"
  shows "m \<le> pow2_from n m \<and> pow2_from n m < 2 ^ 64 \<and> (\<exists>j. pow2_from n m = 2 ^ j)"
proof -
  have "pow2_from n m < 2 * m" using assms(2) by (rule pow2_from_least)
  moreover have "(2::nat) ^ 64 = 2 * 2 ^ 63" by simp
  ultimately have "pow2_from n m < 2 ^ 64" using assms(3) by linarith
  moreover have "m \<le> pow2_from n m" using assms(1) by (intro pow2_from_reaches) simp
  ultimately show ?thesis using pow2_from_pow2 [of k m] assms(1) by simp
qed

theorem pow2_from_bound_witness:
  "10 \<le> pow2_from 2 10 \<and> pow2_from 2 10 < 2 ^ 64 \<and> (\<exists>j. pow2_from 2 10 = 2 ^ j)"
  using pow2_from_bound [of 2 1 10] by simp

text \<open>
  C32. \<open>dstr_cmp\<close> reports two non-NULL strings as equal exactly when they are the same
  string or the longer one continues the shorter one with a NUL byte; \<open>dstr_eq\<close>, which
  compares lengths first, is exact equality of contents.
\<close>

theorem dstr_cmp_zero_iff:
  assumes "dstr_ok a" and "dstr_ok b" and "\<not> dnull a" and "\<not> dnull b"
  shows "(dstr_cmp a b = 0 \<longleftrightarrow> ddata a = ddata b \<or> (\<exists>ts. ddata a = ddata b @ 0 # ts) \<or>
            (\<exists>ts. ddata b = ddata a @ 0 # ts))
       \<and> (dstr_eq a b \<longleftrightarrow> ddata a = ddata b) \<and> dstr_cmp a b = - dstr_cmp b a"
proof (intro conjI)
  show "dstr_cmp a b = 0 \<longleftrightarrow> ddata a = ddata b \<or> (\<exists>ts. ddata a = ddata b @ 0 # ts) \<or>
            (\<exists>ts. ddata b = ddata a @ 0 # ts)"
    using assms(3,4) by (auto simp: dstr_cmp_def do_dstr_cmp2_def cmp_loop_0_iff)
  show "dstr_eq a b \<longleftrightarrow> ddata a = ddata b"
    using assms(1,2) by (rule dstr_eq_iff)
  show "dstr_cmp a b = - dstr_cmp b a"
    using assms(3,4) cmp_loop_sym [of noichar "ddata a" "ddata b"]
    by (simp add: dstr_cmp_def do_dstr_cmp2_def)
qed

theorem dstr_cmp_zero_iff_witness:
  "dstr_cmp (dstr_wrap [97] False) (dstr_wrap [97, 0, 98] False) = 0 \<and>
   \<not> dstr_eq (dstr_wrap [97] False) (dstr_wrap [97, 0, 98] False)"
  using dstr_cmp_zero_iff [of "dstr_wrap [97] False" "dstr_wrap [97, 0, 98] False"]
  by (auto simp: dstr_wrap_def dstr_ok_def)

text \<open>
  Appending through the zeroizing path (\<open>dstr_append0_quiet\<close>) to a growable buffer that
  is too small reports success and stores the bytes, but leaves \<open>size\<close> as it was: the
  length then exceeds the recorded capacity, and \<open>dstr_zeroize\<close>, which clears \<open>size\<close> bytes,
  leaves every byte past the old capacity in place.
\<close>

theorem dstr_append0_loses_size:
  assumes "dstr_ok d" and "\<not> dfixed d" and "dsize d < dlen d + length t"
    and "A (pow2_from (max (dsize d) 2) (dlen d + length t))"
  shows "\<exists>d'. dstr_append0_quiet A d t = (E_NONE, d') \<and> ddata d' = ddata d @ t \<and>
    dsize d' = dsize d \<and> \<not> dstr_ok d' \<and>
    drop (dsize d) (ddata (dstr_zeroize d')) = drop (dsize d) (ddata d @ t)"
  using assms
  by (auto simp: dstr_append0_quiet_def do_dstr_append_def dstr_grow0_quiet_def Let_def
      dstr_ok_def dstr_zeroize_def)

theorem dstr_append0_loses_size_witness:
  "\<exists>d'. dstr_append0_quiet alloc_ok zero_dstr [7, 8] = (E_NONE, d') \<and> dsize d' = 0 \<and>
     ddata (dstr_zeroize d') = [7, 8]"
  using dstr_append0_loses_size [of zero_dstr "[7, 8]" alloc_ok]
  by (auto simp: zero_dstr_def dstr_ok_def)

text \<open>
  \<open>dstr_strip_chars\<close> removes exactly the longest prefix and the longest suffix made of
  the given characters, and \<open>dstr_leftshift\<close> drops exactly the given number of leading
  bytes (all of them when there are fewer).
\<close>

theorem dstr_strip_correct:
  "ddata (dstr_strip_chars d cs) =
     dropWhile (\<lambda>c. c \<in> set cs) (rev (dropWhile (\<lambda>c. c \<in> set cs) (rev (ddata d)))) \<and>
   ddata (dstr_leftshift d n) = drop n (ddata d)"
  by (simp add: dstr_strip_chars_def dstr_lstrip_data dstr_rstrip_data dstr_leftshift_data)

end
