(* ===== verification/Dstr_Search.thy ===== *)
theory Dstr_Search
  imports Dstr "HOL-Library.Sublist"
begin

text \<open>
  Searching, counting, recoding and splitting of \<open>libdstr/common.c\<close>.  A position is an
  offset into the text.  The loops of \<open>do_dstr_recode\<close>, \<open>do_dstr_count2\<close> and \<open>do_dstr_split\<close> never
  advance past an empty pattern: what stops them is a full output of fixed size, and otherwise nothing
  does.  They take fuel, the entry points give more than the iterations a non-empty pattern or a full
  output allows, and \<open>None\<close> is "does not return".  \<open>do_dstr_split2\<close> always returns, because every iteration
  fills one of its \<open>nouts\<close> outputs.

  A token of a split is a pair of offset and length: in C it is a \<open>dstr_t\<close> that points into
  the text, and the soft variants extend the last token by assigning its length.
\<close>

section \<open>Finding patterns\<close>

datatype match_res = Match | Partial nat | NoMatch

fun match_pat :: "byte list \<Rightarrow> byte list \<Rightarrow> nat \<Rightarrow> match_res" where
  "match_pat s [] j = Match"
| "match_pat [] (p # ps) j = Partial j"
| "match_pat (c # s) (p # ps) j = (if c \<noteq> p then NoMatch else match_pat s ps (Suc j))"

fun find_at :: "byte list \<Rightarrow> byte list list \<Rightarrow> nat \<Rightarrow> nat \<Rightarrow> nat + nat" where
  "find_at s [] p max_partial = Inl max_partial"
| "find_at s (pat # pats) p max_partial =
     (case match_pat s pat 0 of
        Match \<Rightarrow> Inr p
      | Partial j \<Rightarrow> find_at s pats (Suc p) (max max_partial j)
      | NoMatch \<Rightarrow> find_at s pats (Suc p) max_partial)"

fun find_from :: "byte list \<Rightarrow> nat \<Rightarrow> byte list list \<Rightarrow> nat \<Rightarrow> nat option \<times> nat \<times> nat" where
  "find_from [] i pats max_partial = (None, 0, max_partial)"
| "find_from (c # s) i pats max_partial =
     (case find_at (c # s) pats 0 max_partial of
        Inr p \<Rightarrow> (Some i, p, 0)
      | Inl m \<Rightarrow> find_from s (Suc i) pats m)"

definition dstr_find :: "dstr \<Rightarrow> byte list list \<Rightarrow> nat option \<times> nat \<times> nat" where
  "dstr_find text patterns = find_from (ddata text) 0 patterns 0"

section \<open>Recoding\<close>

fun recode_loop ::
  "nat \<Rightarrow> allocator \<Rightarrow> dstr \<Rightarrow> byte list list \<Rightarrow> byte list list \<Rightarrow> bool \<Rightarrow> nat option \<Rightarrow> nat \<Rightarrow> dstr \<Rightarrow>
   (derr_type \<times> dstr \<times> bool \<times> nat) option" where
  "recode_loop 0 A inp search replace force_end stop cpy_from out = None"
| "recode_loop (Suc fuel) A inp search replace force_end stop cpy_from out =
     (if \<not> cpy_from < dlen inp then Some (E_NONE, out, False, cpy_from)
      else let sub = dstr_sub inp cpy_from 0;
               (position, which, partial0) = dstr_find sub search;
               partial = (if force_end then 0 else partial0)
        in case position of
          None \<Rightarrow>
            let cpy_until = dlen inp - partial in
            Some (ifok (if cpy_until > cpy_from
                        then dstr_append A out (ddata (dstr_sub inp cpy_from cpy_until))
                        else (E_NONE, out))
                    (\<lambda>out'. (E_NONE, out', False, cpy_until)) (\<lambda>out'. (out', False, 0)))
        | Some q \<Rightarrow>
            let cpy_until = cpy_from + q in
            if \<not> which < length replace then None
            else (case (if cpy_until > cpy_from
                        then dstr_append A out (ddata (dstr_sub inp cpy_from cpy_until))
                        else (E_NONE, out)) of
              (e1, out1) \<Rightarrow>
                if e1 \<noteq> E_NONE then Some (e1, out1, False, 0)
                else (case dstr_append A out1 (replace ! which) of
                  (e2, out2) \<Rightarrow>
                    if e2 \<noteq> E_NONE then Some (e2, out2, False, 0)
                    else let cpy_from' = cpy_until + length (search ! which) in
                      if stop = Some which then Some (E_NONE, out2, True, cpy_from')
                      else recode_loop fuel A inp search replace force_end stop cpy_from' out2)))"

definition do_dstr_recode ::
  "allocator \<Rightarrow> dstr \<Rightarrow> dstr \<Rightarrow> byte list list \<Rightarrow> byte list list \<Rightarrow> bool \<Rightarrow> nat option \<Rightarrow>
   (derr_type \<times> dstr \<times> bool \<times> nat) option" where
  "do_dstr_recode A inp out search replace force_end stop =
     recode_loop (dlen inp + 1 + dsize out) A inp search replace force_end stop 0 out"

definition dstr_recode_stream ::
  "allocator \<Rightarrow> dstr \<Rightarrow> dstr \<Rightarrow> byte list list \<Rightarrow> byte list list \<Rightarrow> bool \<Rightarrow> nat option \<Rightarrow>
   (derr_type \<times> dstr \<times> dstr \<times> bool) option" where
  "dstr_recode_stream A inp out search replace force_end stop =
     (case do_dstr_recode A inp out search replace force_end stop of
        None \<Rightarrow> None
      | Some (e, out', found, consumed) \<Rightarrow>
          if e \<noteq> E_NONE then Some (e, inp, out', found)
          else Some (E_NONE, dstr_leftshift inp consumed, out', found))"

definition dstr_recode ::
  "allocator \<Rightarrow> dstr \<Rightarrow> dstr \<Rightarrow> byte list list \<Rightarrow> byte list list \<Rightarrow> bool \<Rightarrow> (derr_type \<times> dstr) option" where
  "dstr_recode A inp out search replace app =
     (case do_dstr_recode A inp (if \<not> app then out\<lparr>ddata := []\<rparr> else out) search replace True None of
        None \<Rightarrow> None
      | Some (e, out', _, _) \<Rightarrow> Some (e, out'))"

section \<open>Counting\<close>

definition pat_at :: "(byte \<Rightarrow> byte) \<Rightarrow> byte list \<Rightarrow> byte list \<Rightarrow> nat \<Rightarrow> bool" where
  "pat_at f text pat i \<longleftrightarrow> map f (take (length pat) (drop i text)) = map f pat"

fun count_loop :: "nat \<Rightarrow> (byte \<Rightarrow> byte) \<Rightarrow> byte list \<Rightarrow> byte list \<Rightarrow> bool \<Rightarrow> nat \<Rightarrow> nat \<Rightarrow> nat option" where
  "count_loop 0 f text pat exitfirst i count = None"
| "count_loop (Suc fuel) f text pat exitfirst i count =
     (if i + length pat \<le> length text then
        if pat_at f text pat i then
          if exitfirst then Some 1
          else count_loop fuel f text pat exitfirst (i + length pat) (count + 1)
        else count_loop fuel f text pat exitfirst (i + 1) count
      else Some count)"

definition do_dstr_count2 :: "dstr \<Rightarrow> dstr \<Rightarrow> bool \<Rightarrow> bool \<Rightarrow> nat option" where
  "do_dstr_count2 text pat sensitive exitfirst =
     count_loop (dlen text + 2) (if sensitive then noichar else ichar) (ddata text) (ddata pat)
       exitfirst 0 0"

definition dstr_count2 :: "dstr \<Rightarrow> dstr \<Rightarrow> nat option" where
  "dstr_count2 text pat = do_dstr_count2 text pat True False"

definition dstr_icount2 :: "dstr \<Rightarrow> dstr \<Rightarrow> nat option" where
  "dstr_icount2 text pat = do_dstr_count2 text pat False False"

definition dstr_contains :: "dstr \<Rightarrow> dstr \<Rightarrow> bool option" where
  "dstr_contains text pat = map_option (\<lambda>n. n \<noteq> 0) (do_dstr_count2 text pat True True)"

definition dstr_icontains :: "dstr \<Rightarrow> dstr \<Rightarrow> bool option" where
  "dstr_icontains text pat = map_option (\<lambda>n. n \<noteq> 0) (do_dstr_count2 text pat False True)"

definition do_beginswith :: "dstr \<Rightarrow> dstr \<Rightarrow> bool \<Rightarrow> bool" where
  "do_beginswith str pat sensitive =
     (let sub = dstr_sub2 str 0 (dlen pat) in
      if sensitive then dstr_eq pat sub else dstr_ieq pat sub)"

definition do_endswith :: "dstr \<Rightarrow> dstr \<Rightarrow> bool \<Rightarrow> bool" where
  "do_endswith str pat sensitive =
     (let sub = dstr_sub2 str (dlen str - min (dlen str) (dlen pat)) (dlen str) in
      if sensitive then dstr_eq pat sub else dstr_ieq pat sub)"

section \<open>Splitting\<close>

type_synonym token = "nat \<times> nat"

definition tok_view :: "byte list \<Rightarrow> token \<Rightarrow> byte list" where
  "tok_view text t = take (snd t) (drop (fst t) text)"

text \<open>\<open>sizeof(dstr_t)\<close> on the 64-bit targets.\<close>

abbreviation dstr_esz :: nat where
  "dstr_esz \<equiv> 32"

fun extend_last :: "nat \<Rightarrow> token list \<Rightarrow> token list" where
  "extend_last n [] = []"
| "extend_last n [(s, l)] = [(s, n - s)]"
| "extend_last n (t # ts) = t # extend_last n ts"

fun split_loop ::
  "nat \<Rightarrow> allocator \<Rightarrow> dstr \<Rightarrow> byte list \<Rightarrow> bool \<Rightarrow> nat \<Rightarrow> token lst \<Rightarrow> (derr_type \<times> token lst) option" where
  "split_loop 0 A text pattern soft word_start out = None"
| "split_loop (Suc fuel) A text pattern soft word_start out =
     (let sub = dstr_sub text word_start (dlen text);
          position = fst (dstr_find sub [pattern]);
          word_end = (case position of Some q \<Rightarrow> min (dlen text) word_start + q | None \<Rightarrow> dlen text);
          so = min (dlen text) word_start;
          new = (if word_end = 0 then (0, 0) else (so, dlen (dstr_sub text word_start word_end)))
      in case list_append A dstr_esz out new of
        (e, out') \<Rightarrow>
          if e \<noteq> E_NONE then
            if soft \<and> e = E_FIXEDSIZE
            then Some (E_NONE, out'\<lparr>lst_data := extend_last (dlen text) (lst_data out')\<rparr>)
            else Some (e, out')
          else if position = None then Some (E_NONE, out')
          else split_loop fuel A text pattern soft (word_end + length pattern) out')"

definition do_dstr_split ::
  "allocator \<Rightarrow> dstr \<Rightarrow> byte list \<Rightarrow> token lst \<Rightarrow> bool \<Rightarrow> (derr_type \<times> token lst) option" where
  "do_dstr_split A text pattern out soft =
     split_loop (dlen text + 2 + lst_size out div dstr_esz) A text pattern soft 0 (out\<lparr>lst_data := []\<rparr>)"

definition dstr_split ::
  "allocator \<Rightarrow> dstr \<Rightarrow> byte list \<Rightarrow> token lst \<Rightarrow> (derr_type \<times> token lst) option" where
  "dstr_split A text pattern out = do_dstr_split A text pattern out False"

definition dstr_split_soft ::
  "allocator \<Rightarrow> dstr \<Rightarrow> byte list \<Rightarrow> token lst \<Rightarrow> (derr_type \<times> token lst) option" where
  "dstr_split_soft A text pattern out = do_dstr_split A text pattern out True"

text \<open>
  \<open>do_dstr_split2\<close> fills \<open>nouts\<close> output strings; the result lists the ones that were
  assigned, the rest stay zeroized.  The reported length is 0 on every error.
\<close>

fun split2_loop ::
  "nat \<Rightarrow> dstr \<Rightarrow> byte list \<Rightarrow> nat \<Rightarrow> bool \<Rightarrow> nat \<Rightarrow> token list \<Rightarrow> (derr_type \<times> nat \<times> token list) option" where
  "split2_loop 0 text pattern nouts soft word_start toks = None"
| "split2_loop (Suc fuel) text pattern nouts soft word_start toks =
     (let sub = dstr_sub2 text word_start (dlen text);
          position = fst (dstr_find sub [pattern]);
          word_end = (case position of Some q \<Rightarrow> min (dlen text) word_start + q | None \<Rightarrow> dlen text);
          new = (min (dlen text) word_start, dlen (dstr_sub2 text word_start word_end))
      in if length toks = nouts then
           if soft then Some (E_NONE, length toks, extend_last (dlen text) toks)
           else Some (E_FIXEDSIZE, 0, toks)
         else if position = None then Some (E_NONE, length toks + 1, toks @ [new])
         else split2_loop fuel text pattern nouts soft (word_end + length pattern) (toks @ [new]))"

definition do_dstr_split2 ::
  "dstr \<Rightarrow> byte list \<Rightarrow> nat \<Rightarrow> bool \<Rightarrow> (derr_type \<times> nat \<times> token list) option" where
  "do_dstr_split2 text pattern nouts soft =
     (if nouts < 1 then Some (E_FIXEDSIZE, 0, [])
      else split2_loop (nouts + 1) text pattern nouts soft 0 [])"

definition dstr_split2 :: "dstr \<Rightarrow> byte list \<Rightarrow> nat \<Rightarrow> (derr_type \<times> nat \<times> token list) option" where
  "dstr_split2 text pattern nouts = do_dstr_split2 text pattern nouts False"

definition dstr_split2_soft :: "dstr \<Rightarrow> byte list \<Rightarrow> nat \<Rightarrow> (nat \<times> token list) option" where
  "dstr_split2_soft text pattern nouts = map_option snd (do_dstr_split2 text pattern nouts True)"


section \<open>Reference definitions\<close>

text \<open>First occurrence of a pattern, splitting at every occurrence, and joining again.\<close>

fun find_sub :: "byte list \<Rightarrow> byte list \<Rightarrow> nat option" where
  "find_sub p [] = None"
| "find_sub p (c # s) = (if prefix p (c # s) then Some 0 else map_option Suc (find_sub p s))"

lemma find_sub_SomeD:
  "find_sub p s = Some q \<Longrightarrow> s = take q s @ p @ drop (q + length p) s \<and> q + length p \<le> length s"
proof (induction p s arbitrary: q rule: find_sub.induct)
  case (2 p c s)
  show ?case
  proof (cases "prefix p (c # s)")
    case True
    with 2 show ?thesis using prefix_length_le [OF True] by (auto simp: prefix_def)
  next
    case False
    with "2.prems" obtain q' where q': "q = Suc q'" "find_sub p s = Some q'" by auto
    with 2 False have "s = take q' s @ p @ drop (q' + length p) s \<and> q' + length p \<le> length s"
      by simp
    with q' show ?thesis by simp
  qed
qed simp

lemma find_sub_None: "p \<noteq> [] \<Longrightarrow> find_sub p s = None \<longleftrightarrow> \<not> sublist p s"
  by (induction p s rule: find_sub.induct) (auto simp: sublist_Cons_right)

lemma find_sub_least:
  "find_sub p s = Some q \<Longrightarrow> prefix p (drop q s) \<and> (\<forall>j<q. \<not> prefix p (drop j s))"
proof (induction p s arbitrary: q rule: find_sub.induct)
  case (2 p c s)
  then show ?case by (cases "prefix p (c # s)") (auto simp: less_Suc_eq_0_disj)
qed simp

function split_ref :: "byte list \<Rightarrow> byte list \<Rightarrow> byte list list" where
  "split_ref p s =
     (case find_sub p s of
        None \<Rightarrow> [s]
      | Some q \<Rightarrow> if p = [] then [s] else take q s # split_ref p (drop (q + length p) s))"
  by pat_completeness auto
termination
proof (relation "measure (\<lambda>(p, s). length s)")
  fix p s :: "byte list" and q
  assume "find_sub p s = Some q" and "p \<noteq> []"
  then have "q + length p \<le> length s" and "0 < length p"
    using find_sub_SomeD by auto
  then have "length (drop (q + length p) s) < length s"
    by (cases s) auto
  then show "((p, drop (q + length p) s), p, s) \<in> measure (\<lambda>(p, s). length s)" by simp
qed simp

declare split_ref.simps [simp del]

fun join :: "byte list \<Rightarrow> byte list list \<Rightarrow> byte list" where
  "join p [] = []"
| "join p [w] = w"
| "join p (w # ws) = w @ p @ join p ws"

lemma join_Cons: "ws \<noteq> [] \<Longrightarrow> join p (w # ws) = w @ p @ join p ws"
  by (cases ws) auto

lemma split_ref_nonempty: "split_ref p s \<noteq> []"
  by (subst split_ref.simps) (auto split: option.splits)

lemma join_split_ref: "join p (split_ref p s) = s"
proof (induction p s rule: split_ref.induct)
  case (1 p s)
  show ?case
  proof (cases "p = [] \<or> find_sub p s = None")
    case True
    then show ?thesis by (subst split_ref.simps) (auto split: option.splits)
  next
    case False
    then obtain q where q: "find_sub p s = Some q" "p \<noteq> []" by auto
    with 1 have "join p (split_ref p (drop (q + length p) s)) = drop (q + length p) s" by simp
    with q find_sub_SomeD [OF q(1)] show ?thesis
      by (subst split_ref.simps) (simp add: join_Cons split_ref_nonempty)
  qed
qed

text \<open>With a one-byte separator, joining fields free of it and splitting gives the fields back.\<close>

lemma find_sub_sep_None: "c \<notin> set s \<Longrightarrow> find_sub [c] s = None"
  by (induction s) auto

lemma find_sub_sep_app: "c \<notin> set w \<Longrightarrow> find_sub [c] (w @ c # s) = Some (length w)"
  by (induction w) auto

lemma split_ref_join:
  "ws \<noteq> [] \<Longrightarrow> \<forall>w\<in>set ws. c \<notin> set w \<Longrightarrow> split_ref [c] (join [c] ws) = ws"
proof (induction ws)
  case (Cons w ws)
  show ?case
  proof (cases ws)
    case Nil
    with Cons.prems show ?thesis by (simp add: split_ref.simps [of "[c]" w] find_sub_sep_None)
  next
    case (Cons w' ws')
    with Cons.IH Cons.prems have "split_ref [c] (join [c] ws) = ws" by simp
    with Cons Cons.prems show ?thesis
      by (simp add: split_ref.simps [of "[c]" "w @ c # join [c] (w' # ws')"] find_sub_sep_app join_Cons)
  qed
qed simp

section \<open>The search loop\<close>

lemma match_pat_Match: "match_pat s p j = Match \<longleftrightarrow> prefix p s"
  by (induction s p j rule: match_pat.induct) auto

lemma find_from_single: "fst (find_from s i [p] m) = map_option ((+) i) (find_sub p s)"
proof (induction s arbitrary: i m)
  case (Cons c s)
  show ?case
  proof (cases "match_pat (c # s) p 0")
    case Match
    then have "prefix p (c # s)" by (simp add: match_pat_Match)
    with Match show ?thesis by simp
  next
    case (Partial j)
    then have "\<not> prefix p (c # s)" using match_pat_Match [of "c # s" p 0] by simp
    with Partial Cons show ?thesis by (simp add: option.map_comp comp_def)
  next
    case NoMatch
    then have "\<not> prefix p (c # s)" using match_pat_Match [of "c # s" p 0] by simp
    with NoMatch Cons show ?thesis by (simp add: option.map_comp comp_def)
  qed
qed simp

lemma dstr_find_single: "fst (dstr_find d [p]) = find_sub p (ddata d)"
  by (cases "find_sub p (ddata d)") (simp_all add: dstr_find_def find_from_single)

section \<open>The splitting loops against the reference\<close>

text \<open>Where the words of the reference lie in the text.\<close>

fun layout :: "nat \<Rightarrow> nat \<Rightarrow> byte list list \<Rightarrow> token list" where
  "layout pl s [] = []"
| "layout pl s (w # ws) = (s, length w) # layout pl (s + length w + pl) ws"

lemma length_layout [simp]: "length (layout pl s ws) = length ws"
  by (induction ws arbitrary: s) auto

lemma layout_eq_Nil [simp]: "layout pl s ws = [] \<longleftrightarrow> ws = []"
  by (cases ws) auto

lemma view_layout: "drop s text = join p ws \<Longrightarrow> map (tok_view text) (layout (length p) s ws) = ws"
proof (induction ws arbitrary: s)
  case (Cons w ws)
  show ?case
  proof (cases "ws = []")
    case True
    with Cons.prems show ?thesis by (simp add: tok_view_def)
  next
    case False
    with Cons.prems have eq: "drop s text = w @ p @ join p ws" by (simp add: join_Cons)
    then have "drop (s + length w + length p) text = join p ws"
      by (metis add.assoc add.commute append.assoc append_eq_conv_conj drop_drop length_append)
    with Cons.IH eq show ?thesis by (simp add: tok_view_def)
  qed
qed simp

lemma split2_loop_eq:
  assumes "p \<noteq> []" and "ws \<le> dlen text" and "nouts - length toks < fuel" and "length toks \<le> nouts"
  shows "split2_loop fuel text p nouts soft ws toks =
    (let rest = layout (length p) ws (split_ref p (drop ws (ddata text))); all = toks @ rest in
     if length all \<le> nouts then Some (E_NONE, length all, all)
     else if soft then Some (E_NONE, nouts, extend_last (dlen text) (take nouts all))
     else Some (E_FIXEDSIZE, 0, take nouts all))"
  using assms
proof (induction fuel arbitrary: ws toks)
  case (Suc fuel)
  let ?s = "drop ws (ddata text)"
  have pos: "fst (dstr_find (dstr_sub2 text ws (dlen text)) [p]) = find_sub p ?s"
    by (simp add: dstr_find_single dstr_sub2_data)
  show ?case
  proof (cases "length toks = nouts")
    case True
    moreover have "split_ref p ?s \<noteq> []" by (rule split_ref_nonempty)
    ultimately show ?thesis by (simp add: pos Let_def)
  next
    case False
    show ?thesis
    proof (cases "find_sub p ?s")
      case None
      then have "split_ref p ?s = [?s]" by (subst split_ref.simps) simp
      with False None Suc.prems show ?thesis
        by (simp add: pos Let_def dstr_sub2_data)
    next
      case (Some q)
      from find_sub_SomeD [OF Some] have q: "q + length p \<le> dlen text - ws" by simp
      have "split_ref p ?s = take q ?s # split_ref p (drop (ws + q + length p) (ddata text))"
        using Suc.prems(1) Some by (subst split_ref.simps) (simp add: add.commute add.left_commute)
      moreover have "dlen (dstr_sub2 text ws (ws + q)) = q" using q by (simp add: dstr_sub2_data)
      moreover have "ws + q + length p \<le> dlen text" "nouts - length (toks @ [(ws, q)]) < fuel"
        using q False Suc.prems(2,3,4) by auto
      note IH = Suc.IH [OF Suc.prems(1) this]
      ultimately show ?thesis
        using Some False q Suc.prems(2,4) IH by (simp add: pos Let_def min_absorb2 Suc_le_eq)
    qed
  qed
qed simp

lemma do_dstr_split2_eq:
  assumes "p \<noteq> []" and "1 \<le> nouts"
  shows "do_dstr_split2 text p nouts soft =
    (let all = layout (length p) 0 (split_ref p (ddata text)) in
     if length all \<le> nouts then Some (E_NONE, length all, all)
     else if soft then Some (E_NONE, nouts, extend_last (dlen text) (take nouts all))
     else Some (E_FIXEDSIZE, 0, take nouts all))"
  using assms split2_loop_eq [of p 0 "text" nouts "[]" "nouts + 1" soft]
  by (simp add: do_dstr_split2_def Let_def del: split2_loop.simps)

text \<open>What the parsers use: a text that is a join of fields splits into those fields.\<close>

lemma split2_fields:
  assumes "fs \<noteq> []" and "\<forall>f\<in>set fs. c \<notin> set f" and "length fs \<le> nouts"
    and "ddata text = join [c] fs"
  shows "\<exists>toks. do_dstr_split2 text [c] nouts soft = Some (E_NONE, length fs, toks) \<and>
    map (tok_view (ddata text)) toks = fs"
proof -
  have ref: "split_ref [c] (ddata text) = fs"
    using assms by (simp add: split_ref_join)
  have "1 \<le> nouts" using assms(1,3) by (cases fs) auto
  with ref assms(3) have "do_dstr_split2 text [c] nouts soft = Some (E_NONE, length fs, layout 1 0 fs)"
    by (simp add: do_dstr_split2_eq Let_def)
  moreover have "map (tok_view (ddata text)) (layout (length [c]) 0 fs) = fs"
    by (rule view_layout) (simp add: assms(4))
  ultimately show ?thesis by simp
qed


text \<open>Splitting into a fixed-size \<open>LIST(dstr_t)\<close> is the same loop.\<close>

lemma dstr_sub_to_len: "ddata (dstr_sub d ws (dlen d)) = drop ws (ddata d)"
  by (cases "dlen d = 0") (simp_all add: dstr_sub_data0 dstr_sub_data)

lemma list_append_fixed:
  "length ts \<le> n \<Longrightarrow>
   list_append A dstr_esz \<lparr>lst_data = ts, lst_size = n * dstr_esz, lst_fixed = True\<rparr> t =
   (if length ts = n then (E_FIXEDSIZE, \<lparr>lst_data = ts, lst_size = n * dstr_esz, lst_fixed = True\<rparr>)
    else (E_NONE, \<lparr>lst_data = ts @ [t], lst_size = n * dstr_esz, lst_fixed = True\<rparr>))"
  by (auto simp: list_append_def list_grow_def Let_def)

lemma split_loop_fixed:
  assumes "length toks \<le> n" and "ws \<le> dlen text"
  shows "split_loop fuel A text p soft ws \<lparr>lst_data = toks, lst_size = n * dstr_esz, lst_fixed = True\<rparr> =
    map_option (\<lambda>(e, _, ts). (e, \<lparr>lst_data = ts, lst_size = n * dstr_esz, lst_fixed = True\<rparr>))
      (split2_loop fuel text p n soft ws toks)"
  using assms
proof (induction fuel arbitrary: ws toks)
  case (Suc fuel)
  let ?pos = "find_sub p (drop ws (ddata text))"
  let ?we = "case ?pos of Some q \<Rightarrow> ws + q | None \<Rightarrow> dlen text"
  have pos: "fst (dstr_find (dstr_sub text ws (dlen text)) [p]) = ?pos"
    "fst (dstr_find (dstr_sub2 text ws (dlen text)) [p]) = ?pos"
    by (simp_all add: dstr_find_single dstr_sub_to_len dstr_sub2_data)
  have new: "(if ?we = 0 then (0, 0) else (ws, dlen (dstr_sub text ws ?we))) =
    (ws, dlen (dstr_sub2 text ws ?we))"
    using Suc.prems(2) by (auto simp: dstr_sub_data dstr_sub2_data split: option.splits)
  have "ws + q + length p \<le> dlen text" if "?pos = Some q" for q
    using find_sub_SomeD [OF that] Suc.prems(2) by auto
  then show ?case
    using Suc.prems new
    by (cases ?pos) (auto simp: pos Let_def min_absorb2 list_append_fixed Suc.IH simp del: list_append_def)
qed simp

lemma split2_loop_fuel:
  "nouts - length toks < fuel \<Longrightarrow> length toks \<le> nouts \<Longrightarrow> fuel \<le> fuel' \<Longrightarrow>
    split2_loop fuel' text p nouts soft ws toks = split2_loop fuel text p nouts soft ws toks"
proof (induction fuel arbitrary: fuel' ws toks)
  case (Suc fuel)
  obtain f where f: "fuel' = Suc f" "fuel \<le> f" using Suc.prems(3) by (cases fuel') auto
  show ?case
  proof (cases "length toks = nouts")
    case True
    then show ?thesis by (simp add: f(1) Let_def)
  next
    case False
    then have "nouts - length (toks @ [t]) < fuel" "length (toks @ [t]) \<le> nouts" for t using Suc.prems by auto
    from Suc.IH [OF this f(2)] False show ?thesis by (simp add: f(1) Let_def)
  qed
qed simp

lemma do_dstr_split_fixed:
  "do_dstr_split A text p (list_var dstr_esz n) soft =
    (if n = 0 then split_loop (dlen text + 2) A text p soft 0 (list_var dstr_esz 0)
     else map_option (\<lambda>(e, _, ts). (e, \<lparr>lst_data = ts, lst_size = n * dstr_esz, lst_fixed = True\<rparr>))
       (do_dstr_split2 text p n soft))"
proof -
  have "split2_loop (dlen text + 2 + n) text p n soft 0 [] = split2_loop (n + 1) text p n soft 0 []"
    by (rule split2_loop_fuel) simp_all
  then show ?thesis using split_loop_fixed [of "[]" n 0 "text" "dlen text + 2 + n" A p soft]
    by (auto simp: do_dstr_split_def do_dstr_split2_def list_var_def simp del: split_loop.simps split2_loop.simps)
qed

lemma split_fields:
  assumes "fs \<noteq> []" and "\<forall>f\<in>set fs. c \<notin> set f" and "length fs \<le> n"
    and "ddata text = join [c] fs"
  shows "\<exists>l. do_dstr_split A text [c] (list_var dstr_esz n) soft = Some (E_NONE, l) \<and>
    map (tok_view (ddata text)) (lst_data l) = fs"
proof -
  have "n \<noteq> 0" using assms(1,3) by (cases fs) auto
  with split2_fields [OF assms, of soft] show ?thesis by (auto simp: do_dstr_split_fixed)
qed

section \<open>Recoding single bytes\<close>

definition subst_byte :: "byte list \<Rightarrow> byte list list \<Rightarrow> byte \<Rightarrow> byte list" where
  "subst_byte cs reps c = (case map_of (zip cs reps) c of Some r \<Rightarrow> r | None \<Rightarrow> [c])"

abbreviation singles :: "byte list \<Rightarrow> byte list list" where
  "singles cs \<equiv> map (\<lambda>c. [c]) cs"

abbreviation index_of :: "byte list \<Rightarrow> byte \<Rightarrow> nat" where
  "index_of cs c \<equiv> length (takeWhile (\<lambda>x. x \<noteq> c) cs)"

lemma index_of_less: "c \<in> set cs \<Longrightarrow> index_of cs c < length cs \<and> cs ! index_of cs c = c"
  by (induction cs) auto

lemma subst_byte_in:
  "length reps = length cs \<Longrightarrow> c \<in> set cs \<Longrightarrow> subst_byte cs reps c = reps ! index_of cs c"
  by (induction reps cs rule: list_induct2) (auto simp: subst_byte_def)

lemma subst_byte_notin: "c \<notin> set cs \<Longrightarrow> subst_byte cs reps c = [c]"
  by (auto simp: subst_byte_def split: option.splits dest: map_of_SomeD set_zip_leftD)

lemma find_at_singles:
  "find_at (c # s) (singles cs) p m = (if c \<in> set cs then Inr (p + index_of cs c) else Inl m)"
  by (induction cs arbitrary: p) auto

lemma find_from_singles:
  "find_from s i (singles cs) m =
    (case dropWhile (\<lambda>c. c \<notin> set cs) s of
       [] \<Rightarrow> (None, 0, m)
     | c # _ \<Rightarrow> (Some (i + length (takeWhile (\<lambda>c. c \<notin> set cs) s)), index_of cs c, 0))"
proof (induction s arbitrary: i)
  case (Cons c s)
  then show ?case
    using find_at_singles [of c s cs 0 m] by (cases "dropWhile (\<lambda>c. c \<notin> set cs) s") (simp_all del: dropWhile_eq_Nil_conv)
qed simp

lemma concat_subst_notin: "\<forall>c\<in>set s. c \<notin> set cs \<Longrightarrow> concat (map (subst_byte cs reps) s) = s"
  by (induction s) (auto simp: subst_byte_notin)

text \<open>The outcomes of an append, with the success of a growable buffer and a willing allocator.\<close>

lemma append_outcome:
  assumes "dstr_ok out"
  obtains e out' where "dstr_append_quiet A out t = (e, out')" "dstr_ok out'"
    "e = E_NONE \<longrightarrow> ddata out' = ddata out @ t"
    "A = alloc_ok \<and> \<not> dfixed out \<longrightarrow> e = E_NONE" "dfixed out' = dfixed out"
proof -
  obtain e out' where r: "dstr_append_quiet A out t = (e, out')" by force
  have "A = alloc_ok \<and> \<not> dfixed out \<longrightarrow> e = E_NONE"
    using dstr_append_grows [OF assms, of t] r by auto
  moreover have "dstr_ok out' \<and> (e = E_NONE \<longrightarrow> ddata out' = ddata out @ t) \<and> dfixed out' = dfixed out"
    using r assms by (cases rule: dstr_append_cases [OF assms, of A t]) auto
  ultimately show ?thesis using that r by blast
qed

text \<open>The state a recoding has to reach from offset \<open>i\<close>: every later byte substituted.\<close>

definition recoded ::
  "allocator \<Rightarrow> byte list \<Rightarrow> byte list list \<Rightarrow> dstr \<Rightarrow> nat \<Rightarrow> dstr \<Rightarrow> (derr_type \<times> dstr \<times> bool \<times> nat) option \<Rightarrow> bool" where
  "recoded A cs reps inp i out r \<longleftrightarrow>
     (\<exists>e out' n. r = Some (e, out', False, n) \<and> dstr_ok out' \<and> dfixed out' = dfixed out \<and>
        (e = E_NONE \<longrightarrow>
           ddata out' = ddata out @ concat (map (subst_byte cs reps) (drop i (ddata inp))) \<and>
           n = dlen inp) \<and>
        (A = alloc_ok \<and> \<not> dfixed out \<longrightarrow> e = E_NONE))"

lemma append_nil [simp]: "dstr_ok out \<Longrightarrow> dstr_append_quiet A out [] = (E_NONE, out)"
  by (simp add: dstr_append_quiet_def do_dstr_append_def dstr_ok_def)

lemma copy_until:
  "dstr_ok out \<Longrightarrow>
   (if i < i + k then dstr_append A out (ddata (dstr_sub inp i (i + k))) else (E_NONE, out)) =
   dstr_append_quiet A out (take k (drop i (ddata inp)))"
  by (simp add: dstr_sub_data)

lemma recode_loop_singles:
  assumes "length reps = length cs" and "dstr_ok out" and "i \<le> dlen inp" and "dlen inp - i < fuel"
  shows "recoded A cs reps inp i out (recode_loop fuel A inp (singles cs) reps True None i out)"
  using assms(2-4)
proof (induction fuel arbitrary: i out)
  case (Suc fuel)
  define s where "s = drop i (ddata inp)"
  define w where "w = takeWhile (\<lambda>c. c \<notin> set cs) s"
  have w: "take (length w) s = w" "\<forall>c\<in>set w. c \<notin> set cs"
    by (simp_all add: w_def takeWhile_eq_take [symmetric]) (auto dest: set_takeWhileD)
  obtain e1 out1 where app1: "dstr_append_quiet A out w = (e1, out1)" "dstr_ok out1"
    "e1 = E_NONE \<longrightarrow> ddata out1 = ddata out @ w"
    "A = alloc_ok \<and> \<not> dfixed out \<longrightarrow> e1 = E_NONE" "dfixed out1 = dfixed out"
    using append_outcome [OF Suc.prems(1)] by blast
  have copy: "(if i < i + length w then dstr_append A out (ddata (dstr_sub inp i (i + length w)))
    else (E_NONE, out)) = (e1, out1)"
    using copy_until [OF Suc.prems(1), of i "length w" A inp] w(1) app1(1) by (simp add: s_def)
  have find: "dstr_find (dstr_sub inp i 0) (singles cs) =
    (case dropWhile (\<lambda>c. c \<notin> set cs) s of [] \<Rightarrow> (None, 0, 0)
     | c # _ \<Rightarrow> (Some (length w), index_of cs c, 0))"
    by (simp add: dstr_find_def find_from_singles dstr_sub_data0 s_def w_def cong: list.case_cong)
  show ?case
  proof (cases "i < dlen inp"; cases "dropWhile (\<lambda>c. c \<notin> set cs) s")
    assume i: "i < dlen inp" and nil: "dropWhile (\<lambda>c. c \<notin> set cs) s = []"
    then have "w = s" by (simp add: w_def takeWhile_eq_all_conv dropWhile_eq_Nil_conv)
    then have len: "dlen inp = i + length w" using i by (simp add: s_def)
    have "recode_loop (Suc fuel) A inp (singles cs) reps True None i out =
      Some (ifok (e1, out1) (\<lambda>out'. (E_NONE, out', False, dlen inp)) (\<lambda>out'. (out', False, 0)))"
      using i nil copy by (simp add: find Let_def len del: dropWhile_eq_Nil_conv)
    with app1 w \<open>w = s\<close> show ?thesis
      by (cases "e1 = E_NONE") (simp_all add: recoded_def concat_subst_notin s_def)
  next
    fix c rest assume i: "i < dlen inp" and cons: "dropWhile (\<lambda>c. c \<notin> set cs) s = c # rest"
    have c: "c \<in> set cs" using hd_dropWhile [of "\<lambda>c. c \<notin> set cs" s] cons by auto
    have s: "s = w @ c # rest" using cons takeWhile_dropWhile_id [of "\<lambda>c. c \<notin> set cs" s] by (simp add: w_def)
    obtain e2 out2 where app2: "dstr_append_quiet A out1 (reps ! index_of cs c) = (e2, out2)" "dstr_ok out2"
      "e2 = E_NONE \<longrightarrow> ddata out2 = ddata out1 @ reps ! index_of cs c"
      "A = alloc_ok \<and> \<not> dfixed out1 \<longrightarrow> e2 = E_NONE" "dfixed out2 = dfixed out1"
      using append_outcome [OF app1(2)] by blast
    have "length s = length w + Suc (length rest)" by (simp add: s)
    then have len: "Suc (i + length w) \<le> dlen inp" by (simp add: s_def)
    have rest: "drop (Suc (i + length w)) (ddata inp) = rest"
    proof -
      have "drop (Suc (length w)) s = rest" by (simp add: s)
      then show ?thesis by (simp add: s_def add.commute)
    qed
    have loop: "recode_loop (Suc fuel) A inp (singles cs) reps True None i out =
      (if e1 \<noteq> E_NONE then Some (e1, out1, False, 0)
       else if e2 \<noteq> E_NONE then Some (e2, out2, False, 0)
       else recode_loop fuel A inp (singles cs) reps True None (Suc (i + length w)) out2)"
      using i cons copy app2(1) c index_of_less [OF c] assms(1)
      by (simp add: find Let_def nth_append)
    have IH: "recoded A cs reps inp (Suc (i + length w)) out2
      (recode_loop fuel A inp (singles cs) reps True None (Suc (i + length w)) out2)"
      using Suc.prems(3) len by (intro Suc.IH app2(2)) simp_all
    have "concat (map (subst_byte cs reps) s) =
      w @ reps ! index_of cs c @ concat (map (subst_byte cs reps) rest)"
      using w(2) c assms(1) by (simp add: s concat_subst_notin subst_byte_in)
    then show ?thesis
      using IH app1 app2 unfolding loop recoded_def s_def [symmetric] rest
      by (cases "e1 = E_NONE"; cases "e2 = E_NONE") auto
  qed (use Suc.prems in \<open>simp_all add: recoded_def\<close>)
qed simp

lemma dstr_recode_singles:
  assumes "length reps = length cs" and "dstr_ok out"
  shows "\<exists>e out'. dstr_recode A inp out (singles cs) reps True = Some (e, out') \<and> dstr_ok out' \<and>
    dfixed out' = dfixed out \<and>
    (e = E_NONE \<longrightarrow> ddata out' = ddata out @ concat (map (subst_byte cs reps) (ddata inp))) \<and>
    (A = alloc_ok \<and> \<not> dfixed out \<longrightarrow> e = E_NONE)"
  using recode_loop_singles [OF assms, of 0 inp "dlen inp + 1 + dsize out" A]
  by (auto simp: recoded_def dstr_recode_def do_dstr_recode_def)


section \<open>Counting and prefixes\<close>

lemma pat_at_noichar: "pat_at noichar t p i \<longleftrightarrow> prefix p (drop i t)"
  by (auto simp: pat_at_def noichar_def map_idI prefix_def append_eq_conv_conj cong: map_cong)
    (metis append_take_drop_id)

lemma contains_loop:
  assumes "length t - i + 1 < fuel"
  shows "count_loop fuel noichar t p True i 0 =
    Some (if \<exists>j. i \<le> j \<and> j + length p \<le> length t \<and> prefix p (drop j t) then 1 else 0)"
  using assms
proof (induction fuel arbitrary: i)
  case (Suc fuel)
  show ?case
  proof (cases "i + length p \<le> length t \<and> \<not> prefix p (drop i t)")
    case True
    then have "p \<noteq> []" by auto
    then have "0 < length p" by simp
    with True have "i < length t" by linarith
    with Suc.prems have "length t - Suc i + 1 < fuel" by simp
    from Suc.IH [OF this] True show ?thesis
      by (auto simp: pat_at_noichar) (metis Suc_leI le_neq_implies_less)+
  next
    case False
    then show ?thesis using Suc.prems by (auto simp: pat_at_noichar)
  qed
qed simp

lemma sublist_at: "sublist p t \<longleftrightarrow> (\<exists>j. j + length p \<le> length t \<and> prefix p (drop j t))"
proof
  assume "sublist p t"
  then obtain xs ys where "t = xs @ p @ ys" by (auto simp: sublist_def)
  then show "\<exists>j. j + length p \<le> length t \<and> prefix p (drop j t)"
    by (intro exI [of _ "length xs"]) simp
next
  assume "\<exists>j. j + length p \<le> length t \<and> prefix p (drop j t)"
  then obtain j ys where "drop j t = p @ ys" by (auto simp: prefix_def)
  then have "t = take j t @ p @ ys" by (metis append_take_drop_id)
  then show "sublist p t" by (metis sublist_appendI)
qed

section \<open>Searching several patterns\<close>

lemma find_at_Inr:
  "find_at s pats p m = Inr k \<Longrightarrow>
   \<exists>j. k = p + j \<and> j < length pats \<and> prefix (pats ! j) s \<and> (\<forall>l<j. \<not> prefix (pats ! l) s)"
proof (induction s pats p m rule: find_at.induct)
  case (2 s pat pats p m)
  show ?case
  proof (cases "prefix pat s")
    case True
    then have "match_pat s pat 0 = Match" by (simp add: match_pat_Match)
    with "2.prems" True show ?thesis by (intro exI [of _ 0]) auto
  next
    case False
    then have "match_pat s pat 0 \<noteq> Match" by (simp add: match_pat_Match)
    with 2 obtain j where "k = Suc p + j \<and> j < length pats \<and> prefix (pats ! j) s \<and>
      (\<forall>l<j. \<not> prefix (pats ! l) s)" by (auto split: match_res.splits)
    with False show ?thesis by (intro exI [of _ "Suc j"]) (auto simp: less_Suc_eq_0_disj)
  qed
qed simp

lemma find_at_Inl: "find_at s pats p m = Inl m' \<Longrightarrow> \<forall>pat\<in>set pats. \<not> prefix pat s"
proof (induction s pats p m rule: find_at.induct)
  case (2 s pat pats p m)
  then show ?case using match_pat_Match [of s pat 0] by (auto split: match_res.splits)
qed simp

lemma find_from_Some:
  "find_from s i pats m = (Some k, w, pm) \<Longrightarrow>
   \<exists>q. k = i + q \<and> w < length pats \<and> pm = 0 \<and> prefix (pats ! w) (drop q s) \<and>
     (\<forall>l<w. \<not> prefix (pats ! l) (drop q s)) \<and> (\<forall>j<q. \<forall>pat\<in>set pats. \<not> prefix pat (drop j s))"
proof (induction s arbitrary: i m)
  case (Cons c s)
  show ?case
  proof (cases "find_at (c # s) pats 0 m")
    case (Inr p)
    from find_at_Inr [OF Inr] Inr Cons.prems show ?thesis by auto
  next
    case (Inl m')
    with Cons.prems have "find_from s (Suc i) pats m' = (Some k, w, pm)" by simp
    from Cons.IH [OF this] obtain q where q: "k = Suc i + q" "w < length pats" "pm = 0"
      "prefix (pats ! w) (drop q s)" "\<forall>l<w. \<not> prefix (pats ! l) (drop q s)"
      "\<forall>j<q. \<forall>pat\<in>set pats. \<not> prefix pat (drop j s)" by blast
    with find_at_Inl [OF Inl] show ?thesis
      by (intro exI [of _ "Suc q"]) (auto simp: less_Suc_eq_0_disj)
  qed
qed simp

lemma find_from_None:
  "find_from s i pats m = (None, w, pm) \<Longrightarrow> \<forall>j<length s. \<forall>pat\<in>set pats. \<not> prefix pat (drop j s)"
proof (induction s arbitrary: i m)
  case (Cons c s)
  then show ?case
    by (cases "find_at (c # s) pats 0 m") (auto simp: less_Suc_eq_0_disj dest: find_at_Inl)
qed simp

section \<open>Properties\<close>

text \<open>
  C28. \<open>dstr_find\<close> reports the leftmost position at which any of the patterns occurs and,
  among the patterns that occur there, the first of the list; it reports no position
  exactly when no pattern occurs anywhere in the text.
\<close>

theorem dstr_find_correct:
  "case dstr_find text pats of
     (Some q, w, pm) \<Rightarrow> w < length pats \<and> pm = 0 \<and> prefix (pats ! w) (drop q (ddata text)) \<and>
       \<not> (\<exists>l<w. prefix (pats ! l) (drop q (ddata text))) \<and>
       \<not> (\<exists>j<q. \<exists>pat\<in>set pats. prefix pat (drop j (ddata text)))
   | (None, _, _) \<Rightarrow> \<not> (\<exists>j<dlen text. \<exists>pat\<in>set pats. prefix pat (drop j (ddata text)))"
proof -
  obtain r w pm where f: "find_from (ddata text) 0 pats 0 = (r, w, pm)" by (metis prod_cases3)
  then show ?thesis
    by (cases r) (auto simp: dstr_find_def dest!: find_from_Some find_from_None)
qed

lemma extend_last_length: "length (extend_last n ts) = length ts"
  by (induction n ts rule: extend_last.induct) auto

lemma split_ref_words: "p \<noteq> [] \<Longrightarrow> \<forall>w\<in>set (split_ref p s). \<not> sublist p w"
proof (induction p s rule: split_ref.induct)
  case (1 p s)
  show ?case
  proof (cases "find_sub p s")
    case None
    moreover from this have "\<not> sublist p s" using "1.prems" by (simp add: find_sub_None)
    ultimately show ?thesis by (subst split_ref.simps) simp
  next
    case (Some q)
    have "\<not> prefix p (drop j (take q s))" if "j + length p \<le> length (take q s)" for j
    proof
      assume "prefix p (drop j (take q s))"
      then have "prefix p (drop j s)"
        by (auto simp: prefix_def drop_take) (metis append.assoc append_take_drop_id)
      moreover have "0 < length p" using "1.prems" by simp
      with that have "j < q" by (simp only: length_take)
      ultimately show False using find_sub_least [OF Some] by blast
    qed
    then have "\<not> sublist p (take q s)" by (auto simp: sublist_at)
    with Some 1 show ?thesis by (subst split_ref.simps) simp
  qed
qed

lemma layout_extend:
  assumes "drop s text = join p ws" and "0 < n" and "n \<le> length ws" and "s \<le> length text"
  shows "join p (map (tok_view text) (extend_last (length text) (take n (layout (length p) s ws)))) = drop s text"
  using assms
proof (induction ws arbitrary: s n)
  case (Cons w ws)
  show ?case
  proof (cases "n = 1")
    case True
    then show ?thesis by (simp add: tok_view_def)
  next
    case False
    then obtain n' where n: "n = Suc (Suc n')" using Cons.prems(2) by (metis One_nat_def Suc_pred less_numeral_extra(3) not0_implies_Suc)
    with Cons.prems(3) obtain w' ws' where ws: "ws = w' # ws'" by (cases ws) auto
    with Cons.prems have eq: "drop s text = w @ p @ join p ws" by simp
    then have s': "drop (s + length w + length p) text = join p ws"
      by (metis add.assoc add.commute append.assoc append_eq_conv_conj drop_drop length_append)
    have "length (drop s text) = length w + length p + length (join p ws)" by (simp add: eq)
    then have "s + length w + length p \<le> length text" using Cons.prems(4) by simp
    with Cons.IH [OF s', of "Suc n'"] Cons.prems(3) n ws
    have IH: "join p (map (tok_view text) (extend_last (length text)
      (take (Suc n') (layout (length p) (s + length w + length p) ws)))) = join p ws"
      by (simp add: s')
    define ts where "ts = take (Suc n') (layout (length p) (s + length w + length p) ws)"
    then have "extend_last (length text) ((s, length w) # ts) = (s, length w) # extend_last (length text) ts"
      by (cases ts) (simp_all add: ws)
    moreover have "extend_last (length text) ts \<noteq> []"
      using extend_last_length [of "length text" ts] by (auto simp: ts_def ws)
    ultimately show ?thesis
      using IH eq by (simp add: n ts_def [symmetric] join_Cons) (simp add: tok_view_def)
  qed
qed simp

lemma split2_loop_returns:
  "nouts - length toks < fuel \<Longrightarrow> length toks \<le> nouts \<Longrightarrow>
    \<exists>ts. split2_loop fuel text p nouts True ws toks = Some (E_NONE, length ts, ts) \<and> length ts \<le> nouts"
proof (induction fuel arbitrary: ws toks)
  case (Suc fuel)
  show ?case
  proof (cases "length toks = nouts")
    case True
    then show ?thesis by (simp add: Let_def extend_last_length)
  next
    case False
    then have "nouts - length (toks @ [t]) < fuel" "length (toks @ [t]) \<le> nouts" for t using Suc.prems by auto
    from Suc.IH [OF this] False Suc.prems(2) show ?thesis by (auto simp: Let_def)
  qed
qed simp

text \<open>
  C27. A soft split returns for every text and every pattern, the empty one included, and reports as many tokens as
  it has assigned, at most \<open>nouts\<close>.  With a non-empty pattern and room for a token there is at least one, and joining
  the tokens with the pattern gives the text back: the last token takes whatever the earlier ones left.  When
  it used fewer than \<open>nouts\<close> outputs, no token contains the pattern.
\<close>

theorem dstr_split2_soft_join:
  "\<exists>toks. dstr_split2_soft text p nouts = Some (length toks, toks) \<and> length toks \<le> nouts \<and>
    (p \<noteq> [] \<and> 1 \<le> nouts \<longrightarrow> 1 \<le> length toks \<and> join p (map (tok_view (ddata text)) toks) = ddata text \<and>
      (length toks < nouts \<longrightarrow> (\<forall>t\<in>set toks. \<not> sublist p (tok_view (ddata text) t))))"
proof (cases "p \<noteq> [] \<and> 1 \<le> nouts")
  case False
  have "\<exists>toks. dstr_split2_soft text p nouts = Some (length toks, toks) \<and> length toks \<le> nouts"
  proof (cases "nouts < 1")
    case True
    then show ?thesis by (simp add: dstr_split2_soft_def do_dstr_split2_def)
  next
    case n: False
    from split2_loop_returns [of nouts "[]" "nouts + 1" "text" p 0] obtain ts where
      "split2_loop (nouts + 1) text p nouts True 0 [] = Some (E_NONE, length ts, ts)" "length ts \<le> nouts" by auto
    then show ?thesis using n by (simp add: dstr_split2_soft_def do_dstr_split2_def del: split2_loop.simps)
  qed
  then show ?thesis using False by auto
next
  case ok: True
  then have assms: "p \<noteq> []" "1 \<le> nouts" by simp_all
  let ?ws = "split_ref p (ddata text)"
  have ws: "drop 0 (ddata text) = join p ?ws" by (simp add: join_split_ref)
  show ?thesis
  proof (cases "length ?ws \<le> nouts")
    case True
    let ?ts = "layout (length p) 0 ?ws"
    have view: "map (tok_view (ddata text)) ?ts = ?ws" by (rule view_layout [OF ws])
    then have "tok_view (ddata text) ` set ?ts = set ?ws" by (metis list.set_map)
    then have "\<forall>t\<in>set ?ts. \<not> sublist p (tok_view (ddata text) t)"
      using split_ref_words [OF assms(1), of "ddata text"] by blast
    with True assms view split_ref_nonempty [of p "ddata text"] show ?thesis
      by (simp add: dstr_split2_soft_def do_dstr_split2_eq Let_def join_split_ref Suc_le_eq)
  next
    case False
    from False assms layout_extend [OF ws, of nouts] show ?thesis
      by (simp add: dstr_split2_soft_def do_dstr_split2_eq Let_def extend_last_length min_absorb2)
  qed
qed

theorem dstr_split2_soft_join_witness:
  "\<exists>toks. dstr_split2_soft (dstr_wrap (lit ''a.b.c'') False) (lit ''.'') 2 = Some (length toks, toks) \<and>
    length toks \<le> 2 \<and> join (lit ''.'') (map (tok_view (lit ''a.b.c'')) toks) = lit ''a.b.c''"
proof -
  have "ddata (dstr_wrap (lit ''a.b.c'') False) = lit ''a.b.c''" by (simp add: dstr_wrap_def)
  moreover have "lit ''.'' \<noteq> []" by simp
  ultimately show ?thesis
    using dstr_split2_soft_join [of "dstr_wrap (lit ''a.b.c'') False" "lit ''.''" 2] by auto
qed

text \<open>
  Prefix, suffix and containment tests on well-formed strings decide exactly prefix,
  suffix and sublist of the contents, and the containment search returns for every
  pattern, the empty one included.
\<close>

theorem dstr_affix_correct:
  assumes "dstr_ok s" and "dstr_ok p"
  shows "do_beginswith s p True = prefix (ddata p) (ddata s) \<and>
    do_endswith s p True = suffix (ddata p) (ddata s) \<and>
    dstr_contains s p = Some (sublist (ddata p) (ddata s))"
proof (intro conjI)
  show "do_beginswith s p True = prefix (ddata p) (ddata s)"
    using assms by (auto simp: do_beginswith_def Let_def dstr_eq_iff dstr_ok_sub2 dstr_sub2_data
        prefix_def append_eq_conv_conj) (metis append_take_drop_id)
  have "ddata p = drop (dlen s - dlen p) (ddata s) \<longleftrightarrow> suffix (ddata p) (ddata s)"
    by (metis suffix_drop suffix_take append_eq_conv_conj suffix_def append_take_drop_id)
  then show "do_endswith s p True = suffix (ddata p) (ddata s)"
    using assms by (auto simp: do_endswith_def Let_def dstr_eq_iff dstr_ok_sub2 dstr_sub2_data min_def)
  show "dstr_contains s p = Some (sublist (ddata p) (ddata s))"
    using contains_loop [of "ddata s" 0 "dlen s + 2" "ddata p"]
    by (simp add: dstr_contains_def do_dstr_count2_def sublist_at)
qed

theorem dstr_affix_correct_witness:
  "do_beginswith (dstr_wrap [1, 2, 3] False) (dstr_wrap [1, 2] False) True \<and>
   \<not> do_endswith (dstr_wrap [1, 2, 3] False) (dstr_wrap [1, 2] False) True"
  using dstr_affix_correct [of "dstr_wrap [1, 2, 3] False" "dstr_wrap [1, 2] False"]
  by (simp add: dstr_wrap_def dstr_ok_def suffix_def)

end
