(* ===== verification/Cvt.thy ===== *)
theory Cvt
  imports Dstr
begin

text \<open>
  Number parsing (\<open>libdstr/cvt.c\<close>) and the decimal text that \<open>snprintf\<close> produces for the
  number formatters of \<open>libdstr/fmt.c\<close>.  \<open>uintmax_t\<close>, \<open>size_t\<close> and \<open>long\<close> have 64 bits,
  \<open>int\<close> has 32.  The accumulator of a parsed number is a 64-bit word whose arithmetic wraps around, as in
  C; that the limit checks of \<open>parse_integer\<close> keep it from doing so is \<open>parse_digits_value\<close>.
\<close>

record integer_t =
  negative :: bool
  integer :: u64
  iok :: bool

abbreviation UINTMAX_MAX :: u64 where
  "UINTMAX_MAX \<equiv> - 1"

definition read_base8 :: "byte \<Rightarrow> u64" where
  "read_base8 c = (if 48 \<le> c \<and> c \<le> 55 then ucast (c - 48) else UINTMAX_MAX)"

definition read_base10 :: "byte \<Rightarrow> u64" where
  "read_base10 c = (if 48 \<le> c \<and> c \<le> 57 then ucast (c - 48) else UINTMAX_MAX)"

definition read_base16 :: "byte \<Rightarrow> u64" where
  "read_base16 c =
     (if 48 \<le> c \<and> c \<le> 57 then ucast (c - 48)
      else if 97 \<le> c \<and> c \<le> 102 then ucast (c - 97 + 10)
      else if 65 \<le> c \<and> c \<le> 70 then ucast (c - 65 + 10)
      else UINTMAX_MAX)"

definition get_base_reader :: "nat \<Rightarrow> (byte \<Rightarrow> u64) option" where
  "get_base_reader base =
     (if base = 8 then Some read_base8
      else if base = 10 then Some read_base10
      else if base = 16 then Some read_base16
      else None)"

text \<open>The digit loop; it is entered with at least one character left.\<close>

fun parse_digits :: "(byte \<Rightarrow> u64) \<Rightarrow> u64 \<Rightarrow> byte list \<Rightarrow> u64 \<Rightarrow> u64 \<times> bool" where
  "parse_digits rd ubase [] n = (n, True)"
| "parse_digits rd ubase (c # cs) n =
     (let digit = rd c; limit = UINTMAX_MAX div ubase; md = UINTMAX_MAX mod ubase
      in if digit = UINTMAX_MAX then (n, False)
         else if n > limit then (n, False)
         else if n = limit \<and> digit > md then (n, False)
         else parse_digits rd ubase cs (n * ubase + digit))"

definition parse_integer :: "byte list \<Rightarrow> nat \<Rightarrow> integer_t" where
  "parse_integer inp base =
     (case get_base_reader base of
        None \<Rightarrow> \<lparr>negative = False, integer = 0, iok = False\<rparr>
      | Some rd \<Rightarrow>
          (case inp of
             [] \<Rightarrow> \<lparr>negative = False, integer = 0, iok = False\<rparr>
           | c # cs \<Rightarrow>
               let signed = (c = 45 \<or> c = 43);
                   neg = (c = 45);
                   digits = (if signed then cs else c # cs)
               in if digits = [] then \<lparr>negative = neg, integer = 0, iok = False\<rparr>
                  else (case parse_digits rd (of_nat base) digits 0 of
                    (n, ok) \<Rightarrow> \<lparr>negative = neg, integer = n, iok = ok\<rparr>)))"

section \<open>Conversions\<close>

definition conv_unsigned :: "byte list \<Rightarrow> nat \<Rightarrow> u64 \<Rightarrow> derr_type \<times> u64" where
  "conv_unsigned inp base limit =
     (let num = parse_integer inp base in
      if \<not> iok num \<or> negative num \<or> integer num > limit then (E_PARAM, 0)
      else (E_NONE, integer num))"

definition dstr_tou_quiet :: "byte list \<Rightarrow> nat \<Rightarrow> derr_type \<times> u32" where
  "dstr_tou_quiet inp base = map_prod id ucast (conv_unsigned inp base 0xFFFFFFFF)"

definition dstr_toul_quiet :: "byte list \<Rightarrow> nat \<Rightarrow> derr_type \<times> u64" where
  "dstr_toul_quiet inp base = conv_unsigned inp base UINTMAX_MAX"

definition dstr_tosize_quiet :: "byte list \<Rightarrow> nat \<Rightarrow> derr_type \<times> u64" where
  "dstr_tosize_quiet inp base = conv_unsigned inp base UINTMAX_MAX"

definition dstr_toull_quiet :: "byte list \<Rightarrow> nat \<Rightarrow> derr_type \<times> u64" where
  "dstr_toull_quiet inp base = conv_unsigned inp base UINTMAX_MAX"

definition dstr_tou64_quiet :: "byte list \<Rightarrow> nat \<Rightarrow> derr_type \<times> u64" where
  "dstr_tou64_quiet inp base = conv_unsigned inp base UINTMAX_MAX"

definition dstr_toumax_quiet :: "byte list \<Rightarrow> nat \<Rightarrow> derr_type \<times> u64" where
  "dstr_toumax_quiet inp base =
     (let num = parse_integer inp base in
      if \<not> iok num \<or> negative num then (E_PARAM, 0) else (E_NONE, integer num))"

text \<open>The subtraction wraps around on a zero.\<close>

definition conv_signed :: "byte list \<Rightarrow> nat \<Rightarrow> u64 \<Rightarrow> derr_type \<times> int" where
  "conv_signed inp base maxv =
     (let num = parse_integer inp base in
      if \<not> iok num then (E_PARAM, 0)
      else if negative num then
        if integer num - 1 > maxv then (E_PARAM, 0)
        else (E_NONE, -1 * uint (integer num - 1) - 1)
      else if integer num > maxv then (E_PARAM, 0)
      else (E_NONE, uint (integer num)))"

definition dstr_toi_quiet :: "byte list \<Rightarrow> nat \<Rightarrow> derr_type \<times> int" where
  "dstr_toi_quiet inp base = conv_signed inp base 0x7FFFFFFF"

definition dstr_tol_quiet :: "byte list \<Rightarrow> nat \<Rightarrow> derr_type \<times> int" where
  "dstr_tol_quiet inp base = conv_signed inp base 0x7FFFFFFFFFFFFFFF"

definition dstr_toll_quiet :: "byte list \<Rightarrow> nat \<Rightarrow> derr_type \<times> int" where
  "dstr_toll_quiet inp base = conv_signed inp base 0x7FFFFFFFFFFFFFFF"

definition dstr_toi64_quiet :: "byte list \<Rightarrow> nat \<Rightarrow> derr_type \<times> int" where
  "dstr_toi64_quiet inp base = conv_signed inp base 0x7FFFFFFFFFFFFFFF"

definition dstr_toimax_quiet :: "byte list \<Rightarrow> nat \<Rightarrow> derr_type \<times> int" where
  "dstr_toimax_quiet inp base = conv_signed inp base 0x7FFFFFFFFFFFFFFF"

section \<open>Decimal text\<close>

text \<open>What \<open>snprintf\<close> writes for \<open>%ju\<close> and \<open>%jd\<close>.\<close>

fun dec_digits :: "nat \<Rightarrow> byte list" where
  "dec_digits n = (if n < 10 then [48 + of_nat n] else dec_digits (n div 10) @ [48 + of_nat (n mod 10)])"

declare dec_digits.simps [simp del]

definition dec_int :: "int \<Rightarrow> byte list" where
  "dec_int i = (if i < 0 then 45 # dec_digits (nat (- i)) else dec_digits (nat i))"

section \<open>Lemmas\<close>

lemma digit_byte: "d < 10 \<Longrightarrow> unat (48 + of_nat d :: byte) = 48 + d"
  by (simp add: unat_word_ariths unat_of_nat)

lemma dec_digits_nonempty [simp]: "dec_digits n \<noteq> []"
  by (subst dec_digits.simps) simp

lemma dec_digits_set: "c \<in> set (dec_digits n) \<Longrightarrow> 48 \<le> c \<and> c \<le> 57"
proof (induction n rule: dec_digits.induct)
  case (1 n)
  show ?case
  proof (cases "n < 10")
    case True
    with 1 show ?thesis
      using digit_byte [of n] by (auto simp: dec_digits.simps [of n] word_le_nat_alt)
  next
    case False
    then have eq: "dec_digits n = dec_digits (n div 10) @ [48 + of_nat (n mod 10)]"
      by (subst dec_digits.simps) simp
    from "1.prems" consider "c \<in> set (dec_digits (n div 10))" | "c = 48 + of_nat (n mod 10)"
      unfolding eq by auto
    then show ?thesis
      using "1.IH" False digit_byte [of "n mod 10"] by cases (auto simp: word_le_nat_alt)
  qed
qed

section \<open>What a string denotes\<close>

text \<open>The value of a digit and of a string of digits, as natural numbers without a bound.\<close>

definition digit_in :: "nat \<Rightarrow> byte \<Rightarrow> nat option" where
  "digit_in base c =
     (if 48 \<le> unat c \<and> unat c < 48 + min base 10 then Some (unat c - 48)
      else if 97 \<le> unat c \<and> unat c < 87 + base then Some (unat c - 87)
      else if 65 \<le> unat c \<and> unat c < 55 + base then Some (unat c - 55) else None)"

abbreviation horner :: "nat \<Rightarrow> nat \<Rightarrow> nat list \<Rightarrow> nat" where
  "horner b \<equiv> foldl (\<lambda>n d. n * b + d)"

definition denotes :: "nat \<Rightarrow> byte list \<Rightarrow> bool \<Rightarrow> nat \<Rightarrow> bool" where
  "denotes base s neg n \<longleftrightarrow> base \<in> {8, 10, 16} \<and>
     (\<exists>cs ds. cs \<noteq> [] \<and> (if neg then s = 45 # cs else s = cs \<or> s = 43 # cs) \<and> map (digit_in base) cs = map Some ds \<and> n = horner base 0 ds)"

section \<open>Reading digits\<close>

lemma digit_less: "digit_in base c = Some d \<Longrightarrow> d < base"
  by (auto simp: digit_in_def split: if_splits)

lemma digit_sign: "base \<in> {8, 10, 16} \<Longrightarrow> digit_in base 45 = None \<and> digit_in base 43 = None"
  by (auto simp: digit_in_def)

lemma unat_sub_byte: "b \<le> a \<Longrightarrow> unat (a - b) = unat a - unat (b :: byte)"
  by (simp add: unat_sub_if' word_le_nat_alt)

lemma reader_digit:
  assumes "get_base_reader base = Some rd"
  shows "base \<in> {8, 10, 16}" and "rd c = (case digit_in base c of None \<Rightarrow> UINTMAX_MAX | Some d \<Rightarrow> of_nat d)"
proof -
  have u: "(ucast (c - 48) :: u64) = of_nat (unat c - 48)" if "48 \<le> unat c"
  proof -
    have "unat (c - 48) = unat c - 48" using unat_sub_byte [of 48 c] that by (simp add: word_le_nat_alt)
    then show ?thesis by (metis of_nat_unat)
  qed
  have a: "(ucast (c - k + 10) :: u64) = of_nat (unat c - unat k + 10)" if "unat k \<le> unat c" "unat c < unat k + 6" for k
  proof -
    have "unat (c - k + 10) = unat c - unat k + 10"
      using unat_sub_byte [of k c] that by (simp add: word_le_nat_alt unat_word_ariths)
    then show ?thesis by (metis of_nat_unat)
  qed
  show "base \<in> {8, 10, 16}" using assms by (auto simp: get_base_reader_def split: if_splits)
  show "rd c = (case digit_in base c of None \<Rightarrow> UINTMAX_MAX | Some d \<Rightarrow> of_nat d)"
    using assms u a [of 97] a [of 65]
    by (auto simp: get_base_reader_def read_base8_def read_base10_def read_base16_def digit_in_def word_le_nat_alt split: if_splits)
qed

lemma limit_check:
  assumes "0 < b" and "n * b + d \<le> (M :: nat)"
  shows "n \<le> M div b" and "n = M div b \<Longrightarrow> d \<le> M mod b"
proof -
  show "n \<le> M div b" using assms by (simp add: less_eq_div_iff_mult_less_eq)
  show "d \<le> M mod b" if "n = M div b"
  proof -
    have "M div b * b + d \<le> M div b * b + M mod b"
      using assms(2) that by (simp only: div_mult_mod_eq)
    then show ?thesis by (simp only: add_le_cancel_left)
  qed
qed

lemma limit_check_bound:
  assumes "n \<le> M div b" and "n = M div b \<Longrightarrow> d \<le> M mod b" and "d < b"
  shows "n * b + d \<le> (M :: nat)"
proof (cases "n = M div b")
  case True
  with assms(2) have "n * b + d \<le> M div b * b + M mod b" by (simp only: add_le_cancel_left)
  then show ?thesis by (simp only: div_mult_mod_eq)
next
  case False
  with assms(1) have "Suc n * b \<le> M div b * b" by (intro mult_le_mono1) simp
  then have "n * b + b \<le> M div b * b" by simp
  then show ?thesis using assms(3) div_times_less_eq_dividend [of M b] by linarith
qed

lemma horner_ge: "0 < b \<Longrightarrow> n \<le> horner b n ds"
proof (induction ds arbitrary: n)
  case (Cons d ds)
  then have "n * b + d \<le> horner b (n * b + d) ds" by simp
  moreover have "n * 1 \<le> n * b" using Cons.prems by (intro mult_le_mono2) simp
  ultimately have "n \<le> horner b (n * b + d) ds" by linarith
  then show ?case by simp
qed simp

lemma if_or: "(if P then x else if Q then x else y) = (if P \<or> Q then x else y)"
  by auto

lemma unat_max64: "unat UINTMAX_MAX = 2 ^ 64 - 1"
  by (simp add: unsigned_minus_1_eq_mask mask_eq_exp_minus_1)

text \<open>The limit check stops exactly before the step that would wrap around.\<close>

lemma parse_step:
  assumes "get_base_reader base = Some rd" and "digit_in base c = Some d"
  shows "parse_digits rd (of_nat base) (c # cs) n =
    (if unat n * base + d < 2 ^ 64 then parse_digits rd (of_nat base) cs (n * of_nat base + of_nat d) else (n, False))"
    and "unat n * base + d < 2 ^ 64 \<Longrightarrow> unat (n * of_nat base + of_nat d) = unat n * base + d"
proof -
  let ?b = "of_nat base :: u64" and ?d = "of_nat d :: u64" and ?M = "2 ^ 64 - 1 :: nat"
  have base: "base \<in> {8, 10, 16}" by (rule reader_digit(1) [OF assms(1)])
  have d: "d < base" using assms(2) by (rule digit_less)
  have b: "unat ?b = base" "0 < base" using base by (auto simp: unat_of_nat)
  have ud: "unat ?d = d" using base d by (auto simp: unat_of_nat)
  have rd: "rd c = ?d" using reader_digit(2) [OF assms(1), of c] assms(2) by simp
  have nd: "?d \<noteq> UINTMAX_MAX"
  proof
    assume "?d = UINTMAX_MAX"
    then have "unat ?d = 2 ^ 64 - 1" unfolding unat_max64 [symmetric] by (rule arg_cong)
    then show False using ud d base by auto
  qed
  have lim: "unat (UINTMAX_MAX div ?b) = ?M div base" "unat (UINTMAX_MAX mod ?b) = ?M mod base"
    unfolding unat_div unat_mod unat_max64 b(1) by (rule refl)+
  have "n > UINTMAX_MAX div ?b \<or> n = UINTMAX_MAX div ?b \<and> ?d > UINTMAX_MAX mod ?b \<longleftrightarrow>
      unat n > ?M div base \<or> unat n = ?M div base \<and> d > ?M mod base"
    unfolding word_less_nat_alt word_unat_eq_iff [of n "UINTMAX_MAX div ?b"] lim ud by (rule refl)
  also have "\<dots> \<longleftrightarrow> \<not> unat n * base + d \<le> ?M"
    using limit_check [OF b(2), of "unat n" d ?M] limit_check_bound [of "unat n" ?M base d] d by linarith
  also have "\<dots> \<longleftrightarrow> \<not> unat n * base + d < 2 ^ 64" by auto
  finally have over: "n > UINTMAX_MAX div ?b \<or> n = UINTMAX_MAX div ?b \<and> ?d > UINTMAX_MAX mod ?b \<longleftrightarrow> \<not> unat n * base + d < 2 ^ 64" .
  show "parse_digits rd ?b (c # cs) n = (if unat n * base + d < 2 ^ 64 then parse_digits rd ?b cs (n * ?b + ?d) else (n, False))"
    unfolding parse_digits.simps Let_def rd if_or over using nd by simp
  show "unat (n * ?b + ?d) = unat n * base + d" if f: "unat n * base + d < 2 ^ 64"
  proof -
    have "unat n * base < 2 ^ 64" using f by linarith
    then have "unat (n * ?b) = unat n * base" by (simp add: unat_word_ariths b(1) del: of_nat_numeral)
    then show ?thesis using f by (simp add: unat_word_ariths ud)
  qed
qed

lemma parse_digits_value:
  assumes "get_base_reader base = Some rd"
  shows "parse_digits rd (of_nat base) cs n = (m, True) \<longleftrightarrow>
    (\<exists>ds. map (digit_in base) cs = map Some ds \<and> unat m = horner base (unat n) ds)"
proof (induction cs arbitrary: n)
  case Nil
  then show ?case by (auto simp: word_unat_eq_iff)
next
  case (Cons c cs)
  have pos: "0 < base" using reader_digit(1) [OF assms] by auto
  show ?case
  proof (cases "digit_in base c")
    case None
    then show ?thesis using reader_digit(2) [OF assms, of c] by (auto simp: Cons_eq_map_conv Let_def)
  next
    case (Some d)
    note st = parse_step [OF assms Some, where n = n]
    have ds: "map (digit_in base) (c # cs) = map Some ds \<longleftrightarrow> (\<exists>ds'. ds = d # ds' \<and> map (digit_in base) cs = map Some ds')" for ds
      by (cases ds) (auto simp: Some)
    show ?thesis
    proof (cases "unat n * base + d < 2 ^ 64")
      case True
      show ?thesis unfolding st(1) ds using True by (simp only: if_True Cons.IH st(2)) auto
    next
      case False
      have "unat m < 2 ^ 64" by (rule less_le_trans [OF unsigned_less]) simp
      then have "unat m \<noteq> horner base (unat n) (d # ds')" for ds'
        using horner_ge [OF pos, of "unat n * base + d" ds'] False unfolding foldl.simps by (intro notI) simp
      then show ?thesis unfolding st(1) ds using False by (simp only: if_False prod.inject) blast
    qed
  qed
qed

lemma parse_integer_denotes:
  "parse_integer s base = \<lparr>negative = ng, integer = n, iok = True\<rparr> \<longleftrightarrow> denotes base s ng (unat n)"
proof (cases "get_base_reader base")
  case None
  then show ?thesis by (auto simp: parse_integer_def denotes_def get_base_reader_def split: if_splits)
next
  case (Some rd)
  note base = reader_digit(1) [OF Some]
  have P: "parse_digits rd (of_nat base) cs 0 = (m, True) \<longleftrightarrow> (\<exists>ds. map (digit_in base) cs = map Some ds \<and> unat m = horner base 0 ds)" for cs m
    using parse_digits_value [OF Some, of cs 0 m] by simp
  define D where "D = (\<lambda>cs. \<exists>ds. map (digit_in base) cs = map Some ds \<and> unat n = horner base 0 ds)"
  have sign: "\<not> D (x # xs)" if "x = 45 \<or> x = 43" for x xs
    using that digit_sign [OF base] by (auto simp: D_def Cons_eq_map_conv)
  show ?thesis
  proof (cases s)
    case Nil
    then show ?thesis using Some by (auto simp: parse_integer_def denotes_def)
  next
    case (Cons c cs)
    define ds where "ds = (if c = 45 \<or> c = 43 then cs else c # cs)"
    have "parse_integer s base = \<lparr>negative = ng, integer = n, iok = True\<rparr> \<longleftrightarrow>
        ng = (c = 45) \<and> ds \<noteq> [] \<and> parse_digits rd (of_nat base) ds 0 = (n, True)"
      using Some Cons by (auto simp: parse_integer_def ds_def [symmetric] Let_def split: prod.splits)
    also have "\<dots> \<longleftrightarrow> denotes base s ng (unat n)"
    proof -
      have "denotes base s ng (unat n) \<longleftrightarrow> (\<exists>xs. xs \<noteq> [] \<and> (if ng then s = 45 # xs else s = xs \<or> s = 43 # xs) \<and> D xs)"
        using base unfolding denotes_def D_def by blast
      also have "\<dots> \<longleftrightarrow> ng = (c = 45) \<and> ds \<noteq> [] \<and> D ds"
      proof (cases "c = 45 \<or> c = 43")
        case True
        then show ?thesis using sign [OF True, of cs] unfolding Cons ds_def by auto
      next
        case False
        then have "ds = s" by (simp add: ds_def Cons)
        then show ?thesis using False Cons by auto
      qed
      finally show ?thesis unfolding P D_def by blast
    qed
    finally show ?thesis .
  qed
qed


lemma parsed_iff:
  "iok (parse_integer s base) \<and> negative (parse_integer s base) = ng \<and> P (integer (parse_integer s base)) \<longleftrightarrow>
    (\<exists>w. denotes base s ng (unat w) \<and> P w)"
proof -
  obtain ng' w ok where p: "parse_integer s base = \<lparr>negative = ng', integer = w, iok = ok\<rparr>" by (cases "parse_integer s base")
  have d: "denotes base s ng (unat v) \<longleftrightarrow> ng = ng' \<and> v = w \<and> ok" for v
    using parse_integer_denotes [of s base ng v] p by auto
  show ?thesis unfolding p d by auto
qed

lemma ex_word64: "(\<exists>w :: u64. P (unat w)) \<longleftrightarrow> (\<exists>n < 2 ^ 64. P n)"
proof
  assume "\<exists>w :: u64. P (unat w)"
  then obtain w :: u64 where "P (unat w)" by blast
  moreover have "unat w < 2 ^ 64" by (rule less_le_trans [OF unsigned_less]) simp
  ultimately show "\<exists>n < 2 ^ 64. P n" by blast
next
  assume "\<exists>n < 2 ^ 64. P n"
  then obtain n where n: "n < 2 ^ 64" "P n" by blast
  then have "P (unat (of_nat n :: u64))" by (simp add: unat_of_nat)
  then show "\<exists>w :: u64. P (unat w)" by blast
qed

lemma conv_unsigned_iff:
  "conv_unsigned s base limit = (E_NONE, v) \<longleftrightarrow> denotes base s False (unat v) \<and> v \<le> limit"
  using parsed_iff [of s base False "\<lambda>w. w \<le> limit \<and> w = v"] by (auto simp: conv_unsigned_def Let_def not_less)

lemma conv_unsigned_fails: "conv_unsigned s base limit = (E_PARAM, 0) \<or> fst (conv_unsigned s base limit) = E_NONE"
  by (simp add: conv_unsigned_def Let_def)

lemma pred_le:
  assumes "M < 2 ^ 64 - 1"
  shows "w - 1 \<le> (of_nat M :: u64) \<longleftrightarrow> unat w \<noteq> 0 \<and> unat w \<le> M + 1"
    and "unat w \<noteq> 0 \<Longrightarrow> - uint (w - 1 :: u64) - 1 = - int (unat w)"
proof -
  have M: "unat (of_nat M :: u64) = M" using assms by (simp add: unat_of_nat)
  have p: "unat (w - 1) = unat w - 1" if "w \<noteq> 0" using that by (rule unat_minus_one)
  show "w - 1 \<le> (of_nat M :: u64) \<longleftrightarrow> unat w \<noteq> 0 \<and> unat w \<le> M + 1"
  proof (cases "w = 0")
    case True
    have "\<not> UINTMAX_MAX \<le> (of_nat M :: u64)" using assms unfolding word_le_nat_alt unat_max64 M by linarith
    then show ?thesis using True by simp
  next
    case False
    then have "unat w \<noteq> 0" by (simp add: unat_eq_0)
    then show ?thesis using p [OF False] by (auto simp: word_le_nat_alt M)
  qed
  show "- uint (w - 1 :: u64) - 1 = - int (unat w)" if "unat w \<noteq> 0"
  proof -
    have "w \<noteq> 0" using that by auto
    from p [OF this] have "int (unat (w - 1)) = int (unat w) - 1" using that by simp
    moreover have "int (unat (w - 1)) = uint (w - 1)" by simp
    ultimately show ?thesis by linarith
  qed
qed

lemma conv_signed_iff:
  "conv_signed s base maxv = (E_NONE, i) \<longleftrightarrow>
    (\<exists>w. denotes base s False (unat w) \<and> w \<le> maxv \<and> i = int (unat w)) \<or>
    (\<exists>w. denotes base s True (unat w) \<and> w - 1 \<le> maxv \<and> i = - uint (w - 1) - 1)"
  using parsed_iff [of s base False "\<lambda>w. w \<le> maxv \<and> i = int (unat w)"] parsed_iff [of s base True "\<lambda>w. w - 1 \<le> maxv \<and> i = - uint (w - 1) - 1"]
  by (auto simp: conv_signed_def Let_def not_less)


lemma conv_signed_denotes:
  assumes "M < 2 ^ 64 - 1"
  shows "conv_signed s base (of_nat M) = (E_NONE, i) \<longleftrightarrow>
    (\<exists>ng n. denotes base s ng n \<and> \<not> (ng \<and> n = 0) \<and> i = (if ng then - int n else int n) \<and> - (int M + 1) \<le> i \<and> i < int M + 1)"
proof -
  have M: "unat (of_nat M :: u64) = M" using assms by (simp add: unat_of_nat)
  have "(\<exists>w :: u64. denotes base s False (unat w) \<and> w \<le> of_nat M \<and> i = int (unat w)) \<longleftrightarrow>
      (\<exists>n < 2 ^ 64. denotes base s False n \<and> n \<le> M \<and> i = int n)"
    unfolding word_le_nat_alt M by (rule ex_word64)
  also have "\<dots> \<longleftrightarrow> (\<exists>n. denotes base s False n \<and> i = int n \<and> - (int M + 1) \<le> i \<and> i < int M + 1)" using assms by force
  finally have pos: "(\<exists>w :: u64. denotes base s False (unat w) \<and> w \<le> of_nat M \<and> i = int (unat w)) \<longleftrightarrow>
      (\<exists>n. denotes base s False n \<and> i = int n \<and> - (int M + 1) \<le> i \<and> i < int M + 1)" .
  have "(\<exists>w :: u64. denotes base s True (unat w) \<and> w - 1 \<le> of_nat M \<and> i = - uint (w - 1) - 1) \<longleftrightarrow>
      (\<exists>w :: u64. denotes base s True (unat w) \<and> unat w \<noteq> 0 \<and> unat w \<le> M + 1 \<and> i = - int (unat w))"
    unfolding pred_le(1) [OF assms] using pred_le(2) [OF assms] by metis
  also have "\<dots> \<longleftrightarrow> (\<exists>n < 2 ^ 64. denotes base s True n \<and> n \<noteq> 0 \<and> n \<le> M + 1 \<and> i = - int n)" by (rule ex_word64)
  also have "\<dots> \<longleftrightarrow> (\<exists>n. denotes base s True n \<and> n \<noteq> 0 \<and> i = - int n \<and> - (int M + 1) \<le> i \<and> i < int M + 1)" using assms by force
  finally have neg: "(\<exists>w :: u64. denotes base s True (unat w) \<and> w - 1 \<le> of_nat M \<and> i = - uint (w - 1) - 1) \<longleftrightarrow>
      (\<exists>n. denotes base s True n \<and> n \<noteq> 0 \<and> i = - int n \<and> - (int M + 1) \<le> i \<and> i < int M + 1)" .
  show ?thesis unfolding conv_signed_iff pos neg by (auto simp: ex_bool_eq)
qed

lemma conv_signed_fails: "conv_signed s base maxv = (E_PARAM, 0) \<or> fst (conv_signed s base maxv) = E_NONE"
  by (simp add: conv_signed_def Let_def)

lemma dec_digits_denote: "\<exists>ds. map (digit_in 10) (dec_digits n) = map Some ds \<and> horner 10 0 ds = n"
proof (induction n rule: dec_digits.induct)
  case (1 n)
  have d: "digit_in 10 (48 + of_nat d) = Some d" if "d < 10" for d
    using that digit_byte [OF that] by (simp add: digit_in_def)
  show ?case
  proof (cases "n < 10")
    case True
    then show ?thesis using d by (intro exI [of _ "[n]"]) (simp add: dec_digits.simps [of n])
  next
    case False
    with 1 obtain ds where "map (digit_in 10) (dec_digits (n div 10)) = map Some ds" "horner 10 0 ds = n div 10" by blast
    then show ?thesis using False d [of "n mod 10"] by (intro exI [of _ "ds @ [n mod 10]"]) (simp add: dec_digits.simps [of n])
  qed
qed

lemma denotes_dec: "denotes 10 (if ng then 45 # dec_digits n else dec_digits n) ng n"
proof -
  obtain ds where "map (digit_in 10) (dec_digits n) = map Some ds" "horner 10 0 ds = n" using dec_digits_denote by blast
  then show ?thesis unfolding denotes_def by (intro conjI exI [of _ "dec_digits n"] exI [of _ ds]) simp_all
qed

lemma tou64_dec [simp]: "dstr_tou64_quiet (dec_digits (unat w)) 10 = (E_NONE, w)"
  using denotes_dec [of False "unat w"] by (simp add: dstr_tou64_quiet_def conv_unsigned_iff)

lemma tosize_dec [simp]: "dstr_tosize_quiet (dec_digits (unat w)) 10 = (E_NONE, w)"
  using denotes_dec [of False "unat w"] by (simp add: dstr_tosize_quiet_def conv_unsigned_iff)

lemma tou_denotes:
  "dstr_tou_quiet s base = (E_NONE, v) \<longleftrightarrow> (\<exists>n. denotes base s False n \<and> n < 2 ^ 32 \<and> v = of_nat n)"
proof -
  have "dstr_tou_quiet s base = (E_NONE, v) \<longleftrightarrow> (\<exists>w. conv_unsigned s base 0xFFFFFFFF = (E_NONE, w) \<and> v = ucast w)"
    by (cases "conv_unsigned s base 0xFFFFFFFF") (auto simp: dstr_tou_quiet_def)
  also have "\<dots> \<longleftrightarrow> (\<exists>w :: u64. denotes base s False (unat w) \<and> unat w < 2 ^ 32 \<and> v = of_nat (unat w))"
    by (simp add: conv_unsigned_iff word_le_nat_alt less_Suc_eq_le [symmetric])
  also have "\<dots> \<longleftrightarrow> (\<exists>n < 2 ^ 64. denotes base s False n \<and> n < 2 ^ 32 \<and> v = of_nat n)" by (rule ex_word64)
  also have "\<dots> \<longleftrightarrow> (\<exists>n. denotes base s False n \<and> n < 2 ^ 32 \<and> v = of_nat n)" by force
  finally show ?thesis .
qed

lemma tou64_denotes:
  "dstr_tou64_quiet s base = (E_NONE, w) \<longleftrightarrow> (\<exists>n. denotes base s False n \<and> n < 2 ^ 64 \<and> w = of_nat n)"
proof -
  have "dstr_tou64_quiet s base = (E_NONE, w) \<longleftrightarrow> (\<exists>v :: u64. denotes base s False (unat v) \<and> w = of_nat (unat v))"
    by (simp add: dstr_tou64_quiet_def conv_unsigned_iff)
  also have "\<dots> \<longleftrightarrow> (\<exists>n < 2 ^ 64. denotes base s False n \<and> w = of_nat n)" by (rule ex_word64)
  finally show ?thesis by blast
qed

lemma toi_denotes:
  "dstr_toi_quiet s base = (E_NONE, i) \<longleftrightarrow>
    (\<exists>ng n. denotes base s ng n \<and> \<not> (ng \<and> n = 0) \<and> i = (if ng then - int n else int n) \<and> - (2 ^ 31) \<le> i \<and> i < 2 ^ 31)"
  using conv_signed_denotes [of "2 ^ 31 - 1" s base i] by (simp add: dstr_toi_quiet_def)

lemma toi64_denotes:
  "dstr_toi64_quiet s base = (E_NONE, i) \<longleftrightarrow>
    (\<exists>ng n. denotes base s ng n \<and> \<not> (ng \<and> n = 0) \<and> i = (if ng then - int n else int n) \<and> - (2 ^ 63) \<le> i \<and> i < 2 ^ 63)"
  using conv_signed_denotes [of "2 ^ 63 - 1" s base i] by (simp add: dstr_toi64_quiet_def)

lemma tou_dec [simp]: "dstr_tou_quiet (dec_digits (unat u)) 10 = (E_NONE, u)"
proof -
  have "unat u < 2 ^ 32" by (rule less_le_trans [OF unsigned_less]) simp
  then show ?thesis using denotes_dec [of False "unat u"] unfolding tou_denotes by (intro exI [of _ "unat u"]) simp
qed

lemma denotes_dec_int: "denotes 10 (dec_int i) (i < 0) (nat \<bar>i\<bar>)"
  using denotes_dec [of True "nat (- i)"] denotes_dec [of False "nat i"] by (cases "i < 0") (simp_all add: dec_int_def)

lemma toi_dec: "- (2 ^ 31) \<le> i \<Longrightarrow> i < 2 ^ 31 \<Longrightarrow> dstr_toi_quiet (dec_int i) 10 = (E_NONE, i)"
  unfolding toi_denotes using denotes_dec_int [of i] by (intro exI [of _ "i < 0"] exI [of _ "nat \<bar>i\<bar>"]) auto

lemma toi64_dec: "- (2 ^ 63) \<le> i \<Longrightarrow> i < 2 ^ 63 \<Longrightarrow> dstr_toi64_quiet (dec_int i) 10 = (E_NONE, i)"
  unfolding toi64_denotes using denotes_dec_int [of i] by (intro exI [of _ "i < 0"] exI [of _ "nat \<bar>i\<bar>"]) auto

lemma dec_int_set: "c \<in> set (dec_int i) \<Longrightarrow> c = 45 \<or> 48 \<le> c \<and> c \<le> 57"
  using dec_digits_set by (auto simp: dec_int_def split: if_splits)

section \<open>Properties\<close>

text \<open>
  C31. The number parsers accept exactly the strings that denote a number of their type, in the
  bases 8, 10 and 16, and yield that number: a non-empty run of digits of the base, with an optional
  plus sign, or, for the signed ones, with a minus sign, where minus zero is refused.  Everything else,
  in particular a number that does not fit, is refused with \<open>E_PARAM\<close> and a zero: the 64-bit
  accumulator does not wrap around into the range of the type.
\<close>

theorem dstr_number_iff:
  "(dstr_tou_quiet s base = (E_NONE, u) \<longleftrightarrow> (\<exists>n. denotes base s False n \<and> n < 2 ^ 32 \<and> u = of_nat n)) \<and>
   (dstr_tou64_quiet s base = (E_NONE, w) \<longleftrightarrow> (\<exists>n. denotes base s False n \<and> n < 2 ^ 64 \<and> w = of_nat n)) \<and>
   (dstr_toi_quiet s base = (E_NONE, i) \<longleftrightarrow>
     (\<exists>ng n. denotes base s ng n \<and> \<not> (ng \<and> n = 0) \<and> i = (if ng then - int n else int n) \<and> - (2 ^ 31) \<le> i \<and> i < 2 ^ 31)) \<and>
   (dstr_toi64_quiet s base = (E_NONE, j) \<longleftrightarrow>
     (\<exists>ng n. denotes base s ng n \<and> \<not> (ng \<and> n = 0) \<and> j = (if ng then - int n else int n) \<and> - (2 ^ 63) \<le> j \<and> j < 2 ^ 63)) \<and>
   (dstr_tou_quiet s base = (E_PARAM, 0) \<or> fst (dstr_tou_quiet s base) = E_NONE) \<and>
   (dstr_tou64_quiet s base = (E_PARAM, 0) \<or> fst (dstr_tou64_quiet s base) = E_NONE) \<and>
   (dstr_toi_quiet s base = (E_PARAM, 0) \<or> fst (dstr_toi_quiet s base) = E_NONE) \<and>
   (dstr_toi64_quiet s base = (E_PARAM, 0) \<or> fst (dstr_toi64_quiet s base) = E_NONE)"
proof (intro conjI)
  show "dstr_tou_quiet s base = (E_PARAM, 0) \<or> fst (dstr_tou_quiet s base) = E_NONE"
    using conv_unsigned_fails [of s base "0xFFFFFFFF"] by (auto simp: dstr_tou_quiet_def)
qed (fact tou_denotes tou64_denotes toi_denotes toi64_denotes conv_unsigned_fails [of s base UINTMAX_MAX, folded dstr_tou64_quiet_def]
  conv_signed_fails [of s base "0x7FFFFFFF", folded dstr_toi_quiet_def] conv_signed_fails [of s base "0x7FFFFFFFFFFFFFFF", folded dstr_toi64_quiet_def])+

text \<open>
  Formatting an integer in decimal and parsing it back gives the same integer: for
  every 32-bit and 64-bit value, signed or not.
\<close>

theorem decimal_roundtrip:
  assumes "i \<in> {- (2 ^ 31)..<2 ^ 31}" and "j \<in> {- (2 ^ 63)..<2 ^ 63}"
  shows "dstr_tou_quiet (dec_digits (unat u)) 10 = (E_NONE, u) \<and> dstr_tou64_quiet (dec_digits (unat w)) 10 = (E_NONE, w) \<and>
    dstr_tosize_quiet (dec_digits (unat w)) 10 = (E_NONE, w) \<and>
    dstr_toi_quiet (dec_int i) 10 = (E_NONE, i) \<and> dstr_toi64_quiet (dec_int j) 10 = (E_NONE, j)"
  using assms by (simp add: toi_dec toi64_dec)

theorem decimal_roundtrip_witness:
  "dstr_tou_quiet (dec_digits 42) 10 = (E_NONE, 42) \<and> dstr_toi_quiet (dec_int (-7)) 10 = (E_NONE, -7) \<and>
   dstr_toi64_quiet (dec_int (- (2 ^ 63))) 10 = (E_NONE, - (2 ^ 63))"
  using decimal_roundtrip [of "-7" "- (2 ^ 63)" 42 0] by simp

end
