(* ===== verification/Fmt.thy ===== *)
theory Fmt
  imports Cvt
begin

text \<open>
  The formatter of \<open>libdstr/fmt.c\<close>.  A \<open>writer_t\<close> is a struct of function pointers, here
  a record of functions on the writer's output; \<open>_fmt_unlocked\<close> interprets a format string
  (\<open>%x\<close> consumes an argument, \<open>%%\<close> is a percent sign, left-over arguments are appended
  after a blank).  The locale \<open>writer\<close> states what the formatter needs of a writer, and the
  buffer writer \<open>_writer_dstr\<close> is shown to provide it.  Floats, pointers and \<open>errno\<close> texts
  are not modelled, nor is the \<open>FILE\<close> writer.
\<close>

section \<open>Hex digits\<close>

definition hex_digit :: "nat \<Rightarrow> byte" where
  "hex_digit n = (if n < 10 then 48 + of_nat n else if n < 15 then 97 + of_nat (n - 10) else 102)"

definition hex_high_nibble :: "byte \<Rightarrow> byte" where
  "hex_high_nibble u = hex_digit (unat (drop_bit 4 u))"

definition hex_low_nibble :: "byte \<Rightarrow> byte" where
  "hex_low_nibble u = hex_digit (unat (and u 0xF))"

section \<open>Writers\<close>

record 's writer =
  w_puts :: "'s \<Rightarrow> byte list \<Rightarrow> derr_type \<times> 's"
  w_putc :: "'s \<Rightarrow> byte \<Rightarrow> derr_type \<times> 's"
  w_null_terminate :: "'s \<Rightarrow> derr_type \<times> 's"

definition writer_dstr_puts :: "allocator \<Rightarrow> dstr \<Rightarrow> byte list \<Rightarrow> derr_type \<times> dstr" where
  "writer_dstr_puts A out bytes =
     (if bytes = [] then (E_NONE, out)
      else let n = length bytes;
               (etype, out') = (if dlen out + n > dsize out
                                then dstr_grow_quiet A out (dlen out + n) else (E_NONE, out));
               count = min n (dsize out' - dlen out')
        in (etype, out'\<lparr>ddata := ddata out' @ take count bytes\<rparr>))"

definition writer_dstr_putc :: "allocator \<Rightarrow> dstr \<Rightarrow> byte \<Rightarrow> derr_type \<times> dstr" where
  "writer_dstr_putc A out c =
     ifok (if dlen out \<ge> dsize out then dstr_grow_quiet A out (dlen out + 1) else (E_NONE, out))
       (\<lambda>out'. (E_NONE, out'\<lparr>ddata := ddata out' @ [c]\<rparr>)) id"

definition writer_dstr :: "allocator \<Rightarrow> dstr writer" where
  "writer_dstr A =
     \<lparr>w_puts = writer_dstr_puts A, w_putc = writer_dstr_putc A,
      w_null_terminate = dstr_null_terminate_quiet A\<rparr>"

section \<open>Arguments\<close>

datatype fmt_arg =
    FTrue | FFalse
  | FI int | FU nat | FC byte
  | FS "byte list option" | FSN "byte list option"
  | FD "byte list" | FD_DBG "byte list" | FX "byte list"
  | FENAME derr_type

definition ename :: "derr_type \<Rightarrow> string" where
  "ename t = (case t of E_NONE \<Rightarrow> ''E_NONE'' | E_NOMEM \<Rightarrow> ''NOMEM'' | E_SOCK \<Rightarrow> ''SOCKERROR''
     | E_CONN \<Rightarrow> ''CONNERROR'' | E_VALUE \<Rightarrow> ''VALUEERROR'' | E_FIXEDSIZE \<Rightarrow> ''FIXEDSIZE''
     | E_OS \<Rightarrow> ''OSERROR'' | E_BADIDX \<Rightarrow> ''BADIDX'' | E_OPEN \<Rightarrow> ''OPEN'' | E_PARAM \<Rightarrow> ''PARAM''
     | E_INTERNAL \<Rightarrow> ''INTERNAL'' | E_FS \<Rightarrow> ''FILESYSTEM'' | E_RESPONSE \<Rightarrow> ''RESPONSE''
     | E_USERMSG \<Rightarrow> ''USERMSG'' | E_CANCELED \<Rightarrow> ''CANCELED'' | E_BUSY \<Rightarrow> ''BUSY''
     | E_IMAILDIR \<Rightarrow> ''E_IMAILDIR'')"

definition dbg_char :: "'s writer \<Rightarrow> byte \<Rightarrow> 's \<Rightarrow> derr_type \<times> 's" where
  "dbg_char w c out =
     (if c = 13 then w_puts w out [92, 114]
      else if c = 10 then w_puts w out [92, 110]
      else if c = 0 then w_puts w out [92, 48]
      else if c = 9 then w_puts w out [92, 116]
      else if c = 92 then w_puts w out [92, 92]
      else if c = 34 then w_puts w out [92, 34]
      else if 31 < c \<and> c < 127 then w_putc w out c
      else ifok (w_puts w out [92, 120])
             (\<lambda>o1. ifok (w_putc w o1 (hex_high_nibble c))
               (\<lambda>o2. w_putc w o2 (hex_low_nibble c)) id) id)"

fun fmt_strn_dbg :: "'s writer \<Rightarrow> byte list \<Rightarrow> 's \<Rightarrow> derr_type \<times> 's" where
  "fmt_strn_dbg w [] out = (E_NONE, out)"
| "fmt_strn_dbg w (c # s) out = ifok (dbg_char w c out) (fmt_strn_dbg w s) id"

fun fmt_dstr_hex :: "'s writer \<Rightarrow> byte list \<Rightarrow> 's \<Rightarrow> derr_type \<times> 's" where
  "fmt_dstr_hex w [] out = (E_NONE, out)"
| "fmt_dstr_hex w (u # us) out =
     ifok (w_putc w out (hex_high_nibble u))
       (\<lambda>o1. ifok (w_putc w o1 (hex_low_nibble u)) (fmt_dstr_hex w us) id) id"

definition c_str :: "byte list \<Rightarrow> byte list" where
  "c_str s = takeWhile (\<lambda>b. b \<noteq> 0) s"

fun arg_fmt :: "'s writer \<Rightarrow> fmt_arg \<Rightarrow> 's \<Rightarrow> derr_type \<times> 's" where
  "arg_fmt w FTrue out = w_puts w out (lit ''true'')"
| "arg_fmt w FFalse out = w_puts w out (lit ''false'')"
| "arg_fmt w (FI i) out = w_puts w out (dec_int i)"
| "arg_fmt w (FU u) out = w_puts w out (dec_digits u)"
| "arg_fmt w (FC c) out = w_putc w out c"
| "arg_fmt w (FS s) out = w_puts w out (case s of None \<Rightarrow> lit ''(nil)'' | Some t \<Rightarrow> c_str t)"
| "arg_fmt w (FSN s) out = w_puts w out (case s of None \<Rightarrow> lit ''(nil)'' | Some t \<Rightarrow> t)"
| "arg_fmt w (FD d) out = w_puts w out d"
| "arg_fmt w (FD_DBG d) out = fmt_strn_dbg w d out"
| "arg_fmt w (FX d) out = fmt_dstr_hex w d out"
| "arg_fmt w (FENAME t) out = w_puts w out (lit (ename t))"

section \<open>Format strings\<close>

fun fmt_rest :: "'s writer \<Rightarrow> fmt_arg list \<Rightarrow> 's \<Rightarrow> derr_type \<times> 's" where
  "fmt_rest w [] out = (E_NONE, out)"
| "fmt_rest w (a # as) out =
     ifok (w_putc w out 32) (\<lambda>o1. ifok (arg_fmt w a o1) (fmt_rest w as) id) id"

text \<open>\<open>_fmt_unlocked\<close>; the format string is given up to its terminator.\<close>

fun fmt_unlocked :: "'s writer \<Rightarrow> byte list \<Rightarrow> fmt_arg list \<Rightarrow> 's \<Rightarrow> derr_type \<times> 's" where
  "fmt_unlocked w [] args out = fmt_rest w args out"
| "fmt_unlocked w [c] args out = ifok (w_putc w out c) (fmt_rest w args) id"
| "fmt_unlocked w (c # cc # cs) args out =
     (if c \<noteq> 37 then ifok (w_putc w out c) (fmt_unlocked w (cc # cs) args) id
      else if cc = 37 then ifok (w_putc w out 37) (fmt_unlocked w cs args) id
      else if cc \<noteq> 120 then
        ifok (w_putc w out c) (\<lambda>o1. ifok (w_putc w o1 cc) (fmt_unlocked w cs args) id) id
      else (case args of
              [] \<Rightarrow> fmt_unlocked w cs [] out
            | a # as \<Rightarrow> ifok (arg_fmt w a out) (fmt_unlocked w cs as) id))"

definition fmt_quiet :: "'s writer \<Rightarrow> 's \<Rightarrow> byte list \<Rightarrow> fmt_arg list \<Rightarrow> derr_type \<times> 's" where
  "fmt_quiet w out fstr args =
     (case fmt_unlocked w fstr args out of
        (etype, o1) \<Rightarrow>
          (case w_null_terminate w o1 of
             (etype2, o2) \<Rightarrow> (if etype = E_NONE then etype2 else etype, o2)))"

text \<open>The macro \<open>FMT(out, fstr, ...)\<close> on a \<open>dstr_t\<close>.\<close>

definition FMT :: "allocator \<Rightarrow> dstr \<Rightarrow> string \<Rightarrow> fmt_arg list \<Rightarrow> derr_type \<times> dstr" where
  "FMT A out fstr args = fmt_quiet (writer_dstr A) out (lit fstr) args"

section \<open>The text a format call denotes\<close>

fun dbg_text :: "byte \<Rightarrow> byte list" where
  "dbg_text c =
     (if c = 13 then [92, 114] else if c = 10 then [92, 110] else if c = 0 then [92, 48]
      else if c = 9 then [92, 116] else if c = 92 then [92, 92] else if c = 34 then [92, 34]
      else if 31 < c \<and> c < 127 then [c]
      else [92, 120, hex_high_nibble c, hex_low_nibble c])"

declare dbg_text.simps [simp del]

fun arg_text :: "fmt_arg \<Rightarrow> byte list" where
  "arg_text FTrue = lit ''true''"
| "arg_text FFalse = lit ''false''"
| "arg_text (FI i) = dec_int i"
| "arg_text (FU u) = dec_digits u"
| "arg_text (FC c) = [c]"
| "arg_text (FS s) = (case s of None \<Rightarrow> lit ''(nil)'' | Some t \<Rightarrow> c_str t)"
| "arg_text (FSN s) = (case s of None \<Rightarrow> lit ''(nil)'' | Some t \<Rightarrow> t)"
| "arg_text (FD d) = d"
| "arg_text (FD_DBG d) = concat (map dbg_text d)"
| "arg_text (FX d) = concat (map (\<lambda>u. [hex_high_nibble u, hex_low_nibble u]) d)"
| "arg_text (FENAME t) = lit (ename t)"

fun fmt_text :: "byte list \<Rightarrow> fmt_arg list \<Rightarrow> byte list" where
  "fmt_text [] args = concat (map (\<lambda>a. 32 # arg_text a) args)"
| "fmt_text [c] args = c # concat (map (\<lambda>a. 32 # arg_text a) args)"
| "fmt_text (c # cc # cs) args =
     (if c \<noteq> 37 then c # fmt_text (cc # cs) args
      else if cc = 37 then 37 # fmt_text cs args
      else if cc \<noteq> 120 then c # cc # fmt_text cs args
      else (case args of [] \<Rightarrow> fmt_text cs [] | a # as \<Rightarrow> arg_text a @ fmt_text cs as))"

section \<open>Writers that keep what they are given\<close>

text \<open>
  A write may fail half way: the output then ends in a prefix of the text.
\<close>

locale writer =
  fixes w :: "'s writer"
    and contents :: "'s \<Rightarrow> byte list"
    and ok :: "'s \<Rightarrow> bool"
  assumes puts: "ok s \<Longrightarrow> w_puts w s t = (e, s') \<Longrightarrow>
      ok s' \<and> (\<exists>k. contents s' = contents s @ take k t \<and> (e = E_NONE \<longrightarrow> length t \<le> k))"
    and putc: "ok s \<Longrightarrow> w_putc w s c = (e, s') \<Longrightarrow>
      ok s' \<and> contents s' = contents s @ (if e = E_NONE then [c] else [])"
    and nterm: "ok s \<Longrightarrow> w_null_terminate w s = (e, s') \<Longrightarrow> ok s' \<and> contents s' = contents s"
begin

definition emits :: "'s \<Rightarrow> derr_type \<times> 's \<Rightarrow> byte list \<Rightarrow> bool" where
  "emits s r t \<longleftrightarrow> (case r of (e, s') \<Rightarrow>
     ok s' \<and> (\<exists>k. contents s' = contents s @ take k t \<and> (e = E_NONE \<longrightarrow> length t \<le> k)))"

lemma emits_nil [simp, intro]: "ok s \<Longrightarrow> emits s (E_NONE, s) []"
  by (simp add: emits_def)

lemma emits_puts [intro]: "ok s \<Longrightarrow> emits s (w_puts w s t) t"
  using puts by (fastforce simp: emits_def split: prod.splits)

lemma emits_putc [intro]: "ok s \<Longrightarrow> emits s (w_putc w s c) [c]"
proof -
  assume "ok s"
  moreover obtain e s' where "w_putc w s c = (e, s')" by force
  ultimately show ?thesis using putc [of s c e s']
    by (auto simp: emits_def intro: exI [of _ 0] exI [of _ 1])
qed

lemma emits_bind:
  assumes "emits s r t1" and "\<And>s'. ok s' \<Longrightarrow> emits s' (k s') t2"
  shows "emits s (ifok r k id) (t1 @ t2)"
proof (cases r)
  case (Pair e s1)
  with assms(1) obtain n where n: "ok s1" "contents s1 = contents s @ take n t1" "e = E_NONE \<longrightarrow> length t1 \<le> n"
    by (auto simp: emits_def)
  show ?thesis
  proof (cases "e = E_NONE")
    case True
    obtain e2 s2 where k: "k s1 = (e2, s2)" by force
    with assms(2) [OF n(1)] obtain m where m: "ok s2" "contents s2 = contents s1 @ take m t2"
      "e2 = E_NONE \<longrightarrow> length t2 \<le> m" by (auto simp: emits_def)
    with n True Pair k show ?thesis
      by (auto simp: emits_def intro!: exI [of _ "length t1 + m"])
  next
    case False
    with n Pair show ?thesis
      by (auto simp: emits_def intro!: exI [of _ "min n (length t1)"] simp: min_def)
  qed
qed

lemma emits_bind_Cons:
  assumes "emits s r [c]" and "\<And>s'. ok s' \<Longrightarrow> emits s' (k s') t2"
  shows "emits s (ifok r k id) (c # t2)"
  using emits_bind [OF assms] by simp

lemma emits_dbg_char: "ok s \<Longrightarrow> emits s (dbg_char w c s) (dbg_text c)"
proof -
  assume "ok s"
  moreover have "emits s (ifok (w_puts w s [92, 120])
      (\<lambda>o1. ifok (w_putc w o1 (hex_high_nibble c)) (\<lambda>o2. w_putc w o2 (hex_low_nibble c)) id) id)
      ([92, 120] @ [hex_high_nibble c, hex_low_nibble c])"
    using calculation by (intro emits_bind emits_bind_Cons) auto
  ultimately show ?thesis by (auto simp: dbg_char_def dbg_text.simps)
qed

lemma emits_strn_dbg: "ok s \<Longrightarrow> emits s (fmt_strn_dbg w d s) (concat (map dbg_text d))"
  by (induction d arbitrary: s) (auto intro!: emits_bind emits_dbg_char)

lemma emits_hex:
  "ok s \<Longrightarrow> emits s (fmt_dstr_hex w d s) (concat (map (\<lambda>u. [hex_high_nibble u, hex_low_nibble u]) d))"
  by (induction d arbitrary: s) (auto intro!: emits_bind_Cons)

lemma emits_arg: "ok s \<Longrightarrow> emits s (arg_fmt w a s) (arg_text a)"
  by (cases a) (auto simp: emits_strn_dbg emits_hex split: option.splits)

lemma emits_rest: "ok s \<Longrightarrow> emits s (fmt_rest w as s) (concat (map (\<lambda>a. 32 # arg_text a) as))"
  by (induction as arbitrary: s) (auto intro!: emits_bind_Cons emits_bind emits_arg)

lemma emits_fmt: "ok s \<Longrightarrow> emits s (fmt_unlocked w fstr args s) (fmt_text fstr args)"
proof (induction fstr args arbitrary: s rule: fmt_text.induct)
  case (3 c cc cs args)
  then show ?case by (auto intro!: emits_bind_Cons emits_bind emits_arg split: list.splits)
qed (auto intro!: emits_bind_Cons emits_rest)

lemma fmt_quiet_emits:
  assumes "ok s" and "fmt_quiet w s fstr args = (e, s')"
  shows "ok s' \<and> (\<exists>k. contents s' = contents s @ take k (fmt_text fstr args) \<and>
    (e = E_NONE \<longrightarrow> contents s' = contents s @ fmt_text fstr args))"
proof -
  obtain e1 s1 where f: "fmt_unlocked w fstr args s = (e1, s1)" by force
  from emits_fmt [OF assms(1), of fstr args] f obtain k where
    k: "ok s1" "contents s1 = contents s @ take k (fmt_text fstr args)"
      "e1 = E_NONE \<longrightarrow> length (fmt_text fstr args) \<le> k"
    by (auto simp: emits_def)
  obtain e2 s2 where n: "w_null_terminate w s1 = (e2, s2)" by force
  from nterm [OF k(1) n] f n assms(2) k show ?thesis
    by (auto simp: fmt_quiet_def split: if_splits intro: exI [of _ "length (fmt_text fstr args)"])
qed

end

text \<open>A writer whose output can always take more.\<close>

locale reliable_writer = writer +
  fixes ready :: "'a \<Rightarrow> bool"
  assumes puts_ready: "ok s \<Longrightarrow> ready s \<Longrightarrow> \<exists>s'. w_puts w s t = (E_NONE, s') \<and> ready s'"
    and putc_ready: "ok s \<Longrightarrow> ready s \<Longrightarrow> \<exists>s'. w_putc w s c = (E_NONE, s') \<and> ready s'"
    and nterm_ready: "ok s \<Longrightarrow> ready s \<Longrightarrow> \<exists>s'. w_null_terminate w s = (E_NONE, s') \<and> ready s'"
begin

definition succeeds :: "'a \<Rightarrow> derr_type \<times> 'a \<Rightarrow> bool" where
  "succeeds s r \<longleftrightarrow> (ok s \<and> ready s \<longrightarrow> (\<exists>s'. r = (E_NONE, s') \<and> ok s' \<and> ready s'))"

lemma succeeds_puts [intro]: "succeeds s (w_puts w s t)"
  using puts_ready puts by (fastforce simp: succeeds_def)

lemma succeeds_putc [intro]: "succeeds s (w_putc w s c)"
  using putc_ready putc by (fastforce simp: succeeds_def)

lemma succeeds_none [intro]: "succeeds s (E_NONE, s)"
  by (simp add: succeeds_def)

lemma succeeds_bind: "succeeds s r \<Longrightarrow> (\<And>s'. succeeds s' (k s')) \<Longrightarrow> succeeds s (ifok r k id)"
  by (force simp: succeeds_def)

lemma succeeds_dbg_char: "succeeds s (dbg_char w c s)"
  by (auto simp: dbg_char_def intro!: succeeds_bind)

lemma succeeds_strn_dbg: "succeeds s (fmt_strn_dbg w d s)"
  by (induction d arbitrary: s) (auto intro!: succeeds_bind succeeds_dbg_char)

lemma succeeds_hex: "succeeds s (fmt_dstr_hex w d s)"
  by (induction d arbitrary: s) (auto intro!: succeeds_bind)

lemma succeeds_arg: "succeeds s (arg_fmt w a s)"
  by (cases a) (auto intro: succeeds_strn_dbg succeeds_hex)

lemma succeeds_rest: "succeeds s (fmt_rest w as s)"
  by (induction as arbitrary: s) (auto intro!: succeeds_bind succeeds_arg)

lemma succeeds_fmt: "succeeds s (fmt_unlocked w fstr args s)"
proof (induction fstr args arbitrary: s rule: fmt_text.induct)
  case (3 c cc cs args)
  then show ?case by (auto intro!: succeeds_bind succeeds_arg split: list.splits)
qed (auto intro!: succeeds_bind succeeds_rest)

lemma fmt_quiet_succeeds:
  assumes "ok s" and "ready s"
  shows "\<exists>s'. fmt_quiet w s fstr args = (E_NONE, s') \<and> ok s' \<and> ready s' \<and>
    contents s' = contents s @ fmt_text fstr args"
proof -
  from succeeds_fmt [of s fstr args] assms obtain s1 where
    s1: "fmt_unlocked w fstr args s = (E_NONE, s1)" "ok s1" "ready s1" by (auto simp: succeeds_def)
  from nterm_ready [OF s1(2,3)] obtain s2 where s2: "w_null_terminate w s1 = (E_NONE, s2)" "ready s2"
    by blast
  with s1 have "fmt_quiet w s fstr args = (E_NONE, s2)" by (simp add: fmt_quiet_def)
  with fmt_quiet_emits [OF assms(1) this] s2 show ?thesis by auto
qed

end

section \<open>The buffer writer\<close>

lemma writer_dstr_puts_ok:
  assumes "dstr_ok s" and "writer_dstr_puts A s t = (e, s')"
  shows "dstr_ok s' \<and> (\<exists>k. ddata s' = ddata s @ take k t \<and> (e = E_NONE \<longrightarrow> length t \<le> k))"
proof (cases "t = [] \<or> dlen s + length t \<le> dsize s")
  case True
  then show ?thesis
    using assms by (auto simp: writer_dstr_puts_def Let_def dstr_ok_def min_def split: if_splits
        intro: exI [of _ "length t"])
next
  case False
  then show ?thesis
  proof (cases rule: dstr_grow_quiet_cases [where m = "dlen s + length t" and d = s and A = A])
    case (grown n)
    with False assms show ?thesis
      by (auto simp: writer_dstr_puts_def Let_def dstr_ok_def intro: exI [of _ "length t"])
  qed (use False assms in \<open>auto simp: writer_dstr_puts_def Let_def dstr_ok_def\<close>)
qed

lemma null_terminate_data:
  assumes "dstr_ok s" and "dstr_null_terminate_quiet A s = (e, s')"
  shows "dstr_ok s' \<and> ddata s' = ddata s"
proof -
  have "dstr_ok d' \<and> ddata d' = ddata s" if "dstr_grow_quiet A s m = (e', d')" for m e' d'
    using that assms(1)
    by (cases rule: dstr_grow_quiet_cases [where m = m and d = s and A = A]) (auto simp: dstr_ok_def)
  with assms show ?thesis by (auto simp: dstr_null_terminate_quiet_def split: if_splits)
qed

lemma writer_dstr_putc_append: "writer_dstr_putc A d c = dstr_append_quiet A d [c]"
  unfolding dstr_append_char_eq [symmetric] writer_dstr_putc_def dstr_append_char_def ..

interpretation dstr_writer: writer "writer_dstr A" ddata dstr_ok for A
proof
  fix s t e s' assume "dstr_ok s" "w_puts (writer_dstr A) s t = (e, s')"
  then show "dstr_ok s' \<and> (\<exists>k. ddata s' = ddata s @ take k t \<and> (e = E_NONE \<longrightarrow> length t \<le> k))"
    by (intro writer_dstr_puts_ok) (auto simp: writer_dstr_def)
next
  fix s c e s' assume ok: "dstr_ok s" and "w_putc (writer_dstr A) s c = (e, s')"
  then have "dstr_append_quiet A s [c] = (e, s')" by (simp add: writer_dstr_def writer_dstr_putc_append)
  then show "dstr_ok s' \<and> ddata s' = ddata s @ (if e = E_NONE then [c] else [])"
    using ok by (cases rule: dstr_append_cases [OF ok, of A "[c]"]) auto
next
  fix s e s' assume "dstr_ok s" "w_null_terminate (writer_dstr A) s = (e, s')"
  then show "dstr_ok s' \<and> ddata s' = ddata s"
    by (intro null_terminate_data) (auto simp: writer_dstr_def)
qed


lemma grow_alloc_ok: "\<not> dfixed d \<Longrightarrow> \<exists>d'. dstr_grow_quiet alloc_ok d m = (E_NONE, d') \<and> \<not> dfixed d'"
  by (auto simp: dstr_grow_quiet_def Let_def)

interpretation growable_writer: reliable_writer "writer_dstr alloc_ok" ddata dstr_ok "\<lambda>d. \<not> dfixed d"
proof
  fix s :: dstr and t assume "dstr_ok s" "\<not> dfixed s"
  then show "\<exists>s'. w_puts (writer_dstr alloc_ok) s t = (E_NONE, s') \<and> \<not> dfixed s'"
    using grow_alloc_ok [of s "dlen s + length t"]
    by (auto simp: writer_dstr_def writer_dstr_puts_def Let_def)
next
  fix s :: dstr and c assume "dstr_ok s" "\<not> dfixed s"
  then show "\<exists>s'. w_putc (writer_dstr alloc_ok) s c = (E_NONE, s') \<and> \<not> dfixed s'"
    using dstr_append_grows [of s "[c]"] by (auto simp: writer_dstr_def writer_dstr_putc_append)
next
  fix s :: dstr assume "dstr_ok s" "\<not> dfixed s"
  then show "\<exists>s'. w_null_terminate (writer_dstr alloc_ok) s = (E_NONE, s') \<and> \<not> dfixed s'"
    using grow_alloc_ok [of s "dlen s + 1"]
    by (auto simp: writer_dstr_def dstr_null_terminate_quiet_def)
qed

lemma FMT_grows:
  assumes "dstr_ok d" and "\<not> dfixed d"
  shows "\<exists>d'. FMT alloc_ok d f args = (E_NONE, d') \<and> dstr_ok d' \<and> \<not> dfixed d' \<and>
    ddata d' = ddata d @ fmt_text (lit f) args"
  using growable_writer.fmt_quiet_succeeds [OF assms] by (simp add: FMT_def)

lemma FMT_data:
  "dstr_ok d \<Longrightarrow> FMT A d f args = (e, d') \<Longrightarrow> dstr_ok d' \<and>
   (e = E_NONE \<longrightarrow> ddata d' = ddata d @ fmt_text (lit f) args)"
  using dstr_writer.fmt_quiet_emits [of d A "lit f" args e d'] by (auto simp: FMT_def)

section \<open>Marshalling into a growable buffer\<close>

text \<open>
  The shape every marshaller has: a chain of writes that, on a growable buffer with a
  willing allocator, succeeds and appends a text.
\<close>

definition appends :: "dstr \<Rightarrow> derr_type \<times> dstr \<Rightarrow> byte list \<Rightarrow> bool" where
  "appends d r t \<longleftrightarrow> (dstr_ok d \<and> \<not> dfixed d \<longrightarrow>
     (\<exists>d'. r = (E_NONE, d') \<and> dstr_ok d' \<and> \<not> dfixed d' \<and> ddata d' = ddata d @ t))"

lemma appendsD:
  assumes "appends d r t" and "dstr_ok d" and "\<not> dfixed d"
  obtains d' where "r = (E_NONE, d')" "dstr_ok d'" "\<not> dfixed d'" "ddata d' = ddata d @ t"
  using assms by (auto simp: appends_def)

lemma appends_FMT: "fmt_text (lit f) args = t \<Longrightarrow> appends d (FMT alloc_ok d f args) t"
  using FMT_grows [of d f args] by (auto simp: appends_def)

lemma appends_append: "appends d (dstr_append alloc_ok d t) t"
  using dstr_append_grows [of d t] by (auto simp: appends_def)

lemma appends_none: "appends d (E_NONE, d) []"
  by (simp add: appends_def)

lemma appends_bind:
  "appends d r t1 \<Longrightarrow> (\<And>d'. appends d' (k d') t2) \<Longrightarrow> t = t1 @ t2 \<Longrightarrow> appends d (ifok r k id) t"
  by (force simp: appends_def)

section \<open>Properties\<close>

text \<open>
  C29. Formatting into a well-formed buffer keeps it well formed, never touches what was
  there before, and appends a prefix of the text the format call denotes; when it reports
  success the whole text is there, and with a growable buffer and a willing allocator it
  always succeeds.
\<close>

theorem FMT_correct:
  assumes "dstr_ok d" and "FMT A d f args = (e, d')"
  shows "dstr_ok d' \<and> (\<exists>k. ddata d' = ddata d @ take k (fmt_text (lit f) args)) \<and>
    (e = E_NONE \<longrightarrow> ddata d' = ddata d @ fmt_text (lit f) args) \<and>
    (A = alloc_ok \<and> \<not> dfixed d \<longrightarrow> e = E_NONE)"
  using dstr_writer.fmt_quiet_emits [of d A "lit f" args e d'] FMT_grows [of d f args] assms
  by (auto simp: FMT_def)

theorem FMT_correct_witness:
  "\<exists>e d'. FMT alloc_ok zero_dstr ''%x:%x'' [FU 12, FI (-3)] = (e, d') \<and> e = E_NONE \<and>
     ddata d' = lit ''12:-3''"
proof -
  obtain e d' where r: "FMT alloc_ok zero_dstr ''%x:%x'' [FU 12, FI (-3)] = (e, d')" by force
  have "\<not> dfixed zero_dstr" "ddata zero_dstr = []" by (simp_all add: zero_dstr_def)
  with FMT_correct [OF dstr_ok_zero r] r show ?thesis
    by (simp add: dec_int_def dec_digits.simps)
qed

end
