(* ===== verification/Maildir_Log.thy ===== *)
theory Maildir_Log
  imports Fmt Dstr_Search
begin

text \<open>
  What the local mail store writes to disk: the keys and values of its message log
  (\<open>libimaildir/log.c\<close>), the records they describe (\<open>libimaildir/msg.c\<close>, \<open>msg.h\<close>) and the
  file names of messages (\<open>libimaildir/name.c\<close>).  Writers append to a \<open>dstr\<close> and return an
  error type with it; parsers return an error (\<open>Inl\<close>) or a value (\<open>Inr\<close>).  \<open>unsigned int\<close>
  fields are 32-bit words, \<open>uint64_t\<close> and \<open>size_t\<close> fields 64-bit words, \<open>int\<close> fields integers.
  A boolean argument \<open>mem\<close> stands for the answer of the \<open>malloc\<close> of the record.
\<close>

section \<open>Records\<close>

record msg_key =
  uid_up :: u32
  uid_local :: u32

datatype log_key = LOG_KEY_UIDVLDS | LOG_KEY_HIMODSEQUP | LOG_KEY_MODSEQDN | LOG_KEY_MSG msg_key

record imap_time =
  year :: int
  month :: int
  day :: int
  hour :: int
  tmin :: int
  sec :: int
  z_hour :: int
  z_min :: int

record msg_flags =
  answered :: bool
  flagged :: bool
  seen :: bool
  draft :: bool
  deleted :: bool

datatype msg_state = MSG_UNFILLED | MSG_FILLED | MSG_EXPUNGED | MSG_NOT4ME

datatype msg_expunge_state = MSG_EXPUNGE_UNPUSHED | MSG_EXPUNGE_PUSHED

record msg =
  mkey :: msg_key
  uid_dn :: u32
  mlength :: u64
  internaldate :: imap_time
  flags :: msg_flags
  modseq :: u64
  filename :: dstr
  mstate :: msg_state

record msg_expunge =
  ekey :: msg_key
  euid_dn :: u32
  estate :: msg_expunge_state
  emodseq :: u64

definition no_flags :: msg_flags where
  "no_flags = \<lparr>answered = False, flagged = False, seen = False, draft = False, deleted = False\<rparr>"

definition msg_new ::
  "bool \<Rightarrow> msg_key \<Rightarrow> u32 \<Rightarrow> msg_state \<Rightarrow> imap_time \<Rightarrow> msg_flags \<Rightarrow> u64 \<Rightarrow> derr_type + msg" where
  "msg_new mem key ud state intdate fl ms =
     (if \<not> mem then Inl E_NOMEM
      else Inr \<lparr>mkey = key, uid_dn = ud, mlength = 0, internaldate = intdate, flags = fl,
                modseq = ms, filename = zero_dstr, mstate = state\<rparr>)"

definition msg_set_file :: "allocator \<Rightarrow> msg \<Rightarrow> u64 \<Rightarrow> byte list \<Rightarrow> derr_type \<times> msg" where
  "msg_set_file A m len name =
     (if \<not> dnull (filename m) then (E_INTERNAL, m)
      else ifok (dstr_new A (filename m) (length name))
        (\<lambda>f. ifok (dstr_copystrn A name (length name) f)
           (\<lambda>f'. (E_NONE, m\<lparr>filename := f', mlength := len\<rparr>))
           (\<lambda>f'. m\<lparr>filename := dstr_free f'\<rparr>))
        (\<lambda>f. m\<lparr>filename := f\<rparr>))"

definition msg_expunge_new ::
  "bool \<Rightarrow> msg_key \<Rightarrow> u32 \<Rightarrow> msg_expunge_state \<Rightarrow> u64 \<Rightarrow> derr_type + msg_expunge" where
  "msg_expunge_new mem key ud state ms =
     (if \<not> mem then Inl E_NOMEM
      else Inr \<lparr>ekey = key, euid_dn = ud, estate = state, emodseq = ms\<rparr>)"

section \<open>Splitting into fields\<close>

text \<open>
  The output variables of a split: a field that was not assigned is a zeroized \<open>dstr_t\<close>.
  The patterns below are not empty, so the splits return (\<open>do_dstr_split2_eq\<close>).
\<close>

definition field :: "byte list \<Rightarrow> token list \<Rightarrow> nat \<Rightarrow> byte list" where
  "field text toks i = (if i < length toks then tok_view text (toks ! i) else [])"

definition split_soft_fields :: "byte list \<Rightarrow> string \<Rightarrow> nat \<Rightarrow> nat \<times> (nat \<Rightarrow> byte list)" where
  "split_soft_fields text pat nouts =
     (case dstr_split2_soft (dstr_wrap text False) (lit pat) nouts of
        None \<Rightarrow> (0, \<lambda>_. [])
      | Some (len, toks) \<Rightarrow> (len, field text toks))"

abbreviation tou :: "byte list \<Rightarrow> (u32 \<Rightarrow> derr_type + 'a) \<Rightarrow> derr_type + 'a" where
  "tou s k \<equiv> (case dstr_tou_quiet s 10 of (e, v) \<Rightarrow> if e \<noteq> E_NONE then Inl e else k v)"

abbreviation tou64 :: "byte list \<Rightarrow> (u64 \<Rightarrow> derr_type + 'a) \<Rightarrow> derr_type + 'a" where
  "tou64 s k \<equiv> (case dstr_tou64_quiet s 10 of (e, v) \<Rightarrow> if e \<noteq> E_NONE then Inl e else k v)"

abbreviation tosize :: "byte list \<Rightarrow> (u64 \<Rightarrow> derr_type + 'a) \<Rightarrow> derr_type + 'a" where
  "tosize s k \<equiv> (case dstr_tosize_quiet s 10 of (e, v) \<Rightarrow> if e \<noteq> E_NONE then Inl e else k v)"

abbreviation toi :: "byte list \<Rightarrow> (int \<Rightarrow> derr_type + 'a) \<Rightarrow> derr_type + 'a" where
  "toi s k \<equiv> (case dstr_toi_quiet s 10 of (e, v) \<Rightarrow> if e \<noteq> E_NONE then Inl e else k v)"

section \<open>Log keys\<close>

definition log_key_marshal :: "allocator \<Rightarrow> log_key \<Rightarrow> dstr \<Rightarrow> derr_type \<times> dstr" where
  "log_key_marshal A lk out =
     (case lk of
        LOG_KEY_UIDVLDS \<Rightarrow> FMT A out ''v'' []
      | LOG_KEY_HIMODSEQUP \<Rightarrow> FMT A out ''h'' []
      | LOG_KEY_MODSEQDN \<Rightarrow> FMT A out ''d'' []
      | LOG_KEY_MSG k \<Rightarrow> FMT A out ''m.%x.%x'' [FU (unat (uid_up k)), FU (unat (uid_local k))])"

definition log_key_unmarshal :: "byte list \<Rightarrow> derr_type + log_key" where
  "log_key_unmarshal key =
     (case key of
        [] \<Rightarrow> Inl E_VALUE
      | c # _ \<Rightarrow>
          if c = 118 then (if length key > 1 then Inl E_VALUE else Inr LOG_KEY_UIDVLDS)
          else if c = 104 then (if length key > 1 then Inl E_VALUE else Inr LOG_KEY_HIMODSEQUP)
          else if c = 100 then (if length key > 1 then Inl E_VALUE else Inr LOG_KEY_MODSEQDN)
          else if c = 109 then
            (case dstr_split2 (dstr_wrap key False) (lit ''.'') 3 of
               None \<Rightarrow> Inl E_INTERNAL
             | Some (e, len, toks) \<Rightarrow>
                 if e \<noteq> E_NONE then Inl e
                 else if len \<noteq> 3 then Inl E_VALUE
                 else tou (field key toks 1) (\<lambda>up. tou (field key toks 2) (\<lambda>loc.
                   Inr (LOG_KEY_MSG \<lparr>uid_up = up, uid_local = loc\<rparr>))))
          else Inl E_VALUE)"

section \<open>UID validities and dates\<close>

definition marshal_uidvlds :: "allocator \<Rightarrow> u32 \<Rightarrow> u32 \<Rightarrow> dstr \<Rightarrow> derr_type \<times> dstr" where
  "marshal_uidvlds A up dn out = FMT A out ''%x:%x'' [FU (unat up), FU (unat dn)]"

definition parse_uidvlds :: "byte list \<Rightarrow> derr_type + u32 \<times> u32" where
  "parse_uidvlds inp =
     (case split_soft_fields inp '':'' 3 of (n, f) \<Rightarrow>
        if n \<noteq> 2 then Inl E_PARAM
        else tou (f 0) (\<lambda>up. tou (f 1) (\<lambda>dn. Inr (up, dn))))"

definition marshal_date :: "allocator \<Rightarrow> imap_time \<Rightarrow> dstr \<Rightarrow> derr_type \<times> dstr" where
  "marshal_date A t out =
     FMT A out ''%x.%x.%x.%x.%x.%x.%x.%x''
       [FI (year t), FI (month t), FI (day t), FI (hour t), FI (tmin t), FI (sec t),
        FI (z_hour t), FI (z_min t)]"

definition parse_date :: "allocator \<Rightarrow> byte list \<Rightarrow> derr_type + imap_time" where
  "parse_date A d =
     (case dstr_split A (dstr_wrap d False) (lit ''.'') (list_var dstr_esz 8) of
        None \<Rightarrow> Inl E_INTERNAL
      | Some (e, l) \<Rightarrow>
          if e \<noteq> E_NONE then Inl e
          else if length (lst_data l) \<noteq> 8 then Inl E_PARAM
          else let f = field d (lst_data l) in
            toi (f 0) (\<lambda>y. toi (f 1) (\<lambda>mo. toi (f 2) (\<lambda>da. toi (f 3) (\<lambda>h.
            toi (f 4) (\<lambda>mi. toi (f 5) (\<lambda>s. toi (f 6) (\<lambda>zh. toi (f 7) (\<lambda>zm.
              Inr \<lparr>year = y, month = mo, day = da, hour = h, tmin = mi, sec = s,
                   z_hour = zh, z_min = zm\<rparr>)))))))))"

section \<open>Flags\<close>

fun parse_flags_loop :: "byte list \<Rightarrow> msg_flags \<Rightarrow> derr_type + msg_flags" where
  "parse_flags_loop [] temp = Inr temp"
| "parse_flags_loop (c # cs) temp =
     (if c = 97 \<or> c = 65 then parse_flags_loop cs (temp\<lparr>answered := True\<rparr>)
      else if c = 102 \<or> c = 70 then parse_flags_loop cs (temp\<lparr>flagged := True\<rparr>)
      else if c = 115 \<or> c = 83 then parse_flags_loop cs (temp\<lparr>seen := True\<rparr>)
      else if c = 100 \<or> c = 68 then parse_flags_loop cs (temp\<lparr>draft := True\<rparr>)
      else if c = 120 \<or> c = 88 then parse_flags_loop cs (temp\<lparr>deleted := True\<rparr>)
      else Inl E_PARAM)"

definition parse_flags :: "byte list \<Rightarrow> derr_type + msg_flags" where
  "parse_flags s = parse_flags_loop s no_flags"

section \<open>Log values\<close>

definition log_format_version :: "byte list" where
  "log_format_version = lit ''1''"

definition append_if :: "allocator \<Rightarrow> bool \<Rightarrow> string \<Rightarrow> dstr \<Rightarrow> derr_type \<times> dstr" where
  "append_if A b s out = (if b then dstr_append A out (lit s) else (E_NONE, out))"

definition marshal_message :: "allocator \<Rightarrow> msg \<Rightarrow> dstr \<Rightarrow> derr_type \<times> dstr" where
  "marshal_message A m out =
     ifok (FMT A out ''%x:%x:%x:'' [FD log_format_version, FU (unat (uid_dn m)), FU (unat (modseq m))])
       (\<lambda>o1.
         if mstate m = MSG_EXPUNGED then (E_INTERNAL, o1)
         else let statechar = (case mstate m of MSG_UNFILLED \<Rightarrow> lit ''u'' | MSG_FILLED \<Rightarrow> lit ''f''
                                | _ \<Rightarrow> lit ''n'') in
         ifok (FMT A o1 ''%x:'' [FD statechar]) (\<lambda>o2.
         ifok (append_if A (answered (flags m)) ''A'' o2) (\<lambda>o3.
         ifok (append_if A (draft (flags m)) ''D'' o3) (\<lambda>o4.
         ifok (append_if A (flagged (flags m)) ''F'' o4) (\<lambda>o5.
         ifok (append_if A (seen (flags m)) ''S'' o5) (\<lambda>o6.
         ifok (append_if A (deleted (flags m)) ''X'' o6) (\<lambda>o7.
         ifok (dstr_append A o7 (lit '':'')) (\<lambda>o8. marshal_date A (internaldate m) o8)
           id) id) id) id) id) id) id) id"

definition marshal_expunge :: "allocator \<Rightarrow> msg_expunge \<Rightarrow> dstr \<Rightarrow> derr_type \<times> dstr" where
  "marshal_expunge A x out =
     ifok (FMT A out ''%x:%x:%x:'' [FD log_format_version, FU (unat (euid_dn x)), FU (unat (emodseq x))])
       (\<lambda>o1. let statechar = (case estate x of MSG_EXPUNGE_UNPUSHED \<Rightarrow> lit ''e''
                              | MSG_EXPUNGE_PUSHED \<Rightarrow> lit ''x'')
        in FMT A o1 ''%x'' [FD statechar]) id"

definition parse_value ::
  "allocator \<Rightarrow> bool \<Rightarrow> byte list \<Rightarrow> msg_key \<Rightarrow> derr_type + (msg + msg_expunge)" where
  "parse_value A mem inp key =
     (case split_soft_fields inp '':'' 2 of (_, v) \<Rightarrow>
      if dstr_cmp (dstr_wrap (v 0) False) (dstr_wrap log_format_version True) \<noteq> 0 then Inl E_PARAM
      else (case split_soft_fields (v 1) '':'' 6 of (n, f) \<Rightarrow>
        if n \<noteq> 5 \<and> n \<noteq> 3 then Inl E_PARAM
        else tou (f 0) (\<lambda>ud. tou64 (f 1) (\<lambda>ms.
          if length (f 2) \<noteq> 1 then Inl E_PARAM
          else let c = hd (f 2) in
            if c = 117 \<or> c = 102 \<or> c = 110 then
              if n \<noteq> 5 then Inl E_VALUE
              else let state = (if c = 117 then MSG_UNFILLED else if c = 110 then MSG_NOT4ME
                                else MSG_FILLED) in
                (case parse_flags (f 3) of Inl e \<Rightarrow> Inl e | Inr fl \<Rightarrow>
                  (case parse_date A (f 4) of Inl e \<Rightarrow> Inl e | Inr intdate \<Rightarrow>
                    (case msg_new mem key ud state intdate fl ms of
                       Inl e \<Rightarrow> Inl e | Inr m \<Rightarrow> Inr (Inl m))))
            else if c = 101 \<or> c = 120 then
              if n \<noteq> 3 then Inl E_VALUE
              else let state = (if c = 101 then MSG_EXPUNGE_UNPUSHED else MSG_EXPUNGE_PUSHED) in
                (case msg_expunge_new mem key ud state ms of
                   Inl e \<Rightarrow> Inl e | Inr x \<Rightarrow> Inr (Inr x))
            else Inl E_VALUE))))"

section \<open>File names\<close>

definition deliv_id_ver :: nat where
  "deliv_id_ver = 1"

record name_out =
  n_epoch :: u64
  n_key :: msg_key
  n_len :: u64
  n_host :: "dstr option"
  n_info :: "dstr option"

text \<open>
  \<open>Inr None\<close>: the function returned success without assigning any of its outputs.
  \<open>host\<close> and \<open>info\<close> are the caller's output buffers, \<open>None\<close> when it passed NULL.
\<close>

definition copy_out :: "allocator \<Rightarrow> byte list \<Rightarrow> dstr option \<Rightarrow> derr_type + dstr option" where
  "copy_out A s out =
     (case out of None \<Rightarrow> Inr None
      | Some d \<Rightarrow> (case dstr_copy A (dstr_wrap s False) d of
          (e, d') \<Rightarrow> if e \<noteq> E_NONE then Inl e else Inr (Some d')))"

definition maildir_name_parse ::
  "allocator \<Rightarrow> byte list \<Rightarrow> dstr option \<Rightarrow> dstr option \<Rightarrow> derr_type + name_out option" where
  "maildir_name_parse A name host info =
     (if length name < 16 then Inr None
      else (case dstr_split A (dstr_wrap name False) (lit '':'') (list_var dstr_esz 2) of
        None \<Rightarrow> Inl E_INTERNAL
      | Some (e, major) \<Rightarrow>
          if e = E_FIXEDSIZE then Inl E_PARAM
          else if e \<noteq> E_NONE then Inl e
          else let uniq = field name (lst_data major) 0 in
          (case dstr_split_soft A (dstr_wrap uniq False) (lit ''.'') (list_var dstr_esz 3) of
            None \<Rightarrow> Inl E_INTERNAL
          | Some (e, minor) \<Rightarrow>
            if e \<noteq> E_NONE then Inl e
            else if length (lst_data minor) \<noteq> 3 then Inl E_PARAM
            else let mf = field uniq (lst_data minor) in
            (case split_soft_fields (mf 1) '','' 5 of (nfields, f) \<Rightarrow>
              tou (f 0) (\<lambda>version.
              if unat version \<noteq> deliv_id_ver then Inl E_INTERNAL
              else if nfields \<noteq> 4 then Inl E_PARAM
              else tou64 (mf 0) (\<lambda>ep. tou (f 1) (\<lambda>up. tou (f 2) (\<lambda>loc.
              if (up \<noteq> 0 \<and> loc \<noteq> 0) \<or> (up = 0 \<and> loc = 0) then Inl E_PARAM
              else tosize (f 3) (\<lambda>len.
              (case copy_out A (mf 2) host of Inl e \<Rightarrow> Inl e | Inr host' \<Rightarrow>
              (case (if length (lst_data major) = 2 then copy_out A (field name (lst_data major) 1) info
                     else Inr (map_option (\<lambda>d. d\<lparr>ddata := []\<rparr>) info)) of
                Inl e \<Rightarrow> Inl e
              | Inr info' \<Rightarrow>
                Inr (Some \<lparr>n_epoch = ep, n_key = \<lparr>uid_up = up, uid_local = loc\<rparr>, n_len = len,
                           n_host = host', n_info = info'\<rparr>))))))))))))"

definition maildir_name_mod_hostname :: "allocator \<Rightarrow> byte list \<Rightarrow> dstr \<Rightarrow> derr_type \<times> dstr" where
  "maildir_name_mod_hostname A host out =
     (case dstr_recode A (dstr_wrap host False) out [lit ''/'', lit '':''] [lit ''057'', lit ''072''] True of
        None \<Rightarrow> (E_INTERNAL, out)
      | Some r \<Rightarrow> r)"

definition maildir_name_write ::
  "allocator \<Rightarrow> dstr \<Rightarrow> u64 \<Rightarrow> msg_key \<Rightarrow> u64 \<Rightarrow> byte list \<Rightarrow> byte list option \<Rightarrow> derr_type \<times> dstr" where
  "maildir_name_write A out epoch key len host info =
     ifok (FMT A out ''%x.%x,%x,%x,%x.''
             [FU (unat epoch), FU deliv_id_ver, FU (unat (uid_up key)), FU (unat (uid_local key)),
              FU (unat len)])
       (\<lambda>o1. ifok (maildir_name_mod_hostname A host o1)
         (\<lambda>o2. case info of
            Some i \<Rightarrow> if length i > 0 then FMT A o2 '':%x'' [FD i] else (E_NONE, o2)
          | None \<Rightarrow> (E_NONE, o2)) id) id"


section \<open>Fields of a joined text\<close>

definition fields_of :: "byte list list \<Rightarrow> nat \<Rightarrow> byte list" where
  "fields_of fs i = (if i < length fs then fs ! i else [])"

lemma field_view: "map (tok_view t) toks = fs \<Longrightarrow> field t toks = fields_of fs"
  by (auto simp: field_def fields_of_def fun_eq_iff)

lemma ddata_wrap [simp]: "ddata (dstr_wrap t b) = t"
  by (simp add: dstr_wrap_def)

lemma split_soft_fields_join:
  assumes "lit pat = [c]" and "fs \<noteq> []" and "\<forall>f\<in>set fs. c \<notin> set f" and "length fs \<le> nouts"
  shows "split_soft_fields (join [c] fs) pat nouts = (length fs, fields_of fs)"
proof -
  from split2_fields [OF assms(2-4), of "dstr_wrap (join [c] fs) False" True]
  obtain toks where "do_dstr_split2 (dstr_wrap (join [c] fs) False) [c] nouts True =
      Some (E_NONE, length fs, toks)" "map (tok_view (join [c] fs)) toks = fs"
    by auto
  with assms(1) field_view [OF this(2)] show ?thesis
    by (simp add: split_soft_fields_def dstr_split2_soft_def)
qed

lemma split_soft_fields_head:
  assumes "lit pat = [c]" and "c \<notin> set v"
  shows "split_soft_fields (v @ c # rest) pat 2 = (2, fields_of [v, rest])"
proof -
  let ?t = "dstr_wrap (v @ c # rest) False"
  have ref: "split_ref [c] (v @ c # rest) = v # split_ref [c] rest"
    using assms(2) by (subst split_ref.simps) (simp add: find_sub_sep_app)
  have "\<exists>toks. do_dstr_split2 ?t [c] 2 True = Some (E_NONE, 2, toks) \<and>
    map (tok_view (v @ c # rest)) toks = [v, rest]"
  proof (cases "split_ref [c] rest" rule: remdups_adj.cases)
    case 1
    then show ?thesis using split_ref_nonempty by blast
  next
    case (2 w)
    with join_split_ref [of "[c]" rest] have "w = rest" by simp
    with 2 show ?thesis by (simp add: do_dstr_split2_eq ref Let_def tok_view_def)
  next
    case (3 w w' ws)
    then show ?thesis by (simp add: do_dstr_split2_eq ref Let_def tok_view_def)
  qed
  then obtain toks where "do_dstr_split2 ?t [c] 2 True = Some (E_NONE, 2, toks)"
    and view: "map (tok_view (v @ c # rest)) toks = [v, rest]" by (elim exE conjE)
  with assms(1) show ?thesis
    by (simp add: split_soft_fields_def dstr_split2_soft_def field_view [OF view])
qed

lemma split_fields_list:
  assumes "fs \<noteq> []" and "\<forall>f\<in>set fs. c \<notin> set f" and "length fs \<le> n"
  shows "\<exists>l. do_dstr_split A (dstr_wrap (join [c] fs) False) [c] (list_var dstr_esz n) soft = Some (E_NONE, l) \<and>
    length (lst_data l) = length fs \<and> field (join [c] fs) (lst_data l) = fields_of fs"
proof -
  from split_fields [OF assms, of "dstr_wrap (join [c] fs) False" A soft] obtain l where
    "do_dstr_split A (dstr_wrap (join [c] fs) False) [c] (list_var dstr_esz n) soft = Some (E_NONE, l)"
    and view: "map (tok_view (join [c] fs)) (lst_data l) = fs" by auto
  moreover from view have "length (lst_data l) = length fs" using length_map by metis
  ultimately show ?thesis using field_view [OF view] by blast
qed

text \<open>No field contains a separator.\<close>

lemma dec_digits_notin: "c < 48 \<or> 57 < c \<Longrightarrow> c \<notin> set (dec_digits n)"
  using dec_digits_set [of c n] by auto

lemma dec_int_notin: "c \<noteq> 45 \<Longrightarrow> c < 48 \<or> 57 < c \<Longrightarrow> c \<notin> set (dec_int i)"
  using dec_int_set [of c i] by auto

section \<open>Dates\<close>

definition date_fields :: "imap_time \<Rightarrow> byte list list" where
  "date_fields t = [dec_int (year t), dec_int (month t), dec_int (day t), dec_int (hour t),
     dec_int (tmin t), dec_int (sec t), dec_int (z_hour t), dec_int (z_min t)]"

definition date_ok :: "imap_time \<Rightarrow> bool" where
  "date_ok t \<longleftrightarrow> (\<forall>i\<in>set [year t, month t, day t, hour t, tmin t, sec t, z_hour t, z_min t].
     -(2 ^ 31) \<le> i \<and> i < 2 ^ 31)"

lemma appends_marshal_date: "appends d (marshal_date alloc_ok t d) (join [46] (date_fields t))"
  unfolding marshal_date_def by (rule appends_FMT) (simp add: date_fields_def)

lemma parse_marshal_date:
  assumes "date_ok t"
  shows "parse_date A (join [46] (date_fields t)) = Inr t"
proof -
  have "\<forall>f\<in>set (date_fields t). 46 \<notin> set f"
    by (simp add: date_fields_def dec_int_notin)
  then obtain l where l: "do_dstr_split A (dstr_wrap (join [46] (date_fields t)) False) [46]
      (list_var dstr_esz 8) False = Some (E_NONE, l)" "length (lst_data l) = 8"
      "field (join [46] (date_fields t)) (lst_data l) = fields_of (date_fields t)"
    using split_fields_list [of "date_fields t" 46 8 A False] by (auto simp: date_fields_def)
  with assms show ?thesis
    by (simp add: parse_date_def dstr_split_def Let_def date_fields_def fields_of_def date_ok_def toi_dec)
qed

section \<open>Flags\<close>

definition flags_text :: "msg_flags \<Rightarrow> byte list" where
  "flags_text f = (if answered f then [65] else []) @ (if draft f then [68] else []) @
     (if flagged f then [70] else []) @ (if seen f then [83] else []) @ (if deleted f then [88] else [])"

lemma parse_flags_text: "parse_flags (flags_text f) = Inr f"
  by (cases f) (simp add: parse_flags_def flags_text_def no_flags_def)

section \<open>Log values\<close>

definition state_char :: "msg_state \<Rightarrow> byte" where
  "state_char s = (case s of MSG_UNFILLED \<Rightarrow> 117 | MSG_FILLED \<Rightarrow> 102 | _ \<Rightarrow> 110)"

definition message_fields :: "msg \<Rightarrow> byte list list" where
  "message_fields m = [dec_digits (unat (uid_dn m)), dec_digits (unat (modseq m)),
     [state_char (mstate m)], flags_text (flags m), join [46] (date_fields (internaldate m))]"

definition expunge_fields :: "msg_expunge \<Rightarrow> byte list list" where
  "expunge_fields x = [dec_digits (unat (euid_dn x)), dec_digits (unat (emodseq x)),
     [case estate x of MSG_EXPUNGE_UNPUSHED \<Rightarrow> 101 | MSG_EXPUNGE_PUSHED \<Rightarrow> 120]]"

lemma appends_append_if: "appends d (append_if alloc_ok b s d) (if b then lit s else [])"
  by (simp add: append_if_def appends_append appends_none del: dstr_append_eq_quiet)

lemma appends_marshal_message:
  assumes "mstate m \<noteq> MSG_EXPUNGED"
  shows "appends d (marshal_message alloc_ok m d) (49 # 58 # join [58] (message_fields m))"
proof -
  have st: "(case mstate m of MSG_UNFILLED \<Rightarrow> lit ''u'' | MSG_FILLED \<Rightarrow> lit ''f'' | _ \<Rightarrow> lit ''n'') =
    [state_char (mstate m)]"
    by (cases "mstate m") (simp_all add: state_char_def)
  show ?thesis
    unfolding marshal_message_def if_not_P [OF assms] Let_def st
    by (rule appends_bind appends_FMT appends_append_if appends_append appends_marshal_date refl)+
      (simp add: message_fields_def flags_text_def log_format_version_def)
qed

lemma appends_marshal_expunge:
  "appends d (marshal_expunge alloc_ok x d) (49 # 58 # join [58] (expunge_fields x))"
  unfolding marshal_expunge_def Let_def
  by (rule appends_bind appends_FMT refl)+
    (simp add: expunge_fields_def log_format_version_def split: msg_expunge_state.splits)


lemma fields_no_colon:
  "\<forall>f\<in>set (message_fields m). 58 \<notin> set f" "\<forall>f\<in>set (expunge_fields x). 58 \<notin> set f"
proof -
  have "58 \<notin> set (join [46] fs)" if "\<forall>f\<in>set fs. (58::byte) \<notin> set f" for fs
    using that by (induction "[46::byte]" fs rule: join.induct) auto
  then have "58 \<notin> set (join [46] (date_fields (internaldate m)))"
    by (simp add: date_fields_def dec_int_notin)
  then show "\<forall>f\<in>set (message_fields m). 58 \<notin> set f"
    by (simp add: message_fields_def dec_digits_notin flags_text_def state_char_def split: msg_state.splits)
  show "\<forall>f\<in>set (expunge_fields x). 58 \<notin> set f"
    by (simp add: expunge_fields_def dec_digits_notin split: msg_expunge_state.splits)
qed

lemma version_check [simp]:
  "dstr_cmp (dstr_wrap [49] False) (dstr_wrap log_format_version True) = 0"
  by (simp add: dstr_cmp_def do_dstr_cmp2_def dstr_wrap_def log_format_version_def)

lemma split_version:
  "split_soft_fields (49 # 58 # rest) '':'' 2 = (2, fields_of [[49], rest])"
  using split_soft_fields_head [of "'':''" 58 "[49]" rest] by simp

lemma parse_value_message:
  assumes "mstate m \<noteq> MSG_EXPUNGED" and "date_ok (internaldate m)"
  shows "parse_value A True (49 # 58 # join [58] (message_fields m)) (mkey m) =
    Inr (Inl (m\<lparr>mlength := 0, filename := zero_dstr\<rparr>))"
proof -
  have f: "split_soft_fields (join [58] (message_fields m)) '':'' 6 = (5, fields_of (message_fields m))"
    using split_soft_fields_join [of "'':''" 58 "message_fields m" 6] fields_no_colon(1) [of m]
    by (simp add: message_fields_def)
  have v: "fields_of (message_fields m) 0 = dec_digits (unat (uid_dn m))"
    "fields_of (message_fields m) (Suc 0) = dec_digits (unat (modseq m))"
    "fields_of (message_fields m) 2 = [state_char (mstate m)]"
    "fields_of (message_fields m) 3 = flags_text (flags m)"
    "fields_of (message_fields m) 4 = join [46] (date_fields (internaldate m))"
    by (simp_all add: fields_of_def message_fields_def)
  have h: "fields_of [[49], w] 0 = [49]" "fields_of [[49], w] (Suc 0) = w" for w
    by (simp_all add: fields_of_def)
  show ?thesis
    using assms
    by (cases "mstate m")
      (simp_all add: parse_value_def split_version f h v Let_def state_char_def
        parse_flags_text parse_marshal_date msg_new_def)
qed

lemma parse_value_expunge:
  "parse_value A True (49 # 58 # join [58] (expunge_fields x)) (ekey x) = Inr (Inr x)"
proof -
  have f: "split_soft_fields (join [58] (expunge_fields x)) '':'' 6 = (3, fields_of (expunge_fields x))"
    using split_soft_fields_join [of "'':''" 58 "expunge_fields x" 6] fields_no_colon(2) [of x]
    by (simp add: expunge_fields_def)
  have v: "fields_of (expunge_fields x) 0 = dec_digits (unat (euid_dn x))"
    "fields_of (expunge_fields x) (Suc 0) = dec_digits (unat (emodseq x))"
    "fields_of (expunge_fields x) 2 =
      [case estate x of MSG_EXPUNGE_UNPUSHED \<Rightarrow> 101 | MSG_EXPUNGE_PUSHED \<Rightarrow> 120]"
    by (simp_all add: fields_of_def expunge_fields_def)
  have h: "fields_of [[49], w] 0 = [49]" "fields_of [[49], w] (Suc 0) = w" for w
    by (simp_all add: fields_of_def)
  show ?thesis
    by (cases "estate x")
      (simp_all add: parse_value_def split_version f h v Let_def msg_expunge_new_def)
qed

section \<open>File names\<close>

definition host_text :: "byte list \<Rightarrow> byte list" where
  "host_text host = concat (map (subst_byte [47, 58] [lit ''057'', lit ''072'']) host)"

lemma host_text_clean: "47 \<notin> set (host_text h) \<and> 58 \<notin> set (host_text h)"
  by (induction h) (auto simp: host_text_def subst_byte_def split: if_splits)

lemma appends_mod_hostname:
  "appends d (maildir_name_mod_hostname alloc_ok host d) (host_text host)"
  using dstr_recode_singles [of "[lit ''057'', lit ''072'']" "[47, 58]" d alloc_ok "dstr_wrap host False"]
  by (auto simp: appends_def maildir_name_mod_hostname_def host_text_def)

definition id_fields :: "msg_key \<Rightarrow> u64 \<Rightarrow> byte list list" where
  "id_fields key len = [[49], dec_digits (unat (uid_up key)), dec_digits (unat (uid_local key)),
     dec_digits (unat len)]"

definition uniq_text :: "u64 \<Rightarrow> msg_key \<Rightarrow> u64 \<Rightarrow> byte list \<Rightarrow> byte list" where
  "uniq_text epoch key len host =
     join [46] [dec_digits (unat epoch), join [44] (id_fields key len), host_text host]"

definition name_text :: "u64 \<Rightarrow> msg_key \<Rightarrow> u64 \<Rightarrow> byte list \<Rightarrow> byte list option \<Rightarrow> byte list" where
  "name_text epoch key len host info =
     uniq_text epoch key len host @
     (case info of Some i \<Rightarrow> if i = [] then [] else 58 # i | None \<Rightarrow> [])"

lemma appends_name_write:
  "appends d (maildir_name_write alloc_ok d epoch key len host info) (name_text epoch key len host info)"
proof -
  have info: "appends d' (case info of Some i \<Rightarrow> if length i > 0 then FMT alloc_ok d' '':%x'' [FD i]
      else (E_NONE, d') | None \<Rightarrow> (E_NONE, d'))
    (case info of Some i \<Rightarrow> if i = [] then [] else 58 # i | None \<Rightarrow> [])" for d'
    by (cases info) (auto intro!: appends_none appends_FMT)
  show ?thesis
    unfolding maildir_name_write_def
    by (rule appends_bind appends_FMT appends_mod_hostname info refl)+
      (simp add: name_text_def uniq_text_def id_fields_def deliv_id_ver_def dec_digits.simps [of "Suc 0"])
qed

text \<open>The three minor tokens come back even when the host name contains dots.\<close>

lemma split_soft_minor:
  assumes "46 \<notin> set a" and "46 \<notin> set b"
  shows "\<exists>l. do_dstr_split A (dstr_wrap (join [46] [a, b, h]) False) [46] (list_var dstr_esz 3) True = Some (E_NONE, l) \<and>
    length (lst_data l) = 3 \<and> field (join [46] [a, b, h]) (lst_data l) = fields_of [a, b, h]"
proof -
  let ?t = "join [46] [a, b, h]"
  have "split_ref [46] ?t = a # b # split_ref [46] h"
    using assms by (simp add: split_ref.simps [of "[46]" "a @ 46 # b @ 46 # h"]
        split_ref.simps [of "[46]" "b @ 46 # h"] find_sub_sep_app)
  note ref = this
  have "\<exists>toks. do_dstr_split2 (dstr_wrap ?t False) [46] 3 True = Some (E_NONE, 3, toks) \<and>
    map (tok_view ?t) toks = [a, b, h]"
  proof (cases "split_ref [46] h" rule: remdups_adj.cases)
    case 1
    then show ?thesis using split_ref_nonempty by blast
  next
    case (2 w)
    with join_split_ref [of "[46]" h] have "w = h" by simp
    with 2 ref show ?thesis
      by (simp add: do_dstr_split2_eq Let_def tok_view_def numeral_3_eq_3)
  next
    case (3 w w' ws)
    with ref show ?thesis
      by (simp add: do_dstr_split2_eq Let_def tok_view_def numeral_3_eq_3)
  qed
  then obtain toks where "do_dstr_split2 (dstr_wrap ?t False) [46] 3 True = Some (E_NONE, 3, toks)"
    and view: "map (tok_view ?t) toks = [a, b, h]" by (elim exE conjE)
  moreover from view have "length toks = 3" using length_map [of "tok_view ?t" toks] by simp
  ultimately show ?thesis using field_view [OF view] by (simp add: do_dstr_split_fixed)
qed

lemma uniq_no_colon: "58 \<notin> set (uniq_text epoch key len host)"
  using host_text_clean [of host]
  by (simp add: uniq_text_def id_fields_def dec_digits_notin)

lemma name_split_major:
  assumes "\<forall>i. info = Some i \<longrightarrow> 58 \<notin> set i"
  shows "\<exists>l. do_dstr_split A (dstr_wrap (name_text epoch key len host info) False) [58] (list_var dstr_esz 2) False = Some (E_NONE, l) \<and>
    field (name_text epoch key len host info) (lst_data l) 0 = uniq_text epoch key len host \<and>
    (if info = None \<or> info = Some [] then length (lst_data l) = 1
     else length (lst_data l) = 2 \<and> field (name_text epoch key len host info) (lst_data l) 1 = the info)"
proof (cases "info = None \<or> info = Some []")
  case True
  then have "name_text epoch key len host info = join [58] [uniq_text epoch key len host]"
    by (auto simp: name_text_def)
  with True split_fields_list [of "[uniq_text epoch key len host]" 58 2 A False] uniq_no_colon
  show ?thesis by (auto simp: fields_of_def)
next
  case False
  then obtain i where i: "info = Some i" "i \<noteq> []" by auto
  then have "name_text epoch key len host info = join [58] [uniq_text epoch key len host, i]"
    by (auto simp: name_text_def)
  with i assms split_fields_list [of "[uniq_text epoch key len host, i]" 58 2 A False] uniq_no_colon
  show ?thesis by (auto simp: fields_of_def)
qed


lemma name_parse_text:
  assumes "uid_up key = 0 \<longleftrightarrow> uid_local key \<noteq> 0" and "\<forall>i. info = Some i \<longrightarrow> 58 \<notin> set i"
    and "16 \<le> length (name_text epoch key len host info)"
  shows "maildir_name_parse A (name_text epoch key len host info) hb ib =
    (case copy_out A (host_text host) hb of Inl e \<Rightarrow> Inl e | Inr hb' \<Rightarrow>
      (case (if info = None \<or> info = Some [] then Inr (map_option (\<lambda>d. d\<lparr>ddata := []\<rparr>) ib)
             else copy_out A (the info) ib) of
         Inl e \<Rightarrow> Inl e
       | Inr ib' \<Rightarrow> Inr (Some \<lparr>n_epoch = epoch, n_key = key, n_len = len, n_host = hb', n_info = ib'\<rparr>)))"
proof -
  let ?t = "name_text epoch key len host info" and ?u = "uniq_text epoch key len host"
  obtain l where l: "do_dstr_split A (dstr_wrap ?t False) [58] (list_var dstr_esz 2) False = Some (E_NONE, l)"
    "field ?t (lst_data l) 0 = ?u"
    "if info = None \<or> info = Some [] then length (lst_data l) = 1
     else length (lst_data l) = 2 \<and> field ?t (lst_data l) 1 = the info"
    using name_split_major [OF assms(2), of A epoch key len host] by blast
  have "46 \<notin> set (dec_digits (unat epoch))" "46 \<notin> set (join [44] (id_fields key len))"
    by (simp_all add: id_fields_def dec_digits_notin)
  from split_soft_minor [OF this, of A "host_text host"] obtain k where
    k: "do_dstr_split A (dstr_wrap ?u False) [46] (list_var dstr_esz 3) True = Some (E_NONE, k)"
      "length (lst_data k) = 3"
      "field ?u (lst_data k) = fields_of [dec_digits (unat epoch), join [44] (id_fields key len), host_text host]"
    unfolding uniq_text_def by blast
  have f: "split_soft_fields (join [44] (id_fields key len)) '','' 5 = (4, fields_of (id_fields key len))"
    using split_soft_fields_join [of "'',''" 44 "id_fields key len" 5]
    by (simp add: id_fields_def dec_digits_notin)
  have v: "fields_of (id_fields key len) 0 = dec_digits (unat (1 :: u32))"
    "fields_of (id_fields key len) (Suc 0) = dec_digits (unat (uid_up key))"
    "fields_of (id_fields key len) 2 = dec_digits (unat (uid_local key))"
    "fields_of (id_fields key len) 3 = dec_digits (unat len)"
    by (simp_all add: fields_of_def id_fields_def dec_digits.simps [of "Suc 0"])
  have u: "fields_of [a, b, c] 0 = a" "fields_of [a, b, c] (Suc 0) = b" "fields_of [a, b, c] 2 = c" for a b c
    by (simp_all add: fields_of_def)
  have key: "\<not> (uid_up key \<noteq> 0 \<and> uid_local key \<noteq> 0 \<or> uid_up key = 0 \<and> uid_local key = 0)"
    "\<lparr>uid_up = uid_up key, uid_local = uid_local key\<rparr> = key"
    using assms(1) by (auto intro: msg_key.equality)
  have len: "(length (lst_data l) = 2) = (\<not> (info = None \<or> info = Some []))"
    using l(3) by (auto split: if_splits)
  have one: "dstr_tou_quiet (dec_digits (Suc 0)) 10 = (E_NONE, 1)"
    using tou_dec [of 1] by simp
  show ?thesis
  proof (cases "info = None \<or> info = Some []")
    case True
    with assms(3) l(1,2) len k(1,2) key(1) show ?thesis
      by (auto simp: maildir_name_parse_def dstr_split_def dstr_split_soft_def Let_def k(3) u f v
          deliv_id_ver_def one intro: msg_key.equality split: sum.split)
  next
    case False
    with assms(3) l len k(1,2) key(1) show ?thesis
      by (auto simp: maildir_name_parse_def dstr_split_def dstr_split_soft_def Let_def k(3) u f v
          deliv_id_ver_def one intro: msg_key.equality split: sum.split)
  qed
qed

lemma copy_out_grows:
  assumes "dstr_ok d" and "\<not> dfixed d"
  shows "\<exists>d'. copy_out alloc_ok s (Some d) = Inr (Some d') \<and> ddata d' = s"
proof -
  from grow_alloc_ok [OF assms(2), of "length s"] obtain d' where
    "dstr_grow_quiet alloc_ok d (length s) = (E_NONE, d')" by blast
  then show ?thesis
    by (cases "s = []") (auto simp: copy_out_def dstr_copy_def dstr_copystrn_def dstr_grow_def)
qed

section \<open>Properties\<close>

text \<open>
  C24. The message log round-trips: whatever a message that is not \<open>EXPUNGED\<close>, with a date of
  32-bit fields, is marshalled to, \<open>parse_value\<close> reads back the same message (the file is
  attached later, so length and file name start empty), for every UID, modification
  sequence, flag set and date.
\<close>

theorem log_message_roundtrip:
  assumes "mstate m \<noteq> MSG_EXPUNGED" and "date_ok (internaldate m)"
  shows "\<exists>d. marshal_message alloc_ok m zero_dstr = (E_NONE, d) \<and>
    parse_value A True (ddata d) (mkey m) = Inr (Inl (m\<lparr>mlength := 0, filename := zero_dstr\<rparr>))"
proof -
  have z: "dstr_ok zero_dstr" "\<not> dfixed zero_dstr" "ddata zero_dstr = []"
    by (simp_all add: zero_dstr_def dstr_ok_def)
  from appendsD [OF appends_marshal_message [OF assms(1)] z(1,2)] obtain d where
    "marshal_message alloc_ok m zero_dstr = (E_NONE, d)"
    "ddata d = ddata zero_dstr @ 49 # 58 # join [58] (message_fields m)" .
  then show ?thesis using parse_value_message [OF assms] z(3) by auto
qed

definition example_date :: imap_time where
  "example_date = \<lparr>year = 2020, month = 12, day = 25, hour = 23, tmin = 59, sec = 59,
     z_hour = -7, z_min = 0\<rparr>"

definition example_msg :: msg where
  "example_msg = \<lparr>mkey = \<lparr>uid_up = 7, uid_local = 0\<rparr>, uid_dn = 3, mlength = 0,
     internaldate = example_date,
     flags = \<lparr>answered = True, flagged = False, seen = True, draft = False, deleted = False\<rparr>,
     modseq = 12345, filename = zero_dstr, mstate = MSG_FILLED\<rparr>"

theorem log_message_roundtrip_witness:
  "\<exists>d. marshal_message alloc_ok example_msg zero_dstr = (E_NONE, d) \<and>
     parse_value alloc_ok True (ddata d) \<lparr>uid_up = 7, uid_local = 0\<rparr> = Inr (Inl example_msg)"
  using log_message_roundtrip [of example_msg alloc_ok]
  by (simp add: example_msg_def example_date_def date_ok_def)

text \<open>
  C25. The other log entries round-trip: every expunge record, every log key (of the three
  singletons and of the per-message kind) and every pair of UID validities is read back
  from what was written.
\<close>

theorem log_entries_roundtrip:
  "(\<exists>d. marshal_expunge alloc_ok x zero_dstr = (E_NONE, d) \<and>
      parse_value A True (ddata d) (ekey x) = Inr (Inr x)) \<and>
   (\<exists>d. log_key_marshal alloc_ok lk zero_dstr = (E_NONE, d) \<and> log_key_unmarshal (ddata d) = Inr lk) \<and>
   (\<exists>d. marshal_uidvlds alloc_ok up dn zero_dstr = (E_NONE, d) \<and> parse_uidvlds (ddata d) = Inr (up, dn))"
proof (intro conjI)
  have z: "dstr_ok zero_dstr" "\<not> dfixed zero_dstr" "ddata zero_dstr = []"
    by (simp_all add: zero_dstr_def dstr_ok_def)
  from appendsD [OF appends_marshal_expunge z(1,2)] obtain d where
    "marshal_expunge alloc_ok x zero_dstr = (E_NONE, d)"
    "ddata d = ddata zero_dstr @ 49 # 58 # join [58] (expunge_fields x)" .
  then show "\<exists>d. marshal_expunge alloc_ok x zero_dstr = (E_NONE, d) \<and>
      parse_value A True (ddata d) (ekey x) = Inr (Inr x)"
    using parse_value_expunge z(3) by auto
  show "\<exists>d. log_key_marshal alloc_ok lk zero_dstr = (E_NONE, d) \<and> log_key_unmarshal (ddata d) = Inr lk"
  proof (cases lk)
    case (LOG_KEY_MSG k)
    let ?fs = "[[109], dec_digits (unat (uid_up k)), dec_digits (unat (uid_local k))]"
    obtain d where d: "FMT alloc_ok zero_dstr ''m.%x.%x'' [FU (unat (uid_up k)), FU (unat (uid_local k))] = (E_NONE, d)"
      "ddata d = join [46] ?fs"
      using FMT_grows [OF z(1,2), of "''m.%x.%x''"] z(3) by force
    obtain toks where toks: "do_dstr_split2 (dstr_wrap (join [46] ?fs) False) [46] 3 False = Some (E_NONE, 3, toks)"
      "map (tok_view (join [46] ?fs)) toks = ?fs"
      using split2_fields [of ?fs 46 3 "dstr_wrap (join [46] ?fs) False" False]
      by (auto simp: dec_digits_notin)
    have f: "field (109 # 46 # dec_digits (unat (uid_up k)) @ 46 # dec_digits (unat (uid_local k))) toks = fields_of ?fs"
      using field_view [OF toks(2)] by simp
    have "log_key_unmarshal (ddata d) = Inr (LOG_KEY_MSG \<lparr>uid_up = uid_up k, uid_local = uid_local k\<rparr>)"
      using toks(1) d(2) by (simp add: log_key_unmarshal_def dstr_split2_def f fields_of_def)
    with LOG_KEY_MSG d(1) show ?thesis by (simp add: log_key_marshal_def)
  next
    case LOG_KEY_UIDVLDS
    with FMT_grows [OF z(1,2), of "''v''" "[]"] z(3) show ?thesis
      by (auto simp: log_key_marshal_def log_key_unmarshal_def)
  next
    case LOG_KEY_HIMODSEQUP
    with FMT_grows [OF z(1,2), of "''h''" "[]"] z(3) show ?thesis
      by (auto simp: log_key_marshal_def log_key_unmarshal_def)
  next
    case LOG_KEY_MODSEQDN
    with FMT_grows [OF z(1,2), of "''d''" "[]"] z(3) show ?thesis
      by (auto simp: log_key_marshal_def log_key_unmarshal_def)
  qed
  let ?uv = "[dec_digits (unat up), dec_digits (unat dn)]"
  obtain d where d: "FMT alloc_ok zero_dstr ''%x:%x'' [FU (unat up), FU (unat dn)] = (E_NONE, d)"
    "ddata d = join [58] ?uv"
    using FMT_grows [OF z(1,2), of "''%x:%x''"] z(3) by force
  have "split_soft_fields (join [58] ?uv) '':'' 3 = (2, fields_of ?uv)"
    using split_soft_fields_join [of "'':''" 58 ?uv 3] by (simp add: dec_digits_notin)
  with d show "\<exists>d. marshal_uidvlds alloc_ok up dn zero_dstr = (E_NONE, d) \<and> parse_uidvlds (ddata d) = Inr (up, dn)"
    by (auto simp: marshal_uidvlds_def parse_uidvlds_def fields_of_def)
qed

text \<open>
  C26. Message file names.  For an epoch, a key with exactly one of its two UIDs set, a length, a
  host and an optional info without colon, the writer succeeds, and the parser recovers
  all of them from the name, the host with its slashes and colons replaced, and an absent or empty info as an
  empty one.  The exception is a name of fewer than 16 bytes: the parser then reports success
  without assigning any of its outputs.
\<close>

theorem maildir_name_roundtrip:
  assumes "uid_up key = 0 \<longleftrightarrow> uid_local key \<noteq> 0" and "58 \<notin> set (case info of None \<Rightarrow> [] | Some i \<Rightarrow> i)"
  shows "\<exists>d h i. maildir_name_write alloc_ok zero_dstr epoch key len host info = (E_NONE, d) \<and>
    maildir_name_parse alloc_ok (ddata d) (Some zero_dstr) (Some zero_dstr) =
      Inr (if dlen d < 16 then None else Some \<lparr>n_epoch = epoch, n_key = key, n_len = len, n_host = Some h, n_info = Some i\<rparr>) \<and>
    ddata h = host_text host \<and> 47 \<notin> set (ddata h) \<and> 58 \<notin> set (ddata h) \<and> ddata i = (case info of None \<Rightarrow> [] | Some i \<Rightarrow> i)"
proof -
  have z: "dstr_ok zero_dstr" "\<not> dfixed zero_dstr" "ddata zero_dstr = []"
    by (simp_all add: zero_dstr_def dstr_ok_def)
  let ?t = "name_text epoch key len host info" and ?i = "case info of None \<Rightarrow> [] | Some i \<Rightarrow> i"
  from appendsD [OF appends_name_write z(1,2), of epoch key len host info] obtain d where
    d: "maildir_name_write alloc_ok zero_dstr epoch key len host info = (E_NONE, d)" "ddata d = ?t" unfolding z(3) by auto
  obtain h i where h: "copy_out alloc_ok (host_text host) (Some zero_dstr) = Inr (Some h)" "ddata h = host_text host"
    and i: "copy_out alloc_ok ?i (Some zero_dstr) = Inr (Some i)" "ddata i = ?i"
    using copy_out_grows [OF z(1,2)] by blast
  let ?i' = "if info = None \<or> info = Some [] then zero_dstr\<lparr>ddata := []\<rparr> else i"
  have "maildir_name_parse alloc_ok ?t (Some zero_dstr) (Some zero_dstr) =
      Inr (if length ?t < 16 then None else Some \<lparr>n_epoch = epoch, n_key = key, n_len = len, n_host = Some h, n_info = Some ?i'\<rparr>)"
  proof (cases "length ?t < 16")
    case True
    then show ?thesis by (simp add: maildir_name_parse_def)
  next
    case False
    then show ?thesis using assms h(1) i(1) by (subst name_parse_text) (auto split: option.splits)
  qed
  moreover have "ddata ?i' = ?i" using i(2) by (auto split: option.splits)
  ultimately show ?thesis using d h(2) host_text_clean [of host] by (intro exI [of _ d] exI [of _ h] exI [of _ ?i']) simp
qed

theorem maildir_name_roundtrip_witness:
  "\<exists>d h i. maildir_name_write alloc_ok zero_dstr 1234567890 \<lparr>uid_up = 5, uid_local = 0\<rparr> 99 (lit ''a:b'') (Some (lit ''2,'')) = (E_NONE, d) \<and>
    maildir_name_parse alloc_ok (ddata d) (Some zero_dstr) (Some zero_dstr) =
      Inr (if dlen d < 16 then None else Some \<lparr>n_epoch = 1234567890, n_key = \<lparr>uid_up = 5, uid_local = 0\<rparr>, n_len = 99, n_host = Some h, n_info = Some i\<rparr>) \<and>
    ddata h = host_text (lit ''a:b'') \<and> ddata i = lit ''2,''"
  using maildir_name_roundtrip [of "\<lparr>uid_up = 5, uid_local = 0\<rparr>" "Some (lit ''2,'')" 1234567890 99 "lit ''a:b''"] by fastforce

text \<open>
  A message in state \<open>EXPUNGED\<close> is refused by \<open>marshal_message\<close> with \<open>E_INTERNAL\<close> after the
  version, UID and modification sequence were already written to the output.
\<close>

theorem marshal_message_expunged:
  assumes "mstate m = MSG_EXPUNGED" and "dstr_ok d" and "\<not> dfixed d"
  shows "\<exists>d'. marshal_message alloc_ok m d = (E_INTERNAL, d') \<and>
    ddata d' = ddata d @ join [58] [lit ''1'', dec_digits (unat (uid_dn m)), dec_digits (unat (modseq m)), []]"
  using FMT_grows [OF assms(2,3), of "''%x:%x:%x:''"
      "[FD log_format_version, FU (unat (uid_dn m)), FU (unat (modseq m))]"] assms(1)
  by (auto simp: marshal_message_def log_format_version_def)

theorem marshal_message_expunged_witness:
  "\<exists>d'. marshal_message alloc_ok (example_msg\<lparr>mstate := MSG_EXPUNGED\<rparr>) zero_dstr = (E_INTERNAL, d')"
  using marshal_message_expunged [of "example_msg\<lparr>mstate := MSG_EXPUNGED\<rparr>" zero_dstr]
  by (auto simp: zero_dstr_def dstr_ok_def)

end
