(* ===== verification/Atree.thy ===== *)
theory Atree
  imports Prelude Dstr
begin

text \<open>
  The counted Andersson tree of \<open>src/libdstr/jsw_atree.c\<close>.  Nodes are intrusive in C: the
  element type \<open>'a\<close> stands for the identity of the object that owns a \<open>jsw_anode_t\<close>, and \<open>get\<close>
  fetches its key, so two different nodes may carry equal keys.  The explicit path arrays of
  \<open>jsw_ainsert\<close> and \<open>jsw_aerase\<close> are the recursion stack here; \<open>Atree.jsw_path_bound\<close> shows
  that they fit \<open>JSW_AHEIGHT_LIMIT\<close>.  Trees are initialised with \<open>jsw_ainit\<close>; the guards
  for zeroized trees (a NULL root) are not modelled.  Counts and sizes are natural numbers:
  they count nodes that are in memory.
\<close>

section \<open>Nodes\<close>

datatype 'a anode = ANil | ANode int nat "'a anode" 'a "'a anode"

fun alevel :: "'a anode \<Rightarrow> int" where
  "alevel ANil = 0"
| "alevel (ANode lv c l x r) = lv"

fun acount :: "'a anode \<Rightarrow> nat" where
  "acount ANil = 0"
| "acount (ANode lv c l x r) = c"

fun alink :: "bool \<Rightarrow> 'a anode \<Rightarrow> 'a anode" where
  "alink dir ANil = ANil"
| "alink dir (ANode lv c l x r) = (if dir then r else l)"

fun aelem :: "'a anode \<Rightarrow> 'a option" where
  "aelem ANil = None"
| "aelem (ANode lv c l x r) = Some x"

text \<open>The \<open>skew\<close> and \<open>split\<close> macros, with their repair of the counts.\<close>

fun skew :: "'a anode \<Rightarrow> 'a anode" where
  "skew (ANode lv c (ANode lv0 c0 l0 x0 r0) x r) =
     (if lv0 = lv \<and> lv \<noteq> 0
      then ANode lv0 c l0 x0 (ANode lv (acount r0 + acount r + 1) r0 x r)
      else ANode lv c (ANode lv0 c0 l0 x0 r0) x r)"
| "skew t = t"

fun split :: "'a anode \<Rightarrow> 'a anode" where
  "split (ANode lv c l x (ANode lv1 c1 l1 x1 r1)) =
     (if alevel r1 = lv \<and> lv \<noteq> 0
      then ANode (lv1 + 1) c (ANode lv (acount l + acount l1 + 1) l x l1) x1 r1
      else ANode lv c l x (ANode lv1 c1 l1 x1 r1))"
| "split t = t"

fun on_right :: "('a anode \<Rightarrow> 'a anode) \<Rightarrow> 'a anode \<Rightarrow> 'a anode" where
  "on_right f ANil = ANil"
| "on_right f (ANode lv c l x r) = ANode lv c l x (f r)"

fun set_level :: "int \<Rightarrow> 'a anode \<Rightarrow> 'a anode" where
  "set_level lv ANil = ANil"
| "set_level lv (ANode lv0 c l x r) = ANode lv c l x r"

definition place_node :: "'a \<Rightarrow> 'a anode" where
  "place_node n = ANode 1 1 ANil n ANil"

fun ins_path :: "('k \<Rightarrow> 'k \<Rightarrow> int) \<Rightarrow> ('a \<Rightarrow> 'k) \<Rightarrow> 'a \<Rightarrow> 'a anode \<Rightarrow> 'a anode" where
  "ins_path cmp get n ANil = place_node n"
| "ins_path cmp get n (ANode lv c l x r) =
     (if cmp (get x) (get n) < 0
      then split (skew (ANode lv (c + 1) l x (ins_path cmp get n r)))
      else split (skew (ANode lv (c + 1) (ins_path cmp get n l) x r)))"

text \<open>One step of the walk back up after an unlink: the count drops, then levels are repaired.\<close>

fun walk_up :: "'a anode \<Rightarrow> 'a anode" where
  "walk_up ANil = ANil"
| "walk_up (ANode lv c l x r) =
     (if alevel l < lv - 1 \<or> alevel r < lv - 1
      then let r' = (if alevel r > lv - 1 then set_level (lv - 1) r else r);
               t1 = skew (ANode (lv - 1) (c - 1) l x r');
               t2 = on_right skew t1;
               t3 = on_right (on_right skew) t2
           in on_right split (split t3)
      else ANode lv (c - 1) l x r)"

text \<open>The next-in-order node of a two-child deletion is unlinked from the leftmost position.\<close>

fun take_heir :: "'a anode \<Rightarrow> ('a \<times> 'a anode) option" where
  "take_heir ANil = None"
| "take_heir (ANode lv c l x r) =
     (case take_heir l of None \<Rightarrow> Some (x, r)
      | Some (h, l') \<Rightarrow> Some (h, walk_up (ANode lv c l' x r)))"

text \<open>\<open>rt\<close>: the node is the root, which is replaced by its right link whatever the left is.\<close>

definition unlink :: "bool \<Rightarrow> int \<Rightarrow> nat \<Rightarrow> 'a anode \<Rightarrow> 'a anode \<Rightarrow> 'a anode" where
  "unlink rt lv c l r =
     (if l = ANil \<or> r = ANil then (if rt then r else if l = ANil then r else l)
      else case take_heir r of None \<Rightarrow> l | Some (h, r') \<Rightarrow> walk_up (ANode lv c l h r'))"

fun erase_path :: "('k \<Rightarrow> 'k \<Rightarrow> int) \<Rightarrow> ('a \<Rightarrow> 'k) \<Rightarrow> bool \<Rightarrow> 'k \<Rightarrow> 'a anode \<Rightarrow> ('a \<times> 'a anode) option" where
  "erase_path cmp get rt v ANil = None"
| "erase_path cmp get rt v (ANode lv c l x r) =
     (if cmp (get x) v = 0 then Some (x, unlink rt lv c l r)
      else if cmp (get x) v < 0
        then map_option (\<lambda>(d, r'). (d, walk_up (ANode lv c l x r'))) (erase_path cmp get False v r)
        else map_option (\<lambda>(d, l'). (d, walk_up (ANode lv c l' x r))) (erase_path cmp get False v l))"

section \<open>Trees\<close>

record ('a, 'k) jsw_atree =
  root :: "'a anode"
  acmp :: "'k \<Rightarrow> 'k \<Rightarrow> int"
  aget :: "'a \<Rightarrow> 'k"
  asize :: nat

definition jsw_ainit :: "('k \<Rightarrow> 'k \<Rightarrow> int) \<Rightarrow> ('a \<Rightarrow> 'k) \<Rightarrow> ('a, 'k) jsw_atree" where
  "jsw_ainit cmp get = \<lparr>root = ANil, acmp = cmp, aget = get, asize = 0\<rparr>"

fun find_loop :: "('k \<Rightarrow> 'v \<Rightarrow> int) \<Rightarrow> ('a \<Rightarrow> 'k) \<Rightarrow> 'v \<Rightarrow> nat \<Rightarrow> 'a anode \<Rightarrow> 'a option \<times> nat" where
  "find_loop alt_cmp get v left_count ANil = (None, left_count)"
| "find_loop alt_cmp get v left_count (ANode lv c l x r) =
     (if alt_cmp (get x) v = 0 then (Some x, left_count + acount l)
      else if alt_cmp (get x) v < 0 then find_loop alt_cmp get v (left_count + (acount l + 1)) r
      else find_loop alt_cmp get v left_count l)"

definition jsw_afind_ex :: "('a, 'k) jsw_atree \<Rightarrow> ('k \<Rightarrow> 'v \<Rightarrow> int) \<Rightarrow> 'v \<Rightarrow> 'a option \<times> nat" where
  "jsw_afind_ex tree alt_cmp v = find_loop alt_cmp (aget tree) v 0 (root tree)"

definition jsw_afind :: "('a, 'k) jsw_atree \<Rightarrow> 'k \<Rightarrow> 'a option \<times> nat" where
  "jsw_afind tree v = jsw_afind_ex tree (acmp tree) v"

definition jsw_ainsert :: "('a, 'k) jsw_atree \<Rightarrow> 'a \<Rightarrow> ('a, 'k) jsw_atree" where
  "jsw_ainsert tree n =
     tree\<lparr>root := ins_path (acmp tree) (aget tree) n (root tree), asize := asize tree + 1\<rparr>"

definition jsw_asize :: "('a, 'k) jsw_atree \<Rightarrow> nat" where
  "jsw_asize tree = asize tree"

definition jsw_aerase :: "('a, 'k) jsw_atree \<Rightarrow> 'k \<Rightarrow> 'a option \<times> ('a, 'k) jsw_atree" where
  "jsw_aerase tree v =
     (case erase_path (acmp tree) (aget tree) True v (root tree) of
        None \<Rightarrow> (None, tree)
      | Some (d, t) \<Rightarrow> (Some d, tree\<lparr>root := t, asize := asize tree - 1\<rparr>))"

definition jsw_apop :: "('a, 'k) jsw_atree \<Rightarrow> 'a option \<times> ('a, 'k) jsw_atree" where
  "jsw_apop tree =
     (case aelem (root tree) of None \<Rightarrow> (None, tree) | Some x \<Rightarrow> jsw_aerase tree (aget tree x))"

fun index_loop :: "nat \<Rightarrow> nat \<Rightarrow> 'a anode \<Rightarrow> 'a option" where
  "index_loop idx left_count ANil = None"
| "index_loop idx left_count (ANode lv c l x r) =
     (let cur = left_count + acount l in
      if cur = idx then Some x
      else if cur < idx then index_loop idx (left_count + (acount l + 1)) r
      else index_loop idx left_count l)"

definition jsw_aindex :: "('a, 'k) jsw_atree \<Rightarrow> nat \<Rightarrow> 'a option" where
  "jsw_aindex tree idx = (if asize tree \<le> idx then None else index_loop idx 0 (root tree))"

section \<open>Traversal\<close>

text \<open>
  \<open>it\<close> is the current subtree and \<open>path\<close> the stack of subtrees above it, the innermost first;
  \<open>trav_tree\<close> is an argument, since the traversal only points to it.
\<close>

record 'a jsw_atrav =
  it :: "'a anode"
  path :: "'a anode list"

fun descend :: "bool \<Rightarrow> 'a anode \<Rightarrow> 'a anode list \<Rightarrow> 'a jsw_atrav" where
  "descend dir ANil p = \<lparr>it = ANil, path = p\<rparr>"
| "descend dir (ANode lv c l x r) p =
     (if dir then (if r = ANil then \<lparr>it = ANode lv c l x r, path = p\<rparr>
                   else descend dir r (ANode lv c l x r # p))
      else (if l = ANil then \<lparr>it = ANode lv c l x r, path = p\<rparr>
            else descend dir l (ANode lv c l x r # p)))"

definition start :: "bool \<Rightarrow> 'a anode \<Rightarrow> 'a jsw_atrav" where
  "start dir t = descend dir t []"

fun ascend :: "bool \<Rightarrow> 'a anode \<Rightarrow> 'a anode list \<Rightarrow> 'a jsw_atrav" where
  "ascend dir last_it [] = \<lparr>it = ANil, path = []\<rparr>"
| "ascend dir last_it (p # ps) =
     (if last_it = alink dir p then ascend dir p ps else \<lparr>it = p, path = ps\<rparr>)"

definition move :: "bool \<Rightarrow> 'a jsw_atrav \<Rightarrow> 'a jsw_atrav" where
  "move dir t =
     (if alink dir (it t) \<noteq> ANil then descend (\<not> dir) (alink dir (it t)) (it t # path t)
      else ascend dir (it t) (path t))"

definition jsw_atfirst :: "('a, 'k) jsw_atree \<Rightarrow> 'a option \<times> 'a jsw_atrav" where
  "jsw_atfirst tree = (let t = start False (root tree) in (aelem (it t), t))"

definition jsw_atlast :: "('a, 'k) jsw_atree \<Rightarrow> 'a option \<times> 'a jsw_atrav" where
  "jsw_atlast tree = (let t = start True (root tree) in (aelem (it t), t))"

definition jsw_atnext :: "'a jsw_atrav \<Rightarrow> 'a option \<times> 'a jsw_atrav" where
  "jsw_atnext trav = (let t = move True trav in (aelem (it t), t))"

definition jsw_atprev :: "'a jsw_atrav \<Rightarrow> 'a option \<times> 'a jsw_atrav" where
  "jsw_atprev trav = (let t = move False trav in (aelem (it t), t))"

fun atnode_loop :: "('k \<Rightarrow> 'k \<Rightarrow> int) \<Rightarrow> ('a \<Rightarrow> 'k) \<Rightarrow> 'k \<Rightarrow> 'a anode \<Rightarrow> 'a anode list \<Rightarrow> 'a jsw_atrav" where
  "atnode_loop cmp get v ANil p = \<lparr>it = ANil, path = p\<rparr>"
| "atnode_loop cmp get v (ANode lv c l x r) p =
     (if cmp (get x) v = 0 then \<lparr>it = ANode lv c l x r, path = p\<rparr>
      else if cmp (get x) v < 0 then atnode_loop cmp get v r (ANode lv c l x r # p)
      else atnode_loop cmp get v l (ANode lv c l x r # p))"

definition jsw_atnode :: "('a, 'k) jsw_atree \<Rightarrow> 'a \<Rightarrow> 'a option \<times> 'a jsw_atrav" where
  "jsw_atnode tree n =
     (let t = atnode_loop (acmp tree) (aget tree) (aget tree n) (root tree) [] in (aelem (it t), t))"

definition pop_move ::
  "bool \<Rightarrow> ('a, 'k) jsw_atree \<Rightarrow> 'a jsw_atrav \<Rightarrow> 'a option \<times> ('a, 'k) jsw_atree \<times> 'a jsw_atrav" where
  "pop_move dir tree trav =
     (case aelem (it trav) of
        None \<Rightarrow> (None, tree, trav)
      | Some pop_node \<Rightarrow>
          (let trav1 = move dir trav;
               tree1 = snd (jsw_aerase tree (aget tree pop_node))
           in case aelem (it trav1) of
                None \<Rightarrow> (let trav2 = move dir (start dir (root tree1)) in (aelem (it trav2), tree1, trav2))
              | Some ret_node \<Rightarrow> (case jsw_atnode tree1 ret_node of (n, trav2) \<Rightarrow> (n, tree1, trav2))))"

definition jsw_pop_atnext ::
  "('a, 'k) jsw_atree \<Rightarrow> 'a jsw_atrav \<Rightarrow> 'a option \<times> ('a, 'k) jsw_atree \<times> 'a jsw_atrav" where
  "jsw_pop_atnext = pop_move True"

definition jsw_pop_atprev ::
  "('a, 'k) jsw_atree \<Rightarrow> 'a jsw_atrav \<Rightarrow> 'a option \<times> ('a, 'k) jsw_atree \<times> 'a jsw_atrav" where
  "jsw_pop_atprev = pop_move False"

section \<open>Key comparisons\<close>

definition jsw_cmp_uint :: "u32 \<Rightarrow> u32 \<Rightarrow> int" where
  "jsw_cmp_uint a b = (if a < b then -1 else if a > b then 1 else 0)"

definition jsw_cmp_dstr :: "dstr \<Rightarrow> dstr \<Rightarrow> int" where
  "jsw_cmp_dstr a b = dstr_cmp a b"

section \<open>Invariants\<close>

fun inorder :: "'a anode \<Rightarrow> 'a list" where
  "inorder ANil = []"
| "inorder (ANode lv c l x r) = inorder l @ x # inorder r"

fun counted :: "'a anode \<Rightarrow> bool" where
  "counted ANil = True"
| "counted (ANode lv c l x r) = (counted l \<and> counted r \<and> c = acount l + acount r + 1)"

text \<open>
  The Andersson balance: a left child is one level down, a right child is one level down or
  on the same level, and then its own right child is further down.
\<close>

definition single :: "'a anode \<Rightarrow> bool" where
  "single t = (alevel (alink True t) < alevel t)"

fun balanced :: "'a anode \<Rightarrow> bool" where
  "balanced ANil = True"
| "balanced (ANode lv c l x r) =
     (balanced l \<and> balanced r \<and> lv = alevel l + 1 \<and> (alevel r = lv - 1 \<or> alevel r = lv \<and> single r))"

fun height :: "'a anode \<Rightarrow> nat" where
  "height ANil = 0"
| "height (ANode lv c l x r) = Suc (max (height l) (height r))"

lemma single_simps [simp]:
  "\<not> single ANil" "single (ANode lv c l x r) = (alevel r < lv)"
  by (simp_all add: single_def)

lemma inorder_skew [simp]: "inorder (skew t) = inorder t"
  by (cases t rule: skew.cases) auto

lemma inorder_split [simp]: "inorder (split t) = inorder t"
  by (cases t rule: split.cases) auto

lemma inorder_on_right: "(\<And>s. inorder (f s) = inorder s) \<Longrightarrow> inorder (on_right f t) = inorder t"
  by (cases t) auto

lemma inorder_set_level [simp]: "inorder (set_level lv t) = inorder t"
  by (cases t) auto

lemma inorder_walk_up [simp]: "inorder (walk_up t) = inorder t"
  by (cases t) (simp_all add: Let_def inorder_on_right)

lemma counted_skew: "counted t \<Longrightarrow> counted (skew t) \<and> acount (skew t) = acount t"
  by (cases t rule: skew.cases) auto

lemma counted_split: "counted t \<Longrightarrow> counted (split t) \<and> acount (split t) = acount t"
  by (cases t rule: split.cases) auto

lemma counted_on_right:
  "(\<And>s. counted s \<Longrightarrow> counted (f s) \<and> acount (f s) = acount s) \<Longrightarrow>
    counted t \<Longrightarrow> counted (on_right f t) \<and> acount (on_right f t) = acount t"
  by (cases t) auto

lemma counted_set_level: "counted t \<Longrightarrow> counted (set_level lv t) \<and> acount (set_level lv t) = acount t"
  by (cases t) auto

lemma counted_walk_up:
  assumes "counted l" "counted r" "c = Suc (acount l + acount r + 1)"
  shows "counted (walk_up (ANode lv c l x r)) \<and> acount (walk_up (ANode lv c l x r)) = c - 1"
  using assms
  by (auto simp: Let_def counted_skew counted_split counted_on_right counted_set_level)

declare walk_up.simps(2) [simp del]

lemma counted_length: "counted t \<Longrightarrow> acount t = length (inorder t)"
  by (induction t) auto

lemma counted_ins_path:
  "counted t \<Longrightarrow> counted (ins_path cmp get n t) \<and> acount (ins_path cmp get n t) = acount t + 1"
proof (induction t)
  case (ANode lv c l x r)
  then have "counted (ANode lv (c + 1) l x (ins_path cmp get n r))"
    "counted (ANode lv (c + 1) (ins_path cmp get n l) x r)" by simp_all
  from this [THEN counted_skew] show ?case
    by (simp add: counted_split)
qed (simp add: place_node_def)

lemma take_heir_None [simp]: "take_heir t = None \<longleftrightarrow> t = ANil"
  by (cases t) (auto split: option.split)

lemma take_heir_inorder: "take_heir t = Some (h, t') \<Longrightarrow> inorder t = h # inorder t'"
  by (induction t arbitrary: t') (auto split: option.splits)

lemma take_heir_counted:
  "take_heir t = Some (h, t') \<Longrightarrow> counted t \<Longrightarrow> counted t' \<and> acount t = acount t' + 1"
proof (induction t arbitrary: t')
  case (ANode lv c l x r)
  show ?case
  proof (cases "take_heir l")
    case None
    with ANode.prems show ?thesis by simp
  next
    case (Some p)
    obtain h' l' where p: "p = (h', l')" by force
    from ANode p Some have "counted l'" "acount l = acount l' + 1" "t' = walk_up (ANode lv c l' x r)" by auto
    with ANode.prems counted_walk_up [of l' r c lv x] show ?thesis by simp
  qed
qed simp

section \<open>Balance\<close>

lemma alevel_nonneg: "balanced t \<Longrightarrow> 0 \<le> alevel t"
  by (induction t) auto

lemma alevel_pos: "balanced (ANode lv c l x r) \<Longrightarrow> 1 \<le> lv"
  by (auto dest: alevel_nonneg)

lemma alevel_zero: "balanced t \<Longrightarrow> alevel t \<le> 0 \<longleftrightarrow> t = ANil"
  by (cases t) (auto dest: alevel_nonneg)

lemma skew_balanced: "balanced t \<Longrightarrow> skew t = t"
  by (cases t rule: skew.cases) auto

lemma split_balanced: "balanced t \<Longrightarrow> split t = t"
  by (cases t rule: split.cases) auto

text \<open>What an insertion below does to a subtree: its level stays, or rises to a single node.\<close>

definition grown :: "'a anode \<Rightarrow> 'a anode \<Rightarrow> bool" where
  "grown t t' \<longleftrightarrow> balanced t' \<and>
     (alevel t' = alevel t \<or> alevel t' = alevel t + 1 \<and> single t' \<and> \<not> single t)"

lemma grown_left:
  assumes "balanced (ANode lv c l x r)" and "grown l l'"
  shows "grown (ANode lv c l x r) (split (skew (ANode lv c' l' x r)))"
proof (cases "alevel l' = alevel l")
  case True
  with assms have "balanced (ANode lv c' l' x r)" by (auto simp: grown_def)
  moreover from this have "split (skew (ANode lv c' l' x r)) = ANode lv c' l' x r"
    by (simp only: skew_balanced split_balanced)
  ultimately show ?thesis by (auto simp: grown_def)
next
  case False
  with assms have l': "alevel l' = lv" "single l'" "balanced l'" by (auto simp: grown_def)
  with assms(1) obtain c0 l0 x0 r0 where "l' = ANode lv c0 l0 x0 r0"
    by (cases l') (auto dest: alevel_nonneg)
  with l' assms(1) alevel_nonneg [of l] show ?thesis
    by (cases r) (auto simp: grown_def)
qed

lemma grown_right:
  assumes "balanced (ANode lv c l x r)" and "grown r r'"
  shows "grown (ANode lv c l x r) (split (skew (ANode lv c' l x r')))"
proof -
  have "skew (ANode lv c' l x r') = ANode lv c' l x r'"
    using assms(1) by (cases l) auto
  with assms alevel_nonneg [of l] alevel_zero [of r'] show ?thesis
    by (cases r') (auto simp: grown_def)
qed

lemma grown_ins_path: "balanced t \<Longrightarrow> grown t (ins_path cmp get n t)"
proof (induction t)
  case ANil
  show ?case by (simp add: grown_def place_node_def)
next
  case (ANode lv c l x r)
  then show ?case by (auto intro: grown_left grown_right)
qed

lemma balanced_ins_path: "balanced t \<Longrightarrow> balanced (ins_path cmp get n t)"
  using grown_ins_path [of t cmp get n] by (simp add: grown_def)

text \<open>What a deletion below does: the level stays, a single node staying single, or drops by one.\<close>

definition shrunk :: "'a anode \<Rightarrow> 'a anode \<Rightarrow> bool" where
  "shrunk t t' \<longleftrightarrow> balanced t' \<and>
     (alevel t' = alevel t \<and> (single t \<longrightarrow> single t') \<or> alevel t' = alevel t - 1)"

lemma balanced_level:
  assumes "balanced t" and "alevel t = n" and "1 \<le> n"
  shows "\<exists>c l x r. t = ANode n c l x r \<and> balanced l \<and> balanced r \<and> alevel l = n - 1 \<and>
    (alevel r = n - 1 \<or> alevel r = n \<and> single r)"
  using assms by (cases t) auto

lemma shrunk_left_drop1:
  assumes "balanced l'" "balanced r" "alevel l' = lv - 2" "alevel r = lv - 1" "2 \<le> lv"
  shows "shrunk (ANode lv c l x r) (walk_up (ANode lv c' l' x' r))"
proof -
  obtain cr rl xr rr where r: "r = ANode (lv - 1) cr rl xr rr" "balanced rl" "balanced rr"
    "alevel rl = lv - 2" "alevel rr = lv - 2 \<or> alevel rr = lv - 1 \<and> single rr"
    using balanced_level [OF assms(2,4)] assms(5) by auto
  have "skew (ANode (lv - 1) (c' - 1) l' x' r) = ANode (lv - 1) (c' - 1) l' x' r"
    using assms by (cases l') auto
  then show ?thesis
    using assms r skew_balanced [OF assms(2)] split_balanced [OF assms(2)]
      skew_balanced [OF r(3)] split_balanced [OF r(3)]
    by (auto simp: walk_up.simps shrunk_def)
qed

lemma shrunk_left_drop2:
  assumes "balanced l'" "balanced r" "alevel l' = lv - 2" "alevel r = lv" "single r" "2 \<le> lv"
  shows "shrunk (ANode lv c l x r) (walk_up (ANode lv c' l' x' r))"
proof -
  obtain cr rl xr rr where r: "r = ANode lv cr rl xr rr" "balanced rl" "balanced rr"
    "alevel rl = lv - 1" "alevel rr = lv - 1"
    using assms(2,4,5) by (cases r) auto
  obtain c1 rll x1 rlr where rl: "rl = ANode (lv - 1) c1 rll x1 rlr" "balanced rll" "balanced rlr"
    "alevel rll = lv - 2" "alevel rlr = lv - 2 \<or> alevel rlr = lv - 1 \<and> single rlr"
    using balanced_level [OF r(2,4)] assms(6) by auto
  obtain c2 rrl x2 rrr where rr: "rr = ANode (lv - 1) c2 rrl x2 rrr" "balanced rrl" "balanced rrr"
    "alevel rrl = lv - 2" "alevel rrr = lv - 2 \<or> alevel rrr = lv - 1 \<and> single rrr"
    using balanced_level [OF r(3,5)] assms(6) by auto
  have sk: "skew (ANode (lv - 1) c l' y t) = ANode (lv - 1) c l' y t" for c y t
    using assms by (cases l') auto
  show ?thesis
  proof (cases "alevel rlr = lv - 2")
    case True
    then have "skew (ANode (lv - 1) c rlr y t) = ANode (lv - 1) c rlr y t" for c y t
      by (cases rlr) auto
    with True show ?thesis using assms r(1) rl rr sk
      by (auto simp: walk_up.simps shrunk_def)
  next
    case False
    with rl obtain c3 a x3 b where rlr: "rlr = ANode (lv - 1) c3 a x3 b" "balanced a" "balanced b"
      "alevel a = lv - 2" "alevel b = lv - 2"
      using balanced_level [OF rl(3)] assms(6) rl(5) by auto
    then have "skew (ANode (lv - 1) c a y t) = ANode (lv - 1) c a y t"
      "skew (ANode (lv - 1) c b y t) = ANode (lv - 1) c b y t" for c y t
      by (cases a; cases b; auto)+
    with False rlr show ?thesis using assms r(1) rl rr sk
      by (auto simp: walk_up.simps shrunk_def)
  qed
qed

lemma shrunk_right_drop:
  assumes "balanced l" "balanced r'" "alevel l = lv - 1" "alevel r' = lv - 2" "2 \<le> lv" "alevel r = lv - 1"
  shows "shrunk (ANode lv c l x r) (walk_up (ANode lv c' l x' r'))"
proof -
  obtain c1 ll x1 lr where l: "l = ANode (lv - 1) c1 ll x1 lr" "balanced ll" "balanced lr"
    "alevel ll = lv - 2" "alevel lr = lv - 2 \<or> alevel lr = lv - 1 \<and> single lr"
    using assms(1,3,5) by (cases l) auto
  have r': "skew r' = r'" "split r' = r'"
    using assms(2) by (simp_all add: skew_balanced split_balanced)
  show ?thesis
  proof (cases "alevel lr = lv - 2")
    case True
    then have "skew (ANode (lv - 1) c lr y t) = ANode (lv - 1) c lr y t" for c y t
      by (cases lr) auto
    with True show ?thesis using assms l r'
      by (cases r') (auto simp: walk_up.simps shrunk_def)
  next
    case False
    with l(3,5) obtain c3 a x3 b where lr: "lr = ANode (lv - 1) c3 a x3 b" "balanced a" "balanced b"
      "alevel a = lv - 2" "alevel b = lv - 2"
      by (cases lr) auto
    then have "skew (ANode (lv - 1) c b y t) = ANode (lv - 1) c b y t" for c y t
      by (cases b) auto
    with False lr show ?thesis using assms l r'
      by (cases r') (auto simp: walk_up.simps shrunk_def)
  qed
qed

lemma shrunk_left:
  assumes "balanced (ANode lv c l x r)" and "shrunk l l'"
  shows "shrunk (ANode lv c l x r) (walk_up (ANode lv c' l' x' r))"
proof (cases "alevel l' = alevel l")
  case True
  with assms show ?thesis by (auto simp: walk_up.simps shrunk_def)
next
  case False
  with assms have "balanced l'" "balanced r" "alevel l' = lv - 2"
    "alevel r = lv - 1 \<or> alevel r = lv \<and> single r"
    by (auto simp: shrunk_def)
  moreover from this(1,3) alevel_nonneg [of l'] have "2 \<le> lv" by simp
  ultimately show ?thesis by (auto intro: shrunk_left_drop1 shrunk_left_drop2)
qed

lemma shrunk_right:
  assumes "balanced (ANode lv c l x r)" and "shrunk r r'"
  shows "shrunk (ANode lv c l x r) (walk_up (ANode lv c' l x' r'))"
proof (cases "alevel r' = lv - 2")
  case True
  from assms have b: "balanced l" "balanced r'" "alevel l = lv - 1" "alevel r = lv - 1 \<or> alevel r = lv"
    "alevel r' = alevel r \<or> alevel r' = alevel r - 1"
    unfolding shrunk_def by auto
  moreover from True b(4,5) have "alevel r = lv - 1" by linarith
  moreover from True b(2) alevel_nonneg [of r'] have "2 \<le> lv" by simp
  ultimately show ?thesis using True by (intro shrunk_right_drop)
next
  case False
  with assms have "balanced l" "balanced r'" "alevel l = lv - 1"
    "alevel r' = lv - 1 \<or> alevel r' = lv \<and> single r'" "alevel r = lv - 1 \<Longrightarrow> alevel r' = lv - 1"
    by (auto simp: shrunk_def)
  then show ?thesis using assms(1) by (auto simp: walk_up.simps shrunk_def)
qed

lemma shrunk_take_heir: "take_heir t = Some (h, t') \<Longrightarrow> balanced t \<Longrightarrow> shrunk t t'"
proof (induction t arbitrary: t')
  case (ANode lv c l x r)
  show ?case
  proof (cases "take_heir l")
    case None
    with ANode.prems show ?thesis by (auto simp: shrunk_def)
  next
    case (Some p)
    obtain h' l' where p: "p = (h', l')" by force
    from ANode.prems p Some have "h' = h" "t' = walk_up (ANode lv c l' x r)" by auto
    with ANode p Some shrunk_left show ?thesis by fastforce
  qed
qed simp

lemma shrunk_unlink:
  assumes "balanced (ANode lv c l x r)"
  shows "shrunk (ANode lv c l x r) (unlink rt lv c l r)"
proof (cases "l = ANil \<or> r = ANil")
  case True
  then have "l = ANil" using assms alevel_zero [of l] alevel_nonneg [of l] by auto
  with assms show ?thesis by (auto simp: unlink_def shrunk_def)
next
  case False
  then obtain h r' where "take_heir r = Some (h, r')" by (cases "take_heir r") auto
  moreover from assms have "balanced r" by simp
  ultimately show ?thesis
    using False shrunk_right [OF assms shrunk_take_heir] by (simp add: unlink_def)
qed

lemma shrunk_erase_path:
  "erase_path cmp get rt v t = Some (d, t') \<Longrightarrow> balanced t \<Longrightarrow> shrunk t t'"
proof (induction t arbitrary: rt t')
  case (ANode lv c l x r)
  consider "cmp (get x) v = 0" | "cmp (get x) v < 0" | "0 < cmp (get x) v" by linarith
  then show ?case
  proof cases
    case 1
    with ANode.prems shrunk_unlink show ?thesis by (auto simp del: balanced.simps)
  next
    case 2
    with ANode.prems(1) obtain r' where "erase_path cmp get False v r = Some (d, r')"
      "t' = walk_up (ANode lv c l x r')" by auto
    with ANode.IH(2) ANode.prems(2) show ?thesis by (auto intro: shrunk_right simp del: balanced.simps(2) dest: balanced.simps(2) [THEN iffD1])
  next
    case 3
    with ANode.prems(1) obtain l' where "erase_path cmp get False v l = Some (d, l')"
      "t' = walk_up (ANode lv c l' x r)" by auto
    with ANode.IH(1) ANode.prems(2) show ?thesis by (auto intro: shrunk_left simp del: balanced.simps(2) dest: balanced.simps(2) [THEN iffD1])
  qed
qed simp

lemma unlink_inorder:
  assumes "balanced (ANode lv c l x r)"
  shows "inorder (unlink rt lv c l r) = inorder l @ inorder r"
proof (cases "l = ANil \<or> r = ANil")
  case True
  then have "l = ANil" using assms alevel_zero [of l] alevel_nonneg [of l] by auto
  then show ?thesis by (simp add: unlink_def)
next
  case False
  then obtain h r' where "take_heir r = Some (h, r')" by (cases "take_heir r") auto
  with False show ?thesis by (simp add: unlink_def take_heir_inorder)
qed

lemma unlink_counted:
  assumes "counted (ANode lv c l x r)" and "balanced (ANode lv c l x r)"
  shows "counted (unlink rt lv c l r) \<and> acount (unlink rt lv c l r) = c - 1"
proof (cases "l = ANil \<or> r = ANil")
  case True
  then have "l = ANil" using assms alevel_zero [of l] alevel_nonneg [of l] by auto
  with assms show ?thesis by (simp add: unlink_def)
next
  case False
  then obtain h r' where h: "take_heir r = Some (h, r')" by (cases "take_heir r") auto
  with assms have "counted r'" "acount r = acount r' + 1" using take_heir_counted [OF h] by simp_all
  with False h assms counted_walk_up [of l r' c lv h] show ?thesis by (simp add: unlink_def)
qed

lemma counted_erase_path:
  "erase_path cmp get rt v t = Some (d, t') \<Longrightarrow> counted t \<Longrightarrow> balanced t \<Longrightarrow>
    counted t' \<and> acount t = acount t' + 1"
proof (induction t arbitrary: rt t')
  case (ANode lv c l x r)
  consider "cmp (get x) v = 0" | "cmp (get x) v < 0" | "0 < cmp (get x) v" by linarith
  then show ?case
  proof cases
    case 1
    with ANode.prems unlink_counted [OF ANode.prems(2,3), of rt] show ?thesis by simp
  next
    case 2
    with ANode.prems(1) obtain r' where r': "erase_path cmp get False v r = Some (d, r')"
      "t' = walk_up (ANode lv c l x r')" by auto
    with ANode.IH(2) [OF r'(1)] ANode.prems counted_walk_up [of l r' c lv x] show ?thesis by simp
  next
    case 3
    with ANode.prems(1) obtain l' where l': "erase_path cmp get False v l = Some (d, l')"
      "t' = walk_up (ANode lv c l' x r)" by auto
    with ANode.IH(1) [OF l'(1)] ANode.prems counted_walk_up [of l' r c lv x] show ?thesis by simp
  qed
qed simp

lemma erase_path_inorder:
  "erase_path cmp get rt v t = Some (d, t') \<Longrightarrow> balanced t \<Longrightarrow>
    cmp (get d) v = 0 \<and> (\<exists>xs ys. inorder t = xs @ d # ys \<and> inorder t' = xs @ ys)"
proof (induction t arbitrary: rt t')
  case (ANode lv c l x r)
  consider "cmp (get x) v = 0" | "cmp (get x) v < 0" | "0 < cmp (get x) v" by linarith
  then show ?case
  proof cases
    case 1
    with ANode.prems unlink_inorder [OF ANode.prems(2), of rt] show ?thesis by auto
  next
    case 2
    with ANode.prems(1) obtain r' where r': "erase_path cmp get False v r = Some (d, r')"
      "t' = walk_up (ANode lv c l x r')" by auto
    from ANode.IH(2) [OF r'(1)] ANode.prems(2) obtain xs ys where
      "cmp (get d) v = 0" "inorder r = xs @ d # ys" "inorder r' = xs @ ys" by auto
    then have "cmp (get d) v = 0" "inorder (ANode lv c l x r) = (inorder l @ x # xs) @ d # ys"
      "inorder t' = (inorder l @ x # xs) @ ys" by (simp_all add: r'(2))
    then show ?thesis by blast
  next
    case 3
    with ANode.prems(1) obtain l' where l': "erase_path cmp get False v l = Some (d, l')"
      "t' = walk_up (ANode lv c l' x r)" by auto
    from ANode.IH(1) [OF l'(1)] ANode.prems(2) obtain xs ys where
      "cmp (get d) v = 0" "inorder l = xs @ d # ys" "inorder l' = xs @ ys" by auto
    then have "cmp (get d) v = 0" "inorder (ANode lv c l x r) = xs @ d # (ys @ x # inorder r)"
      "inorder t' = xs @ (ys @ x # inorder r)" by (simp_all add: l'(2))
    then show ?thesis by blast
  qed
qed simp

lemma index_loop_nth:
  "counted t \<Longrightarrow> i < length (inorder t) \<Longrightarrow> index_loop (k + i) k t = Some (inorder t ! i)"
proof (induction t arbitrary: i k)
  case (ANode lv c l x r)
  have cl: "acount l = length (inorder l)" using ANode.prems by (simp add: counted_length)
  consider "i < length (inorder l)" | "i = length (inorder l)" | "length (inorder l) < i" by linarith
  then show ?case
  proof cases
    case 3
    define j where "j = i - length (inorder l) - 1"
    with 3 have i: "i = length (inorder l) + 1 + j" by simp
    with ANode.IH(2) [of j "k + (acount l + 1)"] ANode.prems cl show ?thesis
      by (simp add: nth_append add.assoc)
  qed (use ANode cl in \<open>simp_all add: nth_append\<close>)
qed simp

section \<open>Height\<close>

lemma height_level: "balanced t \<Longrightarrow> int (height t) \<le> 2 * alevel t \<and> (single t \<longrightarrow> int (height t) \<le> 2 * alevel t - 1)"
  by (induction t) (auto dest: alevel_nonneg)

lemma level_size: "balanced t \<Longrightarrow> 2 ^ nat (alevel t) \<le> length (inorder t) + 1"
proof (induction t)
  case (ANode lv c l x r)
  then have l: "0 \<le> alevel l" "lv = alevel l + 1" "alevel l \<le> alevel r" "balanced l" "balanced r"
    by (auto dest: alevel_nonneg)
  then have "nat lv = Suc (nat (alevel l))" by simp
  moreover have "(2::nat) ^ nat (alevel l) \<le> length (inorder r) + 1"
    using ANode.IH(2) l power_increasing [of "nat (alevel l)" "nat (alevel r)" "2 :: nat"] by linarith
  ultimately show ?case using ANode.IH(1) l by simp
qed simp

section \<open>Trees over an ordered key\<close>

definition ordered :: "('k \<Rightarrow> 'k \<Rightarrow> int) \<Rightarrow> ('a \<Rightarrow> 'k) \<Rightarrow> 'a list \<Rightarrow> bool" where
  "ordered cmp get xs = sorted_wrt (\<lambda>x y. cmp (get x) (get y) \<le> 0) xs"

definition nodes :: "('a, 'k) jsw_atree \<Rightarrow> 'a list" where
  "nodes tree = inorder (root tree)"

definition atree_ok :: "('k \<Rightarrow> 'k \<Rightarrow> int) \<Rightarrow> ('k \<Rightarrow> bool) \<Rightarrow> ('a, 'k) jsw_atree \<Rightarrow> bool" where
  "atree_ok cmp valid tree \<longleftrightarrow>
     acmp tree = cmp \<and> balanced (root tree) \<and> counted (root tree) \<and> asize tree = length (nodes tree) \<and>
     ordered cmp (aget tree) (nodes tree) \<and> (\<forall>x \<in> set (nodes tree). valid (aget tree x))"

lemma length_take_drop: "length (takeWhile P xs) + length (dropWhile P xs) = length xs"
  by (metis length_append takeWhile_dropWhile_id)

text \<open>What the trees rely on: the comparison is a total preorder on the keys in use.\<close>

locale key_order =
  fixes cmp :: "'k \<Rightarrow> 'k \<Rightarrow> int"
    and valid :: "'k \<Rightarrow> bool"
  assumes cmp_swap: "valid a \<Longrightarrow> valid b \<Longrightarrow> cmp a b < 0 \<longleftrightarrow> 0 < cmp b a"
    and cmp_trans: "valid a \<Longrightarrow> valid b \<Longrightarrow> valid c \<Longrightarrow> cmp a b \<le> 0 \<Longrightarrow> cmp b c \<le> 0 \<Longrightarrow> cmp a c \<le> 0"
begin

lemma cmp_refl: "valid a \<Longrightarrow> cmp a a = 0"
  using cmp_swap [of a a] by linarith

lemma cmp_le_less: "valid a \<Longrightarrow> valid b \<Longrightarrow> valid c \<Longrightarrow> cmp a b \<le> 0 \<Longrightarrow> cmp b c < 0 \<Longrightarrow> cmp a c < 0"
  by (meson cmp_swap cmp_trans not_le)

lemma cmp_less_le: "valid a \<Longrightarrow> valid b \<Longrightarrow> valid c \<Longrightarrow> cmp a b < 0 \<Longrightarrow> cmp b c \<le> 0 \<Longrightarrow> cmp a c < 0"
  by (meson cmp_swap cmp_trans not_le)

lemma ins_path_inorder:
  assumes "ordered cmp get (inorder t)" and "\<forall>x \<in> set (inorder t). valid (get x)" and "valid (get n)"
  shows "inorder (ins_path cmp get n t) =
    takeWhile (\<lambda>x. cmp (get x) (get n) < 0) (inorder t) @ n # dropWhile (\<lambda>x. cmp (get x) (get n) < 0) (inorder t)"
  using assms
proof (induction t)
  case (ANode lv c l x r)
  have o: "ordered cmp get (inorder l)" "ordered cmp get (inorder r)"
    "\<forall>y \<in> set (inorder l). cmp (get y) (get x) \<le> 0"
    using ANode.prems(1) by (auto simp: ordered_def sorted_wrt_append)
  show ?case
  proof (cases "cmp (get x) (get n) < 0")
    case True
    then have "\<forall>y \<in> set (inorder l). cmp (get y) (get n) < 0"
      using o(3) ANode.prems(2,3) by (auto intro: cmp_le_less)
    with True ANode o show ?thesis by (simp add: takeWhile_append2 dropWhile_append2)
  next
    case False
    with ANode o show ?thesis by (simp add: takeWhile_tail dropWhile_append3)
  qed
qed (simp add: place_node_def)

lemma insert_ordered:
  assumes "ordered cmp get xs" and "\<forall>x \<in> set xs. valid (get x)" and "valid (get n)"
  shows "ordered cmp get (takeWhile (\<lambda>x. cmp (get x) (get n) < 0) xs @ n # dropWhile (\<lambda>x. cmp (get x) (get n) < 0) xs)"
  using assms
proof (induction xs)
  case (Cons x xs)
  show ?case
  proof (cases "cmp (get x) (get n) < 0")
    case True
    with Cons show ?thesis
      by (auto simp: ordered_def dest: set_takeWhileD set_dropWhileD)
  next
    case False
    then have "cmp (get n) (get x) \<le> 0" using Cons.prems cmp_swap [of "get x" "get n"]
      by (metis list.set_intros(1) cmp_swap not_le)
    moreover have "cmp (get n) (get y) \<le> 0" if "y \<in> set xs" for y
      using that calculation Cons.prems by (auto simp: ordered_def intro: cmp_trans [of _ "get x"])
    ultimately show ?thesis using False Cons.prems(1) by (auto simp: ordered_def)
  qed
qed (simp add: ordered_def)

lemma find_loop_spec:
  assumes "counted t" and "ordered cmp get (inorder t)" and "\<forall>x \<in> set (inorder t). valid (get x)" and "valid v"
  shows "case find_loop cmp get v k t of
      (Some x, i) \<Rightarrow> \<exists>j < length (inorder t). i = k + j \<and> inorder t ! j = x \<and> cmp (get x) v = 0
    | (None, i) \<Rightarrow> i = k + length (takeWhile (\<lambda>x. cmp (get x) v < 0) (inorder t)) \<and>
        (\<forall>x \<in> set (inorder t). cmp (get x) v \<noteq> 0)"
  using assms
proof (induction t arbitrary: k)
  case (ANode lv c l x r)
  have o: "ordered cmp get (inorder l)" "ordered cmp get (inorder r)"
    "\<forall>y \<in> set (inorder l). cmp (get y) (get x) \<le> 0" "\<forall>y \<in> set (inorder r). cmp (get x) (get y) \<le> 0"
    using ANode.prems(2) by (auto simp: ordered_def sorted_wrt_append)
  have cl: "acount l = length (inorder l)" using ANode.prems(1) by (simp add: counted_length)
  consider "cmp (get x) v = 0" | "cmp (get x) v < 0" | "0 < cmp (get x) v" by linarith
  then show ?case
  proof cases
    case 1
    then show ?thesis using cl by (auto intro!: exI [of _ "length (inorder l)"] simp: nth_append)
  next
    case 2
    then have l: "\<forall>y \<in> set (inorder l). cmp (get y) v < 0"
      using o(3) ANode.prems by (auto intro: cmp_le_less)
    obtain res i where f: "find_loop cmp get v (k + (acount l + 1)) r = (res, i)" by force
    note IH = ANode.IH(2) [of "k + (acount l + 1)", unfolded f]
    show ?thesis
    proof (cases res)
      case None
      then show ?thesis using IH ANode.prems o(2) 2 l cl f by (auto simp: takeWhile_append2)
    next
      case (Some y)
      then obtain j where "j < length (inorder r)" "i = k + (acount l + 1) + j" "inorder r ! j = y" "cmp (get y) v = 0"
        using IH ANode.prems o(2) by auto
      then show ?thesis using Some 2 f cl
        by (auto simp: nth_append intro!: exI [of _ "length (inorder l) + 1 + j"])
    qed
  next
    case 3
    then have r: "0 < cmp (get y) v" if "y \<in> set (inorder r)" for y
      using that o(4) ANode.prems cmp_swap [of v] cmp_less_le [of v "get x" "get y"] by auto
    from ANode.IH(1) [of k] ANode.prems o(1)
    have "case find_loop cmp get v k l of
        (Some x, i) \<Rightarrow> \<exists>j < length (inorder l). i = k + j \<and> inorder l ! j = x \<and> cmp (get x) v = 0
      | (None, i) \<Rightarrow> i = k + length (takeWhile (\<lambda>x. cmp (get x) v < 0) (inorder l)) \<and>
          (\<forall>x \<in> set (inorder l). cmp (get x) v \<noteq> 0)" by simp
    then show ?thesis using 3 r
      by (fastforce split: prod.splits option.splits simp: takeWhile_tail nth_append)
  qed
qed simp

lemma erase_path_None:
  assumes "ordered cmp get (inorder t)" and "\<forall>x \<in> set (inorder t). valid (get x)" and "valid v"
  shows "erase_path cmp get rt v t = None \<longleftrightarrow> (\<forall>x \<in> set (inorder t). cmp (get x) v \<noteq> 0)"
  using assms
proof (induction t arbitrary: rt)
  case (ANode lv c l x r)
  have o: "ordered cmp get (inorder l)" "ordered cmp get (inorder r)"
    "\<forall>y \<in> set (inorder l). cmp (get y) (get x) \<le> 0" "\<forall>y \<in> set (inorder r). cmp (get x) (get y) \<le> 0"
    using ANode.prems(1) by (auto simp: ordered_def sorted_wrt_append)
  have l: "cmp (get y) v < 0" if "cmp (get x) v < 0" "y \<in> set (inorder l)" for y
    using that o(3) ANode.prems by (auto intro: cmp_le_less)
  have r: "0 < cmp (get y) v" if "0 < cmp (get x) v" "y \<in> set (inorder r)" for y
    using that o(4) ANode.prems cmp_swap [of v] cmp_less_le [of v "get x" "get y"] by auto
  show ?case using ANode o l r by force
qed simp

text \<open>The contract of the container, over the list of its nodes in order.\<close>

lemma ainit_ok: "atree_ok cmp valid (jsw_ainit cmp get)"
  by (simp add: atree_ok_def jsw_ainit_def nodes_def ordered_def)

lemma ainsert_ok:
  assumes "atree_ok cmp valid tree" and "valid (aget tree n)"
  shows "atree_ok cmp valid (jsw_ainsert tree n)"
    and "nodes (jsw_ainsert tree n) =
      takeWhile (\<lambda>x. cmp (aget tree x) (aget tree n) < 0) (nodes tree) @ n #
      dropWhile (\<lambda>x. cmp (aget tree x) (aget tree n) < 0) (nodes tree)"
proof -
  have t: "acmp tree = cmp" "balanced (root tree)" "counted (root tree)" "asize tree = length (nodes tree)"
    "ordered cmp (aget tree) (nodes tree)" "\<forall>x \<in> set (nodes tree). valid (aget tree x)"
    using assms(1) by (simp_all add: atree_ok_def)
  show n: "nodes (jsw_ainsert tree n) =
      takeWhile (\<lambda>x. cmp (aget tree x) (aget tree n) < 0) (nodes tree) @ n #
      dropWhile (\<lambda>x. cmp (aget tree x) (aget tree n) < 0) (nodes tree)"
    using ins_path_inorder t assms(2) by (simp add: nodes_def jsw_ainsert_def)
  show "atree_ok cmp valid (jsw_ainsert tree n)"
    unfolding atree_ok_def n
    using t assms(2) insert_ordered [OF t(5,6) assms(2)]
    by (auto simp: jsw_ainsert_def balanced_ins_path counted_ins_path length_take_drop dest: set_takeWhileD set_dropWhileD)
qed

lemma aerase_ok:
  assumes "atree_ok cmp valid tree" and "valid v"
  shows "case jsw_aerase tree v of
      (Some d, tree') \<Rightarrow> atree_ok cmp valid tree' \<and> aget tree' = aget tree \<and> cmp (aget tree d) v = 0 \<and>
        (\<exists>xs ys. nodes tree = xs @ d # ys \<and> nodes tree' = xs @ ys)
    | (None, tree') \<Rightarrow> tree' = tree \<and> (\<forall>x \<in> set (nodes tree). cmp (aget tree x) v \<noteq> 0)"
proof (cases "erase_path (acmp tree) (aget tree) True v (root tree)")
  case None
  then show ?thesis
    using assms erase_path_None [of "aget tree" "root tree" v True]
    by (simp add: jsw_aerase_def atree_ok_def nodes_def)
next
  case (Some p)
  obtain d t where p: "p = (d, t)" by force
  with Some assms have e: "erase_path cmp (aget tree) True v (root tree) = Some (d, t)"
    "balanced (root tree)" "counted (root tree)" by (simp_all add: atree_ok_def)
  from erase_path_inorder [OF e(1,2)] obtain xs ys where
    x: "cmp (aget tree d) v = 0" "inorder (root tree) = xs @ d # ys" "inorder t = xs @ ys" by blast
  have "balanced t" using shrunk_erase_path [OF e(1,2)] by (simp add: shrunk_def)
  moreover have "counted t" using counted_erase_path [OF e(1) e(3) e(2)] by simp
  ultimately show ?thesis
    using assms Some p x by (auto simp: jsw_aerase_def atree_ok_def nodes_def ordered_def sorted_wrt_append)
qed

end

section \<open>Traversal in either direction\<close>

fun toward :: "bool \<Rightarrow> 'a anode \<Rightarrow> 'a list" where
  "toward d ANil = []"
| "toward d (ANode lv c l x r) =
     toward d (if d then l else r) @ x # toward d (if d then r else l)"

lemma toward_inorder: "toward d t = (if d then inorder t else rev (inorder t))"
  by (induction t) auto

lemma toward_eq_Nil [simp]: "toward d t = [] \<longleftrightarrow> t = ANil"
  by (cases t) auto

text \<open>
  \<open>zipper d t s ps xs ys\<close>: the subtree \<open>s\<close> of \<open>t\<close> is reached through the stack \<open>ps\<close>; \<open>xs\<close> come
  before it and \<open>ys\<close> after it, in direction \<open>d\<close>.
\<close>

inductive zipper :: "bool \<Rightarrow> 'a anode \<Rightarrow> 'a anode \<Rightarrow> 'a anode list \<Rightarrow> 'a list \<Rightarrow> 'a list \<Rightarrow> bool" for d t where
  top: "zipper d t t [] [] []"
| near: "zipper d t (ANode lv c l x r) ps xs ys \<Longrightarrow>
    zipper d t (if d then l else r) (ANode lv c l x r # ps) xs (x # toward d (if d then r else l) @ ys)"
| far: "zipper d t (ANode lv c l x r) ps xs ys \<Longrightarrow>
    zipper d t (if d then r else l) (ANode lv c l x r # ps) (xs @ toward d (if d then l else r) @ [x]) ys"

inductive_cases zipper_empty: "zipper d t s [] xs ys"
inductive_cases zipper_push: "zipper d t s (p # ps) xs ys"

lemma zipper_toward: "zipper d t s ps xs ys \<Longrightarrow> toward d t = xs @ toward d s @ ys"
  by (induction rule: zipper.induct) auto

definition stands_at :: "bool \<Rightarrow> 'a anode \<Rightarrow> 'a jsw_atrav \<Rightarrow> 'a list \<Rightarrow> 'a \<Rightarrow> 'a list \<Rightarrow> bool" where
  "stands_at d t trav pre x post \<longleftrightarrow>
     (\<exists>lv c l r xs ys. zipper d t (it trav) (path trav) xs ys \<and> it trav = ANode lv c l x r \<and>
        pre = xs @ toward d (if d then l else r) \<and> post = toward d (if d then r else l) @ ys)"

lemma stands_at_toward: "stands_at d t trav pre x post \<Longrightarrow> toward d t = pre @ x # post"
  by (auto simp: stands_at_def dest: zipper_toward)

lemma stands_at_elem: "stands_at d t trav pre x post \<Longrightarrow> aelem (it trav) = Some x"
  by (auto simp: stands_at_def)

lemma descend_stands_at:
  "zipper d t s ps xs ys \<Longrightarrow> s \<noteq> ANil \<Longrightarrow>
    \<exists>x post. stands_at d t (descend (\<not> d) s ps) xs x post \<and> x # post = toward d s @ ys"
proof (induction s arbitrary: ps ys)
  case (ANode lv c l x r)
  let ?s = "ANode lv c l x r" and ?near = "if d then l else r"
  show ?case
  proof (cases "?near = ANil")
    case True
    then have e: "descend (\<not> d) ?s ps = \<lparr>it = ?s, path = ps\<rparr>" by (cases d) auto
    from True ANode.prems(1) have "stands_at d t (descend (\<not> d) ?s ps) xs x (toward d (if d then r else l) @ ys)"
      unfolding stands_at_def e by auto
    with True show ?thesis by (auto split: if_splits)
  next
    case False
    have "\<exists>y post. stands_at d t (descend (\<not> d) ?near (?s # ps)) xs y post \<and>
        y # post = toward d ?near @ (x # toward d (if d then r else l) @ ys)"
      using ANode.IH zipper.near [OF ANode.prems(1)] False by (cases d) auto
    moreover have "descend (\<not> d) ?s ps = descend (\<not> d) ?near (?s # ps)" using False by (cases d) auto
    ultimately show ?thesis by (cases d) auto
  qed
qed simp

lemma ascend_stands_at:
  assumes "zipper d t s ps xs ys" and "s \<noteq> ANil" and "distinct (toward d t)"
  shows "case ys of [] \<Rightarrow> it (ascend d s ps) = ANil
    | y # post \<Rightarrow> stands_at d t (ascend d s ps) (xs @ toward d s) y post"
  using assms
proof (induction ps arbitrary: s xs ys)
  case Nil
  then show ?case by (auto elim: zipper_empty)
next
  case (Cons p ps)
  from Cons.prems(1) consider
    (near) lv c l x r ys' where "p = ANode lv c l x r" "s = (if d then l else r)"
      "ys = x # toward d (if d then r else l) @ ys'" "zipper d t p ps xs ys'"
  | (far) lv c l x r xs' where "p = ANode lv c l x r" "s = (if d then r else l)"
      "xs = xs' @ toward d (if d then l else r) @ [x]" "zipper d t p ps xs' ys"
    by (auto elim!: zipper_push)
  then show ?case
  proof cases
    case near
    from zipper_toward [OF near(4)] Cons.prems(3) near(1,2)
    have "distinct (toward d s @ toward d (if d then r else l))" by (cases d) auto
    then have "s \<noteq> (if d then r else l)" using Cons.prems(2) by (cases s) (auto split: if_splits)
    then have "ascend d s (p # ps) = \<lparr>it = p, path = ps\<rparr>" using near(1) by auto
    with near show ?thesis by (auto simp: stands_at_def)
  next
    case far
    then have m: "ascend d s (p # ps) = ascend d p ps" "xs @ toward d s = xs' @ toward d p" by auto
    show ?thesis unfolding m using far(1) by (intro Cons.IH [OF far(4) _ Cons.prems(3)]) simp
  qed
qed

lemma move_stands_at:
  assumes "stands_at d t trav pre x post" and "distinct (toward d t)"
  shows "case post of [] \<Rightarrow> it (move d trav) = ANil
    | y # post' \<Rightarrow> stands_at d t (move d trav) (pre @ [x]) y post'"
proof -
  obtain lv c l r xs ys where z: "zipper d t (ANode lv c l x r) (path trav) xs ys"
    "it trav = ANode lv c l x r" "pre = xs @ toward d (if d then l else r)"
    "post = toward d (if d then r else l) @ ys"
    using assms(1) by (auto simp: stands_at_def)
  show ?thesis
  proof (cases "(if d then r else l) = ANil")
    case True
    then have m: "move d trav = ascend d (ANode lv c l x r) (path trav)" "post = ys"
      "pre @ [x] = xs @ toward d (ANode lv c l x r)"
      using z by (auto simp: move_def split: if_splits)
    show ?thesis unfolding m by (rule ascend_stands_at [OF z(1) _ assms(2)]) simp
  next
    case False
    then have "move d trav = descend (\<not> d) (if d then r else l) (ANode lv c l x r # path trav)"
      using z by (auto simp: move_def)
    with descend_stands_at [OF zipper.far [OF z(1)]] False z(3,4) show ?thesis
      by (auto simp: append_eq_Cons_conv Cons_eq_append_conv split: list.split)
  qed
qed

lemma start_stands_at:
  "t \<noteq> ANil \<Longrightarrow> \<exists>x post. stands_at d t (start (\<not> d) t) [] x post \<and> x # post = toward d t"
  using descend_stands_at [OF zipper.top, of t d] by (simp add: start_def)

text \<open>The loop over all nodes that the callers write: \<open>for(n = jsw_atfirst(..); n; n = jsw_atnext(..))\<close>.\<close>

fun collect :: "nat \<Rightarrow> 'a option \<times> 'a jsw_atrav \<Rightarrow> 'a list" where
  "collect fuel (None, trav) = []"
| "collect 0 (Some x, trav) = []"
| "collect (Suc fuel) (Some x, trav) = x # collect fuel (jsw_atnext trav)"

lemma collect_stands_at:
  "stands_at True t trav pre x post \<Longrightarrow> distinct (inorder t) \<Longrightarrow> length post < fuel \<Longrightarrow>
    collect fuel (Some x, trav) = x # post"
proof (induction post arbitrary: pre x trav fuel)
  case Nil
  then obtain f where "fuel = Suc f" by (cases fuel) auto
  with Nil move_stands_at [of True t trav pre x "[]"] show ?case
    by (cases "collect f (jsw_atnext trav)") (auto simp: toward_inorder jsw_atnext_def)
next
  case (Cons y post)
  then obtain f where f: "fuel = Suc f" by (cases fuel) auto
  from Cons.prems move_stands_at [of True t trav pre x "y # post"]
  have "stands_at True t (move True trav) (pre @ [x]) y post" by (simp add: toward_inorder)
  with Cons f show ?case by (simp add: jsw_atnext_def stands_at_elem)
qed

lemma collect_nodes:
  assumes "distinct (nodes tree)" and "length (nodes tree) \<le> fuel"
  shows "collect fuel (jsw_atfirst tree) = nodes tree"
proof (cases "root tree")
  case ANil
  then show ?thesis by (simp add: nodes_def jsw_atfirst_def start_def)
next
  case (ANode lv c l x r)
  then obtain y post where y: "stands_at True (root tree) (start False (root tree)) [] y post"
    "y # post = nodes tree"
    using start_stands_at [of "root tree" True] by (auto simp: nodes_def toward_inorder)
  then have "jsw_atfirst tree = (Some y, start False (root tree))"
    by (simp add: jsw_atfirst_def stands_at_elem)
  with collect_stands_at [OF y(1), of fuel] assms y(2) show ?thesis
    by (cases "nodes tree") (auto simp: nodes_def)
qed

section \<open>The key orders in use\<close>

lemma jsw_cmp_uint_le: "jsw_cmp_uint a b \<le> 0 \<longleftrightarrow> a \<le> b"
  by (auto simp: jsw_cmp_uint_def)

lemma jsw_cmp_uint_less: "jsw_cmp_uint a b < 0 \<longleftrightarrow> a < b"
  by (simp add: jsw_cmp_uint_def)

lemma jsw_cmp_uint_0 [simp]: "jsw_cmp_uint a b = 0 \<longleftrightarrow> a = b"
  by (auto simp: jsw_cmp_uint_def)

interpretation uint_keys: key_order jsw_cmp_uint "\<lambda>_. True"
proof unfold_locales
  fix a b c :: u32
  show "jsw_cmp_uint a b < 0 \<longleftrightarrow> 0 < jsw_cmp_uint b a" by (auto simp: jsw_cmp_uint_def)
  assume "jsw_cmp_uint a b \<le> 0" and "jsw_cmp_uint b c \<le> 0"
  then show "jsw_cmp_uint a c \<le> 0" unfolding jsw_cmp_uint_le by (rule order_trans)
qed

definition text_key :: "dstr \<Rightarrow> bool" where
  "text_key k \<longleftrightarrow> \<not> dnull k \<and> 0 \<notin> set (ddata k)"

lemma sint_byte_0: "sint (x :: byte) = 0 \<longleftrightarrow> x = 0"
  using signed_word_eqI [of x 0] by auto

lemma sint_byte_eq: "sint (x :: byte) = sint y \<longleftrightarrow> x = y"
  using signed_word_eqI [of x y] by auto

lemma cmp_loop_trans:
  "0 \<notin> set xs \<Longrightarrow> 0 \<notin> set ys \<Longrightarrow> 0 \<notin> set zs \<Longrightarrow>
    cmp_loop noichar xs ys \<le> 0 \<Longrightarrow> cmp_loop noichar ys zs \<le> 0 \<Longrightarrow> cmp_loop noichar xs zs \<le> 0"
proof (induction xs arbitrary: ys zs)
  case Nil
  then show ?case
    by (cases ys; cases zs) (auto simp: noichar_def sint_byte_0 split: if_splits)
next
  case (Cons x xs)
  have n: "sint w \<noteq> 0" if "w \<in> set (x # xs) \<union> set ys \<union> set zs" for w
    using that Cons.prems(1-3) sint_byte_0 [of w] by auto
  show ?case
  proof (cases "ys = [] \<or> zs = []")
    case True
    then show ?thesis using Cons.prems(4,5) n [of x] n [of "hd ys"] n [of "hd zs"]
      by (cases ys; cases zs) (auto simp: noichar_def split: if_splits)
  next
    case False
    then obtain y ys' z zs' where yz: "ys = y # ys'" "zs = z # zs'" by (cases ys; cases zs) auto
    show ?thesis
    proof (cases "x = y \<and> y = z")
      case True
      with Cons.prems yz show ?thesis using Cons.IH [of ys' zs'] by (simp add: noichar_def)
    next
      case False
      have "x \<noteq> y \<Longrightarrow> sint x \<le> sint y" "y \<noteq> z \<Longrightarrow> sint y \<le> sint z"
        using Cons.prems(4,5) by (simp_all add: yz noichar_def)
      then have "x \<noteq> y \<Longrightarrow> sint x < sint y" "y \<noteq> z \<Longrightarrow> sint y < sint z"
        by (metis sint_byte_eq order_le_less)+
      with False have "sint x < sint z" by (metis less_trans)
      then show ?thesis by (auto simp: yz noichar_def)
    qed
  qed
qed

lemma jsw_cmp_dstr_text:
  "text_key a \<Longrightarrow> text_key b \<Longrightarrow> jsw_cmp_dstr a b = cmp_loop noichar (ddata a) (ddata b)"
  by (auto simp: jsw_cmp_dstr_def dstr_cmp_def do_dstr_cmp2_def text_key_def)

interpretation text_keys: key_order jsw_cmp_dstr text_key
proof unfold_locales
  fix a b c
  assume k: "text_key a" "text_key b"
  then show "jsw_cmp_dstr a b < 0 \<longleftrightarrow> 0 < jsw_cmp_dstr b a"
    using cmp_loop_sym [of noichar "ddata a" "ddata b"] by (simp add: jsw_cmp_dstr_text)
  assume "text_key c" "jsw_cmp_dstr a b \<le> 0" "jsw_cmp_dstr b c \<le> 0"
  with k show "jsw_cmp_dstr a c \<le> 0"
    using cmp_loop_trans [of "ddata a" "ddata b" "ddata c"] by (simp add: jsw_cmp_dstr_text text_key_def)
qed

section \<open>Removal during a traversal\<close>

lemma toward_not: "toward (\<not> d) t = rev (toward d t)"
  by (simp add: toward_inorder)

lemma zipper_flip: "zipper d t s ps xs ys \<Longrightarrow> zipper (\<not> d) t s ps (rev ys) (rev xs)"
proof (induction rule: zipper.induct)
  case top
  show ?case by (simp add: zipper.top)
next
  case (near lv c l x r ps xs ys)
  from zipper.far [OF near.IH] show ?case by (cases d) (simp_all add: toward_inorder)
next
  case (far lv c l x r ps xs ys)
  from zipper.near [OF far.IH] show ?case by (cases d) (simp_all add: toward_inorder)
qed

lemma stands_at_flip: "stands_at d t trav pre x post \<Longrightarrow> stands_at (\<not> d) t trav (rev post) x (rev pre)"
  unfolding stands_at_def
  by (elim exE conjE, drule zipper_flip, intro exI conjI, assumption+) (simp_all add: toward_not)

lemma past_the_end:
  assumes "distinct (inorder t)"
  shows "it (move d (start d t)) = ANil"
proof (cases "t = ANil")
  case False
  then obtain x post where "stands_at (\<not> d) t (start d t) [] x post"
    using start_stands_at [of t "\<not> d"] by auto
  from move_stands_at [OF stands_at_flip [OF this]] assms show ?thesis by (simp add: toward_inorder)
qed (simp add: start_def move_def)

context key_order
begin

lemma atnode_stands_at:
  assumes "zipper True t s ps xs ys" and "ordered cmp get (inorder s)" and "\<forall>x \<in> set (inorder s). valid (get x)"
    and "y \<in> set (inorder s)" and "\<forall>x \<in> set (inorder s). cmp (get x) (get y) = 0 \<longrightarrow> x = y"
  shows "\<exists>pre post. stands_at True t (atnode_loop cmp get (get y) s ps) pre y post"
  using assms
proof (induction s arbitrary: ps xs ys)
  case (ANode lv c l x r)
  have o: "ordered cmp get (inorder l)" "ordered cmp get (inorder r)"
    "\<forall>z \<in> set (inorder l). cmp (get z) (get x) \<le> 0" "\<forall>z \<in> set (inorder r). cmp (get x) (get z) \<le> 0"
    using ANode.prems(2) by (auto simp: ordered_def sorted_wrt_append)
  have v: "valid (get x)" "valid (get y)" using ANode.prems(3,4) by auto
  consider "cmp (get x) (get y) = 0" | "cmp (get x) (get y) < 0" | "0 < cmp (get x) (get y)" by linarith
  then show ?case
  proof cases
    case 1
    then have "x = y" using ANode.prems(5) by simp
    with 1 ANode.prems(1) show ?thesis by (auto simp: stands_at_def)
  next
    case 2
    then have "y \<noteq> x" using cmp_refl v by auto
    moreover have "y \<notin> set (inorder l)" using 2 o(3) cmp_swap [OF v] by auto
    ultimately show ?thesis
      using ANode.IH(2) [OF zipper.far [OF ANode.prems(1), simplified]] ANode.prems o(2) 2 by simp
  next
    case 3
    then have "y \<noteq> x" using cmp_refl v by auto
    moreover have "y \<notin> set (inorder r)" using 3 o(4) by auto
    ultimately show ?thesis
      using ANode.IH(1) [OF zipper.near [OF ANode.prems(1), simplified]] ANode.prems o(1) 3 by simp
  qed
qed simp

text \<open>With pairwise different keys the node under the traversal is the one that is removed.\<close>

lemma pop_atnext_ok:
  assumes "atree_ok cmp valid tree" and "stands_at True (root tree) trav pre x post"
    and inj: "\<forall>a \<in> set (nodes tree). \<forall>b \<in> set (nodes tree). cmp (aget tree a) (aget tree b) = 0 \<longrightarrow> a = b"
    and dist: "distinct (nodes tree)"
  shows "\<exists>tree' trav'. jsw_pop_atnext tree trav = ((case post of [] \<Rightarrow> None | y # _ \<Rightarrow> Some y), tree', trav') \<and>
    atree_ok cmp valid tree' \<and> nodes tree' = pre @ post \<and>
    (case post of [] \<Rightarrow> it trav' = ANil | y # post' \<Rightarrow> stands_at True (root tree') trav' pre y post')"
proof -
  have n: "nodes tree = pre @ x # post"
    using stands_at_toward [OF assms(2)] by (simp add: nodes_def toward_inorder)
  have val: "\<forall>a \<in> set (nodes tree). valid (aget tree a)" using assms(1) by (simp add: atree_ok_def)
  obtain res tree' where e: "jsw_aerase tree (aget tree x) = (res, tree')" by force
  have vx: "valid (aget tree x)" and "cmp (aget tree x) (aget tree x) = 0" using val n cmp_refl by auto
  with aerase_ok [OF assms(1) vx] e n obtain d xs ys where d: "res = Some d" "atree_ok cmp valid tree'"
    "aget tree' = aget tree" "cmp (aget tree d) (aget tree x) = 0" "nodes tree = xs @ d # ys" "nodes tree' = xs @ ys"
    by (cases res) auto
  then have "d = x" using inj n by (metis in_set_conv_decomp)
  with d(5) n have "xs @ x # ys = pre @ x # post" by simp
  moreover have "x \<notin> set pre" "x \<notin> set post" using dist n by auto
  ultimately have xy: "xs = pre" "ys = post" by (metis append_Cons_eq_iff)+
  have dist': "distinct (nodes tree')" using dist n d(6) xy by simp
  have m: "case post of [] \<Rightarrow> it (move True trav) = ANil
    | y # post' \<Rightarrow> stands_at True (root tree) (move True trav) (pre @ [x]) y post'"
    using move_stands_at [OF assms(2)] dist by (simp add: toward_inorder nodes_def)
  have p: "jsw_pop_atnext tree trav =
     (case aelem (it (move True trav)) of
        None \<Rightarrow> (let trav2 = move True (start True (root tree')) in (aelem (it trav2), tree', trav2))
      | Some ret \<Rightarrow> (case jsw_atnode tree' ret of (n, trav2) \<Rightarrow> (n, tree', trav2)))"
    by (simp add: jsw_pop_atnext_def pop_move_def stands_at_elem [OF assms(2)] e)
  show ?thesis
  proof (cases post)
    case Nil
    with m p d xy past_the_end [of "root tree'" True] dist' show ?thesis by (simp add: nodes_def)
  next
    case (Cons y post')
    let ?trav' = "atnode_loop (acmp tree') (aget tree') (aget tree' y) (root tree') []"
    have t': "ordered cmp (aget tree) (nodes tree')" "acmp tree' = cmp"
      using d(2,3) by (simp_all add: atree_ok_def)
    have "\<exists>pre'' post''. stands_at True (root tree') ?trav' pre'' y post''"
      unfolding t' d(3)
    proof (rule atnode_stands_at [OF zipper.top])
      show "ordered cmp (aget tree) (inorder (root tree'))" using t'(1) by (simp add: nodes_def)
      have s: "set (inorder (root tree')) \<subseteq> set (nodes tree)" using d(6) n xy by (auto simp: nodes_def)
      then show "\<forall>x \<in> set (inorder (root tree')). valid (aget tree x)" using val by auto
      show "y \<in> set (inorder (root tree'))" using d(6) xy Cons by (simp add: nodes_def)
      with s inj show "\<forall>x \<in> set (inorder (root tree')). cmp (aget tree x) (aget tree y) = 0 \<longrightarrow> x = y" by blast
    qed
    then obtain pre'' post'' where a: "stands_at True (root tree') ?trav' pre'' y post''" by blast
    from stands_at_toward [OF a] d(6) xy Cons have "pre'' @ y # post'' = pre @ y # post'"
      by (simp add: toward_inorder nodes_def)
    moreover have "y \<notin> set pre" "y \<notin> set post'" using dist n Cons by auto
    ultimately have "pre'' = pre" "post'' = post'" by (metis append_Cons_eq_iff)+
    with a Cons m p d xy show ?thesis
      by (simp add: jsw_atnode_def stands_at_elem)
  qed
qed

end

section \<open>Properties\<close>

text \<open>
  C17. Insertion keeps a tree valid (balanced, counted, ordered, size right) and places the new
  node before the first node whose key is not smaller; removal by key keeps it valid, returns a
  node with an equal key and removes exactly that node, or returns nothing when no key is equal.
\<close>

theorem jsw_tree_refines_list:
  assumes "key_order cmp valid" and "atree_ok cmp valid tree" and "valid (aget tree n)" and "valid v"
  shows "atree_ok cmp valid (jsw_ainsert tree n) \<and>
    nodes (jsw_ainsert tree n) =
      takeWhile (\<lambda>x. cmp (aget tree x) (aget tree n) < 0) (nodes tree) @ n #
      dropWhile (\<lambda>x. cmp (aget tree x) (aget tree n) < 0) (nodes tree) \<and>
    (case jsw_aerase tree v of
      (Some d, tree') \<Rightarrow> atree_ok cmp valid tree' \<and> cmp (aget tree d) v = 0 \<and>
        (\<exists>xs ys. nodes tree = xs @ d # ys \<and> nodes tree' = xs @ ys)
    | (None, tree') \<Rightarrow> tree' = tree \<and> (\<forall>x \<in> set (nodes tree). cmp (aget tree x) v \<noteq> 0))"
  using key_order.ainsert_ok [OF assms(1-3)] key_order.aerase_ok [OF assms(1,2,4)]
  by (auto split: prod.splits option.splits)

definition three_keys :: "(nat, u32) jsw_atree" where
  "three_keys = jsw_ainsert (jsw_ainsert (jsw_ainsert
     (jsw_ainit jsw_cmp_uint (\<lambda>i. if i = 9 then 3 else of_nat i)) 1) 3) 9"

lemma three_keys_ok: "atree_ok jsw_cmp_uint (\<lambda>_. True) three_keys"
  unfolding three_keys_def by (intro uint_keys.ainsert_ok uint_keys.ainit_ok) simp_all

theorem jsw_tree_refines_list_witness:
  "atree_ok jsw_cmp_uint (\<lambda>_. True) (jsw_ainsert three_keys 2) \<and>
   (case jsw_aerase three_keys 3 of (Some d, tree') \<Rightarrow> jsw_cmp_uint (aget three_keys d) 3 = 0 | _ \<Rightarrow> False)"
  using jsw_tree_refines_list [OF uint_keys.key_order_axioms three_keys_ok, of 2 3]
  by (simp add: three_keys_def jsw_ainsert_def jsw_ainit_def place_node_def jsw_cmp_uint_def jsw_aerase_def unlink_def)

text \<open>
  C18. Looking a key up returns a node with an equal key together with its position in the
  order, or nothing together with the number of smaller keys, and then no key is equal;
  indexing below the size returns the node at that position, and nothing from the size on.
\<close>

theorem jsw_lookup_correct:
  assumes "key_order cmp valid" and "atree_ok cmp valid tree" and "valid v"
  shows "(case jsw_afind tree v of
      (Some x, i) \<Rightarrow> jsw_aindex tree i = Some x \<and> i < jsw_asize tree \<and> cmp (aget tree x) v = 0
    | (None, i) \<Rightarrow> i = length (takeWhile (\<lambda>x. cmp (aget tree x) v < 0) (nodes tree)) \<and>
        (\<forall>x \<in> set (nodes tree). cmp (aget tree x) v \<noteq> 0)) \<and>
    (\<forall>i. jsw_aindex tree i = (if i < length (nodes tree) then Some (nodes tree ! i) else None))"
proof -
  have t: "acmp tree = cmp" "counted (root tree)" "asize tree = length (nodes tree)"
    "ordered cmp (aget tree) (nodes tree)" "\<forall>x \<in> set (nodes tree). valid (aget tree x)"
    using assms(2) by (simp_all add: atree_ok_def)
  have idx: "jsw_aindex tree i = (if i < length (nodes tree) then Some (nodes tree ! i) else None)" for i
    using index_loop_nth [OF t(2), of i 0] t(3) by (simp add: jsw_aindex_def nodes_def)
  have f: "jsw_afind tree v = find_loop cmp (aget tree) v 0 (root tree)"
    by (simp add: jsw_afind_def jsw_afind_ex_def t(1))
  show ?thesis
    using key_order.find_loop_spec [OF assms(1) t(2) t(4,5) [unfolded nodes_def] assms(3), of 0]
    by (auto simp: f idx jsw_asize_def t(3) nodes_def split: prod.split option.split)
qed

theorem jsw_lookup_correct_witness:
  "jsw_aindex three_keys 0 = Some 1 \<and> jsw_afind three_keys 2 = (None, 1)"
proof -
  have "nodes three_keys = [1, 9, 3]"
    by (simp add: three_keys_def jsw_ainsert_def jsw_ainit_def place_node_def jsw_cmp_uint_def nodes_def)
  moreover have "jsw_afind three_keys 2 = (None, 1)"
    by (simp add: three_keys_def jsw_ainsert_def jsw_ainit_def place_node_def jsw_cmp_uint_def
        jsw_afind_def jsw_afind_ex_def)
  ultimately show ?thesis
    using jsw_lookup_correct [OF uint_keys.key_order_axioms three_keys_ok, of 2] by simp
qed

text \<open>
  C19. The loop over \<open>jsw_atfirst\<close> and \<open>jsw_atnext\<close> visits every node of a tree of distinct nodes
  exactly once, in order.
\<close>

theorem jsw_traversal_complete:
  assumes "distinct (nodes tree)" and "length (nodes tree) \<le> fuel"
  shows "collect fuel (jsw_atfirst tree) = nodes tree"
  using assms by (rule collect_nodes)

theorem jsw_traversal_complete_witness: "collect 3 (jsw_atfirst three_keys) = [1, 9, 3]"
proof -
  have "nodes three_keys = [1, 9, 3]"
    by (simp add: three_keys_def jsw_ainsert_def jsw_ainit_def place_node_def jsw_cmp_uint_def nodes_def)
  with jsw_traversal_complete [of three_keys 3] show ?thesis by simp
qed

text \<open>A run of operations on a tree.\<close>

datatype ('a, 'k) tree_op = Insert 'a | Erase 'k | Pop

fun run_op :: "('a, 'k) jsw_atree \<Rightarrow> ('a, 'k) tree_op \<Rightarrow> ('a, 'k) jsw_atree" where
  "run_op tree (Insert n) = jsw_ainsert tree n"
| "run_op tree (Erase v) = snd (jsw_aerase tree v)"
| "run_op tree Pop = snd (jsw_apop tree)"

fun op_valid :: "('k \<Rightarrow> bool) \<Rightarrow> ('a \<Rightarrow> 'k) \<Rightarrow> ('a, 'k) tree_op \<Rightarrow> bool" where
  "op_valid valid get (Insert n) = valid (get n)"
| "op_valid valid get (Erase v) = valid v"
| "op_valid valid get Pop = True"

lemma aget_op [simp]: "aget (run_op tree op) = aget tree"
  by (cases op) (auto simp: jsw_ainsert_def jsw_aerase_def jsw_apop_def split: option.split)

lemma asize_op: "asize (run_op tree op) \<le> asize tree + 1"
  by (cases op) (auto simp: jsw_ainsert_def jsw_aerase_def jsw_apop_def split: option.split)

lemma run_op_ok:
  assumes "key_order cmp valid" and "atree_ok cmp valid tree" and "op_valid valid (aget tree) op"
  shows "atree_ok cmp valid (run_op tree op)"
proof -
  have erase: "atree_ok cmp valid (snd (jsw_aerase tree v))" if "valid v" for v
    using key_order.aerase_ok [OF assms(1,2) that] assms(2) by (cases "jsw_aerase tree v"; cases "fst (jsw_aerase tree v)") auto
  have root_in: "x \<in> set (nodes tree)" if "aelem (root tree) = Some x" for x
    using that by (cases "root tree") (auto simp: nodes_def)
  show ?thesis
  proof (cases op)
    case Pop
    then show ?thesis using erase root_in assms(2) by (cases "aelem (root tree)") (auto simp: jsw_apop_def atree_ok_def)
  qed (use assms erase key_order.ainsert_ok(1) [OF assms(1,2)] in auto)
qed

lemma run_ops_ok:
  assumes "key_order cmp valid" and "\<forall>op \<in> set ops. op_valid valid (aget tree) op" and "atree_ok cmp valid tree"
  shows "atree_ok cmp valid (foldl run_op tree ops) \<and> asize (foldl run_op tree ops) \<le> asize tree + length ops"
  using assms(2,3)
proof (induction ops arbitrary: tree)
  case (Cons op ops)
  have o: "atree_ok cmp valid (run_op tree op)" using run_op_ok [OF assms(1) Cons.prems(2)] Cons.prems(1) by simp
  have "\<forall>op' \<in> set ops. op_valid valid (aget (run_op tree op)) op'" using Cons.prems(1) by simp
  from Cons.IH [OF this o] asize_op [of tree op] show ?case by simp
qed simp

lemma zipper_height: "zipper d t s ps xs ys \<Longrightarrow> length ps + height s \<le> height t"
  by (induction rule: zipper.induct) auto

lemma height_bound:
  assumes "atree_ok cmp valid tree" and "asize tree < 2 ^ 32 - 1"
  shows "height (root tree) < 64"
proof -
  have b: "balanced (root tree)" and n: "length (inorder (root tree)) + 1 < 2 ^ 32"
    using assms by (simp_all add: atree_ok_def nodes_def)
  from level_size [OF b] n have "(2 :: nat) ^ nat (alevel (root tree)) < 2 ^ 32" by linarith
  then have "nat (alevel (root tree)) < 32" by (rule power_less_imp_less_exp [rotated]) simp
  with height_level [OF b] alevel_nonneg [OF b] show ?thesis by linarith
qed

text \<open>
  C20. The path arrays never overflow.  Whatever fewer than \<open>2^32 - 1\<close> insertions, removals and pops did to a
  fresh tree, its height is below \<open>JSW_AHEIGHT_LIMIT\<close> = 64, so the next insertion or removal
  records fewer than 64 nodes on its way down; and so does every traversal, wherever it stands.
\<close>

theorem jsw_path_bound:
  assumes "key_order cmp valid" and "\<forall>op \<in> set ops. op_valid valid get op" and "length ops < 2 ^ 32 - 1"
  shows "height (root (foldl run_op (jsw_ainit cmp get) ops)) < 64 \<and>
    (\<forall>d trav pre x post. stands_at d (root (foldl run_op (jsw_ainit cmp get) ops)) trav pre x post \<longrightarrow> length (path trav) < 64)"
proof -
  let ?t = "foldl run_op (jsw_ainit cmp get) ops"
  have i: "aget (jsw_ainit cmp get) = get" "asize (jsw_ainit cmp get) = 0" by (simp_all add: jsw_ainit_def)
  have "atree_ok cmp valid ?t \<and> asize ?t \<le> length ops"
    using run_ops_ok [OF assms(1), of ops "jsw_ainit cmp get"] assms(2) key_order.ainit_ok [OF assms(1), of get] i by simp
  then have h: "height (root ?t) < 64" using height_bound [of cmp valid ?t] assms(3) by linarith
  moreover have "length (path trav) < 64" if "stands_at d (root ?t) trav pre x post" for d trav pre x post
    using that h zipper_height unfolding stands_at_def by (metis add_leD1 le_less_trans)
  ultimately show ?thesis by blast
qed

theorem jsw_path_bound_witness:
  "height (root (foldl run_op (jsw_ainit jsw_cmp_uint of_nat) [Insert 9, Insert 1, Erase 9, Insert 3, Pop])) < 64"
  using jsw_path_bound [OF uint_keys.key_order_axioms, of "[Insert 9, Insert 1, Erase 9, Insert 3, Pop]" of_nat] by simp

text \<open>
  C21. Removing during a traversal: when no two keys are equal, \<open>jsw_pop_atnext\<close> removes the node
  the traversal stands at, returns its successor and stands there in the smaller tree.
\<close>

theorem jsw_pop_atnext_correct:
  assumes "key_order cmp valid" and "atree_ok cmp valid tree" and "stands_at True (root tree) trav pre x post"
    and "\<forall>a \<in> set (nodes tree). \<forall>b \<in> set (nodes tree). cmp (aget tree a) (aget tree b) = 0 \<longrightarrow> a = b"
    and "distinct (nodes tree)"
  shows "\<exists>tree' trav'. jsw_pop_atnext tree trav = ((case post of [] \<Rightarrow> None | y # _ \<Rightarrow> Some y), tree', trav') \<and>
    atree_ok cmp valid tree' \<and> nodes tree = pre @ x # post \<and> nodes tree' = pre @ post \<and>
    (case post of [] \<Rightarrow> it trav' = ANil | y # post' \<Rightarrow> stands_at True (root tree') trav' pre y post')"
  using key_order.pop_atnext_ok [OF assms] stands_at_toward [OF assms(3)]
  by (simp add: nodes_def toward_inorder)

definition two_keys :: "(nat, u32) jsw_atree" where
  "two_keys = jsw_ainsert (jsw_ainsert (jsw_ainit jsw_cmp_uint of_nat) 1) 3"

theorem jsw_pop_atnext_correct_witness:
  "\<exists>tree' trav'. jsw_pop_atnext two_keys (start False (root two_keys)) = (Some 3, tree', trav') \<and> nodes tree' = [3]"
proof -
  have ok: "atree_ok jsw_cmp_uint (\<lambda>_. True) two_keys"
    unfolding two_keys_def by (intro uint_keys.ainsert_ok uint_keys.ainit_ok) simp_all
  have n: "nodes two_keys = [1, 3]"
    by (simp add: two_keys_def jsw_ainsert_def jsw_ainit_def place_node_def jsw_cmp_uint_def nodes_def)
  then have "root two_keys \<noteq> ANil" by (auto simp: nodes_def)
  then have a: "stands_at True (root two_keys) (start False (root two_keys)) [] 1 [3]"
    using start_stands_at [of "root two_keys" True] n by (auto simp: toward_inorder nodes_def)
  have "aget two_keys = of_nat" by (simp add: two_keys_def jsw_ainsert_def jsw_ainit_def)
  with jsw_pop_atnext_correct [OF uint_keys.key_order_axioms ok a] n show ?thesis by auto
qed

end
