(* ===== verification/Seq_Set.thy ===== *)
theory Seq_Set
  imports Atree "HOL-Library.Multiset"
begin

text \<open>
  Sequence sets: the \<open>ie_seq_set_t\<close> lists of ranges of \<open>src/libimap/expression.c\<close> with their
  traversal, the builder of \<open>src/libimaildir/util.c\<close> that sorts ranges in an Andersson tree
  and joins those that touch, and the canonicalisation of a client's set against the
  mailbox view (\<open>src/libimaildir/dn.c\<close>).  A set is the list of its ranges; a zero stands for
  \<open>*\<close>.  \<open>mem k\<close> tells whether the \<open>k\<close>-th allocation of a call succeeds.
\<close>

section \<open>Range lists\<close>

type_synonym seq_set = "(u32 \<times> u32) list"

type_synonym allocs = "nat \<Rightarrow> bool"

definition ie_seq_set_new :: "allocs \<Rightarrow> nat \<Rightarrow> u32 \<Rightarrow> u32 \<Rightarrow> (u32 \<times> u32) option" where
  "ie_seq_set_new mem k n1 n2 = (if mem k then Some (n1, n2) else None)"

fun ie_seq_set_copy :: "allocs \<Rightarrow> nat \<Rightarrow> seq_set \<Rightarrow> derr_type \<times> seq_set" where
  "ie_seq_set_copy mem k [] = (E_NONE, [])"
| "ie_seq_set_copy mem k ((n1, n2) # old) =
     (case ie_seq_set_new mem k n1 n2 of
        None \<Rightarrow> (E_NOMEM, [])
      | Some r \<Rightarrow> ifok (ie_seq_set_copy mem (k + 1) old) (\<lambda>next. (E_NONE, r # next)) (\<lambda>_. []))"

definition ie_seq_set_append :: "derr_type \<Rightarrow> seq_set \<Rightarrow> seq_set \<Rightarrow> seq_set" where
  "ie_seq_set_append e set1 next = (if e \<noteq> E_NONE then [] else set1 @ next)"

record seq_trav =
  t_ptr :: seq_set
  t_min :: u32
  t_max :: u32
  t_i :: u32
  t_imax :: u32

text \<open>The loop shared by \<open>ie_seq_set_iter\<close> and \<open>ie_seq_set_next\<close>: find the next range in bounds.\<close>

fun seq_seek :: "seq_set \<Rightarrow> seq_trav \<Rightarrow> u32 \<times> seq_trav" where
  "seq_seek [] t = (0, t\<lparr>t_ptr := []\<rparr>)"
| "seq_seek ((a, b) # rest) t =
     (let n1 = (if a \<noteq> 0 then a else t_max t);
          n2 = (if b \<noteq> 0 then b else t_max t);
          i = min n1 n2; imax = max n1 n2
      in if imax < t_min t \<or> t_max t \<noteq> 0 \<and> i > t_max t
         then seq_seek rest (t\<lparr>t_i := 0, t_imax := imax\<rparr>)
         else let i' = max i (t_min t); imax' = (if t_max t \<noteq> 0 then min imax (t_max t) else imax)
              in (i', t\<lparr>t_ptr := (a, b) # rest, t_i := i', t_imax := imax'\<rparr>))"

definition ie_seq_set_iter :: "seq_trav \<Rightarrow> seq_set \<Rightarrow> u32 \<Rightarrow> u32 \<Rightarrow> u32 \<times> seq_trav" where
  "ie_seq_set_iter trav s mn mx = seq_seek s (trav\<lparr>t_ptr := s, t_min := mn, t_max := mx\<rparr>)"

definition ie_seq_set_next :: "seq_trav \<Rightarrow> u32 \<times> seq_trav" where
  "ie_seq_set_next t =
     (case t_ptr t of
        [] \<Rightarrow> (0, t)
      | _ # rest \<Rightarrow>
          if t_i t = t_imax t
          then (if rest = [] then (0, t\<lparr>t_i := t_i t + 1, t_ptr := []\<rparr>)
                else seq_seek rest (t\<lparr>t_i := t_i t + 1\<rparr>))
          else (t_i t + 1, t\<lparr>t_i := t_i t + 1\<rparr>))"

text \<open>The callers' loop: \<open>for(i = ie_seq_set_iter(..); i != 0; i = ie_seq_set_next(..))\<close>.\<close>

fun seq_collect :: "nat \<Rightarrow> u32 \<times> seq_trav \<Rightarrow> u32 list option" where
  "seq_collect fuel (i, t) =
     (if i = 0 then Some []
      else case fuel of 0 \<Rightarrow> None
           | Suc f \<Rightarrow> map_option ((#) i) (seq_collect f (ie_seq_set_next t)))"

section \<open>The builder\<close>

text \<open>An element is an allocated object: \<open>ssbe_addr\<close> is its address.\<close>

record ssbe =
  ssbe_addr :: nat
  ssbe_n1 :: u32
  ssbe_n2 :: u32

type_synonym seq_set_builder = "(ssbe, u32) jsw_atree"

definition seq_set_builder_prep :: seq_set_builder where
  "seq_set_builder_prep = jsw_ainit jsw_cmp_uint ssbe_n1"

definition seq_set_builder_isempty :: "seq_set_builder \<Rightarrow> bool" where
  "seq_set_builder_isempty ssb \<longleftrightarrow> acount (root ssb) = 0"

text \<open>\<open>malloc\<close> is the address the allocation returns, or \<open>None\<close> when it fails.\<close>

definition seq_set_builder_add_range ::
  "nat option \<Rightarrow> seq_set_builder \<Rightarrow> u32 \<Rightarrow> u32 \<Rightarrow> derr_type \<times> seq_set_builder" where
  "seq_set_builder_add_range malloc ssb n1 n2 =
     (if n1 = 0 \<or> n2 = 0 then (E_PARAM, ssb)
      else case malloc of
          None \<Rightarrow> (E_NOMEM, ssb)
        | Some addr \<Rightarrow> (E_NONE, jsw_ainsert ssb \<lparr>ssbe_addr = addr, ssbe_n1 = min n1 n2, ssbe_n2 = max n1 n2\<rparr>))"

definition seq_set_builder_add_val ::
  "nat option \<Rightarrow> seq_set_builder \<Rightarrow> u32 \<Rightarrow> derr_type \<times> seq_set_builder" where
  "seq_set_builder_add_val malloc ssb n1 = seq_set_builder_add_range malloc ssb n1 n1"

lemma unlink_length: "length (inorder (unlink rt lv c l r)) \<le> length (inorder l) + length (inorder r)"
  by (auto simp: unlink_def split: option.split dest: take_heir_inorder)

lemma erase_path_length:
  "erase_path cmp get rt v t = Some (d, t') \<Longrightarrow> length (inorder t') < length (inorder t)"
proof (induction t arbitrary: rt t')
  case (ANode lv c l x r)
  then show ?case using unlink_length [of rt lv c l r]
    by (auto split: if_splits intro: le_imp_less_Suc)
qed simp

lemma jsw_aerase_length:
  "jsw_aerase tree v = (Some d, tree') \<Longrightarrow> length (nodes tree') < length (nodes tree)"
  by (auto simp: jsw_aerase_def nodes_def split: option.splits dest: erase_path_length)

function seq_set_builder_del_val :: "seq_set_builder \<Rightarrow> u32 \<Rightarrow> seq_set_builder" where
  "seq_set_builder_del_val ssb v =
     (case jsw_aerase ssb v of
        (None, ssb') \<Rightarrow> ssb'
      | (Some _, ssb') \<Rightarrow> seq_set_builder_del_val ssb' v)"
  by pat_completeness auto
termination
  by (relation "measure (\<lambda>(ssb, v). length (nodes ssb))") (metis jsw_aerase_length in_measure case_prod_conv wf_measure)+

declare seq_set_builder_del_val.simps [simp del]

definition seq_set_builder_pop_val :: "seq_set_builder \<Rightarrow> u32 \<times> seq_set_builder" where
  "seq_set_builder_pop_val ssb =
     (case jsw_atfirst ssb of
        (None, _) \<Rightarrow> (0, ssb)
      | (Some s, trav) \<Rightarrow> (case jsw_pop_atnext ssb trav of (_, ssb', _) \<Rightarrow> (ssbe_n1 s, ssb')))"

fun extract_loop :: "allocs \<Rightarrow> nat \<Rightarrow> ssbe list \<Rightarrow> u32 \<times> u32 \<Rightarrow> seq_set option" where
  "extract_loop mem k [] cur = Some [cur]"
| "extract_loop mem k (s # ss) (a, b) =
     (if ssbe_n1 s \<le> b + 1 then extract_loop mem k ss (a, ssbe_n2 s)
      else case ie_seq_set_new mem k (ssbe_n1 s) (ssbe_n2 s) of
          None \<Rightarrow> None
        | Some new \<Rightarrow> map_option ((#) (a, b)) (extract_loop mem (k + 1) ss new))"

definition seq_set_builder_extract :: "derr_type \<Rightarrow> allocs \<Rightarrow> seq_set_builder \<Rightarrow> derr_type \<times> seq_set" where
  "seq_set_builder_extract e mem ssb =
     (if e \<noteq> E_NONE then (e, [])
      else case collect (asize ssb) (jsw_atfirst ssb) of
          [] \<Rightarrow> (E_NONE, [])
        | s # ss \<Rightarrow>
            (case ie_seq_set_new mem 0 (ssbe_n1 s) (ssbe_n2 s) of
               None \<Rightarrow> (E_NOMEM, [])
             | Some base \<Rightarrow>
                 (case extract_loop mem 1 ss base of
                    None \<Rightarrow> (E_NOMEM, [])
                  | Some s \<Rightarrow> (E_NONE, s))))"

definition index_to_seq_num :: "nat \<Rightarrow> derr_type \<times> u32" where
  "index_to_seq_num index =
     (if index \<ge> 2 ^ 32 - 1 then (E_INTERNAL, 0) else (E_NONE, of_nat index + 1))"

section \<open>What a traversal visits\<close>

definition u_upto :: "u32 \<Rightarrow> u32 \<Rightarrow> u32 list" where
  "u_upto a b = map of_nat [unat a ..< Suc (unat b)]"

lemma unat_Suc_less:
  fixes a b :: u32
  assumes "a < b"
  shows "unat (a + 1) = Suc (unat a)"
proof -
  have "unat a + 1 < 4294967296" using assms u32_unat_less [of b] unfolding word_less_nat_alt by linarith
  then show ?thesis by (simp add: unat_word_ariths)
qed

lemma u_upto_Cons: "a \<le> b \<Longrightarrow> u_upto a b = a # (if a = b then [] else u_upto (a + 1) b)"
proof -
  assume "a \<le> b"
  then have "unat a < Suc (unat b)" by (simp add: word_le_nat_alt)
  moreover have "unat (a + 1) = Suc (unat a)" if "a \<noteq> b"
    using \<open>a \<le> b\<close> that by (intro unat_Suc_less [of a b]) simp
  moreover have "a = b \<longleftrightarrow> unat b \<le> unat a" using \<open>a \<le> b\<close> by (auto simp: word_le_nat_alt [symmetric])
  ultimately show ?thesis by (auto simp: u_upto_def upt_conv_Cons)
qed

lemma set_u_upto [simp]: "set (u_upto a b) = {a..b}"
  unfolding u_upto_def set_map set_upt
proof (intro equalityI subsetI)
  fix x :: u32
  assume "x \<in> of_nat ` {unat a..<Suc (unat b)}"
  then obtain n where x: "x = of_nat n" and m: "n \<in> {unat a..<Suc (unat b)}" by (elim imageE)
  from m have n: "unat a \<le> n" "n < Suc (unat b)" unfolding atLeastLessThan_iff by blast+
  then have "n < 4294967296" using u32_unat_less [of b] by linarith
  then have "unat x = n" using x by (simp add: unat_of_nat)
  with n show "x \<in> {a..b}" by (simp add: word_le_nat_alt)
next
  fix x :: u32
  assume "x \<in> {a..b}"
  then have "unat a \<le> unat x" "unat x < Suc (unat b)" by (simp_all add: word_le_nat_alt)
  then show "x \<in> of_nat ` {unat a..<Suc (unat b)}"
    by (intro image_eqI [of _ _ "unat x"]) (simp, simp only: atLeastLessThan_iff)
qed

definition star :: "u32 \<Rightarrow> u32 \<Rightarrow> u32" where
  "star mx n = (if n \<noteq> 0 then n else mx)"

text \<open>One range within bounds, zeros standing for the upper bound and the ends in either order.\<close>

definition clip :: "u32 \<Rightarrow> u32 \<Rightarrow> u32 \<times> u32 \<Rightarrow> u32 list" where
  "clip mn mx r = (case r of (a, b) \<Rightarrow>
     let lo = min (star mx a) (star mx b); hi = max (star mx a) (star mx b)
     in if hi < mn \<or> mx \<noteq> 0 \<and> lo > mx then []
        else u_upto (max lo mn) (if mx \<noteq> 0 then min hi mx else hi))"

lemma set_clip:
  "set (clip mn mx (a, b)) =
     {x. mn \<le> x \<and> (mx = 0 \<or> x \<le> mx) \<and> min (star mx a) (star mx b) \<le> x \<and> x \<le> max (star mx a) (star mx b)}"
proof -
  define lo hi where "lo = min (star mx a) (star mx b)" and "hi = max (star mx a) (star mx b)"
  show ?thesis
    unfolding clip_def lo_def [symmetric] hi_def [symmetric] Let_def prod.case by auto
qed

text \<open>A traversal in the middle of a range.\<close>

definition in_range :: "seq_trav \<Rightarrow> u32 \<Rightarrow> u32 \<Rightarrow> u32 \<Rightarrow> seq_set \<Rightarrow> bool" where
  "in_range t mn mx hi rest \<longleftrightarrow> (\<exists>r. t_ptr t = r # rest) \<and> t_min t = mn \<and> t_max t = mx \<and> t_imax t = hi \<and> t_i t \<le> hi"

lemma seq_seek_clip:
  assumes "t_min t = mn" and "t_max t = mx" and "mx = 0 \<or> mn \<le> mx"
  shows "(\<exists>t'. seq_seek s t = (0, t') \<and> concat (map (clip mn mx) s) = []) \<or>
    (\<exists>t' hi rest. seq_seek s t = (t_i t', t') \<and> in_range t' mn mx hi rest \<and> length rest < length s \<and> set rest \<subseteq> set s \<and>
       concat (map (clip mn mx) s) = u_upto (t_i t') hi @ concat (map (clip mn mx) rest))"
  using assms
proof (induction s arbitrary: t)
  case (Cons r s)
  obtain a b where r: "r = (a, b)" by force
  let ?lo = "min (star mx a) (star mx b)" and ?hi = "max (star mx a) (star mx b)"
  show ?case
  proof (cases "?hi < mn \<or> mx \<noteq> 0 \<and> ?lo > mx")
    case True
    let ?t = "t\<lparr>t_i := 0, t_imax := ?hi\<rparr>"
    from True have e: "seq_seek (r # s) t = seq_seek s ?t" "clip mn mx r = []"
      using Cons.prems by (auto simp: r star_def Let_def clip_def)
    from Cons.IH [of ?t] Cons.prems have IH: "(\<exists>t'. seq_seek s ?t = (0, t') \<and> concat (map (clip mn mx) s) = []) \<or>
      (\<exists>t' hi rest. seq_seek s ?t = (t_i t', t') \<and> in_range t' mn mx hi rest \<and> length rest < length s \<and> set rest \<subseteq> set s \<and>
         concat (map (clip mn mx) s) = u_upto (t_i t') hi @ concat (map (clip mn mx) rest))" by simp
    then show ?thesis unfolding e(1) by (elim disjE exE conjE) (auto simp: e(2) intro!: exI)
  next
    case False
    let ?i = "max ?lo mn" and ?imax = "if mx \<noteq> 0 then min ?hi mx else ?hi"
    let ?t = "t\<lparr>t_ptr := r # s, t_i := ?i, t_imax := ?imax\<rparr>"
    from False have "seq_seek (r # s) t = (?i, ?t)" "clip mn mx r = u_upto ?i ?imax"
      using Cons.prems by (auto simp: r star_def Let_def clip_def)
    moreover have lh: "?lo \<le> ?hi" by (simp add: min_le_iff_disj)
    have "max lo mn \<le> (if mx \<noteq> 0 then min hi mx else hi)"
      if "lo \<le> hi" "\<not> (hi < mn \<or> mx \<noteq> 0 \<and> lo > mx)" for lo hi
      using that Cons.prems(3) by auto
    from this [OF lh False] have "?i \<le> ?imax" .
    ultimately show ?thesis using Cons.prems
      by (intro disjI2 exI [of _ ?t] exI [of _ ?imax] exI [of _ s]) (auto simp: in_range_def)
  qed
qed simp

lemma seq_next_in_range:
  assumes "in_range t mn mx hi rest" and "t_i t < hi"
  shows "ie_seq_set_next t = (t_i t + 1, t\<lparr>t_i := t_i t + 1\<rparr>)" and "in_range (t\<lparr>t_i := t_i t + 1\<rparr>) mn mx hi rest"
proof -
  have "t_i t + 1 \<le> hi" using assms(2) unat_Suc_less [OF assms(2)] by (simp add: word_le_nat_alt word_less_nat_alt)
  with assms show "ie_seq_set_next t = (t_i t + 1, t\<lparr>t_i := t_i t + 1\<rparr>)"
    "in_range (t\<lparr>t_i := t_i t + 1\<rparr>) mn mx hi rest"
    by (auto simp: in_range_def ie_seq_set_next_def)
qed

lemma seq_next_end:
  assumes "in_range t mn mx hi rest" and "t_i t = hi"
  shows "ie_seq_set_next t = (if rest = [] then (0, t\<lparr>t_i := t_i t + 1, t_ptr := []\<rparr>) else seq_seek rest (t\<lparr>t_i := t_i t + 1\<rparr>))"
  using assms by (auto simp: in_range_def ie_seq_set_next_def)

text \<open>From inside a range the loop visits the rest of it, then every later range.\<close>

lemma seq_collect_in_range:
  assumes "in_range t mn mx hi rest" and "mx = 0 \<or> mn \<le> mx" and "0 < t_i t"
    and "0 \<notin> set (concat (map (clip mn mx) rest))"
    and "length (u_upto (t_i t) hi @ concat (map (clip mn mx) rest)) \<le> fuel"
  shows "seq_collect fuel (t_i t, t) = Some (u_upto (t_i t) hi @ concat (map (clip mn mx) rest))"
  using assms
proof (induction fuel arbitrary: t hi rest)
  case 0
  then have "t_i t \<le> hi" by (simp add: in_range_def)
  with 0 u_upto_Cons show ?case by simp
next
  case (Suc fuel)
  have le: "t_i t \<le> hi" using Suc.prems(1) by (simp add: in_range_def)
  have tm: "t_min t = mn" "t_max t = mx" using Suc.prems(1) by (simp_all add: in_range_def)
  note ne = less_imp_neq [OF Suc.prems(3), symmetric]
  show ?case
  proof (cases "t_i t = hi")
    case False
    with le have lt: "t_i t < hi" by simp
    let ?t = "t\<lparr>t_i := t_i t + 1\<rparr>"
    have "unat (t_i t + 1) = Suc (unat (t_i t))" by (rule unat_Suc_less [OF lt])
    then have "0 < t_i ?t" by (simp add: word_less_nat_alt)
    with Suc.IH [OF seq_next_in_range(2) [OF Suc.prems(1) lt] Suc.prems(2)] Suc.prems(4,5) False le
    have "seq_collect fuel (t_i ?t, ?t) = Some (u_upto (t_i t + 1) hi @ concat (map (clip mn mx) rest))"
      by (simp add: u_upto_Cons [of "t_i t" hi])
    with False le ne show ?thesis
      by (simp add: seq_next_in_range(1) [OF Suc.prems(1) lt] u_upto_Cons [of "t_i t" hi])
  next
    case True
    let ?t = "t\<lparr>t_i := t_i t + 1\<rparr>"
    have u: "u_upto (t_i t) hi = [t_i t]" using True u_upto_Cons [of "t_i t" hi] by simp
    from seq_seek_clip [of ?t mn mx rest] tm Suc.prems(2) consider
      (stop) t' where "seq_seek rest ?t = (0, t')" "concat (map (clip mn mx) rest) = []"
    | (more) t' hi' rest' where "seq_seek rest ?t = (t_i t', t')" "in_range t' mn mx hi' rest'"
        "length rest' < length rest" "set rest' \<subseteq> set rest"
        "concat (map (clip mn mx) rest) = u_upto (t_i t') hi' @ concat (map (clip mn mx) rest')"
      by auto
    then show ?thesis
    proof cases
      case stop
      then have "\<exists>t'. ie_seq_set_next t = (0, t')"
        using seq_next_end [OF Suc.prems(1) True] by (auto split: if_splits)
      with stop u ne show ?thesis by auto
    next
      case more
      then have "rest \<noteq> []" by auto
      with more(1) have n: "ie_seq_set_next t = (t_i t', t')"
        using seq_next_end [OF Suc.prems(1) True] by simp
      have "t_i t' \<le> hi'" using more(2) by (simp add: in_range_def)
      then have "0 < t_i t'" using Suc.prems(4) unfolding more(5)
        by (auto simp: u_upto_Cons word_gt_0 split: if_splits)
      moreover have "0 \<notin> set (concat (map (clip mn mx) rest'))" using Suc.prems(4) unfolding more(5) by simp
      moreover have "length (u_upto (t_i t') hi' @ concat (map (clip mn mx) rest')) \<le> fuel"
        using Suc.prems(5) unfolding more(5) u by simp
      ultimately have "seq_collect fuel (t_i t', t') = Some (u_upto (t_i t') hi' @ concat (map (clip mn mx) rest'))"
        using Suc.IH [OF more(2) Suc.prems(2)] by blast
      then show ?thesis using ne unfolding more(5) u by (simp add: n)
    qed
  qed
qed

lemma seq_collect_iter:
  assumes "mx = 0 \<or> mn \<le> mx" and "0 \<notin> set (concat (map (clip mn mx) s))"
    and "length (concat (map (clip mn mx) s)) \<le> fuel"
  shows "seq_collect fuel (ie_seq_set_iter trav s mn mx) = Some (concat (map (clip mn mx) s))"
proof -
  let ?t = "trav\<lparr>t_ptr := s, t_min := mn, t_max := mx\<rparr>"
  from seq_seek_clip [of ?t mn mx s] assms(1) consider
    (stop) t' where "seq_seek s ?t = (0, t')" "concat (map (clip mn mx) s) = []"
  | (more) t' hi rest where "seq_seek s ?t = (t_i t', t')" "in_range t' mn mx hi rest"
      "concat (map (clip mn mx) s) = u_upto (t_i t') hi @ concat (map (clip mn mx) rest)"
    by auto
  then show ?thesis
  proof cases
    case stop
    then show ?thesis by (simp add: ie_seq_set_iter_def)
  next
    case more
    have "t_i t' \<le> hi" using more(2) by (simp add: in_range_def)
    then have "0 < t_i t'" using assms(2) unfolding more(3)
      by (auto simp: u_upto_Cons word_gt_0 split: if_splits)
    then show ?thesis
      using seq_collect_in_range [OF more(2) assms(1)] assms(2,3) unfolding more(3)
      by (simp add: ie_seq_set_iter_def more(1))
  qed
qed

section \<open>What the builder holds and extracts\<close>

definition seq_den :: "seq_set \<Rightarrow> u32 set" where
  "seq_den s = (\<Union>(a, b) \<in> set s. {a..b})"

text \<open>Canonical: proper ranges in ascending order, with a gap between any two.\<close>

definition canonical :: "seq_set \<Rightarrow> bool" where
  "canonical s \<longleftrightarrow> sorted_wrt (\<lambda>(a, b) (c, d). unat b + 1 < unat c) s \<and> (\<forall>(a, b) \<in> set s. 0 < a \<and> a \<le> b)"

lemma seq_den_simps [simp]: "seq_den [] = {}" "seq_den ((a, b) # s) = {a..b} \<union> seq_den s"
  by (auto simp: seq_den_def)

text \<open>Elements whose lower and upper ends are both ascending: no range contains a later one.\<close>

fun staggered :: "u32 \<times> u32 \<Rightarrow> ssbe list \<Rightarrow> bool" where
  "staggered (a, b) [] = (a \<le> b)"
| "staggered (a, b) (s # ss) = (a \<le> b \<and> a \<le> ssbe_n1 s \<and> b \<le> ssbe_n2 s \<and> staggered (ssbe_n1 s, ssbe_n2 s) ss)"

lemma staggered_lower: "staggered (a, b) ss \<Longrightarrow> a' \<le> a \<Longrightarrow> staggered (a', b) ss"
  by (cases ss) auto

lemma unat_Suc_le: "b < (c :: u32) \<Longrightarrow> a \<le> b + 1 \<longleftrightarrow> unat a \<le> unat b + 1"
  using unat_Suc_less [of b c] by (simp add: word_le_nat_alt)

lemma join_ranges:
  fixes a b c d :: u32
  assumes "a \<le> c" "c \<le> b + 1" "b \<le> d" "a \<le> b"
  shows "{a..b} \<union> {c..d} = {a..d}"
proof (cases "b = d")
  case False
  with assms have "b < d" by simp
  then have "unat c \<le> unat b + 1" using assms(2) unat_Suc_le by blast
  then have "b < x \<Longrightarrow> c \<le> x" for x by (simp add: word_less_nat_alt word_le_nat_alt)
  with assms show ?thesis by (auto simp: not_le) (meson leD leI)
qed (use assms in auto)

lemma extract_loop_den:
  "staggered (a, b) ss \<Longrightarrow>
    \<exists>out. extract_loop alloc_ok k ss (a, b) = Some out \<and>
      seq_den out = {a..b} \<union> (\<Union>s \<in> set ss. {ssbe_n1 s..ssbe_n2 s})"
proof (induction ss arbitrary: a b k)
  case (Cons s ss)
  show ?case
  proof (cases "ssbe_n1 s \<le> b + 1")
    case True
    have "staggered (a, ssbe_n2 s) ss" using Cons.prems(1) staggered_lower by auto
    from Cons.IH [OF this] obtain out where
      "extract_loop alloc_ok k ss (a, ssbe_n2 s) = Some out"
      "seq_den out = {a..ssbe_n2 s} \<union> (\<Union>s \<in> set ss. {ssbe_n1 s..ssbe_n2 s})" by blast
    moreover have "{a..b} \<union> {ssbe_n1 s..ssbe_n2 s} = {a..ssbe_n2 s}"
      using Cons.prems(1) True by (intro join_ranges) auto
    ultimately show ?thesis using True by auto
  next
    case False
    from Cons.IH [of "ssbe_n1 s" "ssbe_n2 s" "k + 1"] Cons.prems obtain out where
      "extract_loop alloc_ok (k + 1) ss (ssbe_n1 s, ssbe_n2 s) = Some out"
      "seq_den out = {ssbe_n1 s..ssbe_n2 s} \<union> (\<Union>s \<in> set ss. {ssbe_n1 s..ssbe_n2 s})" by auto
    with False show ?thesis by (auto simp: ie_seq_set_new_def)
  qed
qed simp

lemma extract_loop_canonical:
  "staggered (a, b) ss \<Longrightarrow> 0 < a \<Longrightarrow> b < -1 \<Longrightarrow> \<forall>s \<in> set ss. ssbe_n2 s < -1 \<Longrightarrow>
    extract_loop mem k ss (a, b) = Some out \<Longrightarrow> canonical out \<and> (\<exists>b' rest. out = (a, b') # rest)"
proof (induction ss arbitrary: a b k out)
  case Nil
  then show ?case by (auto simp: canonical_def)
next
  case (Cons s ss)
  show ?case
  proof (cases "ssbe_n1 s \<le> b + 1")
    case True
    have "staggered (a, ssbe_n2 s) ss" using Cons.prems(1) staggered_lower by auto
    with Cons.IH [of a "ssbe_n2 s" k out] Cons.prems True show ?thesis by simp
  next
    case False
    with Cons.prems(5) obtain out' where o: "extract_loop mem (k + 1) ss (ssbe_n1 s, ssbe_n2 s) = Some out'"
      "out = (a, b) # out'" by (auto simp: ie_seq_set_new_def split: if_splits)
    have "0 < ssbe_n1 s" using Cons.prems(1,2) by auto
    with Cons.IH [OF _ _ _ _ o(1)] Cons.prems(1,4) obtain b' rest where
      c: "canonical out'" "out' = (ssbe_n1 s, b') # rest" by auto
    have gap: "unat b + 1 < unat (ssbe_n1 s)" using False unat_Suc_le [OF Cons.prems(3)] by auto
    moreover have "unat b + 1 < unat c" if "(c, d) \<in> set rest" for c d
    proof -
      have "unat b' + 1 < unat c" "ssbe_n1 s \<le> b'" using c that by (auto simp: canonical_def)
      with gap show ?thesis by (auto simp: word_le_nat_alt)
    qed
    ultimately show ?thesis using c o(2) Cons.prems(1,2) by (auto simp: canonical_def)
  qed
qed

definition ssb_ok :: "seq_set_builder \<Rightarrow> bool" where
  "ssb_ok ssb \<longleftrightarrow> atree_ok jsw_cmp_uint (\<lambda>_. True) ssb \<and> aget ssb = ssbe_n1 \<and>
     distinct (map ssbe_addr (nodes ssb)) \<and> (\<forall>s \<in> set (nodes ssb). 0 < ssbe_n1 s \<and> ssbe_n1 s \<le> ssbe_n2 s)"

definition vals_only :: "seq_set_builder \<Rightarrow> bool" where
  "vals_only ssb \<longleftrightarrow> (\<forall>s \<in> set (nodes ssb). ssbe_n1 s = ssbe_n2 s)"

lemma ssb_prep_ok: "ssb_ok seq_set_builder_prep" "nodes seq_set_builder_prep = []"
  using uint_keys.ainit_ok [of ssbe_n1]
  by (simp_all add: ssb_ok_def seq_set_builder_prep_def nodes_def jsw_ainit_def)

lemma ssb_nodes_sorted: "ssb_ok ssb \<Longrightarrow> sorted (map ssbe_n1 (nodes ssb))"
  by (auto simp: ssb_ok_def atree_ok_def ordered_def jsw_cmp_uint_le sorted_wrt_map)

lemma ssb_distinct: "ssb_ok ssb \<Longrightarrow> distinct (nodes ssb)"
  by (auto simp: ssb_ok_def distinct_map)

lemma ssb_add_range:
  assumes "ssb_ok ssb" and "addr \<notin> ssbe_addr ` set (nodes ssb)" and "n1 \<noteq> 0" and "n2 \<noteq> 0"
  shows "\<exists>ssb'. seq_set_builder_add_range (Some addr) ssb n1 n2 = (E_NONE, ssb') \<and> ssb_ok ssb' \<and>
    set (nodes ssb') = insert \<lparr>ssbe_addr = addr, ssbe_n1 = min n1 n2, ssbe_n2 = max n1 n2\<rparr> (set (nodes ssb))"
proof -
  let ?s = "\<lparr>ssbe_addr = addr, ssbe_n1 = min n1 n2, ssbe_n2 = max n1 n2\<rparr>"
  let ?P = "\<lambda>x. jsw_cmp_uint (aget ssb x) (aget ssb ?s) < 0"
  have t: "atree_ok jsw_cmp_uint (\<lambda>_. True) ssb" using assms(1) by (simp add: ssb_ok_def)
  note i = uint_keys.ainsert_ok [OF t, of ?s, simplified]
  have split: "nodes ssb = takeWhile ?P (nodes ssb) @ dropWhile ?P (nodes ssb)" by simp
  have "set (nodes (jsw_ainsert ssb ?s)) = insert ?s (set (nodes ssb))"
    unfolding i(2) by (subst (3) split) (simp del: takeWhile_dropWhile_id)
  moreover have "distinct (map ssbe_addr (nodes (jsw_ainsert ssb ?s)))"
  proof -
    have "distinct (map ssbe_addr (takeWhile ?P (nodes ssb) @ dropWhile ?P (nodes ssb)))"
      using assms(1) by (simp add: ssb_ok_def)
    moreover have "addr \<notin> ssbe_addr ` (set (takeWhile ?P (nodes ssb)) \<union> set (dropWhile ?P (nodes ssb)))"
      using assms(2) by (auto dest: set_takeWhileD set_dropWhileD)
    ultimately show ?thesis unfolding i(2)
      by (auto simp del: takeWhile_dropWhile_id)
  qed
  moreover have "aget (jsw_ainsert ssb ?s) = ssbe_n1" using assms(1) by (simp add: ssb_ok_def jsw_ainsert_def)
  moreover have "0 < min n1 n2" using assms(3,4) by (simp add: word_gt_0)
  ultimately have "ssb_ok (jsw_ainsert ssb ?s)"
    using i(1) assms(1) by (auto simp: ssb_ok_def min_le_iff_disj le_max_iff_disj)
  with \<open>set (nodes (jsw_ainsert ssb ?s)) = _\<close> assms(3,4) show ?thesis
    by (simp add: seq_set_builder_add_range_def)
qed

lemma staggered_vals:
  "sorted (map ssbe_n1 (s # ss)) \<Longrightarrow> \<forall>x \<in> set (s # ss). ssbe_n1 x = ssbe_n2 x \<Longrightarrow>
    staggered (ssbe_n1 s, ssbe_n2 s) ss"
  by (induction ss arbitrary: s) auto

lemma extract_vals:
  assumes "ssb_ok ssb" and "vals_only ssb"
  shows "\<exists>out. seq_set_builder_extract E_NONE alloc_ok ssb = (E_NONE, out) \<and> seq_den out = ssbe_n1 ` set (nodes ssb) \<and>
    (-1 \<notin> ssbe_n1 ` set (nodes ssb) \<longrightarrow> canonical out)"
proof -
  have c: "collect (asize ssb) (jsw_atfirst ssb) = nodes ssb"
    using assms(1) collect_nodes [OF ssb_distinct [OF assms(1)]] by (simp add: ssb_ok_def atree_ok_def)
  show ?thesis
  proof (cases "nodes ssb")
    case Nil
    with c show ?thesis by (simp add: seq_set_builder_extract_def canonical_def)
  next
    case (Cons s ss)
    have v: "\<forall>x \<in> set (s # ss). ssbe_n1 x = ssbe_n2 x" using assms(2) Cons by (simp add: vals_only_def)
    have st: "staggered (ssbe_n1 s, ssbe_n2 s) ss"
      using ssb_nodes_sorted [OF assms(1)] v unfolding Cons by (rule staggered_vals)
    from extract_loop_den [OF st, of 1] obtain out where
      o: "extract_loop alloc_ok 1 ss (ssbe_n1 s, ssbe_n2 s) = Some out"
      "seq_den out = {ssbe_n1 s..ssbe_n2 s} \<union> (\<Union>s \<in> set ss. {ssbe_n1 s..ssbe_n2 s})" by blast
    then have "seq_den out = ssbe_n1 ` set (nodes ssb)" using v Cons by auto
    moreover have "canonical out" if "-1 \<notin> ssbe_n1 ` set (nodes ssb)"
    proof -
      have "ssbe_n2 x \<noteq> -1" if "x \<in> set (s # ss)" for x
        using that \<open>-1 \<notin> _\<close> v Cons by (metis image_eqI)
      then have "\<forall>x \<in> set (s # ss). ssbe_n2 x < -1" by (simp add: order_less_le)
      moreover have "0 < ssbe_n1 s" using assms(1) Cons by (simp add: ssb_ok_def)
      ultimately show ?thesis using extract_loop_canonical [OF st _ _ _ o(1)] by simp
    qed
    ultimately show ?thesis
      using c o(1) Cons by (simp add: seq_set_builder_extract_def ie_seq_set_new_def)
  qed
qed

lemma aerase_ssb:
  assumes "ssb_ok ssb"
  shows "case jsw_aerase ssb v of
      (None, ssb') \<Rightarrow> ssb' = ssb \<and> (\<forall>s \<in> set (nodes ssb). ssbe_n1 s \<noteq> v)
    | (Some d, ssb') \<Rightarrow> ssb_ok ssb' \<and> ssbe_n1 d = v \<and> (\<exists>xs ys. nodes ssb = xs @ d # ys \<and> nodes ssb' = xs @ ys)"
proof -
  have t: "atree_ok jsw_cmp_uint (\<lambda>_. True) ssb" "aget ssb = ssbe_n1" using assms by (simp_all add: ssb_ok_def)
  show ?thesis
    using uint_keys.aerase_ok [OF t(1), of v] assms
    by (auto simp: t(2) ssb_ok_def split: prod.splits option.splits)
qed

lemma ssb_del_val:
  "ssb_ok ssb \<Longrightarrow> ssb_ok (seq_set_builder_del_val ssb v) \<and>
    nodes (seq_set_builder_del_val ssb v) = filter (\<lambda>s. ssbe_n1 s \<noteq> v) (nodes ssb)"
proof (induction ssb v rule: seq_set_builder_del_val.induct)
  case (1 ssb v)
  obtain res ssb' where e: "jsw_aerase ssb v = (res, ssb')" by force
  show ?case
  proof (cases res)
    case None
    with e aerase_ssb [OF 1(2), of v] 1(2) show ?thesis
      by (simp add: seq_set_builder_del_val.simps [of ssb] filter_id_conv)
  next
    case (Some d)
    with e aerase_ssb [OF 1(2), of v] obtain xs ys where
      d: "ssb_ok ssb'" "ssbe_n1 d = v" "nodes ssb = xs @ d # ys" "nodes ssb' = xs @ ys" by auto
    with 1(1) [OF e [symmetric] Some] e Some show ?thesis
      by (simp add: seq_set_builder_del_val.simps [of ssb])
  qed
qed

lemma atfirst_hd: "distinct (nodes tree) \<Longrightarrow> nodes tree = x # xs \<Longrightarrow> \<exists>trav. jsw_atfirst tree = (Some x, trav)"
proof -
  assume n: "nodes tree = x # xs"
  then have "root tree \<noteq> ANil" by (auto simp: nodes_def)
  then obtain y post where "stands_at True (root tree) (start False (root tree)) [] y post" "y # post = x # xs"
    using start_stands_at [of "root tree" True] n by (auto simp: toward_inorder nodes_def)
  then show ?thesis by (auto simp: jsw_atfirst_def stands_at_elem)
qed

lemma ssb_pop_val:
  assumes "ssb_ok ssb" and "nodes ssb = s # ss"
  shows "\<exists>ssb'. seq_set_builder_pop_val ssb = (ssbe_n1 s, ssb') \<and> ssb_ok ssb' \<and>
    image_mset ssbe_n1 (mset (nodes ssb')) = image_mset ssbe_n1 (mset ss)"
proof -
  from atfirst_hd [OF ssb_distinct [OF assms(1)] assms(2)] obtain trav where
    f: "jsw_atfirst ssb = (Some s, trav)" by blast
  then have it: "aelem (it trav) = Some s" by (auto simp: jsw_atfirst_def Let_def)
  have g: "aget ssb = ssbe_n1" using assms(1) by (simp add: ssb_ok_def)
  obtain res ssb' where e: "jsw_aerase ssb (ssbe_n1 s) = (res, ssb')" by force
  with aerase_ssb [OF assms(1), of "ssbe_n1 s"] assms(2) obtain d xs ys where
    d: "ssb_ok ssb'" "ssbe_n1 d = ssbe_n1 s" "nodes ssb = xs @ d # ys" "nodes ssb' = xs @ ys"
    by (cases res) auto
  have "mset (s # ss) = add_mset d (mset (xs @ ys))" using d(3) assms(2) by simp
  then have "image_mset ssbe_n1 (mset (s # ss)) = image_mset ssbe_n1 (add_mset d (mset (xs @ ys)))" by (rule arg_cong)
  then have "image_mset ssbe_n1 (mset (nodes ssb')) = image_mset ssbe_n1 (mset ss)" using d(2,4) by simp
  moreover have "\<exists>n t. jsw_pop_atnext ssb trav = (n, ssb', t)"
    by (auto simp: jsw_pop_atnext_def pop_move_def it g e Let_def split: option.split prod.split)
  ultimately show ?thesis using f d(1) by (auto simp: seq_set_builder_pop_val_def)
qed

section \<open>Properties\<close>

text \<open>
  C22. Iterating over a set visits, range by range and in ascending order, exactly the numbers of
  each range that lie within the bounds, a zero standing for the upper bound and the ends of
  a range in either order, then stops; for this no number visited may be zero and the bounds
  must be in order.
\<close>

theorem ie_seq_set_iter_correct:
  assumes "mx = 0 \<or> mn \<le> mx" and "\<forall>r \<in> set s. 0 \<notin> set (clip mn mx r)"
    and "length (concat (map (clip mn mx) s)) \<le> fuel"
  shows "seq_collect fuel (ie_seq_set_iter trav s mn mx) = Some (concat (map (clip mn mx) s)) \<and>
    (\<forall>a b. set (clip mn mx (a, b)) =
       {x. mn \<le> x \<and> (mx = 0 \<or> x \<le> mx) \<and> min (star mx a) (star mx b) \<le> x \<and> x \<le> max (star mx a) (star mx b)})"
  using seq_collect_iter [OF assms(1) _ assms(3)] assms(2) by (auto simp: set_clip)

definition demo_trav :: seq_trav where
  "demo_trav = \<lparr>t_ptr = [], t_min = 0, t_max = 0, t_i = 0, t_imax = 0\<rparr>"

theorem ie_seq_set_iter_correct_witness:
  "seq_collect 9 (ie_seq_set_iter demo_trav [(2, 4), (0, 6), (9, 2)] 3 7) = Some [3, 4, 6, 7, 3, 4, 5, 6, 7]"
proof -
  have c: "clip 3 7 (2, 4) = [3, 4]" "clip 3 7 (0, 6) = [6, 7]" "clip 3 7 (9, 2) = [3, 4, 5, 6, 7]"
    by (simp_all add: clip_def star_def u_upto_def upt_rec min_def max_def)
  show ?thesis
    using ie_seq_set_iter_correct [of 7 3 "[(2, 4), (0, 6), (9, 2)]" 9 demo_trav] by (simp add: c)
qed

text \<open>
  C23. A builder that holds single values extracts a range list that denotes exactly those
  values, and unless the value \<open>UINT_MAX\<close> is among them the list is canonical: proper ranges
  in ascending order with a gap between any two.
\<close>

theorem seq_set_builder_extract_correct:
  assumes "ssb_ok ssb" and "vals_only ssb"
  shows "\<exists>out. seq_set_builder_extract E_NONE alloc_ok ssb = (E_NONE, out) \<and>
    seq_den out = ssbe_n1 ` set (nodes ssb) \<and> (-1 \<notin> ssbe_n1 ` set (nodes ssb) \<longrightarrow> canonical out)"
  using assms by (rule extract_vals)

definition demo_builder :: seq_set_builder where
  "demo_builder = snd (seq_set_builder_add_val (Some 2) (snd (seq_set_builder_add_val (Some 1) seq_set_builder_prep 5)) 4)"

theorem seq_set_builder_extract_correct_witness:
  "\<exists>out. seq_set_builder_extract E_NONE alloc_ok demo_builder = (E_NONE, out) \<and> seq_den out = {4, 5} \<and> canonical out"
proof -
  have n: "nodes demo_builder = [\<lparr>ssbe_addr = 2, ssbe_n1 = 4, ssbe_n2 = 4\<rparr>, \<lparr>ssbe_addr = 1, ssbe_n1 = 5, ssbe_n2 = 5\<rparr>]"
    by (simp add: demo_builder_def seq_set_builder_add_val_def seq_set_builder_add_range_def
        seq_set_builder_prep_def jsw_ainit_def jsw_ainsert_def place_node_def jsw_cmp_uint_def nodes_def)
  have "atree_ok jsw_cmp_uint (\<lambda>_. True) demo_builder" "aget demo_builder = ssbe_n1"
    unfolding demo_builder_def seq_set_builder_add_val_def seq_set_builder_add_range_def seq_set_builder_prep_def
    by (simp_all add: uint_keys.ainsert_ok uint_keys.ainit_ok) (simp add: jsw_ainsert_def jsw_ainit_def)
  then have "ssb_ok demo_builder" "vals_only demo_builder" by (auto simp: ssb_ok_def vals_only_def n)
  from seq_set_builder_extract_correct [OF this] show ?thesis by (auto simp: n)
qed

text \<open>
  Adding a range inserts it with its ends in order and keeps the builder valid; deleting a
  value removes every element that starts at it and nothing else; popping returns the least
  start and leaves the other starts, with their multiplicity.
\<close>

theorem seq_set_builder_ops_correct:
  assumes "ssb_ok ssb" and "addr \<notin> ssbe_addr ` set (nodes ssb)" and "n1 \<noteq> 0" and "n2 \<noteq> 0" and "nodes ssb = s # ss"
  shows "(\<exists>ssb'. seq_set_builder_add_range (Some addr) ssb n1 n2 = (E_NONE, ssb') \<and> ssb_ok ssb' \<and>
      set (nodes ssb') = insert \<lparr>ssbe_addr = addr, ssbe_n1 = min n1 n2, ssbe_n2 = max n1 n2\<rparr> (set (nodes ssb))) \<and>
    ssb_ok (seq_set_builder_del_val ssb v) \<and>
    nodes (seq_set_builder_del_val ssb v) = filter (\<lambda>s. ssbe_n1 s \<noteq> v) (nodes ssb) \<and>
    (\<exists>ssb'. seq_set_builder_pop_val ssb = (Min (ssbe_n1 ` set (nodes ssb)), ssb') \<and> ssb_ok ssb' \<and>
      image_mset ssbe_n1 (mset (nodes ssb)) =
        add_mset (Min (ssbe_n1 ` set (nodes ssb))) (image_mset ssbe_n1 (mset (nodes ssb'))))"
proof -
  have "Min (ssbe_n1 ` set (nodes ssb)) = ssbe_n1 s"
    using ssb_nodes_sorted [OF assms(1)] by (intro Min_eqI) (auto simp: assms(5))
  with ssb_add_range [OF assms(1-4)] ssb_del_val [OF assms(1), of v] ssb_pop_val [OF assms(1,5)] assms(5)
  show ?thesis by auto
qed

theorem seq_set_builder_ops_correct_witness:
  "\<exists>ssb'. seq_set_builder_pop_val demo_builder = (4, ssb') \<and> image_mset ssbe_n1 (mset (nodes ssb')) = {#5#}"
proof -
  have n: "nodes demo_builder = [\<lparr>ssbe_addr = 2, ssbe_n1 = 4, ssbe_n2 = 4\<rparr>, \<lparr>ssbe_addr = 1, ssbe_n1 = 5, ssbe_n2 = 5\<rparr>]"
    by (simp add: demo_builder_def seq_set_builder_add_val_def seq_set_builder_add_range_def
        seq_set_builder_prep_def jsw_ainit_def jsw_ainsert_def place_node_def jsw_cmp_uint_def nodes_def)
  have "atree_ok jsw_cmp_uint (\<lambda>_. True) demo_builder" "aget demo_builder = ssbe_n1"
    unfolding demo_builder_def seq_set_builder_add_val_def seq_set_builder_add_range_def seq_set_builder_prep_def
    by (simp_all add: uint_keys.ainsert_ok uint_keys.ainit_ok) (simp add: jsw_ainsert_def jsw_ainit_def)
  then have "ssb_ok demo_builder" by (auto simp: ssb_ok_def n)
  from seq_set_builder_ops_correct [OF this _ _ _ n, of 7 1 1 9] show ?thesis by (auto simp: n)
qed

end
