(* ===== verification/Dn_View.thy ===== *)
theory Dn_View
  imports Seq_Set Maildir_Log
begin

text \<open>
  The mailbox view of a client connection (\<open>src/libimaildir/dn.c\<close>, \<open>msg.c\<close>, \<open>util.c\<close>): message
  views in a tree keyed by their UID, the order on message keys, and the translation of the
  sequence set of a client's command into the canonical set of UIDs it names.  The loops over
  a sequence set carry fuel; \<open>None\<close> stands for running out of it, and the properties show
  that one unit per visited number is enough.
\<close>

section \<open>Message keys and views\<close>

definition jsw_cmp_msg_key :: "msg_key \<Rightarrow> msg_key \<Rightarrow> int" where
  "jsw_cmp_msg_key a b =
     (let result = jsw_cmp_uint (uid_up a) (uid_up b)
      in if result \<noteq> 0 then result else jsw_cmp_uint (uid_local a) (uid_local b))"

record msg_view =
  v_key :: msg_key
  v_uid_dn :: u32
  v_length :: u64
  v_internaldate :: imap_time
  v_flags :: msg_flags

definition msg_view_new :: "bool \<Rightarrow> msg \<Rightarrow> derr_type + msg_view" where
  "msg_view_new mem m =
     (if \<not> mem then Inl E_NOMEM
      else Inr \<lparr>v_key = mkey m, v_uid_dn = uid_dn m, v_length = mlength m,
                v_internaldate = internaldate m, v_flags = flags m\<rparr>)"

type_synonym views = "(msg_view, u32) jsw_atree"

text \<open>A list of message keys, built from its end; on failure the tail is freed.\<close>

definition msg_key_list_new :: "derr_type \<Rightarrow> bool \<Rightarrow> msg_key \<Rightarrow> msg_key list \<Rightarrow> derr_type \<times> msg_key list" where
  "msg_key_list_new e mem k tail =
     (if e \<noteq> E_NONE then (e, []) else if \<not> mem then (E_NOMEM, []) else (E_NONE, k # tail))"

fun msg_key_list_pop :: "msg_key list \<Rightarrow> msg_key option \<times> msg_key list" where
  "msg_key_list_pop [] = (None, [])"
| "msg_key_list_pop (k # ks) = (Some k, ks)"

section \<open>Canonical UIDs\<close>

text \<open>
  \<open>malloc k\<close> is the address of the \<open>k\<close>-th builder element, or \<open>None\<close> when that allocation fails.
\<close>

fun canon_loop ::
  "nat \<Rightarrow> (nat \<Rightarrow> nat option) \<Rightarrow> nat \<Rightarrow> views \<Rightarrow> bool \<Rightarrow> u32 \<times> seq_trav \<Rightarrow> seq_set_builder \<Rightarrow>
    (derr_type \<times> seq_set_builder) option" where
  "canon_loop fuel malloc k views uid_mode (i, t) ssb =
     (if i = 0 then Some (E_NONE, ssb)
      else case fuel of 0 \<Rightarrow> None | Suc f \<Rightarrow>
        (case (if uid_mode then fst (jsw_afind views i) else jsw_aindex views (unat i - 1)) of
           None \<Rightarrow> if uid_mode then canon_loop f malloc k views uid_mode (ie_seq_set_next t) ssb
                   else Some (E_INTERNAL, ssb)
         | Some view \<Rightarrow>
             (case seq_set_builder_add_val (malloc k) ssb (v_uid_dn view) of (e, ssb') \<Rightarrow>
                if e \<noteq> E_NONE then Some (e, ssb')
                else canon_loop f malloc (k + 1) views uid_mode (ie_seq_set_next t) ssb')))"

definition view_bounds :: "views \<Rightarrow> bool \<Rightarrow> (derr_type \<times> u32 \<times> u32) option" where
  "view_bounds views uid_mode =
     (if uid_mode
      then (case (fst (jsw_atfirst views), fst (jsw_atlast views)) of
              (Some first, Some last_view) \<Rightarrow> Some (E_NONE, v_uid_dn first, v_uid_dn last_view)
            | _ \<Rightarrow> None)
      else (case index_to_seq_num (asize views - 1) of (e, last_num) \<Rightarrow> Some (e, 1, last_num)))"

definition seq_set_to_canonical_uids_dn ::
  "nat \<Rightarrow> (nat \<Rightarrow> nat option) \<Rightarrow> allocs \<Rightarrow> seq_trav \<Rightarrow> views \<Rightarrow> bool \<Rightarrow> seq_set \<Rightarrow> (derr_type \<times> seq_set \<times> bool) option" where
  "seq_set_to_canonical_uids_dn fuel malloc mem trav views uid_mode old =
     (if asize views = 0 then Some (E_NONE, [], uid_mode)
      else case view_bounds views uid_mode of
          None \<Rightarrow> None
        | Some (e, first, last_num) \<Rightarrow>
            if e \<noteq> E_NONE then Some (e, [], True)
            else if \<not> uid_mode \<and> (\<exists>(a, b) \<in> set old. asize views < unat (max a b)) then Some (E_NONE, [], False)
            else (case canon_loop fuel malloc 0 views uid_mode (ie_seq_set_iter trav old first last_num) seq_set_builder_prep of
                    None \<Rightarrow> None
                  | Some (e, ssb) \<Rightarrow>
                      if e \<noteq> E_NONE then Some (e, [], True)
                      else (case seq_set_builder_extract E_NONE mem ssb of (e, out) \<Rightarrow> Some (e, out, True))))"

fun keys_loop ::
  "nat \<Rightarrow> allocs \<Rightarrow> nat \<Rightarrow> views \<Rightarrow> u32 \<times> seq_trav \<Rightarrow> msg_key list \<Rightarrow> (derr_type \<times> msg_key list) option" where
  "keys_loop fuel mem k views (i, t) keys =
     (if i = 0 then Some (E_NONE, keys)
      else case fuel of 0 \<Rightarrow> None | Suc f \<Rightarrow>
        (case fst (jsw_afind views i) of
           None \<Rightarrow> Some (E_INTERNAL, [])
         | Some view \<Rightarrow>
             (case msg_key_list_new E_NONE (mem k) (v_key view) keys of (e, keys') \<Rightarrow>
                if e \<noteq> E_NONE then Some (e, []) else keys_loop f mem (k + 1) views (ie_seq_set_next t) keys')))"

definition uids_dn_to_msg_keys ::
  "nat \<Rightarrow> allocs \<Rightarrow> seq_trav \<Rightarrow> views \<Rightarrow> seq_set \<Rightarrow> (derr_type \<times> msg_key list) option" where
  "uids_dn_to_msg_keys fuel mem trav views uids_dn =
     keys_loop fuel mem 0 views (ie_seq_set_iter trav uids_dn 0 0) []"

section \<open>Lookups in a view tree\<close>

lemma jsw_cmp_msg_key_le:
  "jsw_cmp_msg_key a b \<le> 0 \<longleftrightarrow> uid_up a < uid_up b \<or> uid_up a = uid_up b \<and> uid_local a \<le> uid_local b"
  by (auto simp: jsw_cmp_msg_key_def jsw_cmp_uint_def Let_def)

interpretation msg_keys: key_order jsw_cmp_msg_key "\<lambda>_. True"
proof unfold_locales
  fix a b c :: msg_key
  show "jsw_cmp_msg_key a b < 0 \<longleftrightarrow> 0 < jsw_cmp_msg_key b a"
    by (auto simp: jsw_cmp_msg_key_def jsw_cmp_uint_def Let_def)
  assume "jsw_cmp_msg_key a b \<le> 0" and "jsw_cmp_msg_key b c \<le> 0"
  then show "jsw_cmp_msg_key a c \<le> 0" unfolding jsw_cmp_msg_key_le by force
qed

definition uids :: "views \<Rightarrow> u32 list" where
  "uids views = map v_uid_dn (nodes views)"

definition views_ok :: "views \<Rightarrow> bool" where
  "views_ok views \<longleftrightarrow> atree_ok jsw_cmp_uint (\<lambda>_. True) views \<and> aget views = v_uid_dn \<and>
     distinct (uids views) \<and> 0 \<notin> set (uids views) \<and> length (uids views) < 2 ^ 32"

lemma uids_sorted: "views_ok views \<Longrightarrow> sorted (uids views)"
  by (auto simp: views_ok_def atree_ok_def ordered_def jsw_cmp_uint_le uids_def sorted_wrt_map)

lemma afind_view:
  assumes "views_ok views"
  shows "case fst (jsw_afind views u) of
      None \<Rightarrow> u \<notin> set (uids views)
    | Some v \<Rightarrow> v \<in> set (nodes views) \<and> v_uid_dn v = u"
proof -
  have t: "acmp views = jsw_cmp_uint" "counted (root views)" "ordered jsw_cmp_uint (aget views) (inorder (root views))"
    "aget views = v_uid_dn" using assms by (auto simp: views_ok_def atree_ok_def nodes_def)
  have f: "jsw_afind views u = find_loop jsw_cmp_uint v_uid_dn u 0 (root views)"
    by (simp add: jsw_afind_def jsw_afind_ex_def t)
  show ?thesis
    using uint_keys.find_loop_spec [OF t(2,3), where v = u and k = 0] unfolding t(4)
    by (auto simp: f uids_def nodes_def split: prod.splits option.splits)
qed

lemma aindex_view:
  assumes "views_ok views"
  shows "jsw_aindex views i = (if i < length (uids views) then Some (nodes views ! i) else None)"
  using assms index_loop_nth [of "root views" i 0]
  by (auto simp: views_ok_def atree_ok_def jsw_aindex_def nodes_def uids_def)

lemma atfirst_atlast:
  assumes "views_ok views" and "nodes views \<noteq> []"
  shows "fst (jsw_atfirst views) = Some (hd (nodes views))" and "fst (jsw_atlast views) = Some (last (nodes views))"
proof -
  have ne: "root views \<noteq> ANil" using assms(2) by (auto simp: nodes_def)
  from start_stands_at [OF ne, of True] obtain x post where
    "stands_at True (root views) (start False (root views)) [] x post" "x # post = nodes views"
    by (auto simp: toward_inorder nodes_def)
  then show "fst (jsw_atfirst views) = Some (hd (nodes views))"
    by (metis fst_conv jsw_atfirst_def list.sel(1) stands_at_elem)
  from start_stands_at [OF ne, of False] obtain y post' where
    y: "stands_at False (root views) (start True (root views)) [] y post'" "y # post' = rev (nodes views)"
    by (auto simp: toward_inorder nodes_def)
  then have "last (nodes views) = y" by (metis hd_rev list.sel(1))
  with y(1) show "fst (jsw_atlast views) = Some (last (nodes views))"
    by (simp add: jsw_atlast_def Let_def stands_at_elem)
qed

section \<open>The loops over the visited numbers\<close>

definition view_at :: "views \<Rightarrow> bool \<Rightarrow> u32 \<Rightarrow> msg_view option" where
  "view_at views uid_mode i =
     (if uid_mode then fst (jsw_afind views i) else jsw_aindex views (unat i - 1))"

lemma view_at_node: "views_ok views \<Longrightarrow> view_at views m i = Some v \<Longrightarrow> v \<in> set (nodes views)"
  using afind_view [of views i] aindex_view [of views "unat i - 1"]
  by (auto simp: view_at_def uids_def split: if_splits)

text \<open>The addresses of the elements so far come from the first \<open>k\<close> allocations.\<close>

definition canon_inv :: "(nat \<Rightarrow> nat option) \<Rightarrow> nat \<Rightarrow> seq_set_builder \<Rightarrow> bool" where
  "canon_inv malloc k ssb \<longleftrightarrow> ssb_ok ssb \<and> vals_only ssb \<and> (\<forall>s \<in> set (nodes ssb). Some (ssbe_addr s) \<in> malloc ` {..<k})"

lemma canon_loop_correct:
  assumes "views_ok views" and "inj malloc" and "None \<notin> range malloc"
    and "seq_collect fuel (i, t) = Some xs" and "canon_inv malloc k ssb"
    and "\<forall>x \<in> set xs. uid_mode \<or> view_at views uid_mode x \<noteq> None"
  shows "\<exists>ssb' k'. canon_loop fuel malloc k views uid_mode (i, t) ssb = Some (E_NONE, ssb') \<and> canon_inv malloc k' ssb' \<and>
    ssbe_n1 ` set (nodes ssb') = ssbe_n1 ` set (nodes ssb) \<union> {u. \<exists>x \<in> set xs. \<exists>v. view_at views uid_mode x = Some v \<and> u = v_uid_dn v}"
  using assms(4-6)
proof (induction fuel arbitrary: i t xs k ssb)
  case 0
  then show ?case by (auto split: if_splits)
next
  case (Suc f)
  show ?case
  proof (cases "i = 0")
    case True
    with Suc.prems show ?thesis by auto
  next
    case False
    obtain j t' where n: "ie_seq_set_next t = (j, t')" by force
    with False Suc.prems(1) obtain ys where ys: "seq_collect f (j, t') = Some ys" "xs = i # ys" by auto
    show ?thesis
    proof (cases "view_at views uid_mode i")
      case None
      then have "uid_mode" using Suc.prems(3) ys(2) by auto
      with Suc.IH [OF ys(1) Suc.prems(2)] Suc.prems(3) False None n ys(2) show ?thesis
        by (auto simp: view_at_def)
    next
      case (Some v)
      obtain addr where a: "malloc k = Some addr" using assms(3) by (cases "malloc k") (auto, metis rangeI)
      have v: "v \<in> set (nodes views)" using view_at_node [OF assms(1) Some] .
      then have u: "v_uid_dn v \<noteq> 0" using assms(1) by (force simp: views_ok_def uids_def)
      have fresh: "addr \<notin> ssbe_addr ` set (nodes ssb)"
      proof
        assume "addr \<in> ssbe_addr ` set (nodes ssb)"
        then have "malloc k \<in> malloc ` {..<k}" using Suc.prems(2) a unfolding canon_inv_def by fastforce
        then show False using assms(2) by (auto dest: injD)
      qed
      from ssb_add_range [OF _ fresh u u] Suc.prems(2) obtain ssb' where
        s: "seq_set_builder_add_val (malloc k) ssb (v_uid_dn v) = (E_NONE, ssb')" "ssb_ok ssb'"
        "set (nodes ssb') = insert \<lparr>ssbe_addr = addr, ssbe_n1 = v_uid_dn v, ssbe_n2 = v_uid_dn v\<rparr> (set (nodes ssb))"
        by (auto simp: canon_inv_def seq_set_builder_add_val_def a)
      have "canon_inv malloc (k + 1) ssb'"
        using Suc.prems(2) s(2,3) a by (auto simp: canon_inv_def vals_only_def lessThan_Suc)
      from Suc.IH [OF ys(1) this] Suc.prems(3) ys(2) obtain ssb2 k2 where
        "canon_loop f malloc (k + 1) views uid_mode (j, t') ssb' = Some (E_NONE, ssb2)" "canon_inv malloc k2 ssb2"
        "ssbe_n1 ` set (nodes ssb2) = ssbe_n1 ` set (nodes ssb') \<union>
           {u. \<exists>x \<in> set ys. \<exists>v. view_at views uid_mode x = Some v \<and> u = v_uid_dn v}"
        by auto
      moreover from this(1) have "canon_loop (Suc f) malloc k views uid_mode (i, t) ssb = Some (E_NONE, ssb2)"
        using False Some n s(1) by (simp add: view_at_def)
      ultimately show ?thesis using s(3) ys(2) Some by auto
    qed
  qed
qed

lemma keys_loop_correct:
  assumes "views_ok views" and "seq_collect fuel (i, t) = Some xs" and "set xs \<subseteq> set (uids views)"
  shows "\<exists>ks. keys_loop fuel alloc_ok k views (i, t) keys = Some (E_NONE, rev ks @ keys) \<and>
    list_all2 (\<lambda>x m. \<exists>v \<in> set (nodes views). v_uid_dn v = x \<and> v_key v = m) xs ks"
  using assms(2,3)
proof (induction fuel arbitrary: i t xs k keys)
  case 0
  then show ?case by (auto split: if_splits)
next
  case (Suc f)
  show ?case
  proof (cases "i = 0")
    case True
    with Suc.prems show ?thesis by auto
  next
    case False
    obtain j t' where n: "ie_seq_set_next t = (j, t')" by force
    with False Suc.prems(1) obtain ys where ys: "seq_collect f (j, t') = Some ys" "xs = i # ys" by auto
    with afind_view [OF assms(1), of i] Suc.prems(2) obtain v where
      v: "fst (jsw_afind views i) = Some v" "v \<in> set (nodes views)" "v_uid_dn v = i"
      by (auto split: option.splits)
    from Suc.IH [OF ys(1), of "k + 1" "v_key v # keys"] Suc.prems(2) ys(2) obtain ks where
      "keys_loop f alloc_ok (k + 1) views (j, t') (v_key v # keys) = Some (E_NONE, rev ks @ v_key v # keys)"
      "list_all2 (\<lambda>x m. \<exists>v \<in> set (nodes views). v_uid_dn v = x \<and> v_key v = m) ys ks" by auto
    then show ?thesis using False n v ys(2)
      by (intro exI [of _ "v_key v # ks"]) (auto simp: msg_key_list_new_def)
  qed
qed

declare canon_loop.simps [simp del] keys_loop.simps [simp del]

lemma sorted_le_last: "sorted xs \<Longrightarrow> x \<in> set xs \<Longrightarrow> x \<le> last xs"
  by (induction xs) auto

lemma view_bounds_uid:
  assumes "views_ok views" and "nodes views \<noteq> []"
  shows "view_bounds views True = Some (E_NONE, Min (set (uids views)), Max (set (uids views)))"
proof -
  have s: "sorted (uids views)" and ne: "uids views \<noteq> []"
    using uids_sorted [OF assms(1)] assms(2) by (simp_all add: uids_def)
  have "v_uid_dn (hd (nodes views)) = hd (uids views)" "v_uid_dn (last (nodes views)) = last (uids views)"
    using assms(2) by (simp_all add: uids_def hd_map last_map)
  moreover have "Min (set (uids views)) = hd (uids views)"
    using s ne by (cases "uids views") (auto intro!: Min_eqI)
  moreover have "x \<le> last (uids views)" if "x \<in> set (uids views)" for x
    using s that by (rule sorted_le_last)
  then have "Max (set (uids views)) = last (uids views)"
    using ne by (intro Max_eqI) auto
  ultimately show ?thesis by (simp add: view_bounds_def atfirst_atlast [OF assms])
qed

lemma canon_extract:
  assumes "views_ok views" and "inj malloc" and "None \<notin> range malloc"
    and "mx = 0 \<or> mn \<le> mx" and "0 < mn" and "length (concat (map (clip mn mx) old)) \<le> fuel"
    and "\<forall>r \<in> set old. \<forall>x \<in> set (clip mn mx r). uid_mode \<or> view_at views uid_mode x \<noteq> None"
  shows "\<exists>ssb out. canon_loop fuel malloc 0 views uid_mode (ie_seq_set_iter trav old mn mx) seq_set_builder_prep = Some (E_NONE, ssb) \<and>
    seq_set_builder_extract E_NONE alloc_ok ssb = (E_NONE, out) \<and>
    seq_den out = {u. \<exists>r \<in> set old. \<exists>x \<in> set (clip mn mx r). \<exists>v. view_at views uid_mode x = Some v \<and> u = v_uid_dn v} \<and>
    (-1 \<notin> set (uids views) \<longrightarrow> canonical out)"
proof -
  have "0 \<notin> set (clip mn mx r)" for r using assms(5) by (cases r) (auto simp: set_clip)
  then have "0 \<notin> set (concat (map (clip mn mx) old))" by auto
  from seq_collect_iter [OF assms(4) this assms(6)]
  have c: "seq_collect fuel (ie_seq_set_iter trav old mn mx) = Some (concat (map (clip mn mx) old))" .
  have i: "canon_inv malloc 0 seq_set_builder_prep"
    using ssb_prep_ok by (simp add: canon_inv_def vals_only_def)
  obtain i t where it: "ie_seq_set_iter trav old mn mx = (i, t)" by force
  from canon_loop_correct [OF assms(1-3) c [unfolded it] i, of uid_mode] assms(7) obtain ssb k where
    l: "canon_loop fuel malloc 0 views uid_mode (i, t) seq_set_builder_prep = Some (E_NONE, ssb)" "canon_inv malloc k ssb"
    "ssbe_n1 ` set (nodes ssb) = {u. \<exists>x \<in> set (concat (map (clip mn mx) old)). \<exists>v. view_at views uid_mode x = Some v \<and> u = v_uid_dn v}"
    by (auto simp: ssb_prep_ok(2))
  have sub: "ssbe_n1 ` set (nodes ssb) \<subseteq> set (uids views)"
    unfolding l(3) using view_at_node [OF assms(1)] by (auto simp: uids_def)
  from extract_vals [of ssb] l(2) obtain out where
    "seq_set_builder_extract E_NONE alloc_ok ssb = (E_NONE, out)" "seq_den out = ssbe_n1 ` set (nodes ssb)"
    "-1 \<notin> ssbe_n1 ` set (nodes ssb) \<longrightarrow> canonical out" by (auto simp: canon_inv_def)
  with sub l(1,3) show ?thesis unfolding it by (intro exI [of _ ssb] exI [of _ out]) auto
qed

lemma canonical_by_uid:
  assumes "views_ok views" and "nodes views \<noteq> []" and "inj malloc" and "None \<notin> range malloc"
    and "length (concat (map (clip (Min (set (uids views))) (Max (set (uids views)))) old)) \<le> fuel"
  shows "\<exists>out. seq_set_to_canonical_uids_dn fuel malloc alloc_ok trav views True old = Some (E_NONE, out, True) \<and>
    seq_den out = {u \<in> set (uids views). \<exists>(a, b) \<in> set old.
      min (star (Max (set (uids views))) a) (star (Max (set (uids views))) b) \<le> u \<and>
      u \<le> max (star (Max (set (uids views))) a) (star (Max (set (uids views))) b)} \<and>
    (-1 \<notin> set (uids views) \<longrightarrow> canonical out)"
proof -
  let ?mn = "Min (set (uids views))" and ?mx = "Max (set (uids views))"
  have ne: "set (uids views) \<noteq> {}" using assms(2) by (simp add: uids_def)
  have mn: "?mn \<in> set (uids views)" using ne by simp
  then have pos: "0 < ?mn" using assms(1) by (metis views_ok_def word_gt_0)
  have le: "?mn \<le> ?mx" using mn by simp
  have size: "asize views \<noteq> 0" using assms(1,2) by (auto simp: views_ok_def atree_ok_def)
  obtain ssb out where o:
    "canon_loop fuel malloc 0 views True (ie_seq_set_iter trav old ?mn ?mx) seq_set_builder_prep = Some (E_NONE, ssb)"
    "seq_set_builder_extract E_NONE alloc_ok ssb = (E_NONE, out)"
    "seq_den out = {u. \<exists>r \<in> set old. \<exists>x \<in> set (clip ?mn ?mx r). \<exists>v. view_at views True x = Some v \<and> u = v_uid_dn v}"
    "-1 \<notin> set (uids views) \<longrightarrow> canonical out"
    using canon_extract [OF assms(1,3,4) _ pos assms(5), of True] le by blast
  have v: "(\<exists>v. view_at views True x = Some v \<and> u = v_uid_dn v) \<longleftrightarrow> u = x \<and> x \<in> set (uids views)" for x u
    using afind_view [OF assms(1), of x] by (auto simp: view_at_def uids_def split: option.splits)
  have b: "?mn \<le> x \<and> x \<le> ?mx" if "x \<in> set (uids views)" for x using that by simp
  have c: "(\<exists>r \<in> set old. u \<in> set (clip ?mn ?mx r)) \<longleftrightarrow>
      (\<exists>(a, b) \<in> set old. min (star ?mx a) (star ?mx b) \<le> u \<and> u \<le> max (star ?mx a) (star ?mx b))"
    if "u \<in> set (uids views)" for u
    using b [OF that] by (intro bex_cong refl) (simp add: set_clip split: prod.split)
  have "seq_den out = {u \<in> set (uids views). \<exists>r \<in> set old. u \<in> set (clip ?mn ?mx r)}"
    unfolding o(3) v by blast
  also have "\<dots> = {u \<in> set (uids views). \<exists>(a, b) \<in> set old.
      min (star ?mx a) (star ?mx b) \<le> u \<and> u \<le> max (star ?mx a) (star ?mx b)}"
    using c by (intro Collect_cong conj_cong refl)
  finally have "seq_den out = \<dots>" .
  with o size show ?thesis
    by (simp add: seq_set_to_canonical_uids_dn_def view_bounds_uid [OF assms(1,2)])
qed

lemma canonical_by_number:
  assumes "views_ok views" and "nodes views \<noteq> []" and "inj malloc" and "None \<notin> range malloc"
    and "length (concat (map (clip 1 (of_nat (length (uids views)))) old)) \<le> fuel"
  shows "if \<exists>(a, b) \<in> set old. length (uids views) < unat (max a b)
    then seq_set_to_canonical_uids_dn fuel malloc alloc_ok trav views False old = Some (E_NONE, [], False)
    else \<exists>out. seq_set_to_canonical_uids_dn fuel malloc alloc_ok trav views False old = Some (E_NONE, out, True) \<and>
      seq_den out = {uids views ! (unat x - 1) | x. \<exists>(a, b) \<in> set old.
        x \<in> set (clip 1 (of_nat (length (uids views))) (a, b))} \<and>
      (-1 \<notin> set (uids views) \<longrightarrow> canonical out)"
proof -
  let ?n = "length (uids views)"
  let ?mx = "of_nat ?n :: u32"
  have n: "0 < ?n" "?n < 2 ^ 32" using assms(1,2) by (simp_all add: views_ok_def uids_def)
  then have u: "unat ?mx = ?n" by (simp add: unat_of_nat)
  have size: "asize views = ?n" using assms(1) by (simp add: views_ok_def atree_ok_def uids_def)
  obtain m where m: "?n = Suc m" using n(1) by (cases "uids views") auto
  with n(2) have vb: "view_bounds views False = Some (E_NONE, 1, ?mx)"
    by (simp add: view_bounds_def index_to_seq_num_def size add.commute)
  have le: "1 \<le> ?mx" using u m by (simp add: word_le_nat_alt)
  have at: "view_at views False x = Some (nodes views ! (unat x - 1)) \<and> unat x - 1 < ?n"
    if "x \<in> set (clip 1 ?mx r)" for x r
  proof -
    obtain a b where "r = (a, b)" by force
    with that have "1 \<le> x" "?mx = 0 \<or> x \<le> ?mx" by (simp_all add: set_clip)
    moreover from le have "?mx \<noteq> 0" by auto
    ultimately have "1 \<le> x" "x \<le> ?mx" by simp_all
    then have "unat x - 1 < ?n" using u n(1) by (simp add: word_le_nat_alt)
    then show ?thesis by (simp add: view_at_def aindex_view [OF assms(1)])
  qed
  obtain ssb out where o:
    "canon_loop fuel malloc 0 views False (ie_seq_set_iter trav old 1 ?mx) seq_set_builder_prep = Some (E_NONE, ssb)"
    "seq_set_builder_extract E_NONE alloc_ok ssb = (E_NONE, out)"
    "seq_den out = {u. \<exists>r \<in> set old. \<exists>x \<in> set (clip 1 ?mx r). \<exists>v. view_at views False x = Some v \<and> u = v_uid_dn v}"
    "-1 \<notin> set (uids views) \<longrightarrow> canonical out"
    using canon_extract [OF assms(1,3,4) _ _ assms(5), of False trav] le at by auto
  have v: "(\<exists>v. view_at views False x = Some v \<and> w = v_uid_dn v) \<longleftrightarrow> w = uids views ! (unat x - 1)"
    if "x \<in> set (clip 1 ?mx r)" for x r w
    using at [OF that] by (auto simp: uids_def)
  have "seq_den out = {w. \<exists>r \<in> set old. \<exists>x \<in> set (clip 1 ?mx r). w = uids views ! (unat x - 1)}"
    unfolding o(3) using v by (intro Collect_cong bex_cong refl)
  also have "\<dots> = {uids views ! (unat x - 1) | x. \<exists>(a, b) \<in> set old. x \<in> set (clip 1 ?mx (a, b))}"
    by auto
  finally have "seq_den out = \<dots>" .
  with o n vb show ?thesis by (simp add: seq_set_to_canonical_uids_dn_def size)
qed

lemma msg_keys_of_uids:
  assumes "views_ok views" and "\<forall>(a, b) \<in> set s. 0 < a \<and> a \<le> b" and "seq_den s \<subseteq> set (uids views)"
    and "length (concat (map (clip 0 0) s)) \<le> fuel"
  shows "\<exists>ks. uids_dn_to_msg_keys fuel alloc_ok trav views s = Some (E_NONE, ks) \<and>
    set ks = v_key ` {v \<in> set (nodes views). v_uid_dn v \<in> seq_den s}"
proof -
  have c: "set (clip 0 0 r) = {fst r..snd r}" if "r \<in> set s" for r
  proof -
    obtain a b where r: "r = (a, b)" by force
    with that assms(2) have "0 < a" "a \<le> b" by auto
    then have "a \<noteq> 0" "b \<noteq> 0" by auto
    then show ?thesis using \<open>a \<le> b\<close> by (auto simp: r set_clip star_def)
  qed
  let ?xs = "concat (map (clip 0 0) s)"
  have xs: "set ?xs = seq_den s" using c by (force simp: seq_den_def)
  then have "0 \<notin> set ?xs" using assms(2) by (force simp: seq_den_def)
  from seq_collect_iter [OF _ this assms(4), of trav]
  have col: "seq_collect fuel (ie_seq_set_iter trav s 0 0) = Some ?xs" by simp
  obtain i t where it: "ie_seq_set_iter trav s 0 0 = (i, t)" by force
  from keys_loop_correct [OF assms(1) col [unfolded it], of 0 "[]"] xs assms(3) obtain ks where
    k: "keys_loop fuel alloc_ok 0 views (i, t) [] = Some (E_NONE, rev ks)"
    "list_all2 (\<lambda>x m. \<exists>v \<in> set (nodes views). v_uid_dn v = x \<and> v_key v = m) ?xs ks" by auto
  have uniq: "v = w" if "v \<in> set (nodes views)" "w \<in> set (nodes views)" "v_uid_dn v = v_uid_dn w" for v w
    using that assms(1) by (auto simp: views_ok_def uids_def distinct_map dest: inj_onD)
  have "m \<in> set ks \<longleftrightarrow> (\<exists>v \<in> set (nodes views). v_uid_dn v \<in> seq_den s \<and> v_key v = m)" for m
    unfolding xs [symmetric] using k(2) uniq unfolding list_all2_conv_all_nth by (metis in_set_conv_nth)
  then have "set (rev ks) = v_key ` {v \<in> set (nodes views). v_uid_dn v \<in> seq_den s}" by auto
  with k(1) show ?thesis by (simp add: uids_dn_to_msg_keys_def it)
qed

section \<open>Properties\<close>

text \<open>
  C14. In UID mode the canonical set names exactly the messages of the view whose UID lies in a
  range of the client's set, with \<open>*\<close> read as the greatest UID of the view and ranges in
  either direction; it is canonical unless some UID is \<open>UINT_MAX\<close>.
\<close>

theorem canonical_uids_uid_mode:
  assumes "views_ok views" and "nodes views \<noteq> []" and "inj malloc" and "None \<notin> range malloc"
    and "length (concat (map (clip (Min (set (uids views))) (Max (set (uids views)))) old)) \<le> fuel"
  shows "\<exists>out. seq_set_to_canonical_uids_dn fuel malloc alloc_ok trav views True old = Some (E_NONE, out, True) \<and>
    seq_den out = {u \<in> set (uids views). \<exists>(a, b) \<in> set old.
      min (star (Max (set (uids views))) a) (star (Max (set (uids views))) b) \<le> u \<and>
      u \<le> max (star (Max (set (uids views))) a) (star (Max (set (uids views))) b)} \<and>
    (-1 \<notin> set (uids views) \<longrightarrow> canonical out)"
  using assms by (rule canonical_by_uid)

definition demo_view :: "u32 \<Rightarrow> msg_view" where
  "demo_view u = \<lparr>v_key = \<lparr>uid_up = u, uid_local = 0\<rparr>, v_uid_dn = u, v_length = 0,
     v_internaldate = example_date, v_flags = no_flags\<rparr>"

definition demo_views :: views where
  "demo_views = jsw_ainsert (jsw_ainsert (jsw_ainit jsw_cmp_uint v_uid_dn) (demo_view 9)) (demo_view 5)"

lemma demo_views_nodes: "nodes demo_views = [demo_view 5, demo_view 9]" "uids demo_views = [5, 9]"
proof -
  show "nodes demo_views = [demo_view 5, demo_view 9]"
    by (simp add: demo_views_def demo_view_def jsw_ainsert_def jsw_ainit_def place_node_def jsw_cmp_uint_def nodes_def)
  then show "uids demo_views = [5, 9]" by (simp add: uids_def demo_view_def)
qed

lemma demo_views_ok: "views_ok demo_views"
proof -
  have "atree_ok jsw_cmp_uint (\<lambda>_. True) demo_views"
    unfolding demo_views_def by (intro uint_keys.ainsert_ok uint_keys.ainit_ok) simp_all
  moreover have "aget demo_views = v_uid_dn" by (simp add: demo_views_def jsw_ainsert_def jsw_ainit_def)
  ultimately show ?thesis by (simp add: views_ok_def demo_views_nodes)
qed

theorem canonical_uids_uid_mode_witness:
  "\<exists>out. seq_set_to_canonical_uids_dn 5 Some alloc_ok demo_trav demo_views True [(6, 0)] = Some (E_NONE, out, True) \<and>
     seq_den out = {9} \<and> canonical out"
proof -
  have "Min {5, 9 :: u32} = 5" "Max {5, 9 :: u32} = 9" by simp_all
  moreover have "length (concat (map (clip 5 9) [(6, 0)])) \<le> 5"
    by (simp add: clip_def star_def u_upto_def upt_rec min_def max_def)
  moreover have "{u \<in> {5, 9 :: u32}. 6 \<le> u \<and> u \<le> 9} = {9}" by auto
  ultimately show ?thesis
    using canonical_uids_uid_mode [OF demo_views_ok, of Some "[(6, 0)]" 5 demo_trav]
    by (simp add: demo_views_nodes star_def min_def max_def)
qed

text \<open>
  C15. In sequence-number mode a set with a number beyond the view is refused (\<open>ok\<close> is false);
  otherwise the canonical set names exactly the messages at the positions of the set, counted
  from one, with \<open>*\<close> read as the last position.
\<close>

theorem canonical_uids_seq_mode:
  assumes "views_ok views" and "nodes views \<noteq> []" and "inj malloc" and "None \<notin> range malloc"
    and "length (concat (map (clip 1 (of_nat (length (uids views)))) old)) \<le> fuel"
  shows "if \<exists>(a, b) \<in> set old. length (uids views) < unat (max a b)
    then seq_set_to_canonical_uids_dn fuel malloc alloc_ok trav views False old = Some (E_NONE, [], False)
    else \<exists>out. seq_set_to_canonical_uids_dn fuel malloc alloc_ok trav views False old = Some (E_NONE, out, True) \<and>
      seq_den out = {uids views ! (unat x - 1) | x. \<exists>(a, b) \<in> set old.
        x \<in> set (clip 1 (of_nat (length (uids views))) (a, b))} \<and>
      (-1 \<notin> set (uids views) \<longrightarrow> canonical out)"
  using assms by (rule canonical_by_number)

theorem canonical_uids_seq_mode_witness:
  "\<exists>out. seq_set_to_canonical_uids_dn 5 Some alloc_ok demo_trav demo_views False [(2, 2)] = Some (E_NONE, out, True) \<and>
     seq_den out = {9}"
proof -
  have c: "clip 1 2 (2, 2) = [2]"
    by (simp add: clip_def star_def u_upto_def upt_rec min_def max_def word_le_nat_alt)
  then show ?thesis
    using canonical_uids_seq_mode [OF demo_views_ok, of Some "[(2, 2)]" 5 demo_trav]
    by (auto simp: demo_views_nodes)
qed

text \<open>
  C16. Translating a set of proper ranges all of whose UIDs are in the view gives exactly the
  keys of the messages with those UIDs.
\<close>

theorem uids_dn_to_msg_keys_correct:
  assumes "views_ok views" and "\<forall>(a, b) \<in> set s. 0 < a \<and> a \<le> b" and "seq_den s \<subseteq> set (uids views)"
    and "length (concat (map (clip 0 0) s)) \<le> fuel"
  shows "\<exists>ks. uids_dn_to_msg_keys fuel alloc_ok trav views s = Some (E_NONE, ks) \<and>
    set ks = v_key ` {v \<in> set (nodes views). v_uid_dn v \<in> seq_den s}"
  using assms by (rule msg_keys_of_uids)

theorem uids_dn_to_msg_keys_correct_witness:
  "\<exists>ks. uids_dn_to_msg_keys 3 alloc_ok demo_trav demo_views [(5, 5), (9, 9)] = Some (E_NONE, ks) \<and>
     set ks = {\<lparr>uid_up = 5, uid_local = 0\<rparr>, \<lparr>uid_up = 9, uid_local = 0\<rparr>}"
proof -
  have "length (concat (map (clip 0 0) [(5, 5), (9, 9)])) \<le> 3"
    by (simp add: clip_def star_def u_upto_def upt_rec)
  moreover have "seq_den [(5, 5), (9, 9)] \<subseteq> set (uids demo_views)" by (simp add: demo_views_nodes)
  moreover have "{v \<in> set (nodes demo_views). v_uid_dn v \<in> seq_den [(5, 5), (9, 9)]} = {demo_view 5, demo_view 9}"
    by (auto simp: demo_views_nodes demo_view_def)
  then have e: "v_key ` {v \<in> set (nodes demo_views). v_uid_dn v \<in> seq_den [(5, 5), (9, 9)]} =
      {\<lparr>uid_up = 5, uid_local = 0\<rparr>, \<lparr>uid_up = 9, uid_local = 0\<rparr>}"
    by (simp add: demo_view_def)
  ultimately show ?thesis
    using uids_dn_to_msg_keys_correct [OF demo_views_ok, of "[(5, 5), (9, 9)]" 3 demo_trav] unfolding e by simp
qed

end
