(* ===== verification/Dn_Update.thy ===== *)
theory Dn_Update
  imports Dn_View "HOL-Library.Monad_Syntax"
begin

text \<open>
  How a client connection learns of changes of its mailbox (\<open>src/libimaildir/dn.c\<close>): the updates the
  mailbox queues for it, gathering them into the view, and the untagged responses that tell the
  client.  A response is built by the constructors of \<open>libimap\<close>, which may run out of memory, and checked
  against the enabled extensions; \<open>build\<close> is the error these calls end with.  \<open>mem k\<close> says whether the \<open>k\<close>-th
  allocation succeeds; \<open>None\<close> stands for the use of a null pointer.
\<close>

section \<open>Responses\<close>

text \<open>
  Of the responses and status codes of \<open>src/libimap/expression.h\<close>, those that a connection builds.  A list of numbers of a
  \<open>SEARCH\<close> response is a list, and the flags of a \<open>FETCH\<close> response are the set of those it names.
\<close>

datatype ie_status = IE_ST_OK | IE_ST_NO | IE_ST_BAD | IE_ST_PREAUTH | IE_ST_BYE

datatype ie_flag = IE_FLAG_ANSWERED | IE_FLAG_FLAGGED | IE_FLAG_DELETED | IE_FLAG_SEEN | IE_FLAG_DRAFT

datatype ie_st_code =
    IE_ST_CODE_READ_ONLY | IE_ST_CODE_READ_WRITE | IE_ST_CODE_UIDNEXT u32 | IE_ST_CODE_UIDVLD u32
  | IE_ST_CODE_UNSEEN u32 | IE_ST_CODE_PERMFLAGS "ie_flag list"

record ie_st_resp =
  st_tag :: "string option"
  st_status :: ie_status
  st_code :: "ie_st_code option"
  st_text :: string

datatype imap_resp =
    IMAP_RESP_FETCH u32 msg_flags "u32 option"
  | IMAP_RESP_EXPUNGE u32
  | IMAP_RESP_EXISTS u32
  | IMAP_RESP_RECENT u32
  | IMAP_RESP_FLAGS "ie_flag list"
  | IMAP_RESP_STATUS_TYPE ie_st_resp
  | IMAP_RESP_SEARCH "u32 list"
  | IMAP_RESP_PLUS string

type_synonym builder = "imap_resp \<Rightarrow> derr_type"

definition emit :: "builder \<Rightarrow> imap_resp \<Rightarrow> imap_resp list \<Rightarrow> derr_type \<times> imap_resp list" where
  "emit build r out = (if build r \<noteq> E_NONE then (build r, out) else (E_NONE, out @ [r]))"

section \<open>State\<close>

datatype update =
    UPDATE_NEW msg_view
  | UPDATE_META msg_view
  | UPDATE_EXPUNGE msg_expunge
  | UPDATE_SYNC "ie_st_resp option"

record exp_flags =
  x_uid_dn :: u32
  x_flags :: msg_flags

record gathered =
  g_addr :: nat
  g_uid_dn :: u32

type_synonym gtree = "(gathered, u32) jsw_atree"

text \<open>\<open>g_count\<close> counts the allocations of \<open>gathered_t\<close> structures; it gives each of them an address of its own.\<close>

record gather =
  g_news :: gtree
  g_metas :: gtree
  g_expunges :: gtree
  g_updates_to_free :: "update list"
  g_count :: nat

record dn =
  dn_m :: bool
  dn_examine :: bool
  dn_views :: views
  dn_pending_updates :: "update list"
  store_started :: bool
  store_synced :: bool
  store_uid_mode :: bool
  store_silent :: bool
  store_tag :: "string option"
  store_tree :: "(exp_flags, u32) jsw_atree"
  expunge_started :: bool
  expunge_synced :: bool
  expunge_tag :: "string option"
  copy_started :: bool
  copy_synced :: bool
  copy_tag :: "string option"
  copy_uid_mode :: bool
  disconnect_started :: bool
  disconnect_synced :: bool
  fetch_started :: bool
  fetch_synced :: bool
  idle_tag :: "string option"
  dn_schedules :: nat

text \<open>
  \<open>dn_m\<close> says that the pointer to the mailbox is set; \<open>dn_schedules\<close> counts the calls of \<open>cb->schedule\<close>.  Of the state of
  a \<open>FETCH\<close>, which is not modelled, the two flags that \<open>dn_imaildir_update\<close> looks at are kept.
\<close>

definition dn_init :: "bool \<Rightarrow> dn" where
  "dn_init examine =
     \<lparr>dn_m = True, dn_examine = examine, dn_views = jsw_ainit jsw_cmp_uint v_uid_dn, dn_pending_updates = [],
      store_started = False, store_synced = False, store_uid_mode = False, store_silent = False, store_tag = None,
      store_tree = jsw_ainit jsw_cmp_uint x_uid_dn, expunge_started = False, expunge_synced = False, expunge_tag = None,
      copy_started = False, copy_synced = False, copy_tag = None, copy_uid_mode = False, disconnect_started = False,
      disconnect_synced = False, fetch_started = False, fetch_synced = False, idle_tag = None, dn_schedules = 0\<rparr>"

definition healthcheck :: "dn \<Rightarrow> derr_type" where
  "healthcheck dn = (if dn_m dn then E_NONE else E_IMAILDIR)"

section \<open>Single responses\<close>

definition send_flags_update :: "builder \<Rightarrow> u32 \<Rightarrow> msg_flags \<Rightarrow> u32 option \<Rightarrow> imap_resp list \<Rightarrow> derr_type \<times> imap_resp list" where
  "send_flags_update build seq_num fl uid out = emit build (IMAP_RESP_FETCH seq_num fl uid) out"

definition send_expunge :: "builder \<Rightarrow> u32 \<Rightarrow> imap_resp list \<Rightarrow> derr_type \<times> imap_resp list" where
  "send_expunge build seq_num out = emit build (IMAP_RESP_EXPUNGE seq_num) out"

definition send_exists_resp :: "builder \<Rightarrow> dn \<Rightarrow> imap_resp list \<Rightarrow> derr_type \<times> imap_resp list" where
  "send_exists_resp build dn out =
     (if asize (dn_views dn) > 2 ^ 32 - 1 then (E_VALUE, out) else emit build (IMAP_RESP_EXISTS (of_nat (asize (dn_views dn)))) out)"

definition msg_flags_eq :: "msg_flags \<Rightarrow> msg_flags \<Rightarrow> bool" where
  "msg_flags_eq a b \<longleftrightarrow> answered a = answered b \<and> flagged a = flagged b \<and> seen a = seen b \<and> draft a = draft b \<and> deleted a = deleted b"

section \<open>Gathering\<close>

definition gather_prep :: gather where
  "gather_prep = \<lparr>g_news = jsw_ainit jsw_cmp_uint g_uid_dn, g_metas = jsw_ainit jsw_cmp_uint g_uid_dn,
     g_expunges = jsw_ainit jsw_cmp_uint g_uid_dn, g_updates_to_free = [], g_count = 0\<rparr>"

text \<open>The check after the allocation looks at the out parameter, which is never null.\<close>

definition gathered_new :: "allocs \<Rightarrow> u32 \<Rightarrow> gather \<Rightarrow> (gathered \<times> gather) option" where
  "gathered_new mem uid g =
     (if mem (g_count g) then Some (\<lparr>g_addr = g_count g, g_uid_dn = uid\<rparr>, g\<lparr>g_count := g_count g + 1\<rparr>) else None)"

definition gather_update_new :: "allocs \<Rightarrow> msg_view \<Rightarrow> dn \<times> gather \<Rightarrow> (dn \<times> gather) option" where
  "gather_update_new mem view = (\<lambda>(dn, g). do {
     (x, g) \<leftarrow> gathered_new mem (v_uid_dn view) g;
     Some (dn\<lparr>dn_views := jsw_ainsert (dn_views dn) view\<rparr>, g\<lparr>g_news := jsw_ainsert (g_news g) x\<rparr>) })"

definition gather_update_meta :: "allocs \<Rightarrow> msg_view \<Rightarrow> dn \<times> gather \<Rightarrow> (dn \<times> gather) option" where
  "gather_update_meta mem view = (\<lambda>(dn, g).
     (case jsw_aerase (dn_views dn) (v_uid_dn view) of
        (None, _) \<Rightarrow> Some (dn, g)
      | (Some _, views) \<Rightarrow> do {
          g \<leftarrow> (if fst (jsw_afind (g_metas g) (v_uid_dn view)) \<noteq> None then Some g
                else do { (x, g) \<leftarrow> gathered_new mem (v_uid_dn view) g; Some (g\<lparr>g_metas := jsw_ainsert (g_metas g) x\<rparr>) });
          Some (dn\<lparr>dn_views := jsw_ainsert views view\<rparr>, g) }))"

definition gather_update_expunge :: "allocs \<Rightarrow> msg_expunge \<Rightarrow> dn \<times> gather \<Rightarrow> (dn \<times> gather) option" where
  "gather_update_expunge mem ex = (\<lambda>(dn, g). do {
     (x, g) \<leftarrow> gathered_new mem (euid_dn ex) g;
     Some (dn, g\<lparr>g_expunges := jsw_ainsert (g_expunges g) x, g_updates_to_free := g_updates_to_free g @ [UPDATE_EXPUNGE ex]\<rparr>) })"

text \<open>
  The loop over the pending updates: those that stay are collected in \<open>kept\<close>.  \<open>want\<close> says that the caller
  expects an \<open>UPDATE_SYNC\<close>, up to which updates are taken.
\<close>

fun gather_loop :: "allocs \<Rightarrow> bool \<Rightarrow> bool \<Rightarrow> update list \<Rightarrow> update list \<Rightarrow> dn \<times> gather \<Rightarrow>
    (derr_type \<times> ie_st_resp option \<times> dn \<times> gather) option" where
  "gather_loop mem allow want kept [] (dn, g) =
     Some (if want then E_INTERNAL else E_NONE, None, dn\<lparr>dn_pending_updates := rev kept\<rparr>, g)"
| "gather_loop mem allow want kept (UPDATE_NEW view # us) dg = do {
     dg \<leftarrow> gather_update_new mem view dg; gather_loop mem allow want kept us dg }"
| "gather_loop mem allow want kept (UPDATE_META view # us) dg = do {
     dg \<leftarrow> gather_update_meta mem view dg; gather_loop mem allow want kept us dg }"
| "gather_loop mem allow want kept (UPDATE_EXPUNGE ex # us) dg =
     (if \<not> allow then gather_loop mem allow want (UPDATE_EXPUNGE ex # kept) us dg
      else do { dg \<leftarrow> gather_update_expunge mem ex dg; gather_loop mem allow want kept us dg })"
| "gather_loop mem allow want kept (UPDATE_SYNC st # us) (dn, g) =
     Some (if want then (E_NONE, st, dn\<lparr>dn_pending_updates := rev kept @ us\<rparr>, g)
           else (E_INTERNAL, None, dn\<lparr>dn_pending_updates := rev kept @ UPDATE_SYNC st # us\<rparr>, g))"

definition gather_updates_dont_send :: "allocs \<Rightarrow> bool \<Rightarrow> bool \<Rightarrow> dn \<Rightarrow> gather \<Rightarrow>
    (derr_type \<times> ie_st_resp option \<times> dn \<times> gather) option" where
  "gather_updates_dont_send mem allow want dn g = do {
     (e, st, dn, g) \<leftarrow> gather_loop mem allow want [] (dn_pending_updates dn) (dn, g);
     Some (if e \<noteq> E_NONE then (e, None, dn, gather_prep) else (e, st, dn, g)) }"

section \<open>Responses for what was gathered\<close>

text \<open>The two loops over all nodes of a tree, in both directions.\<close>

fun collect_prev :: "nat \<Rightarrow> 'a option \<times> 'a jsw_atrav \<Rightarrow> 'a list" where
  "collect_prev fuel (None, trav) = []"
| "collect_prev 0 (Some x, trav) = []"
| "collect_prev (Suc fuel) (Some x, trav) = x # collect_prev fuel (jsw_atprev trav)"

definition in_order :: "('a, 'k) jsw_atree \<Rightarrow> 'a list" where
  "in_order t = collect (asize t) (jsw_atfirst t)"

definition in_reverse :: "('a, 'k) jsw_atree \<Rightarrow> 'a list" where
  "in_reverse t = collect_prev (asize t) (jsw_atlast t)"

definition forget :: "gather \<Rightarrow> gathered \<Rightarrow> gather" where
  "forget g x = g\<lparr>g_news := snd (jsw_aerase (g_news g) (g_uid_dn x)), g_metas := snd (jsw_aerase (g_metas g) (g_uid_dn x))\<rparr>"

definition forget_expunged :: "gather \<Rightarrow> gather" where
  "forget_expunged g = foldl forget g (in_order (g_expunges g))"

definition forget_meta :: "gather \<Rightarrow> gathered \<Rightarrow> gather" where
  "forget_meta g x = g\<lparr>g_metas := snd (jsw_aerase (g_metas g) (g_uid_dn x))\<rparr>"

definition forget_new :: "gather \<Rightarrow> gather" where
  "forget_new g = foldl forget_meta g (in_order (g_news g))"

text \<open>What the responses to \<open>STORE\<close> say about one message.\<close>

definition seq_flags :: "builder \<Rightarrow> nat \<Rightarrow> msg_view \<Rightarrow> u32 option \<Rightarrow> imap_resp list \<Rightarrow> derr_type \<times> imap_resp list" where
  "seq_flags build index view uid out =
     (case index_to_seq_num index of (e, seq_num) \<Rightarrow>
        if e \<noteq> E_NONE then (e, out) else send_flags_update build seq_num (v_flags view) uid out)"

definition send_store_resp_noupdate :: "builder \<Rightarrow> dn \<Rightarrow> exp_flags \<Rightarrow> imap_resp list \<Rightarrow> derr_type \<times> imap_resp list" where
  "send_store_resp_noupdate build dn x out =
     (case jsw_afind (dn_views dn) (x_uid_dn x) of
        (None, _) \<Rightarrow> (E_INTERNAL, out)
      | (Some view, index) \<Rightarrow>
          if \<not> msg_flags_eq (x_flags x) (v_flags view) then (E_NONE, out)
          else if \<not> store_silent dn then seq_flags build index view (if store_uid_mode dn then Some (x_uid_dn x) else None) out
          else (E_NONE, out))"

definition send_store_resp_noexp :: "builder \<Rightarrow> dn \<Rightarrow> u32 \<Rightarrow> imap_resp list \<Rightarrow> derr_type \<times> imap_resp list" where
  "send_store_resp_noexp build dn uid out =
     (case jsw_afind (dn_views dn) uid of
        (None, _) \<Rightarrow> (E_INTERNAL, out)
      | (Some view, index) \<Rightarrow> seq_flags build index view (if store_uid_mode dn then Some uid else None) out)"

definition send_store_resp_expupdate :: "builder \<Rightarrow> dn \<Rightarrow> exp_flags \<Rightarrow> imap_resp list \<Rightarrow> derr_type \<times> imap_resp list" where
  "send_store_resp_expupdate build dn x out =
     (case jsw_afind (dn_views dn) (x_uid_dn x) of
        (None, _) \<Rightarrow> (E_INTERNAL, out)
      | (Some view, index) \<Rightarrow>
          (case index_to_seq_num index of (e, seq_num) \<Rightarrow>
             if e \<noteq> E_NONE then (e, out)
             else let uid = (if store_uid_mode dn then Some (x_uid_dn x) else None) in
               if \<not> msg_flags_eq (x_flags x) (v_flags view) then send_flags_update build seq_num (v_flags view) uid out
               else if \<not> store_silent dn then send_flags_update build seq_num (v_flags view) uid out
               else (E_NONE, out)))"

fun store_fetch_loop :: "builder \<Rightarrow> dn \<Rightarrow> exp_flags list \<Rightarrow> gathered list \<Rightarrow> imap_resp list \<Rightarrow> derr_type \<times> imap_resp list" where
  "store_fetch_loop build dn [] [] out = (E_NONE, out)"
| "store_fetch_loop build dn [] (g # gs) out =
     ifok (send_store_resp_noexp build dn (g_uid_dn g) out) (store_fetch_loop build dn [] gs) id"
| "store_fetch_loop build dn (x # xs) [] out =
     ifok (send_store_resp_noupdate build dn x out) (store_fetch_loop build dn xs []) id"
| "store_fetch_loop build dn (x # xs) (g # gs) out =
     (if x_uid_dn x > g_uid_dn g
      then ifok (send_store_resp_noexp build dn (g_uid_dn g) out) (store_fetch_loop build dn (x # xs) gs) id
      else if g_uid_dn g > x_uid_dn x
      then ifok (send_store_resp_noupdate build dn x out) (store_fetch_loop build dn xs (g # gs)) id
      else ifok (send_store_resp_expupdate build dn x out) (store_fetch_loop build dn xs gs) id)"

definition send_store_fetch_resps :: "builder \<Rightarrow> dn \<Rightarrow> gather \<Rightarrow> imap_resp list \<Rightarrow> derr_type \<times> imap_resp list" where
  "send_store_fetch_resps build dn g out =
     (case store_fetch_loop build dn (in_order (store_tree dn)) (in_order (g_metas g)) [] of
        (e, temp) \<Rightarrow> if e \<noteq> E_NONE then (e, out) else (E_NONE, out @ temp))"

fun send_metas :: "builder \<Rightarrow> dn \<Rightarrow> bool \<Rightarrow> gathered list \<Rightarrow> imap_resp list \<Rightarrow> derr_type \<times> imap_resp list" where
  "send_metas build dn uid_mode [] out = (E_NONE, out)"
| "send_metas build dn uid_mode (g # gs) out =
     (case jsw_afind (dn_views dn) (g_uid_dn g) of
        (None, _) \<Rightarrow> (E_INTERNAL, out)
      | (Some view, index) \<Rightarrow>
          ifok (seq_flags build index view (if uid_mode then Some (g_uid_dn g) else None) out) (send_metas build dn uid_mode gs) id)"

fun send_expunges :: "builder \<Rightarrow> gathered list \<Rightarrow> dn \<times> imap_resp list \<Rightarrow> derr_type \<times> dn \<times> imap_resp list" where
  "send_expunges build [] (dn, out) = (E_NONE, dn, out)"
| "send_expunges build (g # gs) (dn, out) =
     (case jsw_afind (dn_views dn) (g_uid_dn g) of
        (None, _) \<Rightarrow> (E_INTERNAL, dn, out)
      | (Some _, index) \<Rightarrow>
          let dn = dn\<lparr>dn_views := snd (jsw_aerase (dn_views dn) (g_uid_dn g))\<rparr> in
          (case index_to_seq_num index of (e, seq_num) \<Rightarrow>
             if e \<noteq> E_NONE then (e, dn, out)
             else (case send_expunge build seq_num out of (e, out) \<Rightarrow>
               if e \<noteq> E_NONE then (e, dn, out) else send_expunges build gs (dn, out))))"

definition gather_send_responses :: "builder \<Rightarrow> bool \<Rightarrow> bool \<Rightarrow> dn \<Rightarrow> gather \<Rightarrow> imap_resp list \<Rightarrow> derr_type \<times> dn \<times> imap_resp list" where
  "gather_send_responses build uid_mode for_store dn g out =
     (let g = forget_new (forget_expunged g) in
      case (if for_store then send_store_fetch_resps build dn g [] else send_metas build dn uid_mode (in_order (g_metas g)) []) of
        (e, temp) \<Rightarrow> if e \<noteq> E_NONE then (e, dn, out)
        else (case send_expunges build (in_reverse (g_expunges g)) (dn, temp) of
          (e, dn, temp) \<Rightarrow> if e \<noteq> E_NONE then (e, dn, out)
          else (case (if asize (g_news g) \<noteq> 0 then send_exists_resp build dn temp else (E_NONE, temp)) of
            (e, temp) \<Rightarrow> if e \<noteq> E_NONE then (e, dn, out) else (E_NONE, dn, out @ temp))))"

definition dn_gather_updates :: "allocs \<Rightarrow> builder \<Rightarrow> bool \<Rightarrow> bool \<Rightarrow> bool \<Rightarrow> dn \<Rightarrow> imap_resp list \<Rightarrow>
    (derr_type \<times> ie_st_resp option \<times> dn \<times> imap_resp list) option" where
  "dn_gather_updates mem build allow_expunge uid_mode want dn out =
     (if healthcheck dn \<noteq> E_NONE then Some (healthcheck dn, None, dn, out)
      else do {
        (e, st, dn, g) \<leftarrow> gather_updates_dont_send mem allow_expunge want dn gather_prep;
        if e \<noteq> E_NONE then Some (e, None, dn, out)
        else case gather_send_responses build uid_mode False dn g out of
          (e, dn, out) \<Rightarrow> Some (e, if e \<noteq> E_NONE then None else st, dn, out) })"

section \<open>The interface to the mailbox\<close>

definition dn_imaildir_update :: "dn \<Rightarrow> update \<Rightarrow> dn" where
  "dn_imaildir_update dn u =
     (let dn = dn\<lparr>dn_pending_updates := dn_pending_updates dn @ [u]\<rparr> in
      case u of
        UPDATE_SYNC _ \<Rightarrow>
          (let dn = (if store_started dn then dn\<lparr>store_synced := True\<rparr>
                     else if expunge_started dn then dn\<lparr>expunge_synced := True\<rparr>
                     else if copy_started dn then dn\<lparr>copy_synced := True\<rparr>
                     else if disconnect_started dn then dn\<lparr>disconnect_synced := True\<rparr>
                     else if fetch_started dn then dn\<lparr>fetch_synced := True\<rparr>
                     else dn)
           in dn\<lparr>dn_schedules := dn_schedules dn + 1\<rparr>)
      | _ \<Rightarrow> if idle_tag dn \<noteq> None then dn\<lparr>dn_schedules := dn_schedules dn + 1\<rparr> else dn)"

definition dn_free_views :: "dn \<Rightarrow> dn" where
  "dn_free_views dn = dn\<lparr>dn_views := jsw_ainit jsw_cmp_uint v_uid_dn, dn_pending_updates := [], dn_m := False\<rparr>"

definition dn_imaildir_failed :: "dn \<Rightarrow> dn" where
  "dn_imaildir_failed dn = (let dn = dn_free_views dn in dn\<lparr>dn_schedules := dn_schedules dn + 1\<rparr>)"

section \<open>Trees with unique keys\<close>

definition utree_ok :: "('a \<Rightarrow> u32) \<Rightarrow> ('a, u32) jsw_atree \<Rightarrow> bool" where
  "utree_ok get t \<longleftrightarrow> atree_ok jsw_cmp_uint (\<lambda>_. True) t \<and> aget t = get \<and> distinct (map get (nodes t))"

lemma keyed_unique:
  fixes get :: "'a \<Rightarrow> 'k :: linorder"
  assumes "sorted (map get xs)" "distinct (map get xs)" "sorted (map get ys)" "distinct (map get ys)" "set xs = set ys"
  shows "xs = ys"
proof -
  have "map get xs = map get ys" using assms by (intro sorted_distinct_set_unique) auto
  moreover have "inj_on get (set xs \<union> set ys)" using assms(2,5) by (simp add: distinct_map)
  ultimately show ?thesis by (rule map_inj_on)
qed

lemma utree_sorted: "utree_ok get t \<Longrightarrow> sorted (map get (nodes t))"
  by (auto simp: utree_ok_def atree_ok_def ordered_def jsw_cmp_uint_le sorted_wrt_map)

lemma utree_distinct: "utree_ok get t \<Longrightarrow> distinct (map get (nodes t))" "utree_ok get t \<Longrightarrow> distinct (nodes t)"
  by (auto simp: utree_ok_def distinct_map)

lemma utree_size: "utree_ok get t \<Longrightarrow> asize t = length (nodes t)"
  by (simp add: utree_ok_def atree_ok_def)

lemma utree_init: "utree_ok get (jsw_ainit jsw_cmp_uint get) \<and> nodes (jsw_ainit jsw_cmp_uint get) = []"
  using uint_keys.ainit_ok by (simp add: utree_ok_def jsw_ainit_def nodes_def)

lemma utree_find:
  assumes "utree_ok get t"
  shows "case jsw_afind t u of (Some x, i) \<Rightarrow> i < length (nodes t) \<and> nodes t ! i = x \<and> get x = u
    | (None, _) \<Rightarrow> u \<notin> get ` set (nodes t)"
proof -
  have t: "acmp t = jsw_cmp_uint" "counted (root t)" "ordered jsw_cmp_uint (aget t) (inorder (root t))" "aget t = get"
    using assms by (auto simp: utree_ok_def atree_ok_def nodes_def)
  have f: "jsw_afind t u = find_loop jsw_cmp_uint get u 0 (root t)" by (simp add: jsw_afind_def jsw_afind_ex_def t)
  show ?thesis using uint_keys.find_loop_spec [OF t(2,3), where v = u and k = 0] unfolding t(4)
    by (auto simp: f nodes_def split: prod.splits option.splits)
qed

lemma utree_found:
  assumes "utree_ok get t" "u \<in> get ` set (nodes t)"
  obtains x i where "jsw_afind t u = (Some x, i)" "i < length (nodes t)" "nodes t ! i = x" "get x = u"
  using utree_find [OF assms(1), of u] assms(2) by (cases "jsw_afind t u") (auto split: option.splits)

lemma utree_missing:
  assumes "utree_ok get t" "u \<notin> get ` set (nodes t)"
  shows "fst (jsw_afind t u) = None"
proof (cases "jsw_afind t u")
  case (Pair x i)
  show ?thesis
  proof (cases x)
    case (Some y)
    then have "y \<in> set (nodes t)" "get y = u" using utree_find [OF assms(1), of u] Pair by auto
    then show ?thesis using assms(2) by blast
  qed (simp add: Pair)
qed

lemma utree_insert:
  assumes t: "utree_ok get t" and x: "get x \<notin> get ` set (nodes t)"
  shows "utree_ok get (jsw_ainsert t x)" "set (nodes (jsw_ainsert t x)) = insert x (set (nodes t))"
proof -
  have ok: "atree_ok jsw_cmp_uint (\<lambda>_. True) t" "aget t = get" using t by (auto simp: utree_ok_def)
  let ?P = "\<lambda>y. jsw_cmp_uint (get y) (get x) < 0"
  have n: "nodes (jsw_ainsert t x) = takeWhile ?P (nodes t) @ x # dropWhile ?P (nodes t)" using uint_keys.ainsert_ok(2) [OF ok(1)] ok(2) by simp
  have "mset (nodes (jsw_ainsert t x)) = mset (x # nodes t)"
    unfolding n by (metis mset.simps(2) mset_append takeWhile_dropWhile_id union_mset_add_mset_right)
  then have m: "set (nodes (jsw_ainsert t x)) = insert x (set (nodes t))" "distinct (map get (nodes (jsw_ainsert t x))) = distinct (map get (x # nodes t))"
    by (metis list.simps(15) mset_eq_setD) (metis \<open>mset (nodes (jsw_ainsert t x)) = mset (x # nodes t)\<close> mset_eq_imp_distinct_iff mset_map)
  then show "utree_ok get (jsw_ainsert t x)" using uint_keys.ainsert_ok(1) [OF ok(1)] t x by (simp add: utree_ok_def jsw_ainsert_def)
  show "set (nodes (jsw_ainsert t x)) = insert x (set (nodes t))" by (rule m)
qed

lemma utree_insert_last:
  assumes "utree_ok get t" "\<forall>y \<in> set (nodes t). get y < get x"
  shows "nodes (jsw_ainsert t x) = nodes t @ [x]"
proof (rule keyed_unique)
  have x: "get x \<notin> get ` set (nodes t)" using assms(2) by auto
  note i = utree_insert [OF assms(1) x]
  show "sorted (map get (nodes (jsw_ainsert t x)))" "distinct (map get (nodes (jsw_ainsert t x)))" using utree_sorted utree_distinct i(1) by blast+
  show "sorted (map get (nodes t @ [x]))" "distinct (map get (nodes t @ [x]))" using utree_sorted [OF assms(1)] utree_distinct(1) [OF assms(1)] assms(2) x
    by (auto simp: sorted_append)
  show "set (nodes (jsw_ainsert t x)) = set (nodes t @ [x])" using i(2) by simp
qed

lemma utree_erase:
  assumes t: "utree_ok get t"
  shows "utree_ok get (snd (jsw_aerase t u)) \<and> nodes (snd (jsw_aerase t u)) = filter (\<lambda>x. get x \<noteq> u) (nodes t) \<and>
    (fst (jsw_aerase t u) = None \<longleftrightarrow> u \<notin> get ` set (nodes t))"
proof (cases "jsw_aerase t u")
  case (Pair d t')
  have ok: "atree_ok jsw_cmp_uint (\<lambda>_. True) t" "aget t = get" "distinct (map get (nodes t))" using t by (auto simp: utree_ok_def)
  show ?thesis
  proof (cases d)
    case None
    then have "t' = t" "u \<notin> get ` set (nodes t)" using uint_keys.aerase_ok [OF ok(1), of u] Pair ok(2) by auto
    moreover have "filter (\<lambda>x. get x \<noteq> u) (nodes t) = nodes t" using calculation(2) by (auto simp: filter_id_conv)
    ultimately show ?thesis using Pair None t by simp
  next
    case (Some y)
    then obtain xs ys where y: "atree_ok jsw_cmp_uint (\<lambda>_. True) t'" "aget t' = get" "get y = u" "nodes t = xs @ y # ys" "nodes t' = xs @ ys"
      using uint_keys.aerase_ok [OF ok(1), of u] Pair ok(2) by auto
    have "u \<notin> get ` set xs" "u \<notin> get ` set ys" using ok(3) y(3,4) by auto
    then have "filter (\<lambda>x. get x \<noteq> u) xs = xs" "filter (\<lambda>x. get x \<noteq> u) ys = ys" by (auto simp: filter_id_conv)
    then show ?thesis using Pair Some y ok(3) by (auto simp: utree_ok_def)
  qed
qed

lemma utree_replace:
  assumes t: "utree_ok get t" and u: "get x \<in> get ` set (nodes t)"
  shows "utree_ok get (jsw_ainsert (snd (jsw_aerase t (get x))) x)"
    "nodes (jsw_ainsert (snd (jsw_aerase t (get x))) x) = map (\<lambda>y. if get y = get x then x else y) (nodes t)"
proof -
  let ?e = "snd (jsw_aerase t (get x))" and ?f = "\<lambda>y. if get y = get x then x else y"
  note e = utree_erase [OF t, of "get x"]
  have f: "get x \<notin> get ` set (nodes ?e)" using e by auto
  note i = utree_insert [OF conjunct1 [OF e] f]
  show "utree_ok get (jsw_ainsert ?e x)" by (rule i)
  have m: "map get (map ?f (nodes t)) = map get (nodes t)" by simp
  show "nodes (jsw_ainsert ?e x) = map ?f (nodes t)"
  proof (rule keyed_unique)
    show "sorted (map get (nodes (jsw_ainsert ?e x)))" "distinct (map get (nodes (jsw_ainsert ?e x)))" using utree_sorted utree_distinct i(1) by blast+
    show "sorted (map get (map ?f (nodes t)))" "distinct (map get (map ?f (nodes t)))" unfolding m using utree_sorted utree_distinct t by blast+
    have "set (nodes (jsw_ainsert ?e x)) = insert x {y \<in> set (nodes t). get y \<noteq> get x}" using i(2) e by auto
    also have "\<dots> = ?f ` set (nodes t)" using u by (auto simp: image_iff)
    finally show "set (nodes (jsw_ainsert ?e x)) = set (map ?f (nodes t))" by simp
  qed
qed

lemma in_order_nodes: "utree_ok get t \<Longrightarrow> in_order t = nodes t"
  unfolding in_order_def by (rule collect_nodes) (simp_all add: utree_distinct utree_size)

lemma collect_prev_stands_at:
  "stands_at False t trav pre x post \<Longrightarrow> distinct (inorder t) \<Longrightarrow> length post < fuel \<Longrightarrow> collect_prev fuel (Some x, trav) = x # post"
proof (induction post arbitrary: pre x trav fuel)
  case Nil
  then obtain f where "fuel = Suc f" by (cases fuel) auto
  with Nil move_stands_at [of False t trav pre x "[]"] show ?case
    by (cases "collect_prev f (jsw_atprev trav)") (auto simp: toward_inorder jsw_atprev_def)
next
  case (Cons y post)
  then obtain f where f: "fuel = Suc f" by (cases fuel) auto
  from Cons.prems move_stands_at [of False t trav pre x "y # post"]
  have "stands_at False t (move False trav) (pre @ [x]) y post" by (simp add: toward_inorder)
  with Cons f show ?case by (simp add: jsw_atprev_def stands_at_elem)
qed

lemma in_reverse_nodes:
  assumes "utree_ok get t"
  shows "in_reverse t = rev (nodes t)"
proof (cases "root t")
  case ANil
  then show ?thesis by (simp add: in_reverse_def nodes_def jsw_atlast_def start_def Let_def)
next
  case (ANode lv c l x r)
  then obtain y post where y: "stands_at False (root t) (start True (root t)) [] y post" "y # post = rev (nodes t)"
    using start_stands_at [of "root t" False] by (auto simp: nodes_def toward_inorder)
  have "jsw_atlast t = (Some y, start True (root t))" using y(1) by (simp add: jsw_atlast_def Let_def stands_at_elem)
  moreover have "length post < asize t" using y(2) utree_size [OF assms] by (metis Suc_le_eq length_Cons length_rev order_refl)
  ultimately show ?thesis using collect_prev_stands_at [OF y(1), of "asize t"] utree_distinct(2) [OF assms] y(2)
    by (simp add: in_reverse_def nodes_def)
qed

end
