(* ===== verification/Dn_Mirror.thy ===== *)
theory Dn_Mirror
  imports Dn_Update
begin

text \<open>
  What a client believes of its mailbox, from the untagged responses it has received, and that it
  stays right: after every batch of responses the client's mailbox is the view of its connection.
\<close>

section \<open>The client\<close>

text \<open>For every sequence number, the UID and the flags, where it has been told.\<close>

type_synonym client = "(u32 option \<times> msg_flags option) list"

fun hear :: "imap_resp \<Rightarrow> client \<Rightarrow> client option" where
  "hear (IMAP_RESP_FETCH n fl uid) c =
     (if 0 < n \<and> unat n \<le> length c
      then Some (c[unat n - 1 := (if uid = None then fst (c ! (unat n - 1)) else uid, Some fl)]) else None)"
| "hear (IMAP_RESP_EXPUNGE n) c = (if 0 < n \<and> unat n \<le> length c then Some (take (unat n - 1) c @ drop (unat n) c) else None)"
| "hear (IMAP_RESP_EXISTS n) c = (if length c \<le> unat n then Some (c @ replicate (unat n - length c) (None, None)) else None)"
| "hear _ c = Some c"

fun hear_all :: "imap_resp list \<Rightarrow> client \<Rightarrow> client option" where
  "hear_all [] c = Some c"
| "hear_all (r # rs) c = Option.bind (hear r c) (hear_all rs)"

text \<open>\<open>None\<close> is a response about a message the client has never heard of, or a message count that shrinks.\<close>

definition right_uid :: "u32 option \<times> msg_flags option \<Rightarrow> msg_view \<Rightarrow> bool" where
  "right_uid p y \<longleftrightarrow> fst p \<in> {None, Some (v_uid_dn y)}"

definition right :: "u32 option \<times> msg_flags option \<Rightarrow> msg_view \<Rightarrow> bool" where
  "right p y \<longleftrightarrow> right_uid p y \<and> snd p \<in> {None, Some (v_flags y)}"

definition mirrors :: "client \<Rightarrow> views \<Rightarrow> bool" where
  "mirrors c views \<longleftrightarrow> list_all2 right c (nodes views)"

section \<open>The updates\<close>

fun is_sync :: "update \<Rightarrow> bool" where
  "is_sync (UPDATE_SYNC _) = True"
| "is_sync _ = False"

fun new_uids :: "update list \<Rightarrow> u32 list" where
  "new_uids [] = []"
| "new_uids (UPDATE_NEW v # us) = v_uid_dn v # new_uids us"
| "new_uids (_ # us) = new_uids us"

fun expunged_uids :: "update list \<Rightarrow> u32 list" where
  "expunged_uids [] = []"
| "expunged_uids (UPDATE_EXPUNGE x # us) = euid_dn x # expunged_uids us"
| "expunged_uids (_ # us) = expunged_uids us"

text \<open>What the updates make of the messages, apart from removing them.\<close>

fun absorb :: "update list \<Rightarrow> msg_view list \<Rightarrow> msg_view list" where
  "absorb [] vs = vs"
| "absorb (UPDATE_NEW v # us) vs = absorb us (vs @ [v])"
| "absorb (UPDATE_META v # us) vs = absorb us (map (\<lambda>y. if v_uid_dn y = v_uid_dn v then v else y) vs)"
| "absorb (_ # us) vs = absorb us vs"

definition batch :: "update list \<Rightarrow> update list" where
  "batch us = takeWhile (\<lambda>u. \<not> is_sync u) us"

text \<open>
  New messages have ascending UIDs above those of the view, and a message that is expunged is one the
  client has been told of, once.
\<close>

definition updates_ok :: "bool \<Rightarrow> views \<Rightarrow> update list \<Rightarrow> bool" where
  "updates_ok allow views us \<longleftrightarrow> sorted (uids views @ new_uids us) \<and> distinct (uids views @ new_uids us) \<and> 0 \<notin> set (new_uids us) \<and>
     length (uids views @ new_uids us) < 2 ^ 32 \<and>
     (allow \<longrightarrow> distinct (expunged_uids us) \<and> set (expunged_uids us) \<subseteq> set (uids views))"

definition gathered_ok :: "msg_view list \<Rightarrow> u32 list \<Rightarrow> u32 set \<Rightarrow> msg_view list \<Rightarrow> dn \<Rightarrow> gather \<Rightarrow> bool" where
  "gathered_ok vs N X ws dn g \<longleftrightarrow> utree_ok v_uid_dn (dn_views dn) \<and> nodes (dn_views dn) = ws \<and> map v_uid_dn ws = map v_uid_dn vs @ N \<and>
     utree_ok g_uid_dn (g_news g) \<and> utree_ok g_uid_dn (g_metas g) \<and> utree_ok g_uid_dn (g_expunges g) \<and>
     map g_uid_dn (nodes (g_news g)) = N \<and> g_uid_dn ` set (nodes (g_expunges g)) = X \<and> g_uid_dn ` set (nodes (g_metas g)) \<subseteq> v_uid_dn ` set ws \<and>
     (\<forall>y \<in> set ws. v_uid_dn y \<in> g_uid_dn ` set (nodes (g_metas g)) \<or> v_uid_dn y \<in> set N \<or> y \<in> set vs)"

definition same_session :: "dn \<Rightarrow> dn \<Rightarrow> bool" where
  "same_session dn dn' \<longleftrightarrow> dn' = dn\<lparr>dn_views := dn_views dn', dn_pending_updates := dn_pending_updates dn'\<rparr>"

lemma same_session_refl [simp]: "same_session dn dn"
  by (simp add: same_session_def)

lemma same_session_trans: "same_session a b \<Longrightarrow> same_session b c \<Longrightarrow> same_session a c"
  unfolding same_session_def by (metis (no_types, lifting) dn.simps(24,25) dn.surjective dn.update_convs(3,4))

lemma new_ok:
  assumes g: "gathered_ok vs N X ws dn g" and v: "\<forall>y \<in> set ws. v_uid_dn y < v_uid_dn v"
  shows "\<exists>dn' g'. gather_update_new alloc_ok v (dn, g) = Some (dn', g') \<and> gathered_ok vs (N @ [v_uid_dn v]) X (ws @ [v]) dn' g' \<and> same_session dn dn'"
proof -
  note G = g [unfolded gathered_ok_def]
  let ?x = "\<lparr>g_addr = g_count g, g_uid_dn = v_uid_dn v\<rparr>"
  have N: "set N \<subseteq> v_uid_dn ` set ws" using G by (metis Un_upper2 list.set_map set_append)
  have n: "\<forall>y \<in> set (nodes (g_news g)). g_uid_dn y < g_uid_dn ?x"
  proof
    fix y assume "y \<in> set (nodes (g_news g))"
    then have "g_uid_dn y \<in> set N" using G by (metis imageI list.set_map)
    then show "g_uid_dn y < g_uid_dn ?x" using N v by auto
  qed
  have "utree_ok v_uid_dn (dn_views dn)" "\<forall>y \<in> set (nodes (dn_views dn)). v_uid_dn y < v_uid_dn v" using G v by auto
  note V = utree_insert(1) [OF this(1)] utree_insert_last [OF this]
  have W: "utree_ok g_uid_dn (g_news g)" using G by simp
  note W' = utree_insert(1) [OF W] utree_insert_last [OF W n]
  have "v_uid_dn v \<notin> v_uid_dn ` set (nodes (dn_views dn))" "g_uid_dn ?x \<notin> g_uid_dn ` set (nodes (g_news g))" using n v G by auto
  then show ?thesis using V W' G
    by (auto simp: gather_update_new_def gathered_new_def gathered_ok_def same_session_def)
qed

lemma meta_ok:
  assumes g: "gathered_ok vs N X ws dn g"
  shows "\<exists>dn' g'. gather_update_meta alloc_ok v (dn, g) = Some (dn', g') \<and>
    gathered_ok vs N X (map (\<lambda>y. if v_uid_dn y = v_uid_dn v then v else y) ws) dn' g' \<and> same_session dn dn'"
proof -
  note G = g [unfolded gathered_ok_def]
  let ?f = "\<lambda>y. if v_uid_dn y = v_uid_dn v then v else y"
  have V: "utree_ok v_uid_dn (dn_views dn)" "nodes (dn_views dn) = ws" using G by simp_all
  note er = utree_erase [OF V(1), of "v_uid_dn v"]
  show ?thesis
  proof (cases "v_uid_dn v \<in> v_uid_dn ` set ws")
    case False
    then have "map ?f ws = ws" by (intro map_idI) (metis imageI)
    moreover have "fst (jsw_aerase (dn_views dn) (v_uid_dn v)) = None" using er False V(2) by blast
    ultimately show ?thesis using g by (cases "jsw_aerase (dn_views dn) (v_uid_dn v)") (simp add: gather_update_meta_def)
  next
    case True
    then have "fst (jsw_aerase (dn_views dn) (v_uid_dn v)) \<noteq> None" using er V(2) by blast
    then obtain d views where e: "jsw_aerase (dn_views dn) (v_uid_dn v) = (Some d, views)" by (cases "jsw_aerase (dn_views dn) (v_uid_dn v)") auto
    have R: "utree_ok v_uid_dn (jsw_ainsert views v)" "nodes (jsw_ainsert views v) = map ?f ws"
      using utree_replace [OF V(1), of v] True V(2) e by simp_all
    have W: "utree_ok g_uid_dn (g_metas g)" using G by simp
    let ?x = "\<lparr>g_addr = g_count g, g_uid_dn = v_uid_dn v\<rparr>"
    let ?M = "g_uid_dn ` set (nodes (g_metas g))"
    have mf: "map v_uid_dn (map ?f ws) = map v_uid_dn ws" by simp
    from arg_cong [OF this, of set] have sf: "v_uid_dn ` set (map ?f ws) = v_uid_dn ` set ws" by (simp only: set_map)
    show ?thesis
    proof (cases "v_uid_dn v \<in> ?M")
      case m: True
      obtain x i where "jsw_afind (g_metas g) (v_uid_dn v) = (Some x, i)" by (rule utree_found [OF W m])
      then have fd: "fst (jsw_afind (g_metas g) (v_uid_dn v)) \<noteq> None" by simp
      have "gathered_ok vs N X (map ?f ws) (dn\<lparr>dn_views := jsw_ainsert views v\<rparr>) g"
        unfolding gathered_ok_def sf mf using G R m by auto
      then show ?thesis using e fd by (auto simp: gather_update_meta_def same_session_def)
    next
      case m: False
      have fd: "fst (jsw_afind (g_metas g) (v_uid_dn v)) = None" by (rule utree_missing [OF W m])
      have "g_uid_dn ?x \<notin> ?M" using m by simp
      note I = utree_insert [OF W this]
      let ?g = "g\<lparr>g_count := g_count g + 1, g_metas := jsw_ainsert (g_metas g) ?x\<rparr>"
      have "gathered_ok vs N X (map ?f ws) (dn\<lparr>dn_views := jsw_ainsert views v\<rparr>) ?g"
        unfolding gathered_ok_def sf mf using G R I True by auto
      then show ?thesis using e fd by (auto simp: gather_update_meta_def gathered_new_def same_session_def)
    qed
  qed
qed

lemma expunge_ok:
  assumes g: "gathered_ok vs N X ws dn g" and x: "euid_dn x \<notin> X"
  shows "\<exists>dn' g'. gather_update_expunge alloc_ok x (dn, g) = Some (dn', g') \<and> gathered_ok vs N (insert (euid_dn x) X) ws dn' g' \<and> same_session dn dn'"
proof -
  note G = g [unfolded gathered_ok_def]
  let ?x = "\<lparr>g_addr = g_count g, g_uid_dn = euid_dn x\<rparr>"
  have "utree_ok g_uid_dn (g_expunges g)" "g_uid_dn ?x \<notin> g_uid_dn ` set (nodes (g_expunges g))" using G x by auto
  note I = utree_insert [OF this]
  show ?thesis using G I by (auto simp: gather_update_expunge_def gathered_new_def gathered_ok_def)
qed


text \<open>Which updates stay behind, and the status the batch ends with.\<close>

fun is_expunge :: "update \<Rightarrow> bool" where
  "is_expunge (UPDATE_EXPUNGE _) = True"
| "is_expunge _ = False"

definition left_over :: "bool \<Rightarrow> update list \<Rightarrow> update list" where
  "left_over allow us = (if allow then [] else filter is_expunge (batch us)) @ drop (Suc (length (batch us))) us"

fun sync_status :: "update list \<Rightarrow> ie_st_resp option" where
  "sync_status [] = None"
| "sync_status (UPDATE_SYNC st # _) = st"
| "sync_status (_ # us) = sync_status us"

lemma batch_simps [simp]:
  "batch [] = []" "batch (UPDATE_SYNC st # us) = []" "\<not> is_sync u \<Longrightarrow> batch (u # us) = u # batch us"
  by (simp_all add: batch_def)

definition removable :: "bool \<Rightarrow> update list \<Rightarrow> u32 set" where
  "removable allow us = (if allow then set (expunged_uids us) else {})"

lemma gather_loop_ok:
  assumes "gathered_ok vs N X ws dn g" "sorted (map v_uid_dn ws @ new_uids (batch us))" "distinct (map v_uid_dn ws @ new_uids (batch us))"
    "allow \<longrightarrow> distinct (expunged_uids (batch us)) \<and> set (expunged_uids (batch us)) \<inter> X = {}" "want = (\<exists>u \<in> set us. is_sync u)"
  shows "\<exists>dn' g'. gather_loop alloc_ok allow want kept us (dn, g) = Some (E_NONE, sync_status us, dn', g') \<and>
    gathered_ok vs (N @ new_uids (batch us)) (X \<union> removable allow (batch us)) (absorb (batch us) ws) dn' g' \<and>
    dn_pending_updates dn' = rev kept @ left_over allow us \<and> same_session dn dn'"
  using assms
proof (induction us arbitrary: N X ws dn g kept)
  case Nil
  then show ?case by (auto simp: gathered_ok_def left_over_def removable_def same_session_def)
next
  case (Cons u us)
  have later: ?case if b: "\<not> is_sync u" "gather_loop alloc_ok allow want kept (u # us) (dn, g) = gather_loop alloc_ok allow want kept' us (dn1, g1)"
      "gathered_ok vs N1 X1 ws1 dn1 g1" "map v_uid_dn ws1 @ new_uids (batch us) = map v_uid_dn ws @ new_uids (batch (u # us))"
      "allow \<longrightarrow> distinct (expunged_uids (batch us)) \<and> set (expunged_uids (batch us)) \<inter> X1 = {}" "absorb (batch (u # us)) ws = absorb (batch us) ws1"
      "N1 @ new_uids (batch us) = N @ new_uids (batch (u # us))" "X1 \<union> removable allow (batch us) = X \<union> removable allow (batch (u # us))"
      "rev kept' @ left_over allow us = rev kept @ left_over allow (u # us)" "sync_status (u # us) = sync_status us" "same_session dn dn1" for kept' dn1 g1 N1 X1 ws1
  proof -
    have w: "want = (\<exists>u \<in> set us. is_sync u)" using Cons.prems(5) b(1) by simp
    have "sorted (map v_uid_dn ws1 @ new_uids (batch us))" "distinct (map v_uid_dn ws1 @ new_uids (batch us))" using Cons.prems(2,3) b(4) by simp_all
    from Cons.IH [OF b(3) this b(5) w, of kept'] obtain dn' g' where "gather_loop alloc_ok allow want kept' us (dn1, g1) = Some (E_NONE, sync_status us, dn', g')"
      "gathered_ok vs (N1 @ new_uids (batch us)) (X1 \<union> removable allow (batch us)) (absorb (batch us) ws1) dn' g'"
      "dn_pending_updates dn' = rev kept' @ left_over allow us" "same_session dn1 dn'" by blast
    then show ?thesis unfolding b(2,6-10) [symmetric] using b(2,6-10) same_session_trans [OF b(11)] by (intro exI [of _ dn'] exI [of _ g']) simp
  qed
  show ?case
  proof (cases u)
    case (UPDATE_NEW v)
    have "\<forall>y \<in> set ws. v_uid_dn y \<le> v_uid_dn v" "v_uid_dn v \<notin> v_uid_dn ` set ws" using Cons.prems(2,3) UPDATE_NEW by (auto simp: sorted_append)
    then have "\<forall>y \<in> set ws. v_uid_dn y < v_uid_dn v" by (metis imageI less_le)
    from new_ok [OF Cons.prems(1) this] obtain dn1 g1 where s: "gather_update_new alloc_ok v (dn, g) = Some (dn1, g1)"
      "gathered_ok vs (N @ [v_uid_dn v]) X (ws @ [v]) dn1 g1" "same_session dn dn1" by blast
    show ?thesis by (rule later [OF _ _ s(2)]) (use UPDATE_NEW s Cons.prems in \<open>auto simp: removable_def left_over_def\<close>)
  next
    case (UPDATE_META v)
    from meta_ok [OF Cons.prems(1), of v] obtain dn1 g1 where s: "gather_update_meta alloc_ok v (dn, g) = Some (dn1, g1)"
      "gathered_ok vs N X (map (\<lambda>y. if v_uid_dn y = v_uid_dn v then v else y) ws) dn1 g1" "same_session dn dn1" by blast
    have "map v_uid_dn (map (\<lambda>y. if v_uid_dn y = v_uid_dn v then v else y) ws) = map v_uid_dn ws" by simp
    then show ?thesis by (intro later [OF _ _ s(2)]) (use UPDATE_META s Cons.prems in \<open>auto simp: removable_def left_over_def simp del: map_map\<close>)
  next
    case (UPDATE_EXPUNGE x)
    show ?thesis
    proof (cases allow)
      case True
      have "euid_dn x \<notin> X" using Cons.prems(4) UPDATE_EXPUNGE True by auto
      from expunge_ok [OF Cons.prems(1) this] obtain dn1 g1 where s: "gather_update_expunge alloc_ok x (dn, g) = Some (dn1, g1)"
        "gathered_ok vs N (insert (euid_dn x) X) ws dn1 g1" "same_session dn dn1" by blast
      show ?thesis by (rule later [OF _ _ s(2)]) (use UPDATE_EXPUNGE True s Cons.prems in \<open>auto simp: removable_def left_over_def\<close>)
    next
      case False
      show ?thesis by (rule later [OF _ _ Cons.prems(1)]) (use UPDATE_EXPUNGE False Cons.prems in \<open>auto simp: removable_def left_over_def\<close>)
    qed
  next
    case (UPDATE_SYNC st)
    then show ?thesis using Cons.prems by (auto simp: gathered_ok_def left_over_def removable_def same_session_def)
  qed
qed


section \<open>The responses\<close>

lemma forget_ok:
  assumes "utree_ok g_uid_dn (g_news g)" "utree_ok g_uid_dn (g_metas g)"
  shows "utree_ok g_uid_dn (g_news (foldl forget g xs)) \<and> utree_ok g_uid_dn (g_metas (foldl forget g xs)) \<and>
    nodes (g_news (foldl forget g xs)) = filter (\<lambda>x. g_uid_dn x \<notin> g_uid_dn ` set xs) (nodes (g_news g)) \<and>
    nodes (g_metas (foldl forget g xs)) = filter (\<lambda>x. g_uid_dn x \<notin> g_uid_dn ` set xs) (nodes (g_metas g)) \<and>
    g_expunges (foldl forget g xs) = g_expunges g"
  using assms
proof (induction xs arbitrary: g)
  case (Cons x xs)
  note e = utree_erase [OF Cons.prems(1), of "g_uid_dn x"] utree_erase [OF Cons.prems(2), of "g_uid_dn x"]
  show ?case using Cons.IH [of "forget g x"] e by (auto simp: forget_def intro!: filter_cong)
qed simp

lemma forget_meta_ok:
  assumes "utree_ok g_uid_dn (g_metas g)"
  shows "utree_ok g_uid_dn (g_metas (foldl forget_meta g xs)) \<and>
    nodes (g_metas (foldl forget_meta g xs)) = filter (\<lambda>x. g_uid_dn x \<notin> g_uid_dn ` set xs) (nodes (g_metas g)) \<and>
    g_news (foldl forget_meta g xs) = g_news g \<and> g_expunges (foldl forget_meta g xs) = g_expunges g"
  using assms
proof (induction xs arbitrary: g)
  case (Cons x xs)
  show ?case using Cons.IH [of "forget_meta g x"] utree_erase [OF Cons.prems, of "g_uid_dn x"] by (auto simp: forget_meta_def intro!: filter_cong)
qed simp

lemma hear_all_append: "hear_all (rs @ rs') c = Option.bind (hear_all rs c) (hear_all rs')"
  by (induction rs arbitrary: c) (simp_all split: Option.bind_splits)

lemma seq_num_ok: "i < n \<Longrightarrow> n < 2 ^ 32 \<Longrightarrow> index_to_seq_num i = (E_NONE, of_nat (i + 1)) \<and> unat (of_nat (i + 1) :: u32) = i + 1 \<and> (0 :: u32) < of_nat (i + 1)"
proof -
  assume i: "i < n" "n < 2 ^ 32"
  have u: "unat (of_nat (i + 1) :: u32) = i + 1" using i unfolding unat_of_nat by simp
  then have "(of_nat (i + 1) :: u32) \<noteq> 0" by (metis Suc_eq_plus1 nat.distinct(1) unat_0)
  then show ?thesis using u i by (auto simp: index_to_seq_num_def word_neq_0_conv)
qed

abbreviation all_built :: builder where
  "all_built \<equiv> \<lambda>_. E_NONE"

text \<open>The client hears of one message of the view.\<close>

lemma tell_flags:
  assumes v: "utree_ok v_uid_dn views" "nodes views = vs @ ns" "length (nodes views) < 2 ^ 32" and u: "u \<in> v_uid_dn ` set vs" and c: "length c = length vs"
  obtains y i where "jsw_afind views u = (Some y, i)" "y = vs ! i" "i < length vs" "v_uid_dn y = u"
    "\<And>b out. seq_flags all_built i y (if b then Some u else None) out = (E_NONE, out @ [IMAP_RESP_FETCH (of_nat (i + 1)) (v_flags y) (if b then Some u else None)])"
    "\<And>b. hear (IMAP_RESP_FETCH (of_nat (i + 1)) (v_flags y) (if b then Some u else None)) c = Some (c[i := (if b then Some u else fst (c ! i), Some (v_flags y))])"
proof -
  have "u \<in> v_uid_dn ` set (nodes views)" using u v(2) by auto
  then obtain y i where y: "jsw_afind views u = (Some y, i)" "i < length (nodes views)" "nodes views ! i = y" "v_uid_dn y = u" by (rule utree_found [OF v(1)])
  have il: "i < length vs"
  proof (rule ccontr)
    assume "\<not> i < length vs"
    then have "y \<in> set ns" using y(2,3) v(2) by (auto simp: nth_append)
    moreover obtain z where "z \<in> set vs" "v_uid_dn z = u" using u by auto
    ultimately show False using utree_distinct(1) [OF v(1)] v(2) y(4) by (auto simp: image_iff)
  qed
  note s = seq_num_ok [OF y(2) v(3)]
  show thesis
  proof (rule that [OF y(1) _ il y(4)])
    show "y = vs ! i" using y(3) il v(2) by (simp add: nth_append)
  qed (use s il c in \<open>auto simp: seq_flags_def send_flags_update_def emit_def\<close>)
qed

text \<open>\<open>stale U X\<close>: right, or still to be told (\<open>U\<close>), or about to be removed (\<open>X\<close>).\<close>

definition stale :: "u32 set \<Rightarrow> u32 option \<times> msg_flags option \<Rightarrow> msg_view \<Rightarrow> bool" where
  "stale U p y \<longleftrightarrow> right p y \<or> right_uid p y \<and> v_uid_dn y \<in> U"

lemma stale_told:
  assumes "list_all2 (stale (insert u U)) c vs" "i < length vs" "v_uid_dn (vs ! i) = u" "distinct (map v_uid_dn vs)"
  shows "list_all2 (stale U) (c[i := (if b then Some u else fst (c ! i), Some (v_flags (vs ! i)))]) vs"
proof (rule list_all2_all_nthI)
  have l: "length c = length vs" using assms(1) by (rule list_all2_lengthD)
  then show "length (c[i := (if b then Some u else fst (c ! i), Some (v_flags (vs ! i)))]) = length vs" by simp
  fix j assume "j < length (c[i := (if b then Some u else fst (c ! i), Some (v_flags (vs ! i)))])"
  then have j: "j < length vs" using l by simp
  have s: "stale (insert u U) (c ! j) (vs ! j)" using assms(1) j l by (simp add: list_all2_conv_all_nth)
  show "stale U (c[i := (if b then Some u else fst (c ! i), Some (v_flags (vs ! i)))] ! j) (vs ! j)"
  proof (cases "j = i")
    case True
    then show ?thesis using s j l assms(3) by (auto simp: stale_def right_def right_uid_def)
  next
    case False
    then have "v_uid_dn (vs ! j) \<noteq> u" using assms(2-4) j nth_eq_iff_index_eq [OF assms(4), of j i] by simp
    then show ?thesis using s False by (auto simp: stale_def)
  qed
qed

lemma send_metas_ok:
  assumes "utree_ok v_uid_dn (dn_views dn)" "nodes (dn_views dn) = vs @ ns" "length (nodes (dn_views dn)) < 2 ^ 32"
    and "g_uid_dn ` set gs \<subseteq> v_uid_dn ` set vs" "list_all2 (stale (g_uid_dn ` set gs \<union> X)) c vs"
  shows "\<exists>rs c'. send_metas all_built dn uid_mode gs out = (E_NONE, out @ rs) \<and> hear_all rs c = Some c' \<and> list_all2 (stale X) c' vs"
  using assms(4,5)
proof (induction gs arbitrary: c out)
  case (Cons g gs)
  let ?u = "g_uid_dn g"
  have l: "length c = length vs" using Cons.prems(2) by (rule list_all2_lengthD)
  have d: "distinct (map v_uid_dn vs)" using utree_distinct(1) [OF assms(1)] assms(2) by simp
  have u: "?u \<in> v_uid_dn ` set vs" using Cons.prems(1) by simp
  obtain y i where y: "jsw_afind (dn_views dn) ?u = (Some y, i)" "y = vs ! i" "i < length vs" "v_uid_dn y = ?u"
    "\<And>b out. seq_flags all_built i y (if b then Some ?u else None) out = (E_NONE, out @ [IMAP_RESP_FETCH (of_nat (i + 1)) (v_flags y) (if b then Some ?u else None)])"
    "\<And>b. hear (IMAP_RESP_FETCH (of_nat (i + 1)) (v_flags y) (if b then Some ?u else None)) c = Some (c[i := (if b then Some ?u else fst (c ! i), Some (v_flags y))])"
    by (rule tell_flags [OF assms(1-3) u l]) blast
  let ?c = "c[i := (if uid_mode then Some ?u else fst (c ! i), Some (v_flags y))]"
    and ?r = "IMAP_RESP_FETCH (of_nat (i + 1)) (v_flags y) (if uid_mode then Some ?u else None)"
  have "list_all2 (stale (insert ?u (g_uid_dn ` set gs \<union> X))) c vs" using Cons.prems(2) by simp
  then have "list_all2 (stale (g_uid_dn ` set gs \<union> X)) ?c vs" using stale_told [OF _ y(3) _ d] y(2,4) by blast
  moreover have "g_uid_dn ` set gs \<subseteq> v_uid_dn ` set vs" using Cons.prems(1) by simp
  ultimately obtain rs c' where "send_metas all_built dn uid_mode gs (out @ [?r]) = (E_NONE, (out @ [?r]) @ rs)" "hear_all rs ?c = Some c'" "list_all2 (stale X) c' vs"
    using Cons.IH by blast
  then show ?case using y(1,5,6) by (intro exI [of _ "?r # rs"] exI [of _ c']) simp
qed simp


lemma filter_key_id: "u \<notin> f ` set xs \<Longrightarrow> filter (\<lambda>y. f y \<noteq> u) xs = xs"
  by (rule filter_True) (metis imageI)

lemma filter_nth_removed:
  assumes "i < length vs" "distinct (map f vs)"
  shows "filter (\<lambda>y. f y \<noteq> f (vs ! i)) vs = take i vs @ drop (Suc i) vs"
proof -
  have v: "vs = take i vs @ vs ! i # drop (Suc i) vs" using assms(1) by (simp add: id_take_nth_drop)
  have "distinct (map f (take i vs @ vs ! i # drop (Suc i) vs))" using v assms(2) by metis
  then have "f (vs ! i) \<notin> f ` set (take i vs)" "f (vs ! i) \<notin> f ` set (drop (Suc i) vs)" by auto
  from this [THEN filter_key_id] have "filter (\<lambda>y. f y \<noteq> f (vs ! i)) (take i vs @ vs ! i # drop (Suc i) vs) = take i vs @ drop (Suc i) vs" by simp
  then show ?thesis using v by metis
qed

lemma send_expunges_ok:
  assumes "utree_ok v_uid_dn (dn_views dn)" "nodes (dn_views dn) = vs @ ns" "length (nodes (dn_views dn)) < 2 ^ 32"
    and "g_uid_dn ` set gs \<subseteq> v_uid_dn ` set vs" "distinct (map g_uid_dn gs)" "list_all2 (stale (g_uid_dn ` set gs)) c vs"
  shows "\<exists>dn' rs c'. send_expunges all_built gs (dn, out) = (E_NONE, dn', out @ rs) \<and> hear_all rs c = Some c' \<and>
    utree_ok v_uid_dn (dn_views dn') \<and> nodes (dn_views dn') = filter (\<lambda>y. v_uid_dn y \<notin> g_uid_dn ` set gs) vs @ ns \<and>
    list_all2 right c' (filter (\<lambda>y. v_uid_dn y \<notin> g_uid_dn ` set gs) vs) \<and> same_session dn dn' \<and> dn_pending_updates dn' = dn_pending_updates dn"
  using assms
proof (induction gs arbitrary: dn vs c out)
  case Nil
  then have "list_all2 right c vs" by (simp add: stale_def [abs_def])
  with Nil show ?case by simp
next
  case (Cons g gs)
  let ?u = "g_uid_dn g"
  have l: "length c = length vs" using Cons.prems(6) by (rule list_all2_lengthD)
  have d: "distinct (map v_uid_dn vs)" using utree_distinct(1) [OF Cons.prems(1)] Cons.prems(2) by simp
  have u: "?u \<in> v_uid_dn ` set vs" using Cons.prems(4) by simp
  obtain y i where y: "jsw_afind (dn_views dn) ?u = (Some y, i)" "y = vs ! i" "i < length vs" "v_uid_dn y = ?u"
    by (rule tell_flags [OF Cons.prems(1-3) u l]) blast
  have il: "i < length (nodes (dn_views dn))" using y(3) Cons.prems(2) by simp
  note s = seq_num_ok [OF il Cons.prems(3)]
  note e = utree_erase [OF Cons.prems(1), of ?u]
  let ?vs = "take i vs @ drop (Suc i) vs" and ?c = "take i c @ drop (Suc i) c" and ?r = "IMAP_RESP_EXPUNGE (of_nat (i + 1))"
  let ?dn = "dn\<lparr>dn_views := snd (jsw_aerase (dn_views dn) ?u)\<rparr>"
  have fv: "filter (\<lambda>y. v_uid_dn y \<noteq> ?u) vs = ?vs" using filter_nth_removed [OF y(3) d] y(2,4) by simp
  have "?u \<notin> v_uid_dn ` set ns" using utree_distinct(1) [OF Cons.prems(1)] Cons.prems(2) u by auto
  then have "filter (\<lambda>y. v_uid_dn y \<noteq> ?u) ns = ns" by (rule filter_key_id)
  then have n: "nodes (dn_views ?dn) = ?vs @ ns" using e fv Cons.prems(2) by simp
  have h: "hear ?r c = Some ?c" using s y(3) l by simp
  have c: "list_all2 (stale (g_uid_dn ` set (g # gs))) ?c ?vs"
    using Cons.prems(6) by (intro list_all2_appendI list_all2_takeI list_all2_dropI)
  have "stale (g_uid_dn ` set gs) p z" if "stale (g_uid_dn ` set (g # gs)) p z" "z \<in> set ?vs" for p z
  proof -
    have "z \<in> set (filter (\<lambda>y. v_uid_dn y \<noteq> ?u) vs)" using that(2) fv by simp
    then have "v_uid_dn z \<noteq> ?u" by simp
    then show ?thesis using that(1) by (auto simp: stale_def)
  qed
  then have c: "list_all2 (stale (g_uid_dn ` set gs)) ?c ?vs" using c by (auto simp: list_all2_conv_all_nth simp del: set_append)
  have "v_uid_dn ` set (filter (\<lambda>y. v_uid_dn y \<noteq> ?u) vs) = v_uid_dn ` set vs - {?u}" by auto
  moreover have "g_uid_dn ` set gs \<subseteq> v_uid_dn ` set vs" "?u \<notin> g_uid_dn ` set gs" using Cons.prems(4,5) by simp_all
  ultimately have g: "g_uid_dn ` set gs \<subseteq> v_uid_dn ` set ?vs" unfolding fv by (simp only: subset_Diff_insert) simp
  have "utree_ok v_uid_dn (dn_views ?dn)" "length (nodes (dn_views ?dn)) < 2 ^ 32" "distinct (map g_uid_dn gs)" using e Cons.prems(3,5) n Cons.prems(2) y(3) by simp_all
  from Cons.IH [OF this(1) n this(2) g this(3) c, of "out @ [?r]"] obtain dn' rs c' where
    i: "send_expunges all_built gs (?dn, out @ [?r]) = (E_NONE, dn', (out @ [?r]) @ rs)" "hear_all rs ?c = Some c'" "utree_ok v_uid_dn (dn_views dn')"
    "nodes (dn_views dn') = filter (\<lambda>y. v_uid_dn y \<notin> g_uid_dn ` set gs) ?vs @ ns" "list_all2 right c' (filter (\<lambda>y. v_uid_dn y \<notin> g_uid_dn ` set gs) ?vs)"
    "same_session ?dn dn'" "dn_pending_updates dn' = dn_pending_updates ?dn" by blast
  have f: "filter (\<lambda>y. v_uid_dn y \<notin> g_uid_dn ` set gs) ?vs = filter (\<lambda>y. v_uid_dn y \<notin> g_uid_dn ` set (g # gs)) vs"
    unfolding fv [symmetric] by (auto intro: filter_cong)
  have "send_expunges all_built (g # gs) (dn, out) = (E_NONE, dn', out @ ?r # rs)" using y(1) s i(1) by (simp add: send_expunge_def emit_def)
  moreover have "same_session dn dn'" using i(6) by (simp add: same_session_def)
  ultimately show ?case using i h unfolding f by (intro exI [of _ dn'] exI [of _ "?r # rs"] exI [of _ c']) simp
qed


section \<open>The client stays right\<close>

lemma exists_heard:
  assumes "list_all2 right c vs" "nodes (dn_views dn) = vs @ ns" "utree_ok v_uid_dn (dn_views dn)" "length (nodes (dn_views dn)) < 2 ^ 32"
  shows "\<exists>r. send_exists_resp all_built dn out = (E_NONE, out @ [r]) \<and> (\<exists>c'. hear r c = Some c' \<and> list_all2 right c' (vs @ ns))"
proof -
  have l: "length c = length vs" using assms(1) by (rule list_all2_lengthD)
  have z: "asize (dn_views dn) = length vs + length ns" using utree_size [OF assms(3)] assms(2) by simp
  let ?n = "of_nat (length vs + length ns) :: u32"
  have u: "unat ?n = length vs + length ns" using assms(2,4) unfolding unat_of_nat by simp
  have "list_all2 right (replicate (length ns) (None, None)) ns" by (simp add: list_all2_conv_all_nth right_def right_uid_def)
  then have "list_all2 right (c @ replicate (length ns) (None, None)) (vs @ ns)" using assms(1) by (rule list_all2_appendI [rotated])
  moreover have "hear (IMAP_RESP_EXISTS ?n) c = Some (c @ replicate (length ns) (None, None))" using u l by (simp del: of_nat_add)
  moreover have "send_exists_resp all_built dn out = (E_NONE, out @ [IMAP_RESP_EXISTS ?n])" using z assms(2,4) by (simp add: send_exists_resp_def emit_def)
  ultimately show ?thesis by blast
qed

text \<open>The gathered updates are told; \<open>temp\<close> are the responses about flags.\<close>

lemma finish_ok:
  assumes g: "gathered_ok vs N X ws dn g" and x: "X \<subseteq> v_uid_dn ` set vs" and w: "length ws < 2 ^ 32"
    and t: "list_all2 (stale X) c (take (length vs) ws)"
  shows "\<exists>dn' rs rs' c'. send_expunges all_built (in_reverse (g_expunges g)) (dn, temp) = (E_NONE, dn', temp @ rs) \<and> same_session dn dn' \<and>
    dn_pending_updates dn' = dn_pending_updates dn \<and> utree_ok v_uid_dn (dn_views dn') \<and> nodes (dn_views dn') = filter (\<lambda>y. v_uid_dn y \<notin> X) ws \<and>
    (if N \<noteq> [] then send_exists_resp all_built dn' (temp @ rs) else (E_NONE, temp @ rs)) = (E_NONE, temp @ rs @ rs') \<and>
    hear_all (rs @ rs') c = Some c' \<and> mirrors c' (dn_views dn')"
proof -
  note G = g [unfolded gathered_ok_def]
  let ?vs = "take (length vs) ws" and ?ns = "drop (length vs) ws" and ?gs = "in_reverse (g_expunges g)"
  have m: "map v_uid_dn ?vs = map v_uid_dn vs" "map v_uid_dn ?ns = N" using G by (simp_all add: take_map [symmetric] drop_map [symmetric])
  have vs: "v_uid_dn ` set ?vs = v_uid_dn ` set vs" using arg_cong [OF m(1), of set] by (simp only: set_map)
  have rv: "?gs = rev (nodes (g_expunges g))" using in_reverse_nodes G by blast
  have gs: "g_uid_dn ` set ?gs = X" "distinct (map g_uid_dn ?gs)" using G utree_distinct(1) unfolding rv by (auto simp: rev_map [symmetric])
  have n: "nodes (dn_views dn) = ?vs @ ?ns" "length (nodes (dn_views dn)) < 2 ^ 32" "utree_ok v_uid_dn (dn_views dn)" using G w by auto
  have X: "g_uid_dn ` set ?gs \<subseteq> v_uid_dn ` set ?vs" using x gs(1) vs by simp
  from send_expunges_ok [OF n(3,1,2) X gs(2), of c temp] t gs(1) obtain dn' rs c' where
    e: "send_expunges all_built ?gs (dn, temp) = (E_NONE, dn', temp @ rs)" "hear_all rs c = Some c'" "utree_ok v_uid_dn (dn_views dn')"
    "nodes (dn_views dn') = filter (\<lambda>y. v_uid_dn y \<notin> X) ?vs @ ?ns" "list_all2 right c' (filter (\<lambda>y. v_uid_dn y \<notin> X) ?vs)" "same_session dn dn'"
    "dn_pending_updates dn' = dn_pending_updates dn" by auto
  have "v_uid_dn ` set ?ns \<inter> X = {}"
  proof -
    have "distinct (map v_uid_dn ?vs @ map v_uid_dn ?ns)" using G utree_distinct(1) by (metis append_take_drop_id map_append)
    then have "v_uid_dn ` set ?vs \<inter> v_uid_dn ` set ?ns = {}" by simp
    then show ?thesis using x vs by blast
  qed
  then have "filter (\<lambda>y. v_uid_dn y \<notin> X) ?ns = ?ns" by (intro filter_True) blast
  then have f: "nodes (dn_views dn') = filter (\<lambda>y. v_uid_dn y \<notin> X) ws" using e(4) by (metis append_take_drop_id filter_append)
  have s: "length (nodes (dn_views dn')) < 2 ^ 32" unfolding f using w le_less_trans [OF length_filter_le] by blast
  obtain rs' c'' where "(if N \<noteq> [] then send_exists_resp all_built dn' (temp @ rs) else (E_NONE, temp @ rs)) = (E_NONE, temp @ rs @ rs')"
    "hear_all (rs @ rs') c = Some c''" "mirrors c'' (dn_views dn')"
  proof (cases "N = []")
    case True
    then have "?ns = []" using m(2) by (metis list.map_disc_iff)
    then show ?thesis using e(2,4,5) True by (intro that [of "[]" c']) (simp_all add: mirrors_def)
  next
    case False
    from exists_heard [OF e(5,4,3) s, of "temp @ rs"] obtain r c'' where "send_exists_resp all_built dn' (temp @ rs) = (E_NONE, (temp @ rs) @ [r])"
      "hear r c' = Some c''" "list_all2 right c'' (nodes (dn_views dn'))" unfolding e(4) by blast
    then show ?thesis using e(2) False by (intro that [of "[r]" c'']) (simp_all add: mirrors_def hear_all_append)
  qed
  then show ?thesis using e(1,3,6,7) f by (intro exI [of _ dn'] exI [of _ rs] exI [of _ rs'] exI [of _ c'']) simp
qed


text \<open>A message that the client knows, before and after the batch.\<close>

lemma old_message:
  assumes g: "gathered_ok vs N X ws dn g" and i: "i < length vs"
  shows "i < length ws" "ws ! i \<in> set (take (length vs) ws)" "v_uid_dn (ws ! i) = v_uid_dn (vs ! i)" "v_uid_dn (ws ! i) \<notin> set N"
    "v_uid_dn (ws ! i) \<in> g_uid_dn ` set (nodes (g_metas g)) \<or> ws ! i = vs ! i"
proof -
  note G = g [unfolded gathered_ok_def]
  have m: "map v_uid_dn ws = map v_uid_dn vs @ N" using G by simp
  have d: "distinct (map v_uid_dn vs @ N)" using G utree_distinct(1) by metis
  from arg_cong [OF m, of length] show il: "i < length ws" using i by simp
  then show "ws ! i \<in> set (take (length vs) ws)" using i by (auto simp: in_set_conv_nth)
  from arg_cong [OF m, of "\<lambda>xs. xs ! i"] show uid: "v_uid_dn (ws ! i) = v_uid_dn (vs ! i)" using i il by (simp add: nth_append)
  have "v_uid_dn (vs ! i) \<in> v_uid_dn ` set vs" using i by simp
  then show n: "v_uid_dn (ws ! i) \<notin> set N" using uid d by (auto simp del: nth_mem)
  show "v_uid_dn (ws ! i) \<in> g_uid_dn ` set (nodes (g_metas g)) \<or> ws ! i = vs ! i"
  proof (rule disjCI)
    assume "ws ! i \<noteq> vs ! i"
    moreover have "inj_on v_uid_dn (set vs)" using d by (simp add: distinct_map)
    ultimately have "ws ! i \<notin> set vs" using uid i by (meson inj_onD nth_mem)
    moreover have "ws ! i \<in> set ws" using il by simp
    ultimately show "v_uid_dn (ws ! i) \<in> g_uid_dn ` set (nodes (g_metas g))" using G n by blast
  qed
qed

lemma take_old_length: "gathered_ok vs N X ws dn g \<Longrightarrow> length (take (length vs) ws) = length vs"
  unfolding gathered_ok_def by (metis le_add1 length_append length_map length_take min.absorb2)

lemma told_flags:
  assumes g: "gathered_ok vs N X ws dn g" and c: "list_all2 right c vs"
  defines "M \<equiv> g_uid_dn ` set (nodes (g_metas g)) - set N - X"
  shows "list_all2 (stale (M \<union> X)) c (take (length vs) ws)"
proof (rule list_all2_all_nthI)
  have l: "length c = length vs" using c by (rule list_all2_lengthD)
  then show "length c = length (take (length vs) ws)" using take_old_length [OF g] by simp
  fix i assume "i < length c"
  then have i: "i < length vs" using l by simp
  note o = old_message [OF g i]
  have r: "right (c ! i) (vs ! i)" using c i l by (simp add: list_all2_conv_all_nth)
  then have "right_uid (c ! i) (ws ! i)" using o(3) by (simp add: right_def right_uid_def)
  moreover have "v_uid_dn (ws ! i) \<in> M \<union> X \<or> ws ! i = vs ! i" using o(4,5) by (auto simp: M_def)
  ultimately show "stale (M \<union> X) (c ! i) (take (length vs) ws ! i)" using r i by (auto simp: stale_def)
qed

text \<open>What is left of the gathered updates after the first two steps.\<close>

lemma forgotten:
  assumes g: "gathered_ok vs N X ws dn g" and x: "X \<subseteq> v_uid_dn ` set vs"
  defines "g' \<equiv> forget_new (forget_expunged g)"
  shows "g_expunges g' = g_expunges g"
    "asize (g_news g') = length N" "utree_ok g_uid_dn (g_metas g')"
    "g_uid_dn ` set (nodes (g_metas g')) = g_uid_dn ` set (nodes (g_metas g)) - set N - X"
proof -
  note G = g [unfolded gathered_ok_def]
  let ?f = "forget_expunged g"
  have io: "in_order (g_expunges g) = nodes (g_expunges g)" using in_order_nodes G by blast
  note f = forget_ok [of g "nodes (g_expunges g)", unfolded io [symmetric], folded forget_expunged_def, unfolded io]
  have f1: "utree_ok g_uid_dn (g_news ?f)" "utree_ok g_uid_dn (g_metas ?f)" "g_expunges ?f = g_expunges g"
    "nodes (g_news ?f) = filter (\<lambda>x. g_uid_dn x \<notin> X) (nodes (g_news g))" "nodes (g_metas ?f) = filter (\<lambda>x. g_uid_dn x \<notin> X) (nodes (g_metas g))"
    using f G by auto
  have "distinct (map v_uid_dn vs @ N)" using G utree_distinct(1) by metis
  then have "set N \<inter> X = {}" using x by auto
  moreover have N: "set N = g_uid_dn ` set (nodes (g_news g))" using G by (metis list.set_map)
  ultimately have nn: "nodes (g_news ?f) = nodes (g_news g)" unfolding f1(4) by (intro filter_True) blast
  have io2: "in_order (g_news ?f) = nodes (g_news g)" using in_order_nodes [OF f1(1)] nn by simp
  have f2: "utree_ok g_uid_dn (g_metas g')" "nodes (g_metas g') = filter (\<lambda>x. g_uid_dn x \<notin> set N) (nodes (g_metas ?f))" "g_news g' = g_news ?f" "g_expunges g' = g_expunges ?f"
    using forget_meta_ok [OF f1(2), of "nodes (g_news g)"] unfolding g'_def forget_new_def io2 N by auto
  show "g_expunges g' = g_expunges g" "utree_ok g_uid_dn (g_metas g')" using f1(3) f2 by simp_all
  have "asize (g_news g') = length (nodes (g_news g))" using utree_size [OF f1(1)] f2(3) nn by simp
  then show "asize (g_news g') = length N" using G by (metis length_map)
  show "g_uid_dn ` set (nodes (g_metas g')) = g_uid_dn ` set (nodes (g_metas g)) - set N - X" unfolding f2(2) f1(5) by auto
qed


lemma metas_old:
  assumes "gathered_ok vs N X ws dn g"
  shows "g_uid_dn ` set (nodes (g_metas g)) - set N - X \<subseteq> v_uid_dn ` set (take (length vs) ws)"
proof -
  note G = assms [unfolded gathered_ok_def]
  have "map v_uid_dn (take (length vs) ws) = map v_uid_dn vs" using G by (simp add: take_map [symmetric])
  from arg_cong [OF this, of set] have "v_uid_dn ` set (take (length vs) ws) = v_uid_dn ` set vs" by (simp only: set_map)
  moreover have "map v_uid_dn ws = map v_uid_dn vs @ N" using G by simp
  from arg_cong [OF this, of set] have "v_uid_dn ` set ws = v_uid_dn ` set vs \<union> set N" by (simp only: set_map set_append)
  moreover have "g_uid_dn ` set (nodes (g_metas g)) \<subseteq> v_uid_dn ` set ws" using G by simp
  moreover have "A - set N - X \<subseteq> B" if "A \<subseteq> B \<union> set N" for A B :: "u32 set" using that by blast
  ultimately show ?thesis by metis
qed

lemma gather_send_rest:
  assumes g: "gathered_ok vs N X ws dn g" and x: "X \<subseteq> v_uid_dn ` set vs" and w: "length ws < 2 ^ 32"
    and m: "(if for_store then send_store_fetch_resps all_built dn (forget_new (forget_expunged g)) []
        else send_metas all_built dn uid_mode (in_order (g_metas (forget_new (forget_expunged g)))) []) = (E_NONE, rs1)"
      "hear_all rs1 c = Some c1" "list_all2 (stale X) c1 (take (length vs) ws)"
  shows "\<exists>dn' rs c'. gather_send_responses all_built uid_mode for_store dn g out = (E_NONE, dn', out @ rs) \<and> hear_all rs c = Some c' \<and> mirrors c' (dn_views dn') \<and>
    utree_ok v_uid_dn (dn_views dn') \<and> nodes (dn_views dn') = filter (\<lambda>y. v_uid_dn y \<notin> X) ws \<and> same_session dn dn' \<and> dn_pending_updates dn' = dn_pending_updates dn"
proof -
  note f = forgotten [OF g x]
  from finish_ok [OF g x w m(3), of rs1] obtain dn' rs rs' c' where
    e: "send_expunges all_built (in_reverse (g_expunges g)) (dn, rs1) = (E_NONE, dn', rs1 @ rs)" "same_session dn dn'"
    "dn_pending_updates dn' = dn_pending_updates dn" "utree_ok v_uid_dn (dn_views dn')" "nodes (dn_views dn') = filter (\<lambda>y. v_uid_dn y \<notin> X) ws"
    "(if N \<noteq> [] then send_exists_resp all_built dn' (rs1 @ rs) else (E_NONE, rs1 @ rs)) = (E_NONE, rs1 @ rs @ rs')"
    "hear_all (rs @ rs') c1 = Some c'" "mirrors c' (dn_views dn')" by (elim exE conjE)
  have "(if length N \<noteq> 0 then send_exists_resp all_built dn' (rs1 @ rs) else (E_NONE, rs1 @ rs)) = (E_NONE, rs1 @ rs @ rs')" using e(6) by simp
  then have "gather_send_responses all_built uid_mode for_store dn g out = (E_NONE, dn', out @ rs1 @ rs @ rs')"
    unfolding gather_send_responses_def Let_def m(1) f(1,2) prod.case e(1) by simp
  moreover have "hear_all (rs1 @ rs @ rs') c = Some c'" using m(2) e(7) by (simp add: hear_all_append)
  ultimately show ?thesis using e(2-5,8) by (intro exI [of _ dn'] exI [of _ "rs1 @ rs @ rs'"] exI [of _ c']) simp
qed

lemma gather_send_ok:
  assumes g: "gathered_ok vs N X ws dn g" and x: "X \<subseteq> v_uid_dn ` set vs" and w: "length ws < 2 ^ 32" and c: "list_all2 right c vs"
  shows "\<exists>dn' rs c'. gather_send_responses all_built uid_mode False dn g out = (E_NONE, dn', out @ rs) \<and> hear_all rs c = Some c' \<and> mirrors c' (dn_views dn') \<and>
    utree_ok v_uid_dn (dn_views dn') \<and> nodes (dn_views dn') = filter (\<lambda>y. v_uid_dn y \<notin> X) ws \<and> same_session dn dn' \<and> dn_pending_updates dn' = dn_pending_updates dn"
proof -
  note G = g [unfolded gathered_ok_def]
  let ?vs = "take (length vs) ws" and ?ns = "drop (length vs) ws" and ?g = "forget_new (forget_expunged g)"
  note f = forgotten [OF g x]
  have io: "in_order (g_metas ?g) = nodes (g_metas ?g)" by (rule in_order_nodes [OF f(3)])
  have n: "utree_ok v_uid_dn (dn_views dn)" "nodes (dn_views dn) = ?vs @ ?ns" "length (nodes (dn_views dn)) < 2 ^ 32" using G w by auto
  have st: "list_all2 (stale (g_uid_dn ` set (nodes (g_metas ?g)) \<union> X)) c ?vs" using told_flags [OF g c] unfolding f(4) .
  have mo: "g_uid_dn ` set (nodes (g_metas ?g)) \<subseteq> v_uid_dn ` set ?vs" using metas_old [OF g] unfolding f(4) .
  obtain rs1 c1 where m: "send_metas all_built dn uid_mode (nodes (g_metas ?g)) [] = (E_NONE, rs1)" "hear_all rs1 c = Some c1" "list_all2 (stale X) c1 ?vs"
    using send_metas_ok [OF n mo st, of uid_mode "[]"] by auto
  show ?thesis by (rule gather_send_rest [OF g x w _ m(2,3)]) (simp add: io m(1))
qed

section \<open>Responses to a STORE\<close>

lemma msg_flags_eq_iff: "msg_flags_eq a b \<longleftrightarrow> a = b"
  by (auto simp: msg_flags_eq_def)

text \<open>
  The messages whose flags are certainly reported: those with an update, except that a silent \<open>STORE\<close> does
  not report the flags it asked for.
\<close>

definition quiet :: "bool \<Rightarrow> msg_view list \<Rightarrow> exp_flags list \<Rightarrow> u32 \<Rightarrow> bool" where
  "quiet silent vs es u \<longleftrightarrow> silent \<and> (\<exists>x \<in> set es. x_uid_dn x = u \<and> (\<exists>y \<in> set vs. v_uid_dn y = u \<and> x_flags x = v_flags y))"

definition reported :: "bool \<Rightarrow> msg_view list \<Rightarrow> exp_flags list \<Rightarrow> gathered list \<Rightarrow> u32 set" where
  "reported silent vs es gs = {u \<in> g_uid_dn ` set gs. \<not> quiet silent vs es u}"

lemma stale_mono: "list_all2 (stale U) c vs \<Longrightarrow> U \<subseteq> V \<Longrightarrow> list_all2 (stale V) c vs"
  by (auto simp: stale_def elim!: list_all2_mono)

lemma stale_right:
  assumes "list_all2 (stale (insert u U)) c vs" "\<forall>y \<in> set vs. v_uid_dn y \<noteq> u"
  shows "list_all2 (stale U) c vs"
  using assms by (auto simp: stale_def list_all2_conv_all_nth)

text \<open>One round of the loop tells the client about the message \<open>u\<close>, or leaves it alone where it need not be told.\<close>

definition round_ok :: "msg_view list \<Rightarrow> u32 \<Rightarrow> bool \<Rightarrow> (imap_resp list \<Rightarrow> derr_type \<times> imap_resp list) \<Rightarrow> bool" where
  "round_ok vs u tells f \<longleftrightarrow> (\<forall>U c out. list_all2 (stale (if tells then insert u U else U)) c vs \<longrightarrow>
     (\<exists>rs c'. f out = (E_NONE, out @ rs) \<and> hear_all rs c = Some c' \<and> list_all2 (stale U) c' vs))"

lemma round_silent: "f = (\<lambda>out. (E_NONE, out)) \<Longrightarrow> \<not> tells \<Longrightarrow> round_ok vs u tells f"
  by (auto simp: round_ok_def)

lemma round_then:
  assumes r: "round_ok vs u tells f" and c: "list_all2 (stale V) c vs" and V: "V \<subseteq> (if tells then insert u U else U)"
    and k: "\<And>c out. list_all2 (stale U) c vs \<Longrightarrow> \<exists>rs c'. k out = (E_NONE, out @ rs) \<and> hear_all rs c = Some c' \<and> list_all2 (stale X) c' vs"
  shows "\<exists>rs c'. ifok (f out) k id = (E_NONE, out @ rs) \<and> hear_all rs c = Some c' \<and> list_all2 (stale X) c' vs"
proof -
  from r stale_mono [OF c V] obtain rs1 c1 where f: "f out = (E_NONE, out @ rs1)" "hear_all rs1 c = Some c1" "list_all2 (stale U) c1 vs"
    unfolding round_ok_def by blast
  from k [OF f(3), of "out @ rs1"] obtain rs c' where "k (out @ rs1) = (E_NONE, (out @ rs1) @ rs)" "hear_all rs c1 = Some c'" "list_all2 (stale X) c' vs" by blast
  then show ?thesis using f(1,2) by (intro exI [of _ "rs1 @ rs"] exI [of _ c']) (simp add: hear_all_append)
qed

lemma round_told:
  assumes v: "utree_ok v_uid_dn (dn_views dn)" "nodes (dn_views dn) = vs @ ns" "length (nodes (dn_views dn)) < 2 ^ 32" and u: "u \<in> v_uid_dn ` set vs"
  obtains y i where "jsw_afind (dn_views dn) u = (Some y, i)" "y \<in> set vs" "v_uid_dn y = u" "fst (index_to_seq_num i) = E_NONE"
    "\<And>b tells. round_ok vs u tells (seq_flags all_built i y (if b then Some u else None))"
proof -
  obtain y i where y: "jsw_afind (dn_views dn) u = (Some y, i)" "y = vs ! i" "i < length vs" "v_uid_dn y = u"
    by (rule tell_flags [OF v u, of "map (\<lambda>_. (None, None)) vs"]) auto
  have d: "distinct (map v_uid_dn vs)" using utree_distinct(1) [OF v(1)] v(2) by simp
  have il: "i < length (nodes (dn_views dn))" using y(3) v(2) by simp
  have "round_ok vs u tells (seq_flags all_built i y (if b then Some u else None))" for b tells
    unfolding round_ok_def
  proof (intro allI impI)
    fix U c out assume c: "list_all2 (stale (if tells then insert u U else U)) c vs"
    have c': "list_all2 (stale (insert u U)) c vs" by (rule stale_mono [OF c]) auto
    have l: "length c = length vs" using c by (rule list_all2_lengthD)
    obtain y' i' where t: "jsw_afind (dn_views dn) u = (Some y', i')"
      "\<And>b out. seq_flags all_built i' y' (if b then Some u else None) out = (E_NONE, out @ [IMAP_RESP_FETCH (of_nat (i' + 1)) (v_flags y') (if b then Some u else None)])"
      "\<And>b. hear (IMAP_RESP_FETCH (of_nat (i' + 1)) (v_flags y') (if b then Some u else None)) c = Some (c[i' := (if b then Some u else fst (c ! i'), Some (v_flags y'))])"
      by (rule tell_flags [OF v u l]) blast
    have e: "y' = y" "i' = i" using t(1) y(1) by simp_all
    let ?r = "IMAP_RESP_FETCH (of_nat (i + 1)) (v_flags y) (if b then Some u else None)"
    have "list_all2 (stale U) (c[i := (if b then Some u else fst (c ! i), Some (v_flags y))]) vs" using stale_told [OF c' y(3) _ d] y(2,4) by blast
    then show "\<exists>rs c'. seq_flags all_built i y (if b then Some u else None) out = (E_NONE, out @ rs) \<and> hear_all rs c = Some c' \<and> list_all2 (stale U) c' vs"
      using t(2) [of b out] t(3) [of b] unfolding e by (intro exI [of _ "[?r]"] exI [of _ "c[i := (if b then Some u else fst (c ! i), Some (v_flags y))]"]) simp
  qed
  then show thesis using y seq_num_ok [OF il v(3)] by (intro that [OF y(1)]) auto
qed

lemma store_rounds:
  assumes v: "utree_ok v_uid_dn (dn_views dn)" "nodes (dn_views dn) = vs @ ns" "length (nodes (dn_views dn)) < 2 ^ 32"
  shows "u \<in> v_uid_dn ` set vs \<Longrightarrow> round_ok vs u True (send_store_resp_noexp all_built dn u)"
    "x_uid_dn x \<in> v_uid_dn ` set vs \<Longrightarrow> round_ok vs (x_uid_dn x) False (send_store_resp_noupdate all_built dn x)"
    "x_uid_dn x \<in> v_uid_dn ` set vs \<Longrightarrow> tells \<longrightarrow> \<not> (store_silent dn \<and> (\<exists>y \<in> set vs. v_uid_dn y = x_uid_dn x \<and> x_flags x = v_flags y)) \<Longrightarrow>
      round_ok vs (x_uid_dn x) tells (send_store_resp_expupdate all_built dn x)"
proof -
  assume u: "u \<in> v_uid_dn ` set vs"
  obtain y i where y: "jsw_afind (dn_views dn) u = (Some y, i)" "\<And>b tells. round_ok vs u tells (seq_flags all_built i y (if b then Some u else None))"
    by (rule round_told [OF v u]) blast
  have "send_store_resp_noexp all_built dn u = seq_flags all_built i y (if store_uid_mode dn then Some u else None)"
    by (rule ext) (simp add: send_store_resp_noexp_def y(1))
  then show "round_ok vs u True (send_store_resp_noexp all_built dn u)" using y(2) by metis
next
  assume u: "x_uid_dn x \<in> v_uid_dn ` set vs"
  obtain y i where y: "jsw_afind (dn_views dn) (x_uid_dn x) = (Some y, i)" "\<And>b tells. round_ok vs (x_uid_dn x) tells (seq_flags all_built i y (if b then Some (x_uid_dn x) else None))"
    by (rule round_told [OF v u]) blast
  have "send_store_resp_noupdate all_built dn x = seq_flags all_built i y (if store_uid_mode dn then Some (x_uid_dn x) else None) \<or>
    send_store_resp_noupdate all_built dn x = (\<lambda>out. (E_NONE, out))" by (auto simp: send_store_resp_noupdate_def y(1) fun_eq_iff)
  then show "round_ok vs (x_uid_dn x) False (send_store_resp_noupdate all_built dn x)" using y(2) round_silent by metis
next
  assume u: "x_uid_dn x \<in> v_uid_dn ` set vs" and t: "tells \<longrightarrow> \<not> (store_silent dn \<and> (\<exists>y \<in> set vs. v_uid_dn y = x_uid_dn x \<and> x_flags x = v_flags y))"
  obtain y i where y: "jsw_afind (dn_views dn) (x_uid_dn x) = (Some y, i)" "y \<in> set vs" "v_uid_dn y = x_uid_dn x" "fst (index_to_seq_num i) = E_NONE"
    "\<And>b tells. round_ok vs (x_uid_dn x) tells (seq_flags all_built i y (if b then Some (x_uid_dn x) else None))" by (rule round_told [OF v u]) blast
  obtain n where n: "index_to_seq_num i = (E_NONE, n)" using y(4) by (cases "index_to_seq_num i") simp
  show "round_ok vs (x_uid_dn x) tells (send_store_resp_expupdate all_built dn x)"
  proof (cases "x_flags x = v_flags y \<and> store_silent dn")
    case True
    then have "\<not> tells" using t y(2,3) by blast
    moreover have "send_store_resp_expupdate all_built dn x = (\<lambda>out. (E_NONE, out))" using True by (auto simp: send_store_resp_expupdate_def y(1) n fun_eq_iff msg_flags_eq_iff)
    ultimately show ?thesis by (intro round_silent)
  next
    case False
    then have "send_store_resp_expupdate all_built dn x = seq_flags all_built i y (if store_uid_mode dn then Some (x_uid_dn x) else None)"
      by (auto simp: send_store_resp_expupdate_def seq_flags_def y(1) n fun_eq_iff msg_flags_eq_iff Let_def)
    then show ?thesis using y(5) by metis
  qed
qed

text \<open>What each way through the loop leaves to be reported.\<close>

lemma quiet_Cons: "quiet silent vs (x # es) u \<longleftrightarrow> quiet silent vs es u \<or> x_uid_dn x = u \<and> silent \<and> (\<exists>y \<in> set vs. v_uid_dn y = u \<and> x_flags x = v_flags y)"
  by (auto simp: quiet_def)

lemma quiet_uid: "quiet silent vs es u \<Longrightarrow> silent \<and> u \<in> x_uid_dn ` set es"
  by (auto simp: quiet_def)

lemma reported_noexp: "g_uid_dn g \<notin> x_uid_dn ` set es \<Longrightarrow> reported silent vs es (g # gs) = insert (g_uid_dn g) (reported silent vs es gs)"
  using quiet_uid by (auto simp: reported_def)

lemma reported_noupdate: "x_uid_dn x \<notin> g_uid_dn ` set gs \<Longrightarrow> reported silent vs (x # es) gs = reported silent vs es gs"
  by (auto simp: reported_def quiet_Cons)

lemma reported_both:
  assumes "g_uid_dn g = x_uid_dn x"
  shows "reported silent vs (x # es) (g # gs) \<subseteq>
    (if silent \<and> (\<exists>y \<in> set vs. v_uid_dn y = x_uid_dn x \<and> x_flags x = v_flags y) then reported silent vs es gs else insert (x_uid_dn x) (reported silent vs es gs))"
  using assms by (auto simp: reported_def quiet_Cons)

lemma store_loop_ok:
  assumes v: "utree_ok v_uid_dn (dn_views dn)" "nodes (dn_views dn) = vs @ ns" "length (nodes (dn_views dn)) < 2 ^ 32"
    and "g_uid_dn ` set gs \<subseteq> v_uid_dn ` set vs" "x_uid_dn ` set es \<subseteq> v_uid_dn ` set vs"
    and "sorted_wrt (<) (map g_uid_dn gs)" "sorted_wrt (<) (map x_uid_dn es)" "list_all2 (stale (reported (store_silent dn) vs es gs \<union> X)) c vs"
  shows "\<exists>rs c'. store_fetch_loop all_built dn es gs out = (E_NONE, out @ rs) \<and> hear_all rs c = Some c' \<and> list_all2 (stale X) c' vs"
  using assms(4-8)
proof (induction "length es + length gs" arbitrary: es gs c out rule: less_induct)
  case less
  let ?R = "reported (store_silent dn) vs"
  note st = store_rounds [OF v]
  have noexp: ?case if gs: "gs = g # gs'" and n: "g_uid_dn g \<notin> x_uid_dn ` set es"
    and eq: "store_fetch_loop all_built dn es gs out = ifok (send_store_resp_noexp all_built dn (g_uid_dn g) out) (store_fetch_loop all_built dn es gs') id" for g gs'
    unfolding eq
  proof (rule round_then [OF st(1) less.prems(5)])
    show "g_uid_dn g \<in> v_uid_dn ` set vs" using less.prems(1) gs by simp
    show "?R es gs \<union> X \<subseteq> (if True then insert (g_uid_dn g) (?R es gs' \<union> X) else ?R es gs' \<union> X)" using reported_noexp [OF n] gs by auto
    fix c out assume "list_all2 (stale (?R es gs' \<union> X)) c vs"
    then show "\<exists>rs c'. store_fetch_loop all_built dn es gs' out = (E_NONE, out @ rs) \<and> hear_all rs c = Some c' \<and> list_all2 (stale X) c' vs"
      using less.hyps [of es gs'] less.prems(1-4) gs by simp
  qed
  have noupdate: ?case if es: "es = x # es'" and n: "x_uid_dn x \<notin> g_uid_dn ` set gs"
    and eq: "store_fetch_loop all_built dn es gs out = ifok (send_store_resp_noupdate all_built dn x out) (store_fetch_loop all_built dn es' gs) id" for x es'
    unfolding eq
  proof (rule round_then [OF st(2) less.prems(5)])
    show "x_uid_dn x \<in> v_uid_dn ` set vs" using less.prems(2) es by simp
    show "?R es gs \<union> X \<subseteq> (if False then insert (x_uid_dn x) (?R es' gs \<union> X) else ?R es' gs \<union> X)" using reported_noupdate [OF n] es by auto
    fix c out assume "list_all2 (stale (?R es' gs \<union> X)) c vs"
    then show "\<exists>rs c'. store_fetch_loop all_built dn es' gs out = (E_NONE, out @ rs) \<and> hear_all rs c = Some c' \<and> list_all2 (stale X) c' vs"
      using less.hyps [of es' gs] less.prems(1-4) es by simp
  qed
  consider "es = []" "gs = []" | g gs' where "es = []" "gs = g # gs'" | x es' where "es = x # es'" "gs = []" | x es' g gs' where "es = x # es'" "gs = g # gs'"
    by (metis list.exhaust)
  then show ?case
  proof cases
    case 1
    then show ?thesis using less.prems(5) by (simp add: reported_def)
  next
    case 2
    then show ?thesis by (intro noexp) simp_all
  next
    case 3
    then show ?thesis by (intro noupdate) simp_all
  next
    case (4 x es' g gs')
    consider "x_uid_dn x > g_uid_dn g" | "g_uid_dn g > x_uid_dn x" | "g_uid_dn g = x_uid_dn x" by (meson linorder_less_linear)
    then show ?thesis
    proof cases
      case 1
      then show ?thesis using 4 less.prems(4) by (intro noexp [OF 4(2)]) auto
    next
      case 2
      then show ?thesis using 4 less.prems(3) by (intro noupdate [OF 4(1)]) auto
    next
      case 3
      let ?tells = "\<not> (store_silent dn \<and> (\<exists>y \<in> set vs. v_uid_dn y = x_uid_dn x \<and> x_flags x = v_flags y))"
      have eq: "store_fetch_loop all_built dn es gs out = ifok (send_store_resp_expupdate all_built dn x out) (store_fetch_loop all_built dn es' gs') id" using 3 4 by simp
      show ?thesis unfolding eq
      proof (rule round_then [OF st(3) [of x ?tells] less.prems(5)])
        show "x_uid_dn x \<in> v_uid_dn ` set vs" using less.prems(2) 4 by simp
        show "?R es gs \<union> X \<subseteq> (if ?tells then insert (x_uid_dn x) (?R es' gs' \<union> X) else ?R es' gs' \<union> X)"
          using reported_both [OF 3, of "store_silent dn" vs es' gs'] unfolding 4 by (cases ?tells) auto
        fix c out assume "list_all2 (stale (?R es' gs' \<union> X)) c vs"
        then show "\<exists>rs c'. store_fetch_loop all_built dn es' gs' out = (E_NONE, out @ rs) \<and> hear_all rs c = Some c' \<and> list_all2 (stale X) c' vs"
          using less.hyps [of es' gs'] less.prems(1-4) 4 by simp
      qed simp
    qed
  qed
qed

text \<open>
  What the client believes while it waits for a \<open>STORE\<close>: it knows the flags of the view, and if the
  command was silent it takes the flags it asked for as given.
\<close>

definition awaits :: "bool \<Rightarrow> exp_flags list \<Rightarrow> u32 option \<times> msg_flags option \<Rightarrow> msg_view \<Rightarrow> bool" where
  "awaits silent es p y \<longleftrightarrow> right_uid p y \<and>
     (if silent \<and> v_uid_dn y \<in> x_uid_dn ` set es then \<exists>x \<in> set es. x_uid_dn x = v_uid_dn y \<and> snd p \<in> {None, Some (x_flags x)}
      else snd p \<in> {None, Some (v_flags y)})"

lemma awaited:
  assumes g: "gathered_ok vs N X ws dn g" and c: "list_all2 (awaits silent es) c vs" and es: "distinct (map x_uid_dn es)"
    and u: "\<forall>x \<in> set es. \<forall>y \<in> set vs. silent \<and> v_uid_dn y = x_uid_dn x \<longrightarrow> v_flags y = x_flags x \<or> x_uid_dn x \<in> g_uid_dn ` set (nodes (g_metas g))"
    and gs: "g_uid_dn ` set gs = g_uid_dn ` set (nodes (g_metas g)) - set N - X"
  shows "list_all2 (stale (reported silent (take (length vs) ws) es gs \<union> X)) c (take (length vs) ws)"
proof (rule list_all2_all_nthI)
  note G = g [unfolded gathered_ok_def]
  have l: "length c = length vs" using c by (rule list_all2_lengthD)
  then show "length c = length (take (length vs) ws)" using take_old_length [OF g] by simp
  fix i assume "i < length c"
  then have i: "i < length vs" using l by simp
  let ?y = "ws ! i" and ?p = "c ! i" and ?vs = "take (length vs) ws"
  note o = old_message [OF g i]
  note y = o(2) and uid = o(3) and n = o(4)
  have same: "?y = vs ! i" if "v_uid_dn ?y \<notin> g_uid_dn ` set (nodes (g_metas g))" using o(5) that by blast
  have r: "awaits silent es ?p (vs ! i)" using c i l by (simp add: list_all2_conv_all_nth)
  then have ru: "right_uid ?p ?y" using uid by (simp add: awaits_def right_uid_def)
  show "stale (reported silent ?vs es gs \<union> X) ?p (?vs ! i)"
  proof (cases "silent \<and> v_uid_dn ?y \<in> x_uid_dn ` set es")
    case True
    then obtain x where x: "x \<in> set es" "x_uid_dn x = v_uid_dn ?y" "snd ?p \<in> {None, Some (x_flags x)}" using r uid by (auto simp: awaits_def)
    show ?thesis
    proof (cases "x_flags x = v_flags ?y")
      case t: True
      then have "right ?p ?y" using ru x(3) by (simp add: right_def)
      then show ?thesis using i by (simp add: stale_def)
    next
      case f: False
      have q: "\<not> quiet silent ?vs es (v_uid_dn ?y)"
      proof
        assume "quiet silent ?vs es (v_uid_dn ?y)"
        then obtain x' y' where x': "x' \<in> set es" "x_uid_dn x' = v_uid_dn ?y" "y' \<in> set ?vs" "v_uid_dn y' = v_uid_dn ?y" "x_flags x' = v_flags y'" by (auto simp: quiet_def)
        have "x' = x" using x' x es by (metis distinct_map inj_onD)
        moreover have "y' = ?y" using x'(3,4) y G utree_distinct(1) by (metis distinct_map in_set_takeD inj_onD)
        ultimately show False using x'(5) f by simp
      qed
      have "v_uid_dn ?y \<in> g_uid_dn ` set (nodes (g_metas g))"
      proof (rule ccontr)
        assume m: "v_uid_dn ?y \<notin> g_uid_dn ` set (nodes (g_metas g))"
        then have "v_flags (vs ! i) = x_flags x" using u x(1,2) uid i True by (metis nth_mem)
        then show False using f same [OF m] by simp
      qed
      then have "v_uid_dn ?y \<in> reported silent ?vs es gs \<union> X" using q n gs by (auto simp: reported_def)
      then show ?thesis using ru i by (simp add: stale_def)
    qed
  next
    case False
    then have s: "snd ?p \<in> {None, Some (v_flags (vs ! i))}" using r uid by (auto simp: awaits_def split: if_splits)
    show ?thesis
    proof (cases "v_uid_dn ?y \<in> g_uid_dn ` set (nodes (g_metas g))")
      case True
      have "\<not> quiet silent ?vs es (v_uid_dn ?y)" using False quiet_uid by blast
      then have "v_uid_dn ?y \<in> reported silent ?vs es gs \<union> X" using True n gs by (auto simp: reported_def)
      then show ?thesis using ru i by (simp add: stale_def)
    next
      case m: False
      have "right ?p ?y" using s ru same [OF m] by (simp add: right_def)
      then show ?thesis using i by (simp add: stale_def)
    qed
  qed
qed

lemma gather_send_store_ok:
  assumes g: "gathered_ok vs N X ws dn g" and x: "X \<subseteq> v_uid_dn ` set vs" and w: "length ws < 2 ^ 32"
    and t: "utree_ok x_uid_dn (store_tree dn)" "x_uid_dn ` set (nodes (store_tree dn)) \<subseteq> v_uid_dn ` set vs"
    and c: "list_all2 (awaits (store_silent dn) (nodes (store_tree dn))) c vs"
    and u: "\<forall>x \<in> set (nodes (store_tree dn)). \<forall>y \<in> set vs. store_silent dn \<and> v_uid_dn y = x_uid_dn x \<longrightarrow>
      v_flags y = x_flags x \<or> x_uid_dn x \<in> g_uid_dn ` set (nodes (g_metas g))"
  shows "\<exists>dn' rs c'. gather_send_responses all_built uid_mode True dn g out = (E_NONE, dn', out @ rs) \<and> hear_all rs c = Some c' \<and> mirrors c' (dn_views dn') \<and>
    utree_ok v_uid_dn (dn_views dn') \<and> nodes (dn_views dn') = filter (\<lambda>y. v_uid_dn y \<notin> X) ws \<and> same_session dn dn' \<and> dn_pending_updates dn' = dn_pending_updates dn"
proof -
  note G = g [unfolded gathered_ok_def]
  let ?vs = "take (length vs) ws" and ?ns = "drop (length vs) ws" and ?g = "forget_new (forget_expunged g)" and ?es = "nodes (store_tree dn)"
  note f = forgotten [OF g x]
  have io: "in_order (g_metas ?g) = nodes (g_metas ?g)" "in_order (store_tree dn) = ?es" using in_order_nodes f(3) t(1) by blast+
  have n: "utree_ok v_uid_dn (dn_views dn)" "nodes (dn_views dn) = ?vs @ ?ns" "length (nodes (dn_views dn)) < 2 ^ 32" using G w by auto
  have st: "list_all2 (stale (reported (store_silent dn) ?vs ?es (nodes (g_metas ?g)) \<union> X)) c ?vs"
    by (rule awaited [OF g c utree_distinct(1) [OF t(1)] u f(4)])
  have mo: "g_uid_dn ` set (nodes (g_metas ?g)) \<subseteq> v_uid_dn ` set ?vs" using metas_old [OF g] unfolding f(4) .
  have "map v_uid_dn ?vs = map v_uid_dn vs" using G by (simp add: take_map [symmetric])
  from arg_cong [OF this, of set] have eo: "x_uid_dn ` set ?es \<subseteq> v_uid_dn ` set ?vs" using t(2) by (simp only: set_map)
  have so: "sorted_wrt (<) (map g_uid_dn (nodes (g_metas ?g)))" "sorted_wrt (<) (map x_uid_dn ?es)"
    using utree_sorted utree_distinct(1) f(3) t(1) by (auto simp: strict_sorted_iff)
  from store_loop_ok [OF n mo eo so st, of "[]"] obtain rs1 c1 where
    m: "store_fetch_loop all_built dn ?es (nodes (g_metas ?g)) [] = (E_NONE, rs1)" "hear_all rs1 c = Some c1" "list_all2 (stale X) c1 ?vs" by auto
  show ?thesis by (rule gather_send_rest [OF g x w _ m(2,3)]) (simp add: send_store_fetch_resps_def io m(1))
qed

section \<open>A whole batch\<close>

text \<open>The part of the view's well-formedness that the trees carry.\<close>

lemma views_utree: "views_ok views \<longleftrightarrow> utree_ok v_uid_dn views \<and> 0 \<notin> set (uids views) \<and> length (uids views) < 2 ^ 32"
  by (auto simp: views_ok_def utree_ok_def uids_def)

lemma gather_start:
  assumes "views_ok (dn_views dn)" "updates_ok allow (dn_views dn) (batch (dn_pending_updates dn))" "want = (\<exists>u \<in> set (dn_pending_updates dn). is_sync u)"
  shows "\<exists>dn' g. gather_updates_dont_send alloc_ok allow want dn gather_prep = Some (E_NONE, sync_status (dn_pending_updates dn), dn', g) \<and>
    gathered_ok (nodes (dn_views dn)) (new_uids (batch (dn_pending_updates dn))) (removable allow (batch (dn_pending_updates dn)))
      (absorb (batch (dn_pending_updates dn)) (nodes (dn_views dn))) dn' g \<and>
    dn_pending_updates dn' = left_over allow (dn_pending_updates dn) \<and> same_session dn dn'"
proof -
  have "gathered_ok (nodes (dn_views dn)) [] {} (nodes (dn_views dn)) dn gather_prep"
    using assms(1) utree_init by (auto simp: gathered_ok_def gather_prep_def views_utree)
  from gather_loop_ok [OF this, of "dn_pending_updates dn" allow want "[]"] assms(2,3) obtain dn' g where
    "gather_loop alloc_ok allow want [] (dn_pending_updates dn) (dn, gather_prep) = Some (E_NONE, sync_status (dn_pending_updates dn), dn', g)"
    "gathered_ok (nodes (dn_views dn)) (new_uids (batch (dn_pending_updates dn))) (removable allow (batch (dn_pending_updates dn)))
      (absorb (batch (dn_pending_updates dn)) (nodes (dn_views dn))) dn' g"
    "dn_pending_updates dn' = left_over allow (dn_pending_updates dn)" "same_session dn dn'" by (auto simp: updates_ok_def uids_def)
  then show ?thesis by (simp add: gather_updates_dont_send_def)
qed

lemma absorb_uids: "map v_uid_dn (absorb us vs) = map v_uid_dn vs @ new_uids us"
proof (induction us vs rule: absorb.induct)
  case (3 v us vs)
  have "map v_uid_dn (map (\<lambda>y. if v_uid_dn y = v_uid_dn v then v else y) vs) = map v_uid_dn vs" by simp
  with 3 show ?case by (simp del: map_map)
qed simp_all

lemma batch_after:
  assumes v: "views_ok (dn_views dn)" and u: "updates_ok allow (dn_views dn) (batch (dn_pending_updates dn))"
  shows "length (absorb (batch (dn_pending_updates dn)) (nodes (dn_views dn))) < 2 ^ 32" "removable allow (batch (dn_pending_updates dn)) \<subseteq> v_uid_dn ` set (nodes (dn_views dn))"
    "utree_ok v_uid_dn views \<Longrightarrow> nodes views = filter P (absorb (batch (dn_pending_updates dn)) (nodes (dn_views dn))) \<Longrightarrow> views_ok views"
proof -
  let ?ws = "absorb (batch (dn_pending_updates dn)) (nodes (dn_views dn))"
  have "length (map v_uid_dn ?ws) < 2 ^ 32" unfolding absorb_uids using u by (simp add: updates_ok_def uids_def)
  then show w: "length ?ws < 2 ^ 32" by simp
  show "removable allow (batch (dn_pending_updates dn)) \<subseteq> v_uid_dn ` set (nodes (dn_views dn))" using u by (auto simp: updates_ok_def removable_def uids_def)
  assume n: "utree_ok v_uid_dn views" "nodes views = filter P ?ws"
  have sub: "set (uids views) \<subseteq> set (map v_uid_dn ?ws)" "length (uids views) \<le> length ?ws" unfolding uids_def n(2) by auto
  have "0 \<notin> set (map v_uid_dn ?ws)" unfolding absorb_uids using v u by (auto simp: views_ok_def updates_ok_def uids_def)
  then show "views_ok views" using n(1) sub w by (auto simp: views_utree)
qed

lemma gather_mirror:
  assumes "dn_m dn" "views_ok (dn_views dn)" "mirrors c (dn_views dn)" "updates_ok allow (dn_views dn) (batch (dn_pending_updates dn))"
    "want = (\<exists>u \<in> set (dn_pending_updates dn). is_sync u)"
  shows "\<exists>dn' rs c'. dn_gather_updates alloc_ok all_built allow uid_mode want dn out = Some (E_NONE, sync_status (dn_pending_updates dn), dn', out @ rs) \<and>
    nodes (dn_views dn') = filter (\<lambda>y. v_uid_dn y \<notin> removable allow (batch (dn_pending_updates dn))) (absorb (batch (dn_pending_updates dn)) (nodes (dn_views dn))) \<and>
    hear_all rs c = Some c' \<and> mirrors c' (dn_views dn') \<and> views_ok (dn_views dn') \<and> dn_pending_updates dn' = left_over allow (dn_pending_updates dn) \<and> same_session dn dn'"
proof -
  let ?us = "dn_pending_updates dn" and ?vs = "nodes (dn_views dn)"
  let ?X = "removable allow (batch ?us)" and ?ws = "absorb (batch ?us) ?vs" and ?N = "new_uids (batch ?us)"
  from gather_start [OF assms(2,4,5)] obtain dn1 g where s: "gather_updates_dont_send alloc_ok allow want dn gather_prep = Some (E_NONE, sync_status ?us, dn1, g)"
    "gathered_ok ?vs ?N ?X ?ws dn1 g" "dn_pending_updates dn1 = left_over allow ?us" "same_session dn dn1" by blast
  note b = batch_after [OF assms(2,4)]
  from gather_send_ok [OF s(2) b(2,1), of c uid_mode out] assms(3) obtain dn' rs c' where
    e: "gather_send_responses all_built uid_mode False dn1 g out = (E_NONE, dn', out @ rs)" "hear_all rs c = Some c'" "mirrors c' (dn_views dn')"
    "utree_ok v_uid_dn (dn_views dn')" "nodes (dn_views dn') = filter (\<lambda>y. v_uid_dn y \<notin> ?X) ?ws" "same_session dn1 dn'" "dn_pending_updates dn' = dn_pending_updates dn1"
    by (auto simp: mirrors_def)
  have "views_ok (dn_views dn')" by (rule b(3) [OF e(4,5)])
  moreover have "dn_gather_updates alloc_ok all_built allow uid_mode want dn out = Some (E_NONE, sync_status ?us, dn', out @ rs)"
    using s(1) e(1) assms(1) by (simp add: dn_gather_updates_def healthcheck_def)
  ultimately show ?thesis using e s(3) same_session_trans [OF s(4) e(6)] by auto
qed

section \<open>Properties\<close>

text \<open>
  C8. The client's picture stays right.  Let the client believe of its mailbox what the view of its connection
  says, as far as it has been told, and let the updates of a batch add messages with ascending UIDs and
  expunge only messages that the client knows.  Then gathering the batch succeeds; the view becomes
  what the updates make of it; every untagged response sent makes sense to the client (none
  names a message it does not know, the message count never shrinks); and having heard them in order
  the client again believes exactly what the view says.  Expunges that the command does not allow, and
  updates after the barrier of an asynchronous command, are left for later.
\<close>

theorem dn_gather_mirror:
  assumes "dn_m dn" "views_ok (dn_views dn)" "mirrors c (dn_views dn)" "updates_ok allow (dn_views dn) (batch (dn_pending_updates dn))"
    "want = (\<exists>u \<in> set (dn_pending_updates dn). is_sync u)"
  shows "\<exists>dn' rs c'. dn_gather_updates alloc_ok all_built allow uid_mode want dn out = Some (E_NONE, sync_status (dn_pending_updates dn), dn', out @ rs) \<and>
    nodes (dn_views dn') = filter (\<lambda>y. v_uid_dn y \<notin> removable allow (batch (dn_pending_updates dn))) (absorb (batch (dn_pending_updates dn)) (nodes (dn_views dn))) \<and>
    hear_all rs c = Some c' \<and> mirrors c' (dn_views dn') \<and> views_ok (dn_views dn') \<and> dn_pending_updates dn' = left_over allow (dn_pending_updates dn) \<and> same_session dn dn'"
  by (rule gather_mirror [OF assms])

text \<open>Code equations that compare with \<open>UINT_MAX\<close> as integers.\<close>

lemma index_to_seq_num_code [code]:
  "index_to_seq_num i = (if 4294967295 \<le> int i then (E_INTERNAL, 0) else (E_NONE, word_of_int (int i + 1)))"
  by (simp add: index_to_seq_num_def)

lemma send_exists_resp_code [code]:
  "send_exists_resp build dn out = (if 4294967295 < int (asize (dn_views dn)) then (E_VALUE, out)
     else emit build (IMAP_RESP_EXISTS (word_of_int (int (asize (dn_views dn))))) out)"
  by (simp add: send_exists_resp_def)

text \<open>A view of two messages, and a message with given flags.\<close>

definition plain_view :: "u32 \<Rightarrow> msg_flags \<Rightarrow> msg_view" where
  "plain_view uid fl = \<lparr>v_key = \<lparr>uid_up = uid, uid_local = 0\<rparr>, v_uid_dn = uid, v_length = 20,
     v_internaldate = \<lparr>year = 2023, month = 5, day = 6, hour = 7, tmin = 8, sec = 9, z_hour = 0, z_min = 0\<rparr>, v_flags = fl\<rparr>"

definition two_views :: views where
  "two_views = jsw_ainsert (jsw_ainsert (jsw_ainit jsw_cmp_uint v_uid_dn) (plain_view 3 no_flags)) (plain_view 5 no_flags)"

definition two_dn :: "update list \<Rightarrow> dn" where
  "two_dn us = (dn_init False)\<lparr>dn_views := two_views, dn_pending_updates := us\<rparr>"

lemma two_views_nodes: "nodes two_views = [plain_view 3 no_flags, plain_view 5 no_flags]" and two_views_utree: "utree_ok v_uid_dn two_views"
proof -
  let ?t = "jsw_ainit jsw_cmp_uint v_uid_dn" and ?x = "plain_view 3 no_flags" and ?y = "plain_view 5 no_flags"
  have t: "utree_ok v_uid_dn ?t" "nodes ?t = []" using utree_init by blast+
  have x: "utree_ok v_uid_dn (jsw_ainsert ?t ?x)" "nodes (jsw_ainsert ?t ?x) = [?x]"
    using utree_insert(1) [OF t(1), of ?x] utree_insert_last [OF t(1), of ?x] by (simp_all add: t(2))
  have y: "\<forall>z \<in> set (nodes (jsw_ainsert ?t ?x)). v_uid_dn z < v_uid_dn ?y" using x(2) by (simp add: plain_view_def)
  show "nodes two_views = [?x, ?y]" using utree_insert_last [OF x(1) y] x(2) by (simp add: two_views_def)
  show "utree_ok v_uid_dn two_views" unfolding two_views_def by (rule utree_insert(1) [OF x(1)]) (use x(2) in \<open>simp add: plain_view_def\<close>)
qed

lemma two_views_ok: "views_ok two_views" and two_views_uids: "uids two_views = [3, 5]"
  by (simp_all add: views_utree two_views_utree uids_def two_views_nodes plain_view_def)

definition gone :: "u32 \<Rightarrow> msg_expunge" where
  "gone uid = \<lparr>ekey = \<lparr>uid_up = uid, uid_local = 0\<rparr>, euid_dn = uid, estate = MSG_EXPUNGE_PUSHED, emodseq = 1\<rparr>"

theorem dn_gather_mirror_witness:
  "\<exists>dn' rs c'. dn_gather_updates alloc_ok all_built True False False
      (two_dn [UPDATE_META (plain_view 5 (no_flags\<lparr>seen := True\<rparr>)), UPDATE_NEW (plain_view 9 no_flags), UPDATE_EXPUNGE (gone 3)]) [] =
      Some (E_NONE, None, dn', rs) \<and> uids (dn_views dn') = [5, 9] \<and> hear_all rs [(None, Some no_flags), (Some 5, None)] = Some c' \<and> mirrors c' (dn_views dn')"
proof -
  let ?us = "[UPDATE_META (plain_view 5 (no_flags\<lparr>seen := True\<rparr>)), UPDATE_NEW (plain_view 9 no_flags), UPDATE_EXPUNGE (gone 3)]"
  have "mirrors [(None, Some no_flags), (Some 5, None)] two_views"
    by (simp add: mirrors_def two_views_nodes right_def right_uid_def plain_view_def)
  moreover have "updates_ok True two_views (batch ?us)" by (simp add: updates_ok_def batch_def two_views_uids plain_view_def gone_def)
  ultimately have "\<exists>dn' rs c'. dn_gather_updates alloc_ok all_built True False False (two_dn ?us) [] = Some (E_NONE, sync_status ?us, dn', [] @ rs) \<and>
    nodes (dn_views dn') = filter (\<lambda>y. v_uid_dn y \<notin> removable True (batch ?us)) (absorb (batch ?us) (nodes two_views)) \<and>
    hear_all rs [(None, Some no_flags), (Some 5, None)] = Some c' \<and> mirrors c' (dn_views dn')"
    using dn_gather_mirror [of "two_dn ?us" "[(None, Some no_flags), (Some 5, None)]" True False False "[]"] two_views_ok
    by (fastforce simp: two_dn_def dn_init_def)
  then show ?thesis by (fastforce simp: uids_def two_views_nodes removable_def batch_def plain_view_def gone_def)
qed

end
