(* ===== verification/Dn_Search.thy ===== *)
theory Dn_Search
  imports Dn_View Dstr_Search "HOL-Library.Product_Lexorder" "HOL-Library.Monad_Syntax"
begin

text \<open>
  Searching (\<open>src/libimaildir/search.c\<close>): whether a message matches a search key.  The keys are those of
  \<open>src/libimap/expression.h\<close>, and the parsed message is that of \<open>imf.h\<close>, with its headers and its body as offsets
  into the buffer it was read into.  The message is loaded lazily: \<open>get_hdrs\<close> and \<open>get_imf\<close> are the closures
  the search is given, which are idempotent, and \<open>sa_parse_date\<close> is the generated parser of dates.  \<open>None\<close> stands for
  a search that never returns.
\<close>

section \<open>Search keys and messages\<close>

datatype ie_entry_type = IE_ENTRY_PRIV | IE_ENTRY_SHARED | IE_ENTRY_ALL

record ie_search_modseq =
  sm_ext :: "(dstr \<times> ie_entry_type) option"
  sm_modseq :: u64

datatype (plugins only: code size) ie_search_key =
    IE_SEARCH_ALL
  | IE_SEARCH_ANSWERED | IE_SEARCH_DELETED | IE_SEARCH_FLAGGED | IE_SEARCH_NEW | IE_SEARCH_OLD | IE_SEARCH_RECENT | IE_SEARCH_SEEN
  | IE_SEARCH_UNANSWERED | IE_SEARCH_UNDELETED | IE_SEARCH_UNFLAGGED | IE_SEARCH_UNSEEN | IE_SEARCH_DRAFT | IE_SEARCH_UNDRAFT
  | IE_SEARCH_SUBJECT dstr | IE_SEARCH_BCC dstr | IE_SEARCH_BODY dstr | IE_SEARCH_CC dstr | IE_SEARCH_FROM dstr
  | IE_SEARCH_KEYWORD dstr | IE_SEARCH_TEXT dstr | IE_SEARCH_TO dstr | IE_SEARCH_UNKEYWORD dstr | IE_SEARCH_HEADER dstr dstr
  | IE_SEARCH_BEFORE imap_time | IE_SEARCH_ON imap_time | IE_SEARCH_SINCE imap_time
  | IE_SEARCH_SENTBEFORE imap_time | IE_SEARCH_SENTON imap_time | IE_SEARCH_SENTSINCE imap_time
  | IE_SEARCH_LARGER u32 | IE_SEARCH_SMALLER u32
  | IE_SEARCH_UID seq_set | IE_SEARCH_SEQ_SET seq_set
  | IE_SEARCH_NOT ie_search_key | IE_SEARCH_GROUP ie_search_key
  | IE_SEARCH_OR ie_search_key ie_search_key | IE_SEARCH_AND ie_search_key ie_search_key
  | IE_SEARCH_MODSEQ ie_search_modseq

record dstr_off =
  off_buf :: "dstr option"
  off_start :: nat
  off_len :: nat

definition dstr_from_off :: "dstr_off \<Rightarrow> dstr" where
  "dstr_from_off off = (case off_buf off of None \<Rightarrow> zero_dstr | Some buf \<Rightarrow> dstr_sub2 buf (off_start off) (off_start off + off_len off))"

record imf_hdr =
  hdr_bytes :: dstr_off
  hdr_name :: dstr_off
  hdr_value :: dstr_off

record imf_hdrs =
  hdrs_bytes :: dstr_off
  hdrs_sep :: dstr_off
  hdrs_hdr :: "imf_hdr list"

record imf =
  imf_bytes :: dstr_off
  imf_hdrs :: imf_hdrs
  imf_body :: dstr_off

record search_args =
  sa_view :: msg_view
  sa_seq :: u32
  sa_seq_max :: u32
  sa_uid_dn_max :: u32
  sa_get_hdrs :: "derr_type + imf_hdrs"
  sa_get_imf :: "derr_type + imf"
  sa_parse_date :: "dstr \<Rightarrow> derr_type + imap_time"

section \<open>Evaluation\<close>

fun in_seq_set :: "u32 \<Rightarrow> seq_set \<Rightarrow> u32 \<Rightarrow> bool" where
  "in_seq_set val [] mx = False"
| "in_seq_set val ((a, b) # rest) mx =
     (let n1 = (if a \<noteq> 0 then a else mx); n2 = (if b \<noteq> 0 then b else mx)
      in if min n1 n2 \<le> val \<and> val \<le> max n1 n2 then True else in_seq_set val rest mx)"

fun find_hdr :: "dstr \<Rightarrow> imf_hdr list \<Rightarrow> dstr" where
  "find_hdr name [] = zero_dstr"
| "find_hdr name (hdr # hdrs) =
     (if dstr_icmp (dstr_from_off (hdr_name hdr)) name = 0 then dstr_from_off (hdr_value hdr) else find_hdr name hdrs)"

text \<open>Headers that cannot be parsed are headers without a match.\<close>

definition find_header :: "search_args \<Rightarrow> dstr \<Rightarrow> derr_type \<times> dstr" where
  "find_header args name = (case sa_get_hdrs args of Inl e \<Rightarrow> (E_NONE, zero_dstr) | Inr hdrs \<Rightarrow> (E_NONE, find_hdr name (hdrs_hdr hdrs)))"

definition icontained :: "dstr \<Rightarrow> dstr \<Rightarrow> (derr_type \<times> bool) option" where
  "icontained text pat = map_option (\<lambda>n. (E_NONE, n > 0)) (dstr_icount2 text pat)"

definition search_headers :: "search_args \<Rightarrow> dstr \<Rightarrow> dstr \<Rightarrow> (derr_type \<times> bool) option" where
  "search_headers args name val =
     (case find_header args name of (e, hvalue) \<Rightarrow>
        if e \<noteq> E_NONE then Some (e, False) else if dnull hvalue then Some (E_NONE, False) else icontained hvalue val)"

definition zero_time :: imap_time where
  "zero_time = \<lparr>year = 0, month = 0, day = 0, hour = 0, tmin = 0, sec = 0, z_hour = 0, z_min = 0\<rparr>"

definition DSTR_LIT :: "string \<Rightarrow> dstr" where
  "DSTR_LIT s = dstr_wrap (lit s) True"

definition search_parse_date :: "search_args \<Rightarrow> derr_type \<times> imap_time" where
  "search_parse_date args =
     (case find_header args (DSTR_LIT ''Date'') of (e, hvalue) \<Rightarrow>
        if e \<noteq> E_NONE then (e, zero_time) else if dnull hvalue then (E_NONE, zero_time)
        else case sa_parse_date args hvalue of Inl _ \<Rightarrow> (E_NONE, zero_time) | Inr t \<Rightarrow> (E_NONE, t))"

definition date_a_is_on_b :: "imap_time \<Rightarrow> imap_time \<Rightarrow> bool" where
  "date_a_is_on_b a b \<longleftrightarrow> year a = year b \<and> month a = month b \<and> day a = day b"

definition date_a_is_before_b :: "imap_time \<Rightarrow> imap_time \<Rightarrow> bool" where
  "date_a_is_before_b a b =
     (if year a < year b then True else if year a > year b then False
      else if month a < month b then True else if month a > month b then False else day a < day b)"

definition date_a_is_since_b :: "imap_time \<Rightarrow> imap_time \<Rightarrow> bool" where
  "date_a_is_since_b a b =
     (if year a > year b then True else if year a < year b then False
      else if month a > month b then True else if month a < month b then False else day a \<ge> day b)"

definition search_body :: "search_args \<Rightarrow> dstr \<Rightarrow> (derr_type \<times> bool) option" where
  "search_body args tgt = (case sa_get_imf args of Inl _ \<Rightarrow> Some (E_NONE, False) | Inr imf \<Rightarrow> icontained (dstr_from_off (imf_body imf)) tgt)"

text \<open>The headers first, and then only what a match in the headers cannot have seen.\<close>

definition search_text :: "search_args \<Rightarrow> dstr \<Rightarrow> (derr_type \<times> bool) option" where
  "search_text args tgt =
     (case sa_get_hdrs args of
        Inl _ \<Rightarrow> Some (E_NONE, False)
      | Inr hdrs \<Rightarrow>
          (case icontained (dstr_from_off (hdrs_bytes hdrs)) tgt of
             None \<Rightarrow> None
           | Some (e, b) \<Rightarrow>
               if b then Some (E_NONE, True)
               else let hdrs_end = off_start (hdrs_bytes hdrs) + off_len (hdrs_bytes hdrs) in
                 (case sa_get_imf args of
                    Inl _ \<Rightarrow> Some (E_NONE, False)
                  | Inr imf \<Rightarrow>
                      let start = hdrs_end - min hdrs_end (dlen tgt);
                          stop = off_start (imf_bytes imf) + off_len (imf_bytes imf)
                      in icontained (dstr_sub2 (dstr_from_off (imf_bytes imf)) start stop) tgt)))"

definition sent :: "(imap_time \<Rightarrow> imap_time \<Rightarrow> bool) \<Rightarrow> search_args \<Rightarrow> imap_time \<Rightarrow> (derr_type \<times> bool) option" where
  "sent rel args d = (case search_parse_date args of (e, date) \<Rightarrow> if e \<noteq> E_NONE then Some (e, False) else Some (E_NONE, year date \<noteq> 0 \<and> rel date d))"

definition both :: "(bool \<Rightarrow> bool \<Rightarrow> bool) \<Rightarrow> (derr_type \<times> bool) option \<Rightarrow> (derr_type \<times> bool) option \<Rightarrow> (derr_type \<times> bool) option" where
  "both f x y = do { (e, a) \<leftarrow> x; if e \<noteq> E_NONE then Some (e, False) else do { (e, b) \<leftarrow> y; if e \<noteq> E_NONE then Some (e, False) else Some (E_NONE, f a b) } }"

fun do_eval :: "search_args \<Rightarrow> nat \<Rightarrow> ie_search_key \<Rightarrow> (derr_type \<times> bool) option" where
  "do_eval args lvl key =
     (if lvl > 1000 then Some (E_NONE, False)
      else let fl = v_flags (sa_view args) in
        case key of
          IE_SEARCH_ALL \<Rightarrow> Some (E_NONE, True)
        | IE_SEARCH_ANSWERED \<Rightarrow> Some (E_NONE, answered fl)
        | IE_SEARCH_UNANSWERED \<Rightarrow> Some (E_NONE, \<not> answered fl)
        | IE_SEARCH_DELETED \<Rightarrow> Some (E_NONE, deleted fl)
        | IE_SEARCH_UNDELETED \<Rightarrow> Some (E_NONE, \<not> deleted fl)
        | IE_SEARCH_FLAGGED \<Rightarrow> Some (E_NONE, flagged fl)
        | IE_SEARCH_UNFLAGGED \<Rightarrow> Some (E_NONE, \<not> flagged fl)
        | IE_SEARCH_SEEN \<Rightarrow> Some (E_NONE, seen fl)
        | IE_SEARCH_UNSEEN \<Rightarrow> Some (E_NONE, \<not> seen fl)
        | IE_SEARCH_DRAFT \<Rightarrow> Some (E_NONE, draft fl)
        | IE_SEARCH_UNDRAFT \<Rightarrow> Some (E_NONE, \<not> draft fl)
        | IE_SEARCH_NEW \<Rightarrow> Some (E_NONE, False)
        | IE_SEARCH_OLD \<Rightarrow> Some (E_NONE, True)
        | IE_SEARCH_RECENT \<Rightarrow> Some (E_NONE, False)
        | IE_SEARCH_NOT k \<Rightarrow> do { (e, temp) \<leftarrow> do_eval args (lvl + 1) k; if e \<noteq> E_NONE then Some (e, False) else Some (E_NONE, \<not> temp) }
        | IE_SEARCH_GROUP k \<Rightarrow> do_eval args (lvl + 1) k
        | IE_SEARCH_OR a b \<Rightarrow> both (\<or>) (do_eval args (lvl + 1) a) (do_eval args (lvl + 1) b)
        | IE_SEARCH_AND a b \<Rightarrow> both (\<and>) (do_eval args (lvl + 1) a) (do_eval args (lvl + 1) b)
        | IE_SEARCH_UID s \<Rightarrow> Some (E_NONE, in_seq_set (v_uid_dn (sa_view args)) s (sa_uid_dn_max args))
        | IE_SEARCH_SEQ_SET s \<Rightarrow> Some (E_NONE, in_seq_set (sa_seq args) s (sa_seq_max args))
        | IE_SEARCH_SUBJECT s \<Rightarrow> search_headers args (DSTR_LIT ''Subject'') s
        | IE_SEARCH_BCC s \<Rightarrow> search_headers args (DSTR_LIT ''Bcc'') s
        | IE_SEARCH_CC s \<Rightarrow> search_headers args (DSTR_LIT ''Cc'') s
        | IE_SEARCH_FROM s \<Rightarrow> search_headers args (DSTR_LIT ''From'') s
        | IE_SEARCH_TO s \<Rightarrow> search_headers args (DSTR_LIT ''To'') s
        | IE_SEARCH_BODY s \<Rightarrow> search_body args s
        | IE_SEARCH_TEXT s \<Rightarrow> search_text args s
        | IE_SEARCH_KEYWORD _ \<Rightarrow> Some (E_NONE, False)
        | IE_SEARCH_UNKEYWORD _ \<Rightarrow> Some (E_NONE, True)
        | IE_SEARCH_HEADER name val \<Rightarrow> search_headers args name val
        | IE_SEARCH_BEFORE d \<Rightarrow> Some (E_NONE, date_a_is_before_b (v_internaldate (sa_view args)) d)
        | IE_SEARCH_ON d \<Rightarrow> Some (E_NONE, date_a_is_on_b (v_internaldate (sa_view args)) d)
        | IE_SEARCH_SINCE d \<Rightarrow> Some (E_NONE, date_a_is_since_b (v_internaldate (sa_view args)) d)
        | IE_SEARCH_SENTBEFORE d \<Rightarrow> sent date_a_is_before_b args d
        | IE_SEARCH_SENTON d \<Rightarrow> sent date_a_is_on_b args d
        | IE_SEARCH_SENTSINCE d \<Rightarrow> sent date_a_is_since_b args d
        | IE_SEARCH_LARGER n \<Rightarrow> Some (E_NONE, v_length (sa_view args) > ucast n)
        | IE_SEARCH_SMALLER n \<Rightarrow> Some (E_NONE, v_length (sa_view args) < ucast n)
        | IE_SEARCH_MODSEQ _ \<Rightarrow> Some (E_INTERNAL, False))"

declare do_eval.simps [simp del]



section \<open>What a key means\<close>

text \<open>
  The meaning of a key for a message, without levels, without lazy loading and without offsets.  Strings are
  compared without regard to the case of ASCII letters.
\<close>

definition occurs :: "byte list \<Rightarrow> byte list \<Rightarrow> bool" where
  "occurs p t \<longleftrightarrow> sublist (map ichar p) (map ichar t)"

definition off_bytes :: "dstr_off \<Rightarrow> byte list" where
  "off_bytes off = (case off_buf off of None \<Rightarrow> [] | Some buf \<Rightarrow> take (off_len off) (drop (off_start off) (ddata buf)))"

definition hdrs_of :: "search_args \<Rightarrow> imf_hdr list" where
  "hdrs_of args = (case sa_get_hdrs args of Inl _ \<Rightarrow> [] | Inr hdrs \<Rightarrow> hdrs_hdr hdrs)"

text \<open>The value of the first header with a name.\<close>

definition header_value :: "search_args \<Rightarrow> byte list \<Rightarrow> dstr_off option" where
  "header_value args name = map_option hdr_value (find (\<lambda>h. map ichar (off_bytes (hdr_name h)) = map ichar name) (hdrs_of args))"

definition has_header :: "search_args \<Rightarrow> byte list \<Rightarrow> byte list \<Rightarrow> bool" where
  "has_header args name val \<longleftrightarrow> (case header_value args name of None \<Rightarrow> False | Some off \<Rightarrow> occurs val (off_bytes off))"

definition sent_on :: "search_args \<Rightarrow> imap_time option" where
  "sent_on args = (case header_value args (lit ''Date'') of None \<Rightarrow> None
     | Some off \<Rightarrow> (case sa_parse_date args (dstr_from_off off) of Inl _ \<Rightarrow> None | Inr t \<Rightarrow> if year t = 0 then None else Some t))"

definition ymd :: "imap_time \<Rightarrow> int \<times> int \<times> int" where
  "ymd t = (year t, month t, day t)"

definition seq_member :: "u32 \<Rightarrow> seq_set \<Rightarrow> u32 \<Rightarrow> bool" where
  "seq_member val s mx \<longleftrightarrow> (\<exists>(a, b) \<in> set s. let a = (if a \<noteq> 0 then a else mx); b = (if b \<noteq> 0 then b else mx) in val \<in> {a .. b} \<union> {b .. a})"

primrec matches :: "search_args \<Rightarrow> ie_search_key \<Rightarrow> bool" where
  "matches args IE_SEARCH_ALL = True"
| "matches args IE_SEARCH_ANSWERED = answered (v_flags (sa_view args))"
| "matches args IE_SEARCH_DELETED = deleted (v_flags (sa_view args))"
| "matches args IE_SEARCH_FLAGGED = flagged (v_flags (sa_view args))"
| "matches args IE_SEARCH_SEEN = seen (v_flags (sa_view args))"
| "matches args IE_SEARCH_DRAFT = draft (v_flags (sa_view args))"
| "matches args IE_SEARCH_UNANSWERED = (\<not> answered (v_flags (sa_view args)))"
| "matches args IE_SEARCH_UNDELETED = (\<not> deleted (v_flags (sa_view args)))"
| "matches args IE_SEARCH_UNFLAGGED = (\<not> flagged (v_flags (sa_view args)))"
| "matches args IE_SEARCH_UNSEEN = (\<not> seen (v_flags (sa_view args)))"
| "matches args IE_SEARCH_UNDRAFT = (\<not> draft (v_flags (sa_view args)))"
| "matches args IE_SEARCH_NEW = False"
| "matches args IE_SEARCH_OLD = True"
| "matches args IE_SEARCH_RECENT = False"
| "matches args (IE_SEARCH_KEYWORD s) = False"
| "matches args (IE_SEARCH_UNKEYWORD s) = True"
| "matches args (IE_SEARCH_SUBJECT s) = has_header args (lit ''Subject'') (ddata s)"
| "matches args (IE_SEARCH_BCC s) = has_header args (lit ''Bcc'') (ddata s)"
| "matches args (IE_SEARCH_CC s) = has_header args (lit ''Cc'') (ddata s)"
| "matches args (IE_SEARCH_FROM s) = has_header args (lit ''From'') (ddata s)"
| "matches args (IE_SEARCH_TO s) = has_header args (lit ''To'') (ddata s)"
| "matches args (IE_SEARCH_HEADER n s) = has_header args (ddata n) (ddata s)"
| "matches args (IE_SEARCH_BODY s) = (case sa_get_imf args of Inl _ \<Rightarrow> False | Inr imf \<Rightarrow> occurs (ddata s) (off_bytes (imf_body imf)))"
| "matches args (IE_SEARCH_TEXT s) = (case sa_get_hdrs args of Inl _ \<Rightarrow> False | Inr hdrs \<Rightarrow>
     (case sa_get_imf args of Inl _ \<Rightarrow> occurs (ddata s) (off_bytes (hdrs_bytes hdrs)) | Inr imf \<Rightarrow> occurs (ddata s) (off_bytes (imf_bytes imf))))"
| "matches args (IE_SEARCH_BEFORE d) = (ymd (v_internaldate (sa_view args)) < ymd d)"
| "matches args (IE_SEARCH_ON d) = (ymd (v_internaldate (sa_view args)) = ymd d)"
| "matches args (IE_SEARCH_SINCE d) = (ymd d \<le> ymd (v_internaldate (sa_view args)))"
| "matches args (IE_SEARCH_SENTBEFORE d) = (case sent_on args of None \<Rightarrow> False | Some t \<Rightarrow> ymd t < ymd d)"
| "matches args (IE_SEARCH_SENTON d) = (case sent_on args of None \<Rightarrow> False | Some t \<Rightarrow> ymd t = ymd d)"
| "matches args (IE_SEARCH_SENTSINCE d) = (case sent_on args of None \<Rightarrow> False | Some t \<Rightarrow> ymd d \<le> ymd t)"
| "matches args (IE_SEARCH_LARGER n) = (unat n < unat (v_length (sa_view args)))"
| "matches args (IE_SEARCH_SMALLER n) = (unat (v_length (sa_view args)) < unat n)"
| "matches args (IE_SEARCH_UID s) = seq_member (v_uid_dn (sa_view args)) s (sa_uid_dn_max args)"
| "matches args (IE_SEARCH_SEQ_SET s) = seq_member (sa_seq args) s (sa_seq_max args)"
| "matches args (IE_SEARCH_NOT k) = (\<not> matches args k)"
| "matches args (IE_SEARCH_GROUP k) = matches args k"
| "matches args (IE_SEARCH_OR a b) = (matches args a \<or> matches args b)"
| "matches args (IE_SEARCH_AND a b) = (matches args a \<and> matches args b)"
| "matches args (IE_SEARCH_MODSEQ m) = False"



text \<open>
  What the parser of messages promises: headers are given as parts of a buffer, their names have no NUL, and the
  bytes of the headers are the start of the bytes of the message, at the start of the buffer.
\<close>

definition part_ok :: "dstr_off \<Rightarrow> bool" where
  "part_ok off \<longleftrightarrow> (case off_buf off of None \<Rightarrow> False | Some buf \<Rightarrow> \<not> dnull buf \<and> off_start off + off_len off \<le> dlen buf)"

definition message_ok :: "search_args \<Rightarrow> bool" where
  "message_ok args \<longleftrightarrow> list_all (\<lambda>h. part_ok (hdr_name h) \<and> part_ok (hdr_value h) \<and> 0 \<notin> set (off_bytes (hdr_name h))) (hdrs_of args) \<and>
     (case (sa_get_hdrs args, sa_get_imf args) of
        (Inr hdrs, Inr imf) \<Rightarrow> part_ok (hdrs_bytes hdrs) \<and> part_ok (imf_bytes imf) \<and> off_buf (hdrs_bytes hdrs) = off_buf (imf_bytes imf) \<and>
          off_start (hdrs_bytes hdrs) = 0 \<and> off_start (imf_bytes imf) = 0 \<and> off_len (hdrs_bytes hdrs) \<le> off_len (imf_bytes imf)
      | _ \<Rightarrow> True)"

section \<open>The evaluation agrees with the meaning\<close>





lemma from_off_ok: "part_ok off \<Longrightarrow> ddata (dstr_from_off off) = off_bytes off \<and> \<not> dnull (dstr_from_off off)"
  by (auto simp: part_ok_def dstr_from_off_def off_bytes_def dstr_sub2_data split: option.splits) (simp add: dstr_sub2_def Let_def)


lemma sint_0: "sint (x :: byte) = 0 \<longleftrightarrow> x = 0"
  by (metis signed_0 signed_word_eqI)

lemma ichar_0: "ichar c = 0 \<longleftrightarrow> c = 0"
  by (auto simp: ichar_def word_le_nat_alt)

lemma cmp_ichar: "0 \<notin> set xs \<Longrightarrow> 0 \<notin> set ys \<Longrightarrow> cmp_loop ichar xs ys = 0 \<longleftrightarrow> map ichar xs = map ichar ys"
  by (induction ichar xs ys rule: cmp_loop.induct) (auto simp: sint_0 ichar_0 signed_word_eqI)

lemma icmp_names:
  assumes "\<not> dnull a" "\<not> dnull b" "0 \<notin> set (ddata a)" "0 \<notin> set (ddata b)"
  shows "dstr_icmp a b = 0 \<longleftrightarrow> map ichar (ddata a) = map ichar (ddata b)"
  using assms by (auto simp: dstr_icmp_def do_dstr_cmp2_def cmp_ichar)

lemma find_hdr_value:
  assumes "list_all (\<lambda>h. part_ok (hdr_name h) \<and> part_ok (hdr_value h) \<and> 0 \<notin> set (off_bytes (hdr_name h))) hs" "\<not> dnull name" "0 \<notin> set (ddata name)"
  shows "find_hdr name hs = (case find (\<lambda>h. map ichar (off_bytes (hdr_name h)) = map ichar (ddata name)) hs of None \<Rightarrow> zero_dstr | Some h \<Rightarrow> dstr_from_off (hdr_value h))"
  using assms by (induction hs) (auto simp: icmp_names from_off_ok)

lemma header_found:
  assumes "message_ok args" "\<not> dnull name" "0 \<notin> set (ddata name)"
  shows "find_header args name = (E_NONE, case header_value args (ddata name) of None \<Rightarrow> zero_dstr | Some off \<Rightarrow> dstr_from_off off)"
    and "header_value args (ddata name) = Some off \<Longrightarrow> part_ok off"
proof -
  let ?P = "\<lambda>h. map ichar (off_bytes (hdr_name h)) = map ichar (ddata name)"
  have m: "list_all (\<lambda>h. part_ok (hdr_name h) \<and> part_ok (hdr_value h) \<and> 0 \<notin> set (off_bytes (hdr_name h))) (hdrs_of args)" using assms(1) by (simp add: message_ok_def)
  show "find_header args name = (E_NONE, case header_value args (ddata name) of None \<Rightarrow> zero_dstr | Some off \<Rightarrow> dstr_from_off off)"
    using find_hdr_value [OF m assms(2,3)] by (cases "find ?P (hdrs_of args)") (auto simp: find_header_def header_value_def hdrs_of_def split: sum.splits)
  show "part_ok off" if "header_value args (ddata name) = Some off"
    using that m by (auto simp: header_value_def find_Some_iff list_all_length)
qed


lemma lit_name: "\<not> dnull (DSTR_LIT s)" "ddata (DSTR_LIT s) = lit s"
  by (simp_all add: DSTR_LIT_def dstr_wrap_def)











section \<open>Properties\<close>









lemma count_loop_empty: "i \<le> length t \<Longrightarrow> count_loop fuel f t [] False i c = None"
  by (induction fuel arbitrary: c) (simp_all add: pat_at_def)

lemma do_eval_NOT: "lvl + n = 1001 \<Longrightarrow> do_eval args lvl ((IE_SEARCH_NOT ^^ n) IE_SEARCH_ALL) = Some (E_NONE, odd n)"
proof (induction n arbitrary: lvl)
  case (Suc n)
  then show ?case using Suc.IH [of "lvl + 1"] by (subst do_eval.simps) simp
qed (subst do_eval.simps, simp)

lemma matches_NOT: "matches args ((IE_SEARCH_NOT ^^ n) IE_SEARCH_ALL) \<longleftrightarrow> even n"
  by (induction n) simp_all

text \<open>
  The limits of a search.  A search for the empty string never ends in a message that has the header, however
  long it runs, because the step past a match is the length of the pattern; and below a thousand
  levels a key counts as not matching without an error, so that a negation above it matches every message.
\<close>

lemma search_key_eval_limits:
  assumes "message_ok args" and "header_value args (lit ''Subject'') = Some off"
  shows "(\<forall>fuel. count_loop fuel ichar (off_bytes off) [] False 0 0 = None) \<and> do_eval args 0 (IE_SEARCH_SUBJECT (DSTR_LIT '''')) = None \<and>
    do_eval args 0 ((IE_SEARCH_NOT ^^ 1001) IE_SEARCH_ALL) = Some (E_NONE, True) \<and> \<not> matches args ((IE_SEARCH_NOT ^^ 1001) IE_SEARCH_ALL)"
proof (intro conjI)
  have "find_header args (DSTR_LIT ''Subject'') = (E_NONE, dstr_from_off off)" "part_ok off"
    using header_found [OF assms(1), of "DSTR_LIT ''Subject''"] assms(2) by (simp_all add: lit_name)
  then have "search_headers args (DSTR_LIT ''Subject'') (DSTR_LIT '''') = None"
    by (simp add: search_headers_def from_off_ok icontained_def dstr_icount2_def do_dstr_count2_def lit_name count_loop_empty del: count_loop.simps)
  then show "do_eval args 0 (IE_SEARCH_SUBJECT (DSTR_LIT '''')) = None" by (subst do_eval.simps) simp
  show "do_eval args 0 ((IE_SEARCH_NOT ^^ 1001) IE_SEARCH_ALL) = Some (E_NONE, True)" using do_eval_NOT [of 0 1001] by simp
  show "\<not> matches args ((IE_SEARCH_NOT ^^ 1001) IE_SEARCH_ALL)" using matches_NOT [of args 1001] by simp
qed (simp add: count_loop_empty)

end
