(* ===== verification/Dn_Cmds.thy ===== *)
theory Dn_Cmds
  imports Dn_Mirror Dn_Search
begin

text \<open>
  The commands of a client connection (\<open>src/libimaildir/dn.c\<close>): \<open>SELECT\<close>, \<open>SEARCH\<close>, \<open>STORE\<close>, \<open>EXPUNGE\<close>, \<open>COPY\<close>, \<open>IDLE\<close>
  and the disconnection.  What a command is given and produces is collected in a record \<open>io\<close>: the
  tag of the command until it is taken, the responses, the requests to the mailbox, and the flag \<open>ok\<close>.  \<open>env\<close>
  carries the allocations, the construction of responses, the construction and relaying of requests, as the
  error it ends with (\<open>update_req_store_new\<close> and the like, \<open>imaildir_dn_request_update\<close>), and the fuel for the loops over
  sequence sets.  The modifiers of a \<open>STORE\<close>, which are passed on unseen, are left out.
\<close>

section \<open>Interfaces\<close>

datatype update_req =
    UPDATE_REQ_STORE "msg_key list" int msg_flags
  | UPDATE_REQ_EXPUNGE "msg_key list"
  | UPDATE_REQ_COPY "msg_key list" string

record env =
  e_mem :: allocs
  e_malloc :: "nat \<Rightarrow> nat option"
  e_build :: builder
  e_request :: "update_req \<Rightarrow> derr_type"
  e_fuel :: nat
  e_trav :: seq_trav

record io =
  io_tag :: "string option"
  io_out :: "imap_resp list"
  io_reqs :: "update_req list"
  io_ok :: bool

text \<open>The part of \<open>imaildir_t\<close> that a selection looks at.\<close>

record imaildir =
  m_msgs :: "(msg, msg_key) jsw_atree"
  m_hi_uid_dn :: u32
  m_uidvld_dn :: u32
  m_initial_select_done :: bool
  m_initial_select_status :: ie_status
  m_sync_done :: bool
  m_sync_examining :: bool


record ie_copy_cmd =
  cc_uid_mode :: bool
  cc_seq_set :: seq_set
  cc_m :: string

section \<open>Status responses\<close>

definition st_resp :: "string option \<Rightarrow> ie_status \<Rightarrow> ie_st_code option \<Rightarrow> string \<Rightarrow> imap_resp" where
  "st_resp tag status code text = IMAP_RESP_STATUS_TYPE \<lparr>st_tag = tag, st_status = status, st_code = code, st_text = text\<rparr>"

definition send_st_resp :: "builder \<Rightarrow> string option \<Rightarrow> string \<Rightarrow> ie_status \<Rightarrow> imap_resp list \<Rightarrow> derr_type \<times> imap_resp list" where
  "send_st_resp build tag msg status out = emit build (st_resp tag status None msg) out"

definition send_ok :: "builder \<Rightarrow> string option \<Rightarrow> string \<Rightarrow> imap_resp list \<Rightarrow> derr_type \<times> imap_resp list" where
  "send_ok build tag msg out = send_st_resp build tag msg IE_ST_OK out"

definition send_no :: "builder \<Rightarrow> string option \<Rightarrow> string \<Rightarrow> imap_resp list \<Rightarrow> derr_type \<times> imap_resp list" where
  "send_no build tag msg out = send_st_resp build tag msg IE_ST_NO out"

definition send_bad :: "builder \<Rightarrow> string option \<Rightarrow> string \<Rightarrow> imap_resp list \<Rightarrow> derr_type \<times> imap_resp list" where
  "send_bad build tag msg out = send_st_resp build tag msg IE_ST_BAD out"

text \<open>A command that ends at once with a status: the tag is taken in any case.\<close>

definition reply_with :: "derr_type \<times> imap_resp list \<Rightarrow> dn \<Rightarrow> io \<Rightarrow> derr_type \<times> dn \<times> io" where
  "reply_with r dn io = (case r of (e, out) \<Rightarrow>
     if e \<noteq> E_NONE then (e, dn, io\<lparr>io_tag := None, io_out := out\<rparr>) else (E_NONE, dn, io\<lparr>io_tag := None, io_out := out, io_ok := True\<rparr>))"

section \<open>Releasing the state of a command\<close>


definition dn_free_expunge :: "dn \<Rightarrow> dn" where
  "dn_free_expunge dn = dn\<lparr>expunge_started := False, expunge_synced := False, expunge_tag := None\<rparr>"

definition dn_free_copy :: "dn \<Rightarrow> dn" where
  "dn_free_copy dn = dn\<lparr>copy_started := False, copy_synced := False, copy_tag := None, copy_uid_mode := False\<rparr>"

definition dn_free_disconnect :: "dn \<Rightarrow> dn" where
  "dn_free_disconnect dn = dn\<lparr>disconnect_started := False, disconnect_synced := False\<rparr>"

definition dn_free_idle :: "dn \<Rightarrow> dn" where
  "dn_free_idle dn = dn\<lparr>idle_tag := None\<rparr>"

section \<open>SELECT\<close>

definition send_flags_resp :: "builder \<Rightarrow> imap_resp list \<Rightarrow> derr_type \<times> imap_resp list" where
  "send_flags_resp build out = emit build (IMAP_RESP_FLAGS [IE_FLAG_ANSWERED, IE_FLAG_FLAGGED, IE_FLAG_DELETED, IE_FLAG_SEEN, IE_FLAG_DRAFT]) out"

definition send_recent_resp :: "builder \<Rightarrow> imap_resp list \<Rightarrow> derr_type \<times> imap_resp list" where
  "send_recent_resp build out = emit build (IMAP_RESP_RECENT 0) out"

text \<open>The loop starts at the first message and steps backwards.\<close>

fun unseen_loop :: "builder \<Rightarrow> nat \<Rightarrow> u32 \<Rightarrow> msg_view option \<times> msg_view jsw_atrav \<Rightarrow> imap_resp list \<Rightarrow> derr_type \<times> imap_resp list" where
  "unseen_loop build fuel seq (None, trav) out = (E_NONE, out)"
| "unseen_loop build 0 seq (Some view, trav) out = (E_NONE, out)"
| "unseen_loop build (Suc fuel) seq (Some view, trav) out =
     (if seen (v_flags view) then unseen_loop build fuel (seq + 1) (jsw_atprev trav) out
      else ifok (emit build (st_resp None IE_ST_OK (Some (IE_ST_CODE_UNSEEN seq)) ''you ain't seen nuthin yet'') out)
             (unseen_loop build fuel (seq + 1) (jsw_atprev trav)) id)"

definition send_unseen_resp :: "builder \<Rightarrow> dn \<Rightarrow> imap_resp list \<Rightarrow> derr_type \<times> imap_resp list" where
  "send_unseen_resp build dn out = unseen_loop build (asize (dn_views dn)) 1 (jsw_atfirst (dn_views dn)) out"

definition send_pflags_resp :: "builder \<Rightarrow> imap_resp list \<Rightarrow> derr_type \<times> imap_resp list" where
  "send_pflags_resp build out =
     emit build (st_resp None IE_ST_OK (Some (IE_ST_CODE_PERMFLAGS [IE_FLAG_ANSWERED, IE_FLAG_FLAGGED, IE_FLAG_DELETED, IE_FLAG_SEEN])) ''here, have some permanentflags.'') out"

definition send_uidnext_resp :: "builder \<Rightarrow> u32 \<Rightarrow> imap_resp list \<Rightarrow> derr_type \<times> imap_resp list" where
  "send_uidnext_resp build max_uid_dn out = emit build (st_resp None IE_ST_OK (Some (IE_ST_CODE_UIDNEXT (max_uid_dn + 1))) ''get ready, it's coming'') out"

definition send_uidvld_resp :: "builder \<Rightarrow> u32 \<Rightarrow> imap_resp list \<Rightarrow> derr_type \<times> imap_resp list" where
  "send_uidvld_resp build uidvld_dn out = emit build (st_resp None IE_ST_OK (Some (IE_ST_CODE_UIDVLD uidvld_dn)) ''ride or die'') out"

definition select_failure :: "builder \<Rightarrow> string option \<Rightarrow> ie_status \<Rightarrow> imap_resp list \<Rightarrow> derr_type \<times> imap_resp list" where
  "select_failure build tag status out =
     emit build (st_resp tag status None (if status = IE_ST_NO then ''no such mailbox'' else ''failed to select'')) out"

fun build_views_loop :: "allocs \<Rightarrow> nat \<Rightarrow> msg list \<Rightarrow> views \<Rightarrow> derr_type \<times> views" where
  "build_views_loop mem k [] views = (E_NONE, views)"
| "build_views_loop mem k (m # ms) views =
     (if mstate m \<noteq> MSG_FILLED then build_views_loop mem k ms views
      else case msg_view_new (mem k) m of
        Inl e \<Rightarrow> (e, jsw_ainit jsw_cmp_uint v_uid_dn)
      | Inr view \<Rightarrow> build_views_loop mem (k + 1) ms (jsw_ainsert views view))"

definition imaildir_dn_build_views :: "allocs \<Rightarrow> imaildir \<Rightarrow> views \<Rightarrow> derr_type \<times> views \<times> u32 \<times> u32" where
  "imaildir_dn_build_views mem m views =
     (case build_views_loop mem 0 (in_order (m_msgs m)) views of (e, views) \<Rightarrow> (e, views, m_hi_uid_dn m, m_uidvld_dn m))"

definition imaildir_dn_select_failed :: "imaildir \<Rightarrow> bool \<times> ie_status" where
  "imaildir_dn_select_failed m = (m_initial_select_done m, m_initial_select_status m)"

definition imaildir_dn_synced :: "imaildir \<Rightarrow> bool \<Rightarrow> bool" where
  "imaildir_dn_synced m examine \<longleftrightarrow> m_sync_done m \<and> (examine \<or> \<not> m_sync_examining m)"

definition select_responses :: "builder \<Rightarrow> dn \<Rightarrow> u32 \<Rightarrow> u32 \<Rightarrow> derr_type \<times> imap_resp list" where
  "select_responses build dn max_uid_dn uidvld_dn =
     ifok (send_flags_resp build []) (\<lambda>t. ifok (send_exists_resp build dn t) (\<lambda>t. ifok (send_recent_resp build t) (\<lambda>t.
       ifok (send_unseen_resp build dn t) (\<lambda>t. ifok (send_pflags_resp build t) (\<lambda>t. ifok (send_uidnext_resp build max_uid_dn t)
         (send_uidvld_resp build uidvld_dn) id) id) id) id) id) id"

text \<open>The second flag is \<open>success\<close>.\<close>

definition dn_select :: "env \<Rightarrow> imaildir \<Rightarrow> dn \<Rightarrow> io \<Rightarrow> derr_type \<times> dn \<times> io \<times> bool" where
  "dn_select env m dn io =
     (let io = io\<lparr>io_ok := False\<rparr> in
      if healthcheck dn \<noteq> E_NONE then (healthcheck dn, dn, io, False)
      else case imaildir_dn_select_failed m of (known, status) \<Rightarrow>
        if \<not> known then (E_NONE, dn, io, False)
        else if status \<noteq> IE_ST_OK then
          (case select_failure (e_build env) (io_tag io) status (io_out io) of
             (e, out) \<Rightarrow> (e, dn, io\<lparr>io_tag := None, io_out := out, io_ok := True\<rparr>, False))
        else if \<not> imaildir_dn_synced m (dn_examine dn) then (E_NONE, dn, io, False)
        else let io = io\<lparr>io_ok := True\<rparr> in
          case imaildir_dn_build_views (e_mem env) m (dn_views dn) of (e, views, max_uid_dn, uidvld_dn) \<Rightarrow>
          if e \<noteq> E_NONE then (e, dn\<lparr>dn_views := views\<rparr>, io, True)
          else let dn = dn\<lparr>dn_views := views\<rparr>; failed = dn\<lparr>dn_views := jsw_ainit jsw_cmp_uint v_uid_dn\<rparr> in
            case select_responses (e_build env) dn max_uid_dn uidvld_dn of (e, temp) \<Rightarrow>
              if e \<noteq> E_NONE then (e, failed, io, True)
              else case emit (e_build env)
                  (st_resp (io_tag io) IE_ST_OK (Some (if dn_examine dn then IE_ST_CODE_READ_ONLY else IE_ST_CODE_READ_WRITE)) ''welcome in'') temp of
                (e, temp) \<Rightarrow>
                  if e \<noteq> E_NONE then (e, failed, io\<lparr>io_tag := None\<rparr>, True)
                  else (E_NONE, dn, io\<lparr>io_tag := None, io_out := io_out io @ temp\<rparr>, True))"

section \<open>SEARCH\<close>







section \<open>STORE\<close>







definition request :: "env \<Rightarrow> update_req \<Rightarrow> dn \<Rightarrow> io \<Rightarrow> derr_type \<times> dn \<times> io" where
  "request env req dn io = (e_request env req, dn, if e_request env req \<noteq> E_NONE then io else io\<lparr>io_reqs := io_reqs io @ [req]\<rparr>)"

text \<open>A command that changes nothing: pending updates are sent, then the tagged response.\<close>

definition noop_cmd :: "env \<Rightarrow> bool \<Rightarrow> bool \<Rightarrow> string \<Rightarrow> dn \<Rightarrow> io \<Rightarrow> (derr_type \<times> dn \<times> io) option" where
  "noop_cmd env allow_expunge uid_mode msg dn io = do {
     (e, _, dn, temp) \<leftarrow> dn_gather_updates (e_mem env) (e_build env) allow_expunge uid_mode False dn [];
     Some (if e \<noteq> E_NONE then (e, dn, io)
           else case send_ok (e_build env) (io_tag io) msg temp of (e, temp) \<Rightarrow>
             if e \<noteq> E_NONE then (e, dn, io\<lparr>io_tag := None\<rparr>)
             else (E_NONE, dn, io\<lparr>io_tag := None, io_out := io_out io @ temp, io_ok := True\<rparr>)) }"




section \<open>EXPUNGE, COPY\<close>

fun expunge_keys_loop :: "allocs \<Rightarrow> nat \<Rightarrow> msg_view list \<Rightarrow> msg_key list \<Rightarrow> derr_type \<times> msg_key list" where
  "expunge_keys_loop mem k [] keys = (E_NONE, keys)"
| "expunge_keys_loop mem k (view # views) keys =
     (if deleted (v_flags view)
      then (case msg_key_list_new E_NONE (mem k) (v_key view) keys of (e, keys) \<Rightarrow>
        if e \<noteq> E_NONE then (e, []) else expunge_keys_loop mem (k + 1) views keys)
      else expunge_keys_loop mem k views keys)"

definition get_msg_keys_to_expunge :: "allocs \<Rightarrow> dn \<Rightarrow> derr_type \<times> msg_key list" where
  "get_msg_keys_to_expunge mem dn = expunge_keys_loop mem 0 (in_order (dn_views dn)) []"

definition expunge_begin :: "env \<Rightarrow> dn \<Rightarrow> io \<Rightarrow> (derr_type \<times> dn \<times> io) option" where
  "expunge_begin env dn io =
     (if dn_examine dn then Some (reply_with (send_no (e_build env) (io_tag io) ''mailbox is read-only'' (io_out io)) dn io)
      else case get_msg_keys_to_expunge (e_mem env) dn of (e, keys) \<Rightarrow>
        if e \<noteq> E_NONE then Some (e, dn, io)
        else if keys = [] then noop_cmd env True False ''noop EXPUNGE command'' dn io
        else Some (request env (UPDATE_REQ_EXPUNGE keys) (dn\<lparr>expunge_tag := io_tag io, expunge_started := True\<rparr>) (io\<lparr>io_tag := None\<rparr>)))"

text \<open>The end of an asynchronous command: the status of the mailbox under the tag of the command, or success.\<close>

definition finish_cmd :: "env \<Rightarrow> bool \<Rightarrow> string option \<Rightarrow> (dn \<Rightarrow> dn) \<Rightarrow> string \<Rightarrow> dn \<Rightarrow> io \<Rightarrow> (derr_type \<times> dn \<times> io) option" where
  "finish_cmd env uid_mode tag steal msg dn io = do {
     (e, st, dn, temp) \<leftarrow> dn_gather_updates (e_mem env) (e_build env) True uid_mode True dn [];
     Some (if e \<noteq> E_NONE then (e, dn, io)
           else case emit (e_build env) (case st of None \<Rightarrow> st_resp tag IE_ST_OK None msg | Some st \<Rightarrow> IMAP_RESP_STATUS_TYPE (st\<lparr>st_tag := tag\<rparr>)) temp of
             (e, temp) \<Rightarrow> (e, steal dn, if e \<noteq> E_NONE then io else io\<lparr>io_out := io_out io @ temp\<rparr>)) }"

definition expunge_finish :: "env \<Rightarrow> dn \<Rightarrow> io \<Rightarrow> (derr_type \<times> dn \<times> io) option" where
  "expunge_finish env dn io = finish_cmd env False (expunge_tag dn) (\<lambda>dn. dn\<lparr>expunge_tag := None\<rparr>) ''may they be cursed forever'' dn io"

definition dn_expunge :: "env \<Rightarrow> dn \<Rightarrow> io \<Rightarrow> (derr_type \<times> dn \<times> io) option" where
  "dn_expunge env dn io =
     (let io = io\<lparr>io_ok := False\<rparr> in
      if healthcheck dn \<noteq> E_NONE then Some (healthcheck dn, dn, io)
      else if \<not> expunge_started dn then expunge_begin env dn io
      else if \<not> expunge_synced dn then Some (E_NONE, dn, io)
      else do {
        (e, dn, io) \<leftarrow> expunge_finish env dn io;
        if e \<noteq> E_NONE then Some (e, dn, io) else Some (E_NONE, dn_free_expunge dn, io\<lparr>io_ok := True\<rparr>) })"

definition copy_begin :: "env \<Rightarrow> ie_copy_cmd \<Rightarrow> dn \<Rightarrow> io \<Rightarrow> (derr_type \<times> dn \<times> io) option" where
  "copy_begin env copy dn io = do {
     (e, uids_dn, uids_ok) \<leftarrow> seq_set_to_canonical_uids_dn (e_fuel env) (e_malloc env) (e_mem env) (e_trav env) (dn_views dn) (cc_uid_mode copy) (cc_seq_set copy);
     if e \<noteq> E_NONE then Some (e, dn, io)
     else if \<not> uids_ok then Some (reply_with (send_bad (e_build env) (io_tag io) ''bad message set'' (io_out io)) dn io)
     else if uids_dn = [] then noop_cmd env True (cc_uid_mode copy) ''noop COPY command'' dn io
     else do {
       (e, keys) \<leftarrow> uids_dn_to_msg_keys (e_fuel env) (e_mem env) (e_trav env) (dn_views dn) uids_dn;
       if e \<noteq> E_NONE then Some (e, dn, io)
       else Some (request env (UPDATE_REQ_COPY keys (cc_m copy))
         (dn\<lparr>copy_tag := io_tag io, copy_started := True, copy_uid_mode := cc_uid_mode copy\<rparr>) (io\<lparr>io_tag := None\<rparr>)) } }"

definition copy_finish :: "env \<Rightarrow> dn \<Rightarrow> io \<Rightarrow> (derr_type \<times> dn \<times> io) option" where
  "copy_finish env dn io = finish_cmd env (copy_uid_mode dn) (copy_tag dn) (\<lambda>dn. dn\<lparr>copy_tag := None\<rparr>) ''No one will know the difference'' dn io"

definition dn_copy :: "env \<Rightarrow> ie_copy_cmd \<Rightarrow> dn \<Rightarrow> io \<Rightarrow> (derr_type \<times> dn \<times> io) option" where
  "dn_copy env copy dn io =
     (let io = io\<lparr>io_ok := False\<rparr> in
      if healthcheck dn \<noteq> E_NONE then Some (healthcheck dn, dn, io)
      else if \<not> copy_started dn then copy_begin env copy dn io
      else if \<not> copy_synced dn then Some (E_NONE, dn, io)
      else do {
        (e, dn, io) \<leftarrow> copy_finish env dn io;
        if e \<noteq> E_NONE then Some (e, dn, io) else Some (E_NONE, dn_free_copy dn, io\<lparr>io_ok := True\<rparr>) })"

section \<open>IDLE\<close>

definition dn_idle :: "env \<Rightarrow> dn \<Rightarrow> io \<Rightarrow> (derr_type \<times> dn \<times> io) option" where
  "dn_idle env dn io =
     (if healthcheck dn \<noteq> E_NONE then Some (healthcheck dn, dn, io)
      else do {
        let dn = dn\<lparr>idle_tag := io_tag io\<rparr>;
        let io = io\<lparr>io_tag := None\<rparr>;
        (e, _, dn, temp) \<leftarrow> dn_gather_updates (e_mem env) (e_build env) True False False dn [];
        Some (if e \<noteq> E_NONE then (e, dn_free_idle dn, io)
              else case emit (e_build env) (IMAP_RESP_PLUS ''ok twiddling my thumbs now'') temp of (e, temp) \<Rightarrow>
                if e \<noteq> E_NONE then (e, dn_free_idle dn, io) else (E_NONE, dn, io\<lparr>io_out := io_out io @ temp\<rparr>)) })"

definition dn_idle_done :: "env \<Rightarrow> string option \<Rightarrow> dn \<Rightarrow> io \<Rightarrow> (derr_type \<times> dn \<times> io) option" where
  "dn_idle_done env errmsg dn io =
     (if healthcheck dn \<noteq> E_NONE then Some (healthcheck dn, dn, io)
      else if idle_tag dn = None then Some (E_INTERNAL, dn, io)
      else case errmsg of
        Some msg \<Rightarrow> (case send_bad (e_build env) (idle_tag dn) msg (io_out io) of (e, out) \<Rightarrow> Some (e, dn_free_idle dn, io\<lparr>io_out := out\<rparr>))
      | None \<Rightarrow> do {
          (e, _, dn, temp) \<leftarrow> dn_gather_updates (e_mem env) (e_build env) True False False dn [];
          Some (if e \<noteq> E_NONE then (e, dn_free_idle dn, io)
                else case send_ok (e_build env) (idle_tag dn) ''I'm ready to work again'' temp of (e, temp) \<Rightarrow>
                  (e, dn_free_idle dn, if e \<noteq> E_NONE then io else io\<lparr>io_out := io_out io @ temp\<rparr>)) })"

section \<open>Disconnection\<close>

definition disconnect_begin :: "env \<Rightarrow> bool \<Rightarrow> dn \<Rightarrow> io \<Rightarrow> derr_type \<times> dn \<times> io" where
  "disconnect_begin env expunge dn io =
     (if \<not> expunge then (E_NONE, dn, io\<lparr>io_ok := True\<rparr>)
      else case get_msg_keys_to_expunge (e_mem env) dn of (e, keys) \<Rightarrow>
        if e \<noteq> E_NONE then (e, dn, io)
        else if keys = [] then (E_NONE, dn, io\<lparr>io_ok := True\<rparr>)
        else request env (UPDATE_REQ_EXPUNGE keys) (dn\<lparr>disconnect_started := True\<rparr>) io)"

text \<open>The \<open>break\<close> leaves the \<open>switch\<close>, not the loop: every \<open>UPDATE_SYNC\<close> is taken out, the last status counts.\<close>

definition disconnect_finish :: "dn \<Rightarrow> derr_type \<times> dn" where
  "disconnect_finish dn =
     (let st = foldl (\<lambda>st u. case u of UPDATE_SYNC s \<Rightarrow> s | _ \<Rightarrow> st) None (dn_pending_updates dn) in
      (if st \<noteq> None then E_RESPONSE else E_NONE, dn\<lparr>dn_pending_updates := filter (\<lambda>u. \<not> is_sync u) (dn_pending_updates dn)\<rparr>))"

definition dn_disconnect :: "env \<Rightarrow> bool \<Rightarrow> dn \<Rightarrow> io \<Rightarrow> derr_type \<times> dn \<times> io" where
  "dn_disconnect env expunge dn io =
     (let io = io\<lparr>io_ok := False\<rparr> in
      if healthcheck dn \<noteq> E_NONE then (healthcheck dn, dn, io)
      else if \<not> disconnect_started dn then disconnect_begin env expunge dn io
      else if \<not> disconnect_synced dn then (E_NONE, dn, io)
      else case disconnect_finish dn of (e, dn) \<Rightarrow>
        if e \<noteq> E_NONE then (e, dn, io) else (E_NONE, dn_free_disconnect dn, io\<lparr>io_ok := True\<rparr>))"


section \<open>The picture of the client\<close>

text \<open>Every allocation succeeds and every response is built.\<close>

definition good_env :: "env \<Rightarrow> bool" where
  "good_env env \<longleftrightarrow> e_mem env = alloc_ok \<and> e_build env = all_built"

lemma good_envD: "good_env env \<Longrightarrow> e_mem env = alloc_ok" "good_env env \<Longrightarrow> e_build env = all_built"
  by (simp_all add: good_env_def)

definition view_of :: "msg \<Rightarrow> msg_view" where
  "view_of m = \<lparr>v_key = mkey m, v_uid_dn = uid_dn m, v_length = mlength m, v_internaldate = internaldate m, v_flags = flags m\<rparr>"

definition filled :: "imaildir \<Rightarrow> msg list" where
  "filled m = filter (\<lambda>x. mstate x = MSG_FILLED) (nodes (m_msgs m))"

lemma build_views_ok:
  assumes "utree_ok v_uid_dn views" "distinct (map v_uid_dn (nodes views) @ map uid_dn (filter (\<lambda>x. mstate x = MSG_FILLED) ms))"
  shows "\<exists>views'. build_views_loop alloc_ok k ms views = (E_NONE, views') \<and> utree_ok v_uid_dn views' \<and>
    set (nodes views') = set (nodes views) \<union> view_of ` set (filter (\<lambda>x. mstate x = MSG_FILLED) ms)"
  using assms
proof (induction ms arbitrary: k views)
  case (Cons m ms)
  show ?case
  proof (cases "mstate m = MSG_FILLED")
    case True
    have n: "v_uid_dn (view_of m) \<notin> v_uid_dn ` set (nodes views)" using Cons.prems(2) True by (auto simp: view_of_def)
    note i = utree_insert [OF Cons.prems(1) n]
    have "distinct (map v_uid_dn (view_of m # nodes views) @ map uid_dn (filter (\<lambda>x. mstate x = MSG_FILLED) ms))"
      using Cons.prems(2) True by (auto simp: view_of_def)
    moreover have "distinct (map v_uid_dn (nodes (jsw_ainsert views (view_of m))))" using utree_distinct(1) [OF i(1)] .
    ultimately have "distinct (map v_uid_dn (nodes (jsw_ainsert views (view_of m))) @ map uid_dn (filter (\<lambda>x. mstate x = MSG_FILLED) ms))"
      using i(2) by auto
    from Cons.IH [OF i(1) this, of "k + 1"] i(2) True show ?thesis by (auto simp: msg_view_new_def view_of_def)
  next
    case False
    then show ?thesis using Cons.IH [OF Cons.prems(1), of k] Cons.prems(2) by simp
  qed
qed simp

definition is_status :: "imap_resp \<Rightarrow> bool" where
  "is_status r \<longleftrightarrow> (\<exists>st. r = IMAP_RESP_STATUS_TYPE st)"

lemma hear_status: "\<forall>r \<in> set rs. is_status r \<Longrightarrow> hear_all rs c = Some c"
  by (induction rs) (auto simp: is_status_def)

lemma unseen_ok: "\<exists>us. unseen_loop all_built fuel seq x out = (E_NONE, out @ us) \<and> (\<forall>u \<in> set us. is_status u)"
proof (induction fuel arbitrary: seq x out)
  case 0
  then show ?case by (cases x; cases "fst x") auto
next
  case (Suc fuel)
  obtain v t where x: "x = (v, t)" by force
  show ?case
  proof (cases v)
    case None
    then show ?thesis using x by simp
  next
    case (Some view)
    let ?r = "st_resp None IE_ST_OK (Some (IE_ST_CODE_UNSEEN seq)) ''you ain't seen nuthin yet''"
    have r: "is_status ?r" by (simp add: is_status_def st_resp_def)
    from Suc [of "seq + 1" "jsw_atprev t" out] Suc [of "seq + 1" "jsw_atprev t" "out @ [?r]"] obtain us us' where
      "unseen_loop all_built fuel (seq + 1) (jsw_atprev t) out = (E_NONE, out @ us)" "\<forall>u \<in> set us. is_status u"
      "unseen_loop all_built fuel (seq + 1) (jsw_atprev t) (out @ [?r]) = (E_NONE, (out @ [?r]) @ us')" "\<forall>u \<in> set us'. is_status u" by blast
    then show ?thesis using x Some r by (cases "seen (v_flags view)") (auto simp: emit_def)
  qed
qed


definition msgs_ok :: "imaildir \<Rightarrow> bool" where
  "msgs_ok m \<longleftrightarrow> atree_ok jsw_cmp_msg_key (\<lambda>_. True) (m_msgs m) \<and> distinct (nodes (m_msgs m)) \<and> distinct (map uid_dn (filled m)) \<and>
     0 \<notin> uid_dn ` set (filled m) \<and> length (filled m) < 2 ^ 32"

lemma views_of_mailbox:
  assumes "msgs_ok m"
  shows "\<exists>views. imaildir_dn_build_views alloc_ok m (jsw_ainit jsw_cmp_uint v_uid_dn) = (E_NONE, views, m_hi_uid_dn m, m_uidvld_dn m) \<and>
    views_ok views \<and> set (nodes views) = view_of ` set (filled m)"
proof -
  have o: "in_order (m_msgs m) = nodes (m_msgs m)" unfolding in_order_def using assms by (intro collect_nodes) (auto simp: msgs_ok_def atree_ok_def)
  have "distinct (map v_uid_dn (nodes (jsw_ainit jsw_cmp_uint v_uid_dn)) @ map uid_dn (filter (\<lambda>x. mstate x = MSG_FILLED) (nodes (m_msgs m))))"
    using assms by (simp add: msgs_ok_def filled_def utree_init)
  from build_views_ok [OF conjunct1 [OF utree_init] this, of 0] obtain views where
    v: "build_views_loop alloc_ok 0 (nodes (m_msgs m)) (jsw_ainit jsw_cmp_uint v_uid_dn) = (E_NONE, views)" "utree_ok v_uid_dn views" "set (nodes views) = view_of ` set (filled m)"
    by (auto simp: filled_def utree_init)
  have "set (uids views) = uid_dn ` set (filled m)" unfolding uids_def set_map v(3) by (auto simp: view_of_def image_image)
  moreover have "length (uids views) = length (filled m)"
    using distinct_card [OF utree_distinct(1) [OF v(2)]] distinct_card [of "map uid_dn (filled m)"] assms calculation by (simp add: msgs_ok_def uids_def)
  ultimately have "views_ok views" using v(2) assms by (simp add: views_utree msgs_ok_def)
  then show ?thesis using v(1,3) o by (auto simp: imaildir_dn_build_views_def)
qed



section \<open>Properties\<close>

text \<open>
  C10. \<open>SELECT\<close> gives the client the right picture.  When the mailbox is ready, the selection succeeds: the view is
  exactly the messages of the mailbox whose content has been downloaded, in UID order; a client that
  starts with an empty picture and hears the untagged responses has the picture of that view; \<open>UIDNEXT\<close>
  and \<open>UIDVALIDITY\<close> are those of the mailbox, and the tagged response comes last.  When it is not
  ready nothing happens, and when the server refused the selection so does the tagged response.
\<close>

theorem dn_select_mirror:
  assumes "good_env env" "dn_m dn" "dn_views dn = jsw_ainit jsw_cmp_uint v_uid_dn" "msgs_ok m"
  shows "if \<not> m_initial_select_done m then dn_select env m dn io = (E_NONE, dn, io\<lparr>io_ok := False\<rparr>, False)
    else if m_initial_select_status m \<noteq> IE_ST_OK then (\<exists>text. dn_select env m dn io =
      (E_NONE, dn, io\<lparr>io_tag := None, io_out := io_out io @ [st_resp (io_tag io) (m_initial_select_status m) None text], io_ok := True\<rparr>, False))
    else if \<not> imaildir_dn_synced m (dn_examine dn) then dn_select env m dn io = (E_NONE, dn, io\<lparr>io_ok := False\<rparr>, False)
    else (\<exists>views rs code c t1 t2. dn_select env m dn io =
        (E_NONE, dn\<lparr>dn_views := views\<rparr>, io\<lparr>io_tag := None, io_out := io_out io @ rs @ [st_resp (io_tag io) IE_ST_OK (Some code) ''welcome in''], io_ok := True\<rparr>, True) \<and>
      views_ok views \<and> set (nodes views) = view_of ` set (filled m) \<and> hear_all rs [] = Some c \<and> mirrors c views \<and>
      st_resp None IE_ST_OK (Some (IE_ST_CODE_UIDNEXT (m_hi_uid_dn m + 1))) t1 \<in> set rs \<and> st_resp None IE_ST_OK (Some (IE_ST_CODE_UIDVLD (m_uidvld_dn m))) t2 \<in> set rs)"
proof -
  note E = good_envD [OF assms(1)]
  from views_of_mailbox [OF assms(4)] obtain views where v: "imaildir_dn_build_views alloc_ok m (jsw_ainit jsw_cmp_uint v_uid_dn) = (E_NONE, views, m_hi_uid_dn m, m_uidvld_dn m)"
    "views_ok views" "set (nodes views) = view_of ` set (filled m)" by blast
  have u: "utree_ok v_uid_dn views" "length (nodes views) < 2 ^ 32" using v(2) by (auto simp: views_utree uids_def)
  let ?dn = "dn\<lparr>dn_views := views\<rparr>" and ?f = "IMAP_RESP_FLAGS [IE_FLAG_ANSWERED, IE_FLAG_FLAGGED, IE_FLAG_DELETED, IE_FLAG_SEEN, IE_FLAG_DRAFT]"
  from exists_heard [of "[]" "[]" ?dn "nodes views" "[?f]"] u obtain r c where
    r: "send_exists_resp all_built ?dn [?f] = (E_NONE, [?f, r])" "hear r [] = Some c" "mirrors c views" by (auto simp: mirrors_def)
  from unseen_ok [of "asize views" 1 "jsw_atfirst views" "[?f, r, IMAP_RESP_RECENT 0]"] obtain us where
    us: "send_unseen_resp all_built ?dn [?f, r, IMAP_RESP_RECENT 0] = (E_NONE, [?f, r, IMAP_RESP_RECENT 0] @ us)" "\<forall>u \<in> set us. is_status u" by (auto simp: send_unseen_resp_def)
  let ?p = "st_resp None IE_ST_OK (Some (IE_ST_CODE_PERMFLAGS [IE_FLAG_ANSWERED, IE_FLAG_FLAGGED, IE_FLAG_DELETED, IE_FLAG_SEEN])) ''here, have some permanentflags.''"
    and ?n = "st_resp None IE_ST_OK (Some (IE_ST_CODE_UIDNEXT (m_hi_uid_dn m + 1))) ''get ready, it's coming''" and ?u = "st_resp None IE_ST_OK (Some (IE_ST_CODE_UIDVLD (m_uidvld_dn m))) ''ride or die''"
  let ?rs = "[?f, r, IMAP_RESP_RECENT 0] @ us @ [?p, ?n, ?u]"
  have s: "select_responses all_built ?dn (m_hi_uid_dn m) (m_uidvld_dn m) = (E_NONE, ?rs)"
    using r(1) us(1) by (simp add: select_responses_def send_flags_resp_def send_recent_resp_def send_pflags_resp_def send_uidnext_resp_def send_uidvld_resp_def emit_def)
  have "hear_all (us @ [?p, ?n, ?u]) c = Some c" using us(2) by (intro hear_status) (auto simp: is_status_def st_resp_def)
  then have h: "hear_all ?rs [] = Some c" using r(2) by simp
  show ?thesis
  proof (cases "m_initial_select_done m \<and> m_initial_select_status m = IE_ST_OK \<and> imaildir_dn_synced m (dn_examine dn)")
    case True
    then have "dn_select env m dn io = (E_NONE, ?dn, io\<lparr>io_tag := None,
        io_out := io_out io @ ?rs @ [st_resp (io_tag io) IE_ST_OK (Some (if dn_examine dn then IE_ST_CODE_READ_ONLY else IE_ST_CODE_READ_WRITE)) ''welcome in''], io_ok := True\<rparr>, True)"
      using s v(1) assms(2,3) E by (simp add: dn_select_def healthcheck_def imaildir_dn_select_failed_def emit_def)
    moreover have "?n \<in> set ?rs" "?u \<in> set ?rs" by simp_all
    ultimately show ?thesis using True v(2,3) h r(3) by metis
  next
    case False
    then show ?thesis using assms(2) E by (auto simp: dn_select_def healthcheck_def imaildir_dn_select_failed_def select_failure_def emit_def)
  qed
qed


text \<open>A mailbox with a message that was downloaded and one that was not, and a session that asks for everything.\<close>

definition small_msg :: "u32 \<Rightarrow> msg_state \<Rightarrow> msg" where
  "small_msg n st = \<lparr>mkey = \<lparr>uid_up = n, uid_local = 0\<rparr>, uid_dn = n, mlength = 14, internaldate = zero_time, flags = no_flags, modseq = 1,
     filename = zero_dstr, mstate = st\<rparr>"

definition small_box :: imaildir where
  "small_box = \<lparr>m_msgs = jsw_ainsert (jsw_ainsert (jsw_ainit jsw_cmp_msg_key mkey) (small_msg 8 MSG_FILLED)) (small_msg 9 MSG_UNFILLED),
     m_hi_uid_dn = 8, m_uidvld_dn = 77, m_initial_select_done = True, m_initial_select_status = IE_ST_OK, m_sync_done = True, m_sync_examining = False\<rparr>"

definition small_env :: env where
  "small_env = \<lparr>e_mem = alloc_ok, e_malloc = Some, e_build = all_built, e_request = (\<lambda>_. E_NONE), e_fuel = 10,
     e_trav = \<lparr>t_ptr = [], t_min = 0, t_max = 0, t_i = 0, t_imax = 0\<rparr>\<rparr>"

definition small_io :: io where
  "small_io = \<lparr>io_tag = Some ''a1'', io_out = [], io_reqs = [], io_ok = False\<rparr>"

lemma small_box_ok: "msgs_ok small_box"
proof -
  have "atree_ok jsw_cmp_msg_key (\<lambda>_. True) (m_msgs small_box)"
    unfolding small_box_def imaildir.select_convs by (intro msg_keys.ainsert_ok msg_keys.ainit_ok) (simp_all add: jsw_ainsert_def jsw_ainit_def)
  moreover have "nodes (m_msgs small_box) = [small_msg 8 MSG_FILLED, small_msg 9 MSG_UNFILLED]" by code_simp
  ultimately show ?thesis by (simp add: msgs_ok_def filled_def small_msg_def)
qed

theorem dn_select_mirror_witness:
  "\<exists>views rs code c. dn_select small_env small_box (dn_init False) small_io = (E_NONE, (dn_init False)\<lparr>dn_views := views\<rparr>,
      small_io\<lparr>io_tag := None, io_out := rs @ [st_resp (Some ''a1'') IE_ST_OK (Some code) ''welcome in''], io_ok := True\<rparr>, True) \<and>
    views_ok views \<and> hear_all rs [] = Some c \<and> mirrors c views"
  using dn_select_mirror [of small_env "dn_init False" small_box small_io] small_box_ok
  by (fastforce simp: small_env_def small_box_def small_io_def good_env_def dn_init_def imaildir_dn_synced_def)










lemma expunge_keys_ok: "expunge_keys_loop alloc_ok k vs keys = (E_NONE, rev (map v_key (filter (\<lambda>y. deleted (v_flags y)) vs)) @ keys)"
  by (induction vs arbitrary: k keys) (simp_all add: msg_key_list_new_def)

lemma keys_to_expunge:
  assumes "good_env env" "views_ok (dn_views dn)"
  shows "get_msg_keys_to_expunge (e_mem env) dn = (E_NONE, rev (map v_key (filter (\<lambda>y. deleted (v_flags y)) (nodes (dn_views dn)))))"
proof -
  have "utree_ok v_uid_dn (dn_views dn)" using assms(2) by (simp add: views_utree)
  then show ?thesis using good_envD [OF assms(1)] by (simp add: get_msg_keys_to_expunge_def expunge_keys_ok in_order_nodes)
qed

lemma gathers: "\<exists>e st dn' g'. gather_loop alloc_ok allow want kept us (dn, g) = Some (e, st, dn', g')"
proof (induction us arbitrary: kept dn g)
  case (Cons u us)
  have meta: "\<exists>dn' g'. gather_update_meta alloc_ok v (dn, g) = Some (dn', g')" for v
    by (simp add: gather_update_meta_def gathered_new_def split: prod.split option.split)
  show ?case
  proof (cases u)
    case (UPDATE_META v)
    then show ?thesis using meta [of v] Cons.IH by fastforce
  next
    case (UPDATE_EXPUNGE ex)
    then show ?thesis using Cons.IH by (cases allow) (simp_all add: gather_update_expunge_def gathered_new_def)
  qed (simp_all add: gather_update_new_def gathered_new_def Cons.IH)
qed simp

lemma noop_no_requests:
  assumes "good_env env"
  shows "\<exists>e dn' io'. noop_cmd env allow uid_mode msg dn io = Some (e, dn', io') \<and> io_reqs io' = io_reqs io"
proof -
  from gathers [of allow False "[]" "dn_pending_updates dn" dn gather_prep] obtain e st dn' g where
    "gather_loop alloc_ok allow False [] (dn_pending_updates dn) (dn, gather_prep) = Some (e, st, dn', g)" by auto
  then have "\<exists>r. dn_gather_updates alloc_ok all_built allow uid_mode False dn [] = Some r"
    by (simp add: dn_gather_updates_def gather_updates_dont_send_def split: prod.split)
  then show ?thesis using good_envD [OF assms] by (auto simp: noop_cmd_def split: prod.split)
qed

text \<open>
  C13. An \<open>EXPUNGE\<close> asks the mailbox to remove exactly the messages of the view that have the flag \<open>\\Deleted\<close>, each
  once, keeps the tag until the answer, and tells the client nothing yet; a mailbox without such a
  message, and a mailbox opened by \<open>EXAMINE\<close>, is asked for nothing, and the latter is refused.  The removal at
  a disconnection asks for the same messages, but also in a mailbox opened by \<open>EXAMINE\<close>.
\<close>

theorem dn_expunge_exact:
  assumes "good_env env" "dn_m dn" "views_ok (dn_views dn)" "\<not> expunge_started dn" "\<not> disconnect_started dn" "e_request env = (\<lambda>_. E_NONE)"
  shows "let keys = rev (map v_key (filter (\<lambda>y. deleted (v_flags y)) (nodes (dn_views dn)))) in
    (if dn_examine dn
     then dn_expunge env dn io = Some (E_NONE, dn, io\<lparr>io_tag := None, io_out := io_out io @ [st_resp (io_tag io) IE_ST_NO None ''mailbox is read-only''], io_ok := True\<rparr>)
     else if keys = [] then (\<exists>e dn' io'. dn_expunge env dn io = Some (e, dn', io') \<and> io_reqs io' = io_reqs io)
     else dn_expunge env dn io = Some (E_NONE, dn\<lparr>expunge_tag := io_tag io, expunge_started := True\<rparr>,
       io\<lparr>io_tag := None, io_reqs := io_reqs io @ [UPDATE_REQ_EXPUNGE keys], io_ok := False\<rparr>)) \<and>
    dn_disconnect env True dn io = (if keys = [] then (E_NONE, dn, io\<lparr>io_ok := True\<rparr>)
      else (E_NONE, dn\<lparr>disconnect_started := True\<rparr>, io\<lparr>io_reqs := io_reqs io @ [UPDATE_REQ_EXPUNGE keys], io_ok := False\<rparr>))"
proof -
  note E = good_envD [OF assms(1)] and k = keys_to_expunge [OF assms(1,3)]
  let ?keys = "rev (map v_key (filter (\<lambda>y. deleted (v_flags y)) (nodes (dn_views dn))))"
  have "dn_disconnect env True dn io = (if ?keys = [] then (E_NONE, dn, io\<lparr>io_ok := True\<rparr>)
      else (E_NONE, dn\<lparr>disconnect_started := True\<rparr>, io\<lparr>io_reqs := io_reqs io @ [UPDATE_REQ_EXPUNGE ?keys], io_ok := False\<rparr>))"
    using assms(2,5,6) k by (simp add: dn_disconnect_def healthcheck_def disconnect_begin_def request_def)
  moreover have "\<exists>e dn' io'. dn_expunge env dn io = Some (e, dn', io') \<and> io_reqs io' = io_reqs io" if "?keys = []" "\<not> dn_examine dn"
    using that assms(2,4) k noop_no_requests [OF assms(1), of True False _ dn "io\<lparr>io_ok := False\<rparr>"] by (simp add: dn_expunge_def healthcheck_def expunge_begin_def)
  ultimately show ?thesis
    using assms(2,4,6) k E by (simp add: Let_def dn_expunge_def healthcheck_def expunge_begin_def reply_with_def send_no_def send_st_resp_def emit_def request_def)
qed

theorem dn_expunge_exact_witness:
  "dn_expunge small_env ((two_dn [])\<lparr>dn_views := jsw_ainsert (jsw_ainit jsw_cmp_uint v_uid_dn) (plain_view 5 (no_flags\<lparr>deleted := True\<rparr>))\<rparr>) small_io =
    Some (E_NONE, (two_dn [])\<lparr>dn_views := jsw_ainsert (jsw_ainit jsw_cmp_uint v_uid_dn) (plain_view 5 (no_flags\<lparr>deleted := True\<rparr>)), expunge_tag := Some ''a1'', expunge_started := True\<rparr>,
      small_io\<lparr>io_tag := None, io_reqs := [UPDATE_REQ_EXPUNGE [\<lparr>uid_up = 5, uid_local = 0\<rparr>]], io_ok := False\<rparr>)"
proof -
  let ?v = "plain_view 5 (no_flags\<lparr>deleted := True\<rparr>)" let ?t = "jsw_ainsert (jsw_ainit jsw_cmp_uint v_uid_dn) ?v"
  have i: "utree_ok v_uid_dn (jsw_ainit jsw_cmp_uint v_uid_dn)" "nodes (jsw_ainit jsw_cmp_uint v_uid_dn) = []" using utree_init by blast+
  have t: "utree_ok v_uid_dn ?t" "nodes ?t = [?v]" using utree_insert(1) [OF i(1), of ?v] utree_insert_last [OF i(1), of ?v] by (simp_all add: i(2))
  then have o: "views_ok ?t" by (simp add: views_utree uids_def plain_view_def)
  show ?thesis using dn_expunge_exact [of small_env "(two_dn [])\<lparr>dn_views := ?t\<rparr>" small_io] o t(2)
    by (simp add: small_env_def good_env_def two_dn_def dn_init_def small_io_def plain_view_def Let_def)
qed

end
