(* ===== verification/Codec.thy ===== *)
theory Codec
  imports Fmt
begin

text \<open>
  The byte encodings: base64 and hexadecimal of \<open>src/libdstr/common.c\<close> and the URL variant
  of base64 of \<open>src/libacme/b64url.c\<close>, with their inverses.  Bit operations are on bytes.
\<close>

unbundle bit_operations_syntax

section \<open>Base64\<close>

definition b64_char :: "byte \<Rightarrow> byte" where
  "b64_char val =
     (if val < 26 then 65 + val
      else if val < 52 then 97 + val - 26
      else if val < 62 then 48 + val - 52
      else if val = 62 then 43 else 47)"

text \<open>A chunk of one to three bytes, missing bytes read as zero, padded with \<open>=\<close>.\<close>

definition enc_chunk :: "byte list \<Rightarrow> byte list" where
  "enc_chunk ch =
     (let c0 = ch ! 0;
          c1 = (if 1 < length ch then ch ! 1 else 0);
          c2 = (if 2 < length ch then ch ! 2 else 0)
      in [b64_char (0x3f AND drop_bit 2 c0),
          b64_char ((0x30 AND push_bit 4 c0) OR (0x0f AND drop_bit 4 c1)),
          (if 2 > length ch then 61 else b64_char ((0x3c AND push_bit 2 c1) OR (0x03 AND drop_bit 6 c2))),
          (if 3 > length ch then 61 else b64_char (0x3f AND c2))])"

fun enc_loop :: "allocator \<Rightarrow> nat \<Rightarrow> nat \<Rightarrow> nat \<Rightarrow> nat \<Rightarrow> byte list \<Rightarrow> byte list \<Rightarrow> dstr \<Rightarrow> derr_type \<times> dstr" where
  "enc_loop A len line_width chunk_size i [] ch b64 = (E_NONE, b64)"
| "enc_loop A len line_width chunk_size i (c # rest) ch b64 =
     (let ch' = ch @ [c] in
      if length ch' = 3 \<or> i = len - 1
      then ifok (dstr_append_quiet A b64 (enc_chunk ch'))
             (\<lambda>b64. if line_width > 0 \<and> ((i + 1) mod chunk_size = 0 \<or> i + 1 = len)
                    then ifok (dstr_append_quiet A b64 [10])
                           (\<lambda>b64. enc_loop A len line_width chunk_size (i + 1) rest [] b64) id
                    else enc_loop A len line_width chunk_size (i + 1) rest [] b64) id
      else enc_loop A len line_width chunk_size (i + 1) rest ch' b64)"

text \<open>
  The third component is what is stored through \<open>consumed\<close> (0 after an error).  \<open>None\<close>: with a
  line width of 1 to 3 the chunk size is 0 and \<open>bin->len % chunk_size\<close> divides by zero.
\<close>

definition bin2b64_quiet :: "allocator \<Rightarrow> byte list \<Rightarrow> dstr \<Rightarrow> nat \<Rightarrow> bool \<Rightarrow> (derr_type \<times> dstr \<times> nat) option" where
  "bin2b64_quiet A bin b64 line_width force_end =
     (let chunk_size = line_width div 4 * 3;
          len = length bin;
          end_condition = (if line_width > 0 \<and> \<not> force_end then len - len mod chunk_size else len)
      in if line_width > 0 \<and> chunk_size = 0 then None
         else case enc_loop A len line_width chunk_size 0 (take end_condition bin) [] b64 of
                (e, b64') \<Rightarrow> Some (e, b64', if e \<noteq> E_NONE then 0 else end_condition))"

definition bin2b64 :: "allocator \<Rightarrow> byte list \<Rightarrow> dstr \<Rightarrow> derr_type \<times> dstr" where
  "bin2b64 A bin b64 = (case bin2b64_quiet A bin b64 0 True of Some (e, b64', _) \<Rightarrow> (e, b64') | None \<Rightarrow> (E_INTERNAL, b64))"

definition bin2b64_stream :: "allocator \<Rightarrow> dstr \<Rightarrow> dstr \<Rightarrow> nat \<Rightarrow> bool \<Rightarrow> (derr_type \<times> dstr \<times> dstr) option" where
  "bin2b64_stream A bin b64 line_width force_end =
     (case bin2b64_quiet A (ddata bin) b64 line_width force_end of
        None \<Rightarrow> None
      | Some (e, b64', consumed) \<Rightarrow>
          Some (if e \<noteq> E_NONE then (e, bin, b64') else (E_NONE, dstr_leftshift bin consumed, b64')))"

record dec_state =
  d_ch :: "byte list"
  d_idx :: nat
  d_skip :: nat

definition b64_val :: "byte \<Rightarrow> byte option" where
  "b64_val c =
     (if 65 \<le> c \<and> c \<le> 90 then Some (c - 65)
      else if 97 \<le> c \<and> c \<le> 122 then Some (c - 97 + 26)
      else if 48 \<le> c \<and> c \<le> 57 then Some (c - 48 + 52)
      else if c = 43 then Some 62
      else if c = 47 then Some 63
      else None)"

definition dec_char :: "byte \<Rightarrow> dec_state \<Rightarrow> dec_state" where
  "dec_char c s =
     (case b64_val c of
        Some v \<Rightarrow> s\<lparr>d_ch := (d_ch s)[d_idx s := v], d_idx := d_idx s + 1\<rparr>
      | None \<Rightarrow> if c = 61 then s\<lparr>d_skip := d_skip s + 1, d_idx := d_idx s + 1\<rparr> else s)"

definition dec_chunk :: "byte list \<Rightarrow> nat \<Rightarrow> byte list" where
  "dec_chunk ch skip =
     [push_bit 2 (ch ! 0) OR drop_bit 4 (ch ! 1)] @
     (if skip < 2 then [push_bit 4 (ch ! 1) OR drop_bit 2 (ch ! 2)] else []) @
     (if skip < 1 then [push_bit 6 (ch ! 2) OR (ch ! 3)] else [])"

text \<open>Result: error, output, \<open>total_read\<close> and the final \<open>ch_idx\<close>.\<close>

fun dec_loop :: "allocator \<Rightarrow> nat \<Rightarrow> nat \<Rightarrow> byte list \<Rightarrow> dec_state \<Rightarrow> dstr \<Rightarrow> derr_type \<times> dstr \<times> nat \<times> nat" where
  "dec_loop A i tot [] s bin = (E_NONE, bin, tot, d_idx s)"
| "dec_loop A i tot (c # rest) s bin =
     (let s' = dec_char c s in
      if d_idx s' = 4
      then (case dstr_append_quiet A bin (dec_chunk (d_ch s') (d_skip s')) of (e, bin') \<Rightarrow>
              if e \<noteq> E_NONE then (e, bin', tot, 4)
              else if d_skip s' > 0 then (E_NONE, bin', i + 1, 0)
              else dec_loop A (i + 1) (i + 1) rest (s'\<lparr>d_idx := 0\<rparr>) bin')
      else dec_loop A (i + 1) tot rest s' bin)"

text \<open>\<open>want_consumed\<close>: the caller passed a \<open>consumed\<close> pointer.\<close>

definition b642bin_quiet :: "allocator \<Rightarrow> byte list \<Rightarrow> dstr \<Rightarrow> bool \<Rightarrow> derr_type \<times> dstr \<times> nat" where
  "b642bin_quiet A b64 bin want_consumed =
     (case dec_loop A 0 0 b64 \<lparr>d_ch = [0, 0, 0, 0], d_idx = 0, d_skip = 0\<rparr> bin of
        (e, bin', total_read, ch_idx) \<Rightarrow>
          if e \<noteq> E_NONE then (e, bin', 0)
          else if want_consumed then (E_NONE, bin', total_read)
          else if total_read \<noteq> length b64 \<or> ch_idx \<noteq> 0 then (E_PARAM, bin', 0)
          else (E_NONE, bin', 0))"

definition b642bin :: "allocator \<Rightarrow> byte list \<Rightarrow> dstr \<Rightarrow> derr_type \<times> dstr" where
  "b642bin A b64 bin = (case b642bin_quiet A b64 bin False of (e, bin', _) \<Rightarrow> (e, bin'))"

definition b642bin_stream :: "allocator \<Rightarrow> dstr \<Rightarrow> dstr \<Rightarrow> derr_type \<times> dstr \<times> dstr" where
  "b642bin_stream A b64 bin =
     (case b642bin_quiet A (ddata b64) bin True of
        (e, bin', consumed) \<Rightarrow> if e \<noteq> E_NONE then (e, b64, bin') else (E_NONE, dstr_leftshift b64 consumed, bin'))"

definition b642bin_output_len :: "nat \<Rightarrow> nat" where
  "b642bin_output_len n = (n + 3) div 4 * 3"

definition bin2b64_output_len :: "nat \<Rightarrow> nat" where
  "bin2b64_output_len n = (n + 2) div 3 * 4"

section \<open>Hexadecimal\<close>

fun bin2hex :: "allocator \<Rightarrow> byte list \<Rightarrow> dstr \<Rightarrow> derr_type \<times> dstr" where
  "bin2hex A [] hex = (E_NONE, hex)"
| "bin2hex A (c # bin) hex =
     ifok (dstr_append_quiet A hex [hex_high_nibble c, hex_low_nibble c]) (\<lambda>hex. bin2hex A bin hex) id"

definition isspace :: "byte \<Rightarrow> bool" where
  "isspace c \<longleftrightarrow> c = 32 \<or> 9 \<le> c \<and> c \<le> 13"

definition hex_val :: "byte \<Rightarrow> byte option" where
  "hex_val c =
     (if 48 \<le> c \<and> c \<le> 57 then Some (c - 48)
      else if 65 \<le> c \<and> c \<le> 70 then Some (c - 65 + 10)
      else if 97 \<le> c \<and> c \<le> 102 then Some (c - 97 + 10)
      else None)"

text \<open>\<open>half\<close>: the high nibble read so far, \<open>None\<close> at a byte boundary (\<open>shift = 0\<close>).\<close>

fun hex2bin_loop :: "allocator \<Rightarrow> byte list \<Rightarrow> byte option \<Rightarrow> dstr \<Rightarrow> derr_type \<times> dstr" where
  "hex2bin_loop A [] half bin = (E_NONE, bin)"
| "hex2bin_loop A (c # hex) half bin =
     (case hex_val c of
        None \<Rightarrow> if isspace c then hex2bin_loop A hex half bin else (E_PARAM, bin)
      | Some val \<Rightarrow>
          (case half of
             None \<Rightarrow> hex2bin_loop A hex (Some (push_bit 4 val)) bin
           | Some byte \<Rightarrow> ifok (dstr_append_quiet A bin [byte OR val]) (\<lambda>bin. hex2bin_loop A hex None bin) id))"

definition hex2bin :: "allocator \<Rightarrow> byte list \<Rightarrow> dstr \<Rightarrow> derr_type \<times> dstr" where
  "hex2bin A hex bin = hex2bin_loop A hex None bin"

section \<open>URL-safe base64\<close>

definition b64urllut :: "byte \<Rightarrow> byte" where
  "b64urllut u =
     (if u < 26 then 65 + u
      else if u < 52 then 97 + (u - 26)
      else if u < 62 then 48 + (u - 52)
      else if u = 62 then 45 else 95)"

definition unb64urllut :: "byte \<Rightarrow> byte" where
  "unb64urllut c =
     (if c = 45 then 62
      else if 48 \<le> c \<and> c \<le> 57 then c - 48 + 52
      else if 65 \<le> c \<and> c \<le> 90 then c - 65
      else if c = 95 then 63
      else if 97 \<le> c \<and> c \<le> 122 then c - 97 + 26
      else 255)"

text \<open>\<open>pos\<close> is \<open>i % 3\<close> and \<open>u\<close> the bits left over.\<close>

fun b64url_loop :: "'s writer \<Rightarrow> nat \<Rightarrow> byte \<Rightarrow> byte list \<Rightarrow> 's \<Rightarrow> derr_type \<times> 's" where
  "b64url_loop w pos u [] out = (if pos \<noteq> 0 then w_putc w out (b64urllut u) else (E_NONE, out))"
| "b64url_loop w pos u (c # bin) out =
     (if pos = 0
      then ifok (w_putc w out (b64urllut (drop_bit 2 c AND 0x3f)))
             (\<lambda>out. b64url_loop w 1 (push_bit 4 (c AND 0x03)) bin out) id
      else if pos = 1
      then ifok (w_putc w out (b64urllut (u OR (drop_bit 4 c AND 0x0f))))
             (\<lambda>out. b64url_loop w 2 (push_bit 2 (c AND 0x0f)) bin out) id
      else ifok (w_putc w out (b64urllut (u OR (drop_bit 6 c AND 0x03))))
             (\<lambda>out. ifok (w_putc w out (b64urllut (c AND 0x3f)))
                (\<lambda>out. b64url_loop w 0 0 bin out) id) id)"

definition do_bin2b64url :: "'s writer \<Rightarrow> byte list \<Rightarrow> 's \<Rightarrow> derr_type \<times> 's" where
  "do_bin2b64url w bin out = b64url_loop w 0 0 bin out"

definition bin2b64url_quiet :: "allocator \<Rightarrow> byte list \<Rightarrow> dstr \<Rightarrow> derr_type \<times> dstr" where
  "bin2b64url_quiet A bin b64 = do_bin2b64url (writer_dstr A) bin b64"

fun unb64url_loop :: "allocator \<Rightarrow> nat \<Rightarrow> byte \<Rightarrow> byte list \<Rightarrow> dstr \<Rightarrow> derr_type \<times> dstr" where
  "unb64url_loop A pos l [] bin = (if l \<noteq> 0 then (E_PARAM, bin) else (E_NONE, bin))"
| "unb64url_loop A pos l (c # b64) bin =
     (let u = unb64urllut c in
      if u = 255 then (E_PARAM, bin)
      else if pos = 0 then unb64url_loop A 1 (push_bit 2 u) b64 bin
      else if pos = 1 then ifok (dstr_append_char A bin (l OR (drop_bit 4 u AND 0x03)))
             (\<lambda>bin. unb64url_loop A 2 (push_bit 4 (u AND 0x0f)) b64 bin) id
      else if pos = 2 then ifok (dstr_append_char A bin (l OR (drop_bit 2 u AND 0x0f)))
             (\<lambda>bin. unb64url_loop A 3 (push_bit 6 (u AND 0x03)) b64 bin) id
      else ifok (dstr_append_char A bin (l OR u)) (\<lambda>bin. unb64url_loop A 0 0 b64 bin) id)"

definition b64url2bin_quiet :: "allocator \<Rightarrow> byte list \<Rightarrow> dstr \<Rightarrow> derr_type \<times> dstr" where
  "b64url2bin_quiet A b64 bin =
     (if length b64 mod 4 = 1 then (E_PARAM, bin) else unb64url_loop A 0 0 b64 bin)"

section \<open>Single symbols and chunks\<close>

lemma sextets: "v < 64 \<Longrightarrow> v \<in> set (map of_nat [0..<64])" for v :: byte
proof -
  assume "v < 64"
  then have "unat v < 64" by (simp add: word_less_nat_alt)
  then show ?thesis by (auto intro!: image_eqI [of _ _ "unat v"])
qed

lemma dec_b64_char:
  assumes "v < 64"
  shows "dec_char (b64_char v) s = s\<lparr>d_ch := (d_ch s)[d_idx s := v], d_idx := d_idx s + 1\<rparr>"
proof -
  have "\<forall>v \<in> set (map of_nat [0..<64]). b64_val (b64_char v) = Some v"
    unfolding b64_char_def b64_val_def by code_simp
  with sextets [OF assms] have "b64_val (b64_char v) = Some v" by blast
  then show ?thesis by (simp add: dec_char_def)
qed

lemma dec_other: "dec_char 61 s = s\<lparr>d_skip := d_skip s + 1, d_idx := d_idx s + 1\<rparr>" "dec_char 10 s = s"
  by (simp_all add: dec_char_def b64_val_def)

lemma unb64url_inverse:
  assumes "v < 64"
  shows "unb64urllut (b64urllut v) = v"
proof -
  have "\<forall>v \<in> set (map of_nat [0..<64]). unb64urllut (b64urllut v) = v"
    unfolding unb64urllut_def b64urllut_def by code_simp
  with sextets [OF assms] show ?thesis by blast
qed

lemma sextet_bounds:
  fixes x y :: byte
  shows "0x3f AND x < 64" "x AND 0x3f < 64" "(0x30 AND x) OR (0x0f AND y) < 64" "(0x3c AND x) OR (0x03 AND y) < 64"
proof -
  have m: "v AND 0x3f < 64" for v :: byte
    by (rule order_le_less_trans [OF word_and_le1]) simp
  have "((0x30 AND x) OR (0x0f AND y)) AND 0x3f = (0x30 AND x) OR (0x0f AND y)"
    by (rule bit_word_eqI; drule byte_bits; elim disjE; simp add: bit_simps)
  with m show "(0x30 AND x) OR (0x0f AND y) < 64" by metis
  have "((0x3c AND x) OR (0x03 AND y)) AND 0x3f = (0x3c AND x) OR (0x03 AND y)"
    by (rule bit_word_eqI; drule byte_bits; elim disjE; simp add: bit_simps)
  with m show "(0x3c AND x) OR (0x03 AND y) < 64" by metis
  from m show "x AND 0x3f < 64" .
  from m [of x] show "0x3f AND x < 64" by (simp only: and.commute)
qed

lemma chunk_bits:
  fixes c0 c1 c2 :: byte
  shows "push_bit 2 (0x3f AND drop_bit 2 c0) OR drop_bit 4 ((0x30 AND push_bit 4 c0) OR (0x0f AND drop_bit 4 c1)) = c0"
    and "push_bit 4 ((0x30 AND push_bit 4 c0) OR (0x0f AND drop_bit 4 c1)) OR
         drop_bit 2 ((0x3c AND push_bit 2 c1) OR (0x03 AND drop_bit 6 c2)) = c1"
    and "push_bit 6 ((0x3c AND push_bit 2 c1) OR (0x03 AND drop_bit 6 c2)) OR (0x3f AND c2) = c2"
  by (rule bit_word_eqI; drule byte_bits; elim disjE; simp add: bit_simps)+

lemma chunk_cases:
  "enc_chunk [a] = [b64_char (0x3f AND drop_bit 2 a), b64_char ((0x30 AND push_bit 4 a) OR (0x0f AND drop_bit 4 0)), 61, 61]"
  "enc_chunk [a, b] = [b64_char (0x3f AND drop_bit 2 a), b64_char ((0x30 AND push_bit 4 a) OR (0x0f AND drop_bit 4 b)),
     b64_char ((0x3c AND push_bit 2 b) OR (0x03 AND drop_bit 6 0)), 61]"
  "enc_chunk [a, b, c] = [b64_char (0x3f AND drop_bit 2 a), b64_char ((0x30 AND push_bit 4 a) OR (0x0f AND drop_bit 4 b)),
     b64_char ((0x3c AND push_bit 2 b) OR (0x03 AND drop_bit 6 c)), b64_char (0x3f AND c)]"
  by (simp_all add: enc_chunk_def Let_def)

lemma length_enc_chunk [simp]: "length (enc_chunk ch) = 4"
  by (simp add: enc_chunk_def Let_def)

text \<open>Decoding one encoded chunk at a chunk boundary.\<close>

lemma dec_chunk_simps:
  "dec_chunk [p, q, r, s] 0 = [push_bit 2 p OR drop_bit 4 q, push_bit 4 q OR drop_bit 2 r, push_bit 6 r OR s]"
  "dec_chunk [p, q, r, s] 1 = [push_bit 2 p OR drop_bit 4 q, push_bit 4 q OR drop_bit 2 r]"
  "dec_chunk [p, q, r, s] 2 = [push_bit 2 p OR drop_bit 4 q]"
  by (simp_all add: dec_chunk_def numeral_3_eq_3 numeral_2_eq_2 del: push_bit_numeral)

lemma dec_four:
  assumes "v0 < 64" "v1 < 64"
  shows "v2 < 64 \<Longrightarrow> v3 < 64 \<Longrightarrow>
      dec_loop A i tot ([b64_char v0, b64_char v1, b64_char v2, b64_char v3] @ rest) \<lparr>d_ch = [p, q, r, s], d_idx = 0, d_skip = 0\<rparr> bin =
      (case dstr_append_quiet A bin (dec_chunk [v0, v1, v2, v3] 0) of (e, bin') \<Rightarrow>
         if e \<noteq> E_NONE then (e, bin', tot, 4)
         else dec_loop A (i + 4) (i + 4) rest \<lparr>d_ch = [v0, v1, v2, v3], d_idx = 0, d_skip = 0\<rparr> bin')"
    (is "_ \<Longrightarrow> _ \<Longrightarrow> ?P")
    and "v2 < 64 \<Longrightarrow>
      dec_loop A i tot ([b64_char v0, b64_char v1, b64_char v2, 61] @ rest) \<lparr>d_ch = [p, q, r, s], d_idx = 0, d_skip = 0\<rparr> bin =
      (case dstr_append_quiet A bin (dec_chunk [v0, v1, v2, s] 1) of (e, bin') \<Rightarrow>
         if e \<noteq> E_NONE then (e, bin', tot, 4) else (E_NONE, bin', i + 4, 0))"
    (is "_ \<Longrightarrow> ?Q")
    and "dec_loop A i tot ([b64_char v0, b64_char v1, 61, 61] @ rest) \<lparr>d_ch = [p, q, r, s], d_idx = 0, d_skip = 0\<rparr> bin =
      (case dstr_append_quiet A bin (dec_chunk [v0, v1, r, s] 2) of (e, bin') \<Rightarrow>
         if e \<noteq> E_NONE then (e, bin', tot, 4) else (E_NONE, bin', i + 4, 0))"
    (is ?R)
proof -
  have four: "j + 4 = Suc (Suc (Suc (Suc j)))" "4 = Suc (Suc (Suc (Suc 0)))" "2 = Suc (Suc 0)" for j :: nat by simp_all
  show "v2 < 64 \<Longrightarrow> v3 < 64 \<Longrightarrow> ?P" "v2 < 64 \<Longrightarrow> ?Q" "?R"
    using assms by (simp_all add: dec_b64_char dec_other Let_def four split: prod.split)
qed

lemma dec_chunk3:
  "dec_loop A i tot (enc_chunk [a, b, c] @ rest) \<lparr>d_ch = [p, q, r, s], d_idx = 0, d_skip = 0\<rparr> bin =
    (case dstr_append_quiet A bin [a, b, c] of (e, bin') \<Rightarrow>
       if e \<noteq> E_NONE then (e, bin', tot, 4)
       else dec_loop A (i + 4) (i + 4) rest
         \<lparr>d_ch = [0x3f AND drop_bit 2 a, (0x30 AND push_bit 4 a) OR (0x0f AND drop_bit 4 b),
             (0x3c AND push_bit 2 b) OR (0x03 AND drop_bit 6 c), 0x3f AND c], d_idx = 0, d_skip = 0\<rparr> bin')"
  unfolding chunk_cases by (subst dec_four(1)) (rule sextet_bounds, rule sextet_bounds, rule sextet_bounds, rule sextet_bounds, simp only: dec_chunk_simps chunk_bits)

lemma dec_chunk_last:
  assumes "xs = [a] \<or> xs = [a, b]"
  shows "dec_loop A i tot (enc_chunk xs @ rest) \<lparr>d_ch = [p, q, r, s], d_idx = 0, d_skip = 0\<rparr> bin =
      (case dstr_append_quiet A bin xs of (e, bin') \<Rightarrow>
         if e \<noteq> E_NONE then (e, bin', tot, 4) else (E_NONE, bin', i + 4, 0))"
  using assms
proof (elim disjE)
  assume x: "xs = [a]"
  show ?thesis unfolding chunk_cases x
    by (subst dec_four(3)) (rule sextet_bounds, rule sextet_bounds, simp only: dec_chunk_simps chunk_bits)
next
  assume x: "xs = [a, b]"
  show ?thesis unfolding chunk_cases x
    by (subst dec_four(2)) (rule sextet_bounds, rule sextet_bounds, rule sextet_bounds, simp only: dec_chunk_simps chunk_bits)
qed

section \<open>Base64 texts\<close>

fun enc_pieces :: "nat \<Rightarrow> nat \<Rightarrow> nat \<Rightarrow> nat \<Rightarrow> byte list \<Rightarrow> byte list \<Rightarrow> byte list list" where
  "enc_pieces len lw cs i [] ch = []"
| "enc_pieces len lw cs i (c # rest) ch =
     (if length (ch @ [c]) = 3 \<or> i = len - 1
      then enc_chunk (ch @ [c]) #
        (if lw > 0 \<and> ((i + 1) mod cs = 0 \<or> i + 1 = len) then [[10]] else []) @
        enc_pieces len lw cs (i + 1) rest []
      else enc_pieces len lw cs (i + 1) rest (ch @ [c]))"

lemma enc_loop_put_all:
  "enc_loop A len lw cs i data ch b64 = put_all (dstr_append_quiet A) b64 (enc_pieces len lw cs i data ch)"
  by (induction data arbitrary: i ch b64) (auto simp: Let_def ifok_def split: prod.split)

fun thirds :: "byte list \<Rightarrow> byte list list" where
  "thirds (a # b # c # rest) = [a, b, c] # thirds rest"
| "thirds [] = []"
| "thirds xs = [xs]"

lemmas thirds_induct = thirds.induct [case_names three none one two]

text \<open>The part of the output that belongs to the bytes from position \<open>i\<close> on, on a chunk boundary.\<close>

lemma enc_pieces_step:
  assumes "i + length (a # b # c # rest) \<le> len"
  shows "enc_pieces len lw cs i (a # b # c # rest) [] =
    enc_chunk [a, b, c] # (if lw > 0 \<and> ((i + 3) mod cs = 0 \<or> i + 3 = len) then [[10]] else []) @
      enc_pieces len lw cs (i + 3) rest []"
proof -
  have "i \<noteq> len - 1" "Suc i \<noteq> len - 1" using assms by auto
  then show ?thesis by (simp add: numeral_3_eq_3)
qed

lemma dec_pieces:
  assumes "i + length data \<le> len" and "i + length data = len \<or> 3 dvd length data"
    and "dstr_ok bin" and "\<not> dfixed bin"
  shows "\<exists>bin' tot'. dec_loop alloc_ok j tot (concat (enc_pieces len lw cs i data [])) \<lparr>d_ch = [p, q, r, s], d_idx = 0, d_skip = 0\<rparr> bin =
      (E_NONE, bin', tot', 0) \<and> ddata bin' = ddata bin @ data \<and> dstr_ok bin' \<and> \<not> dfixed bin' \<and>
      (data = [] \<longrightarrow> tot' = tot) \<and>
      (data \<noteq> [] \<longrightarrow> j \<le> tot' \<and> drop (tot' - j) (concat (enc_pieces len lw cs i data [])) \<in> (if lw = 0 then {[]} else {[], [10]}) \<and>
         tot' \<le> j + length (concat (enc_pieces len lw cs i data [])))"
  using assms
proof (induction data arbitrary: i j tot p q r s bin rule: thirds_induct)
  case (three a b c rest)
  let ?nl = "if lw > 0 \<and> ((i + 3) mod cs = 0 \<or> i + 3 = len) then [10 :: byte] else []"
  let ?more = "concat (enc_pieces len lw cs (i + 3) rest [])"
  have e: "concat (enc_pieces len lw cs i (a # b # c # rest) []) = enc_chunk [a, b, c] @ ?nl @ ?more"
    using enc_pieces_step [OF three(2)] by simp
  obtain bin1 where b: "dstr_append_quiet alloc_ok bin [a, b, c] = (E_NONE, bin1)" "ddata bin1 = ddata bin @ [a, b, c]"
    "dstr_ok bin1" "\<not> dfixed bin1" using dstr_append_grows [OF three(4,5)] by blast
  let ?s = "\<lparr>d_ch = [0x3f AND drop_bit 2 a, (0x30 AND push_bit 4 a) OR (0x0f AND drop_bit 4 b),
     (0x3c AND push_bit 2 b) OR (0x03 AND drop_bit 6 c), 0x3f AND c], d_idx = 0, d_skip = 0\<rparr>"
  have d: "dec_loop alloc_ok j tot (enc_chunk [a, b, c] @ ?nl @ ?more) \<lparr>d_ch = [p, q, r, s], d_idx = 0, d_skip = 0\<rparr> bin =
    dec_loop alloc_ok (j + 4 + length ?nl) (j + 4) ?more ?s bin1"
    by (simp add: dec_chunk3 b(1) dec_other)
  have "i + 3 + length rest \<le> len" "i + 3 + length rest = len \<or> 3 dvd length rest"
    using three(2,3) by (auto simp: dvd_def) presburger+
  from three(1) [OF this b(3,4), of "j + 4 + length ?nl" "j + 4"] obtain bin' tot' where t:
    "dec_loop alloc_ok (j + 4 + length ?nl) (j + 4) ?more ?s bin1 = (E_NONE, bin', tot', 0)"
    "ddata bin' = ddata bin1 @ rest" "dstr_ok bin'" "\<not> dfixed bin'" "rest = [] \<longrightarrow> tot' = j + 4"
    "rest \<noteq> [] \<longrightarrow> j + 4 + length ?nl \<le> tot' \<and> drop (tot' - (j + 4 + length ?nl)) ?more \<in> (if lw = 0 then {[]} else {[], [10]}) \<and>
       tot' \<le> j + 4 + length ?nl + length ?more"
    by blast
  show ?case
  proof (cases "rest = []")
    case True
    with t b d e show ?thesis by simp
  next
    case False
    then obtain k where k: "tot' = j + 4 + length ?nl + k" using t(6) by (metis le_iff_add)
    then have "drop (tot' - j) (enc_chunk [a, b, c] @ ?nl @ ?more) = drop k ?more" by simp
    with False k t b d e show ?thesis by simp
  qed
next
  case none
  then show ?case by simp
next
  case (one a)
  then have l: "i + 1 = len" by (auto dest: dvd_imp_le)
  obtain bin1 where b: "dstr_append_quiet alloc_ok bin [a] = (E_NONE, bin1)" "ddata bin1 = ddata bin @ [a]"
    "dstr_ok bin1" "\<not> dfixed bin1" using dstr_append_grows one(3,4) by blast
  have e: "concat (enc_pieces len lw cs i [a] []) = enc_chunk [a] @ (if lw > 0 then [10] else [])" using l by auto
  show ?case unfolding e dec_chunk_last [OF disjI1 [OF refl]] using b by simp
next
  case (two a b)
  then have l: "i + 2 = len" by (auto dest: dvd_imp_le)
  obtain bin1 where b: "dstr_append_quiet alloc_ok bin [a, b] = (E_NONE, bin1)" "ddata bin1 = ddata bin @ [a, b]"
    "dstr_ok bin1" "\<not> dfixed bin1" using dstr_append_grows two(3,4) by blast
  have e: "concat (enc_pieces len lw cs i [a, b] []) = enc_chunk [a, b] @ (if lw > 0 then [10] else [])" using l by auto
  show ?case unfolding e dec_chunk_last [OF disjI2 [OF refl]] using b by simp
qed

lemma enc_pieces_length:
  "i + length data = len \<Longrightarrow> length (concat (enc_pieces len 0 cs i data [])) = bin2b64_output_len (length data)"
proof (induction data arbitrary: i rule: thirds.induct)
  case (1 a b c rest)
  have "(length (a # b # c # rest) + 2) div 3 = Suc ((length rest + 2) div 3)" by simp
  moreover have "enc_pieces len 0 cs i (a # b # c # rest) [] = enc_chunk [a, b, c] # enc_pieces len 0 cs (i + 3) rest []"
    using enc_pieces_step [of i a b c rest len 0 cs] 1(2) by simp
  ultimately show ?case using 1 by (simp add: bin2b64_output_len_def del: enc_pieces.simps(2))
qed (auto simp: bin2b64_output_len_def)

section \<open>Hexadecimal texts\<close>

lemma bin2hex_put_all:
  "bin2hex A bin hex = put_all (dstr_append_quiet A) hex (map (\<lambda>c. [hex_high_nibble c, hex_low_nibble c]) bin)"
  by (induction bin arbitrary: hex) (auto simp: ifok_def split: prod.split)

lemma hex_val_digit: "n < 16 \<Longrightarrow> hex_val (hex_digit n) = Some (of_nat n)"
proof -
  assume "n < 16"
  moreover have "\<forall>n \<in> set [0..<16]. hex_val (hex_digit n) = Some (of_nat n)"
    unfolding hex_val_def hex_digit_def by code_simp
  ultimately show ?thesis by auto
qed

lemma hex_val_nibbles:
  "hex_val (hex_high_nibble c) = Some (drop_bit 4 c)" "hex_val (hex_low_nibble c) = Some (c AND 0xF)"
proof -
  have "drop_bit 4 c = drop_bit 4 c AND 0xF"
    by (rule bit_word_eqI; drule byte_bits; elim disjE; auto simp: bit_simps dest: bit_imp_le_length)
  then have "drop_bit 4 c \<le> 0xF" by (metis word_and_le1)
  then have "unat (drop_bit 4 c) < 16" by (simp add: word_le_nat_alt)
  then show "hex_val (hex_high_nibble c) = Some (drop_bit 4 c)"
    by (simp add: hex_high_nibble_def hex_val_digit)
  have "c AND 0xF \<le> 0xF" by (rule word_and_le1)
  then have "unat (c AND 0xF) < 16" by (simp add: word_le_nat_alt)
  then show "hex_val (hex_low_nibble c) = Some (c AND 0xF)"
    by (simp add: hex_low_nibble_def hex_val_digit)
qed

lemma nibbles: "push_bit 4 (drop_bit 4 c) OR (c AND 0xF) = c" for c :: byte
  by (rule bit_word_eqI; drule byte_bits; elim disjE; simp add: bit_simps)

lemma hex2bin_text:
  "dstr_ok out \<Longrightarrow> \<not> dfixed out \<Longrightarrow>
    \<exists>out'. hex2bin_loop alloc_ok (concat (map (\<lambda>c. [hex_high_nibble c, hex_low_nibble c]) bin)) None out = (E_NONE, out') \<and>
      ddata out' = ddata out @ bin"
proof (induction bin arbitrary: out)
  case (Cons c bin)
  from dstr_append_grows [OF Cons.prems, of "[c]"] obtain o1 where
    o: "dstr_append_quiet alloc_ok out [c] = (E_NONE, o1)" "ddata o1 = ddata out @ [c]" "dstr_ok o1" "\<not> dfixed o1" by blast
  from Cons.IH [OF o(3,4)] o(1,2) show ?case
    by (auto simp: hex_val_nibbles nibbles)
qed simp

section \<open>URL-safe texts\<close>

lemma append_char_eq: "dstr_append_char A d c = dstr_append_quiet A d [c]" "writer_dstr_putc A d c = dstr_append_quiet A d [c]"
  by (auto simp: dstr_append_char_def writer_dstr_putc_def dstr_append_quiet_def do_dstr_append_def not_less Suc_le_eq)

fun url_text :: "nat \<Rightarrow> byte \<Rightarrow> byte list \<Rightarrow> byte list" where
  "url_text pos u [] = (if pos \<noteq> 0 then [b64urllut u] else [])"
| "url_text pos u (c # bin) =
     (if pos = 0 then b64urllut (drop_bit 2 c AND 0x3f) # url_text 1 (push_bit 4 (c AND 0x03)) bin
      else if pos = 1 then b64urllut (u OR (drop_bit 4 c AND 0x0f)) # url_text 2 (push_bit 2 (c AND 0x0f)) bin
      else b64urllut (u OR (drop_bit 6 c AND 0x03)) # b64urllut (c AND 0x3f) # url_text 0 0 bin)"

lemma b64url_loop_put_all:
  "b64url_loop (writer_dstr A) pos u bin out = put_all (dstr_append_quiet A) out (map (\<lambda>c. [c]) (url_text pos u bin))"
  by (induction bin arbitrary: pos u out) (auto simp: writer_dstr_def append_char_eq ifok_def split: prod.split)

lemma url_bits:
  fixes a b c :: byte
  shows "push_bit 4 (a AND 0x03) OR (drop_bit 4 b AND 0x0f) = (0x30 AND push_bit 4 a) OR (0x0f AND drop_bit 4 b)"
    and "push_bit 2 (b AND 0x0f) OR (drop_bit 6 c AND 0x03) = (0x3c AND push_bit 2 b) OR (0x03 AND drop_bit 6 c)"
    and "push_bit 4 (a AND 0x03) = (0x30 AND push_bit 4 a) OR (0x0f AND drop_bit 4 0)"
    and "push_bit 2 (b AND 0x0f) = (0x3c AND push_bit 2 b) OR (0x03 AND drop_bit 6 0)"
  by (rule bit_word_eqI; drule byte_bits; elim disjE; simp add: bit_simps)+

lemma unurl_bits:
  fixes a b c :: byte
  shows "push_bit 2 (drop_bit 2 a AND 0x3f) OR (drop_bit 4 ((0x30 AND push_bit 4 a) OR (0x0f AND drop_bit 4 b)) AND 0x03) = a"
    and "push_bit 4 (((0x30 AND push_bit 4 a) OR (0x0f AND drop_bit 4 b)) AND 0x0f) OR
         (drop_bit 2 ((0x3c AND push_bit 2 b) OR (0x03 AND drop_bit 6 c)) AND 0x0f) = b"
    and "push_bit 6 (((0x3c AND push_bit 2 b) OR (0x03 AND drop_bit 6 c)) AND 0x03) OR (c AND 0x3f) = c"
    and "push_bit 4 (((0x30 AND push_bit 4 a) OR (0x0f AND drop_bit 4 0)) AND 0x0f) = 0"
    and "push_bit 6 (((0x3c AND push_bit 2 b) OR (0x03 AND drop_bit 6 0)) AND 0x03) = 0"
  by (rule bit_word_eqI; drule byte_bits; elim disjE; simp add: bit_simps)+

lemma url_text_thirds:
  "url_text 0 0 (a # b # c # rest) =
     [b64urllut (drop_bit 2 a AND 0x3f), b64urllut ((0x30 AND push_bit 4 a) OR (0x0f AND drop_bit 4 b)),
      b64urllut ((0x3c AND push_bit 2 b) OR (0x03 AND drop_bit 6 c)), b64urllut (c AND 0x3f)] @ url_text 0 0 rest"
  "url_text 0 0 [a] = [b64urllut (drop_bit 2 a AND 0x3f), b64urllut ((0x30 AND push_bit 4 a) OR (0x0f AND drop_bit 4 0))]"
  "url_text 0 0 [a, b] = [b64urllut (drop_bit 2 a AND 0x3f), b64urllut ((0x30 AND push_bit 4 a) OR (0x0f AND drop_bit 4 b)),
     b64urllut ((0x3c AND push_bit 2 b) OR (0x03 AND drop_bit 6 0))]"
  unfolding url_text.simps url_bits(3,4) [symmetric] url_bits(1,2) [symmetric] by simp_all

lemma length_url_text: "length (url_text 0 0 bin) mod 4 \<noteq> 1"
proof (induction bin rule: thirds.induct)
  case (1 a b c rest)
  then show ?case unfolding url_text_thirds by simp
qed (unfold url_text_thirds, simp_all)

lemma unb64_step:
  assumes "v < 64"
  shows "unb64url_loop A pos l (b64urllut v # b64) bin =
     (if pos = 0 then unb64url_loop A 1 (push_bit 2 v) b64 bin
      else if pos = 1 then ifok (dstr_append_quiet A bin [l OR (drop_bit 4 v AND 0x03)])
             (\<lambda>bin. unb64url_loop A 2 (push_bit 4 (v AND 0x0f)) b64 bin) id
      else if pos = 2 then ifok (dstr_append_quiet A bin [l OR (drop_bit 2 v AND 0x0f)])
             (\<lambda>bin. unb64url_loop A 3 (push_bit 6 (v AND 0x03)) b64 bin) id
      else ifok (dstr_append_quiet A bin [l OR v]) (\<lambda>bin. unb64url_loop A 0 0 b64 bin) id)"
proof -
  from assms have "v \<noteq> 255" by auto
  then show ?thesis by (simp add: unb64url_inverse [OF assms] append_char_eq Let_def)
qed

lemma unurl_four:
  assumes "v0 < 64" "v1 < 64"
  shows "v2 < 64 \<Longrightarrow> v3 < 64 \<Longrightarrow>
      unb64url_loop A 0 0 ([b64urllut v0, b64urllut v1, b64urllut v2, b64urllut v3] @ rest) out =
      ifok (dstr_append_quiet A out [push_bit 2 v0 OR (drop_bit 4 v1 AND 0x03)]) (\<lambda>out.
        ifok (dstr_append_quiet A out [push_bit 4 (v1 AND 0x0f) OR (drop_bit 2 v2 AND 0x0f)]) (\<lambda>out.
          ifok (dstr_append_quiet A out [push_bit 6 (v2 AND 0x03) OR v3]) (\<lambda>out.
            unb64url_loop A 0 0 rest out) id) id) id"
    and "v2 < 64 \<Longrightarrow>
      unb64url_loop A 0 0 [b64urllut v0, b64urllut v1, b64urllut v2] out =
      ifok (dstr_append_quiet A out [push_bit 2 v0 OR (drop_bit 4 v1 AND 0x03)]) (\<lambda>out.
        ifok (dstr_append_quiet A out [push_bit 4 (v1 AND 0x0f) OR (drop_bit 2 v2 AND 0x0f)]) (\<lambda>out.
          if push_bit 6 (v2 AND 0x03) \<noteq> 0 then (E_PARAM, out) else (E_NONE, out)) id) id"
    and "unb64url_loop A 0 0 [b64urllut v0, b64urllut v1] out =
      ifok (dstr_append_quiet A out [push_bit 2 v0 OR (drop_bit 4 v1 AND 0x03)]) (\<lambda>out.
        if push_bit 4 (v1 AND 0x0f) \<noteq> 0 then (E_PARAM, out) else (E_NONE, out)) id"
  using assms by (simp_all add: unb64_step ifok_def del: unb64url_loop.simps(2) split: prod.split)

lemma unb64url_text:
  assumes "dstr_ok out" and "\<not> dfixed out"
  shows "\<exists>out'. unb64url_loop alloc_ok 0 0 (url_text 0 0 bin) out = (E_NONE, out') \<and> ddata out' = ddata out @ bin"
  using assms
proof (induction bin arbitrary: out rule: thirds_induct)
  case (three a b c rest)
  obtain o1 where o1: "dstr_append_quiet alloc_ok out [a] = (E_NONE, o1)" "ddata o1 = ddata out @ [a]" "dstr_ok o1" "\<not> dfixed o1"
    using dstr_append_grows [OF three(2,3)] by blast
  obtain o2 where o2: "dstr_append_quiet alloc_ok o1 [b] = (E_NONE, o2)" "ddata o2 = ddata o1 @ [b]" "dstr_ok o2" "\<not> dfixed o2"
    using dstr_append_grows [OF o1(3,4)] by blast
  obtain o3 where o3: "dstr_append_quiet alloc_ok o2 [c] = (E_NONE, o3)" "ddata o3 = ddata o2 @ [c]" "dstr_ok o3" "\<not> dfixed o3"
    using dstr_append_grows [OF o2(3,4)] by blast
  have "unb64url_loop alloc_ok 0 0 (url_text 0 0 (a # b # c # rest)) out = unb64url_loop alloc_ok 0 0 (url_text 0 0 rest) o3"
    unfolding url_text_thirds unurl_four(1) [OF sextet_bounds(2,3,4,2)] unurl_bits by (simp add: o1 o2 o3)
  with three(1) [OF o3(3,4)] o1(2) o2(2) o3(2) show ?case by simp
next
  case none
  then show ?case by simp
next
  case (one a)
  from dstr_append_grows [OF this, of "[a]"] show ?case
    unfolding url_text_thirds unurl_four(3) [OF sextet_bounds(2,3)] unurl_bits by auto
next
  case (two a b)
  obtain o1 where o1: "dstr_append_quiet alloc_ok out [a] = (E_NONE, o1)" "ddata o1 = ddata out @ [a]" "dstr_ok o1" "\<not> dfixed o1"
    using dstr_append_grows [OF two, of "[a]"] by blast
  from dstr_append_grows [OF o1(3,4), of "[b]"] o1 show ?case
    unfolding url_text_thirds unurl_four(2) [OF sextet_bounds(2,3,4)] unurl_bits by auto
qed

section \<open>Properties\<close>

lemma zero_dstr_ok: "dstr_ok zero_dstr" "\<not> dfixed zero_dstr" "ddata zero_dstr = []"
  by (simp_all add: zero_dstr_def dstr_ok_def)

text \<open>
  C33. Base64 round-trips: encoding any bytes into an empty growable buffer succeeds with a text
  of exactly the length \<open>bin2b64_output_len\<close> announces, and decoding that text succeeds and
  gives the bytes back.
\<close>

theorem b64_roundtrip:
  "\<exists>b64 bin'. bin2b64 alloc_ok bin zero_dstr = (E_NONE, b64) \<and>
     length (ddata b64) = bin2b64_output_len (length bin) \<and>
     b642bin alloc_ok (ddata b64) zero_dstr = (E_NONE, bin') \<and> ddata bin' = bin"
proof -
  let ?ps = "enc_pieces (length bin) 0 0 0 bin []"
  from put_all_grows [OF zero_dstr_ok(1,2), of ?ps] obtain b64 where
    b: "put_all (dstr_append_quiet alloc_ok) zero_dstr ?ps = (E_NONE, b64)" "ddata b64 = concat ?ps"
    by (auto simp: zero_dstr_ok(3))
  then have e: "bin2b64 alloc_ok bin zero_dstr = (E_NONE, b64)"
    by (simp add: bin2b64_def bin2b64_quiet_def enc_loop_put_all)
  from dec_pieces [of 0 bin "length bin" zero_dstr 0 0 0 0 0 0 0 0] zero_dstr_ok obtain bin' tot where
    d: "dec_loop alloc_ok 0 0 (concat ?ps) \<lparr>d_ch = [0, 0, 0, 0], d_idx = 0, d_skip = 0\<rparr> zero_dstr = (E_NONE, bin', tot, 0)"
    "ddata bin' = bin" "bin = [] \<longrightarrow> tot = 0" "bin \<noteq> [] \<longrightarrow> drop tot (concat ?ps) = [] \<and> tot \<le> length (concat ?ps)"
    by auto
  then have "tot = length (concat ?ps)" by (cases "bin = []") auto
  with d e b enc_pieces_length [of 0 bin "length bin" 0] show ?thesis
    by (simp add: b642bin_def b642bin_quiet_def)
qed

text \<open>
  C34. Base64 in lines round-trips through the streaming interface: with a line width of at least
  four \<open>bin2b64_stream\<close> takes out of its input all bytes when forced to end, and whole lines otherwise,
  leaving the rest, and \<open>b642bin_stream\<close> decodes what was written to exactly the bytes that were taken out, with at
  most the final line break left unread.
\<close>

theorem b64_stream_roundtrip:
  assumes "4 \<le> line_width"
  shows "\<exists>src' b64 n bin' rest. bin2b64_stream alloc_ok src zero_dstr line_width force_end = Some (E_NONE, src', b64) \<and>
     n = (if force_end then dlen src else dlen src - dlen src mod (line_width div 4 * 3)) \<and> ddata src' = drop n (ddata src) \<and>
     b642bin_stream alloc_ok b64 zero_dstr = (E_NONE, rest, bin') \<and> ddata bin' = take n (ddata src) \<and>
     ddata rest \<in> {[], [10]}"
proof -
  let ?bin = "ddata src"
  define cs where "cs = line_width div 4 * 3"
  define n where "n = (if force_end then length ?bin else length ?bin - length ?bin mod cs)"
  let ?ps = "enc_pieces (length ?bin) line_width cs 0 (take n ?bin) []"
  have cs: "cs \<noteq> 0" using assms by (simp add: cs_def div_eq_0_iff)
  have n: "n \<le> length ?bin" "n = length ?bin \<or> 3 dvd n"
  proof -
    have "cs dvd length ?bin - length ?bin mod cs" by (rule dvd_minus_mod)
    then have "3 dvd length ?bin - length ?bin mod cs" by (rule dvd_trans [rotated]) (simp add: cs_def)
    then show "n \<le> length ?bin" "n = length ?bin \<or> 3 dvd n" by (simp_all add: n_def)
  qed
  from put_all_grows [OF zero_dstr_ok(1,2), of ?ps] obtain b64 where
    b: "put_all (dstr_append_quiet alloc_ok) zero_dstr ?ps = (E_NONE, b64)" "ddata b64 = concat ?ps"
    by (auto simp: zero_dstr_ok(3))
  have stop: "(if line_width > 0 \<and> \<not> force_end then length ?bin - length ?bin mod cs else length ?bin) = n"
    using assms by (simp add: n_def)
  have e: "bin2b64_quiet alloc_ok ?bin zero_dstr line_width force_end = Some (E_NONE, b64, n)"
    unfolding bin2b64_quiet_def cs_def [symmetric] Let_def stop enc_loop_put_all b(1) using cs by simp
  have "length (take n ?bin) = n" using n(1) by simp
  with dec_pieces [of 0 "take n ?bin" "length ?bin" zero_dstr 0 0 line_width cs 0 0 0 0] n zero_dstr_ok assms obtain bin' tot where
    d: "dec_loop alloc_ok 0 0 (concat ?ps) \<lparr>d_ch = [0, 0, 0, 0], d_idx = 0, d_skip = 0\<rparr> zero_dstr = (E_NONE, bin', tot, 0)"
    "ddata bin' = take n ?bin" "take n ?bin = [] \<longrightarrow> tot = 0"
    "take n ?bin \<noteq> [] \<longrightarrow> drop tot (concat ?ps) \<in> {[], [10]} \<and> tot \<le> length (concat ?ps)"
    by auto
  have "drop tot (concat ?ps) \<in> {[], [10]} \<and> tot \<le> length (concat ?ps)"
    using d(3,4) by (cases "take n ?bin = []") auto
  moreover have "b642bin_stream alloc_ok b64 zero_dstr = (E_NONE, dstr_leftshift b64 tot, bin')"
    by (simp add: b642bin_stream_def b642bin_quiet_def b(2) d(1))
  moreover have "tot \<le> dlen b64 \<Longrightarrow> ddata (dstr_leftshift b64 tot) = drop tot (ddata b64)"
    by (simp add: dstr_leftshift_def Let_def)
  moreover have "bin2b64_stream alloc_ok src zero_dstr line_width force_end = Some (E_NONE, dstr_leftshift src n, b64)"
    by (simp add: bin2b64_stream_def e)
  moreover have "ddata (dstr_leftshift src n) = drop n ?bin" using n(1) by (simp add: dstr_leftshift_def Let_def)
  ultimately show ?thesis using d(2) b(2) by (intro exI conjI) (auto simp: n_def cs_def)
qed

theorem b64_stream_roundtrip_witness:
  "\<exists>src' b64 bin' rest. bin2b64_stream alloc_ok (dstr_wrap [1, 2, 3, 4] False) zero_dstr 4 False = Some (E_NONE, src', b64) \<and> ddata src' = [4] \<and>
     b642bin_stream alloc_ok b64 zero_dstr = (E_NONE, rest, bin') \<and> ddata bin' = [1, 2, 3]"
  using b64_stream_roundtrip [of 4 "dstr_wrap [1, 2, 3, 4] False" False] by (fastforce simp: dstr_wrap_def)

text \<open>
  C35. The hexadecimal and the URL-safe base64 encodings round-trip: what was written into an
  empty growable buffer decodes to the original bytes.
\<close>

theorem hex_b64url_roundtrip:
  "(\<exists>hex bin'. bin2hex alloc_ok bin zero_dstr = (E_NONE, hex) \<and>
      hex2bin alloc_ok (ddata hex) zero_dstr = (E_NONE, bin') \<and> ddata bin' = bin) \<and>
   (\<exists>b64 bin'. bin2b64url_quiet alloc_ok bin zero_dstr = (E_NONE, b64) \<and>
      b64url2bin_quiet alloc_ok (ddata b64) zero_dstr = (E_NONE, bin') \<and> ddata bin' = bin)"
proof
  from put_all_grows [OF zero_dstr_ok(1,2), of "map (\<lambda>c. [hex_high_nibble c, hex_low_nibble c]) bin"]
    hex2bin_text [OF zero_dstr_ok(1,2), of bin]
  show "\<exists>hex bin'. bin2hex alloc_ok bin zero_dstr = (E_NONE, hex) \<and>
      hex2bin alloc_ok (ddata hex) zero_dstr = (E_NONE, bin') \<and> ddata bin' = bin"
    by (auto simp: bin2hex_put_all hex2bin_def zero_dstr_ok(3))
  have "concat (map (\<lambda>c. [c]) xs) = xs" for xs :: "byte list" by (induction xs) auto
  with put_all_grows [OF zero_dstr_ok(1,2), of "map (\<lambda>c. [c]) (url_text 0 0 bin)"] obtain b64 where
    b: "put_all (dstr_append_quiet alloc_ok) zero_dstr (map (\<lambda>c. [c]) (url_text 0 0 bin)) = (E_NONE, b64)"
    "ddata b64 = url_text 0 0 bin" by (auto simp: zero_dstr_ok(3))
  from unb64url_text [OF zero_dstr_ok(1,2), of bin] obtain bin' where
    "unb64url_loop alloc_ok 0 0 (url_text 0 0 bin) zero_dstr = (E_NONE, bin')" "ddata bin' = bin"
    by (auto simp: zero_dstr_ok(3))
  with b length_url_text [of bin]
  show "\<exists>b64 bin'. bin2b64url_quiet alloc_ok bin zero_dstr = (E_NONE, b64) \<and>
      b64url2bin_quiet alloc_ok (ddata b64) zero_dstr = (E_NONE, bin') \<and> ddata bin' = bin"
    by (intro exI [of _ b64] exI [of _ bin'])
      (simp add: bin2b64url_quiet_def do_bin2b64url_def b64url_loop_put_all b64url2bin_quiet_def)
qed

end
