(* ===== verification/Unicode.thy ===== *)
theory Unicode
  imports Dstr
begin

text \<open>
  UTF-8 and UTF-16 transcoding (\<open>src/libdstr/unicode.c\<close>).  The \<open>foreach\<close> callback is a function
  \<open>fe\<close> from its \<open>data\<close> and the next unit to an error code and the new \<open>data\<close>.  Code points are
  32-bit words, bytes 8-bit and UTF-16 units 16-bit words.
\<close>

unbundle bit_operations_syntax

section \<open>Encoders\<close>

definition utf8_encode_quiet :: "u32 \<Rightarrow> ('s \<Rightarrow> byte \<Rightarrow> derr_type \<times> 's) \<Rightarrow> 's \<Rightarrow> derr_type \<times> 's" where
  "utf8_encode_quiet codepoint fe s =
     (if codepoint < 0x80 then fe s (ucast codepoint)
      else if codepoint < 0x800 then
        ifok (fe s (ucast (0xC0 OR (drop_bit 6 codepoint AND 0x1F)))) (\<lambda>s.
        fe s (ucast (0x80 OR (codepoint AND 0x3F)))) id
      else if codepoint < 0x10000 then
        (if 0xD800 \<le> codepoint \<and> codepoint \<le> 0xDFFF then (E_PARAM, s)
         else ifok (fe s (ucast (0xE0 OR (drop_bit 12 codepoint AND 0x0F)))) (\<lambda>s.
              ifok (fe s (ucast (0x80 OR (drop_bit 6 codepoint AND 0x3F)))) (\<lambda>s.
              fe s (ucast (0x80 OR (codepoint AND 0x3F)))) id) id)
      else if codepoint < 0x110000 then
        ifok (fe s (ucast (0xF0 OR (drop_bit 18 codepoint AND 0x07)))) (\<lambda>s.
        ifok (fe s (ucast (0x80 OR (drop_bit 12 codepoint AND 0x3F)))) (\<lambda>s.
        ifok (fe s (ucast (0x80 OR (drop_bit 6 codepoint AND 0x3F)))) (\<lambda>s.
        fe s (ucast (0x80 OR (codepoint AND 0x3F)))) id) id) id
      else (E_PARAM, s))"

definition utf16_encode_quiet :: "u32 \<Rightarrow> ('s \<Rightarrow> u16 \<Rightarrow> derr_type \<times> 's) \<Rightarrow> 's \<Rightarrow> derr_type \<times> 's" where
  "utf16_encode_quiet codepoint fe s =
     (if codepoint < 0x10000 then
        (if 0xD800 \<le> codepoint \<and> codepoint \<le> 0xDFFF then (E_PARAM, s) else fe s (ucast codepoint))
      else let c = codepoint - 0x10000;
               w1 = 0xD800 OR (drop_bit 10 c AND 0x3FF);
               w2 = 0xDC00 OR (c AND 0x3FF)
           in ifok (fe s (ucast w1)) (\<lambda>s. fe s (ucast w2)) id)"

section \<open>UTF-8 decoder\<close>

text \<open>
  The result carries what is left in \<open>*codepointp\<close> (\<open>cp0\<close>, its value on entry, unless the input
  ends inside a sequence) and \<open>*tailp\<close>.
\<close>

fun utf8_loop :: "('s \<Rightarrow> u32 \<Rightarrow> derr_type \<times> 's) \<Rightarrow> u32 \<Rightarrow> 's \<Rightarrow> u32 \<Rightarrow> nat \<Rightarrow> byte list \<Rightarrow> derr_type \<times> 's \<times> u32 \<times> nat" where
  "utf8_loop fe cp0 s codepoint 0 [] = (E_NONE, s, cp0, 0)"
| "utf8_loop fe cp0 s codepoint 0 (u # xs) =
     (if u AND 0x80 = 0 then
        (case fe s (ucast u) of (e, s') \<Rightarrow>
           if e \<noteq> E_NONE then (e, s', cp0, 0) else utf8_loop fe cp0 s' codepoint 0 xs)
      else if u AND 0xE0 = 0xC0 then utf8_loop fe cp0 s (ucast (u AND 0x1F)) 1 xs
      else if u AND 0xF0 = 0xE0 then utf8_loop fe cp0 s (ucast (u AND 0x0F)) 2 xs
      else if u AND 0xF8 = 0xF0 then utf8_loop fe cp0 s (ucast (u AND 0x0F)) 3 xs
      else (E_PARAM, s, cp0, 0))"
| "utf8_loop fe cp0 s codepoint (Suc tail) [] = (E_NONE, s, codepoint, Suc tail)"
| "utf8_loop fe cp0 s codepoint (Suc tail) (u # xs) =
     (if u AND 0xC0 \<noteq> 0x80 then (E_PARAM, s, cp0, 0)
      else let cp = push_bit 6 codepoint OR ucast (u AND 0x3F) in
        if tail \<noteq> 0 then utf8_loop fe cp0 s cp tail xs
        else if 0xD800 \<le> cp \<and> cp \<le> 0xDFFF then (E_PARAM, s, cp0, 0)
        else (case fe s cp of (e, s') \<Rightarrow>
           if e \<noteq> E_NONE then (e, s', cp0, 0) else utf8_loop fe cp0 s' cp 0 xs))"

definition utf8_decode_stream ::
  "byte list \<Rightarrow> ('s \<Rightarrow> u32 \<Rightarrow> derr_type \<times> 's) \<Rightarrow> 's \<Rightarrow> u32 \<Rightarrow> nat \<Rightarrow> derr_type \<times> 's \<times> u32 \<times> nat" where
  "utf8_decode_stream inp fe s codepointp tailp = utf8_loop fe codepointp s codepointp tailp inp"

definition utf8_decode_quiet :: "byte list \<Rightarrow> ('s \<Rightarrow> u32 \<Rightarrow> derr_type \<times> 's) \<Rightarrow> 's \<Rightarrow> derr_type \<times> 's" where
  "utf8_decode_quiet inp fe s =
     (case utf8_decode_stream inp fe s 0 0 of (e, s', cp, tail) \<Rightarrow>
        if e \<noteq> E_NONE then (e, s') else if tail \<noteq> 0 then (E_PARAM, s') else (E_NONE, s'))"

section \<open>UTF-16 decoder\<close>

record utf16_state =
  have_bom :: bool
  bigendian :: bool
  st :: nat
  u1 :: byte
  u2 :: byte
  u3 :: byte

definition utf16_zero :: utf16_state where
  "utf16_zero = \<lparr>have_bom = False, bigendian = False, st = 0, u1 = 0, u2 = 0, u3 = 0\<rparr>"

definition utf16_start_be :: utf16_state where
  "utf16_start_be = utf16_zero\<lparr>have_bom := True, bigendian := True\<rparr>"

definition utf16_start_le :: utf16_state where
  "utf16_start_le = utf16_zero\<lparr>have_bom := True, bigendian := False\<rparr>"

definition mku16 :: "bool \<Rightarrow> byte \<Rightarrow> byte \<Rightarrow> u16" where
  "mku16 be a b = push_bit (if be then 8 else 0) (ucast a) OR push_bit (if be then 0 else 8) (ucast b)"

definition mku32 :: "u16 \<Rightarrow> u16 \<Rightarrow> u32" where
  "mku32 u12 u34 = (push_bit 10 (ucast (u12 AND 0x3FF)) OR ucast (u34 AND 0x3FF)) + 0x10000"

text \<open>The byte order mark: \<open>None\<close> is an invalid one; otherwise the state and the rest of the input.\<close>

definition read_bom :: "utf16_state \<Rightarrow> byte list \<Rightarrow> (utf16_state \<times> byte list) option" where
  "read_bom t inp =
     (if have_bom t then Some (t, inp)
      else let (t, inp) = (if st t = 0 then (case inp of [] \<Rightarrow> (t, []) | c # cs \<Rightarrow> (t\<lparr>u1 := c, st := 1\<rparr>, cs)) else (t, inp))
        in if st t = 1
           then (case inp of [] \<Rightarrow> Some (t, [])
                 | c # cs \<Rightarrow>
                     if u1 t = 0xFE \<and> c = 0xFF then Some (t\<lparr>u2 := c, bigendian := True, st := 0, have_bom := True\<rparr>, cs)
                     else if u1 t = 0xFF \<and> c = 0xFE then Some (t\<lparr>u2 := c, bigendian := False, st := 0, have_bom := True\<rparr>, cs)
                     else None)
           else Some (t, inp))"

fun utf16_loop :: "('s \<Rightarrow> u32 \<Rightarrow> derr_type \<times> 's) \<Rightarrow> utf16_state \<Rightarrow> 's \<Rightarrow> byte list \<Rightarrow> derr_type \<times> 's \<times> utf16_state" where
  "utf16_loop fe t s [] = (E_NONE, s, t)"
| "utf16_loop fe t s (c # cs) =
     (if st t = 0 then utf16_loop fe (t\<lparr>u1 := c, st := 1\<rparr>) s cs
      else if st t = 1 then
        (let u12 = mku16 (bigendian t) (u1 t) c in
         if u12 < 0xD800 \<or> u12 > 0xDFFF then
           (case fe s (ucast u12) of (e, s') \<Rightarrow>
              if e \<noteq> E_NONE then (e, s', t) else utf16_loop fe (t\<lparr>u2 := c, st := 0\<rparr>) s' cs)
         else if u12 < 0xDC00 then utf16_loop fe (t\<lparr>u2 := c, st := 2\<rparr>) s cs
         else (E_PARAM, s, t))
      else if st t = 2 then utf16_loop fe (t\<lparr>u3 := c, st := 3\<rparr>) s cs
      else let u12 = mku16 (bigendian t) (u1 t) (u2 t); u34 = mku16 (bigendian t) (u3 t) c in
         if u34 < 0xDC00 \<or> u34 > 0xDFFF then (E_PARAM, s, t)
         else (case fe s (mku32 u12 u34) of (e, s') \<Rightarrow>
            if e \<noteq> E_NONE then (e, s', t) else utf16_loop fe (t\<lparr>st := 0\<rparr>) s' cs))"

text \<open>After an error \<open>*statep\<close> keeps its old value.\<close>

definition utf16_decode_stream ::
  "byte list \<Rightarrow> ('s \<Rightarrow> u32 \<Rightarrow> derr_type \<times> 's) \<Rightarrow> 's \<Rightarrow> utf16_state \<Rightarrow> derr_type \<times> 's \<times> utf16_state" where
  "utf16_decode_stream inp fe s statep =
     (case read_bom statep inp of
        None \<Rightarrow> (E_PARAM, s, statep)
      | Some (t, rest) \<Rightarrow>
          (case utf16_loop fe t s rest of (e, s', t') \<Rightarrow> (e, s', if e \<noteq> E_NONE then statep else t')))"

definition utf16_decode_from :: "utf16_state \<Rightarrow> byte list \<Rightarrow> ('s \<Rightarrow> u32 \<Rightarrow> derr_type \<times> 's) \<Rightarrow> 's \<Rightarrow> derr_type \<times> 's" where
  "utf16_decode_from t inp fe s =
     (case utf16_decode_stream inp fe s t of (e, s', t') \<Rightarrow>
        if e \<noteq> E_NONE then (e, s') else if st t' \<noteq> 0 then (E_PARAM, s') else (E_NONE, s'))"

definition utf16_decode_quiet :: "byte list \<Rightarrow> ('s \<Rightarrow> u32 \<Rightarrow> derr_type \<times> 's) \<Rightarrow> 's \<Rightarrow> derr_type \<times> 's" where
  "utf16_decode_quiet inp fe s = utf16_decode_from utf16_zero inp fe s"

definition utf16_be_decode_quiet :: "byte list \<Rightarrow> ('s \<Rightarrow> u32 \<Rightarrow> derr_type \<times> 's) \<Rightarrow> 's \<Rightarrow> derr_type \<times> 's" where
  "utf16_be_decode_quiet inp fe s = utf16_decode_from utf16_start_be inp fe s"

definition utf16_le_decode_quiet :: "byte list \<Rightarrow> ('s \<Rightarrow> u32 \<Rightarrow> derr_type \<times> 's) \<Rightarrow> 's \<Rightarrow> derr_type \<times> 's" where
  "utf16_le_decode_quiet inp fe s = utf16_decode_from utf16_start_le inp fe s"

section \<open>Start bytes\<close>

lemma start_byte:
  fixes b :: byte
  shows "b AND 0x80 = 0 \<longleftrightarrow> \<not> bit b 7"
    and "b AND 0xC0 = 0x80 \<longleftrightarrow> bit b 7 \<and> \<not> bit b 6"
    and "b AND 0xE0 = 0xC0 \<longleftrightarrow> bit b 7 \<and> bit b 6 \<and> \<not> bit b 5"
    and "b AND 0xF0 = 0xE0 \<longleftrightarrow> bit b 7 \<and> bit b 6 \<and> bit b 5 \<and> \<not> bit b 4"
    and "b AND 0xF8 = 0xF0 \<longleftrightarrow> bit b 7 \<and> bit b 6 \<and> bit b 5 \<and> bit b 4 \<and> \<not> bit b 3"
proof -
  have e: "v = w \<longleftrightarrow> bit v 0 = bit w 0 \<and> bit v 1 = bit w 1 \<and> bit v 2 = bit w 2 \<and> bit v 3 = bit w 3 \<and>
      bit v 4 = bit w 4 \<and> bit v 5 = bit w 5 \<and> bit v 6 = bit w 6 \<and> bit v 7 = bit w 7" (is "_ = ?B") for v w :: byte
  proof
    assume ?B
    show "v = w"
    proof (rule bit_word_eqI)
      fix n assume "n < LENGTH(8)"
      from byte_bits [OF this] \<open>?B\<close> show "bit v n = bit w n" by (elim disjE) simp_all
    qed
  qed simp
  show "b AND 0x80 = 0 \<longleftrightarrow> \<not> bit b 7" by (subst e) (simp add: bit_simps)
  show "b AND 0xC0 = 0x80 \<longleftrightarrow> bit b 7 \<and> \<not> bit b 6" by (subst e) (auto simp: bit_simps)
  show "b AND 0xE0 = 0xC0 \<longleftrightarrow> bit b 7 \<and> bit b 6 \<and> \<not> bit b 5" by (subst e) (auto simp: bit_simps)
  show "b AND 0xF0 = 0xE0 \<longleftrightarrow> bit b 7 \<and> bit b 6 \<and> bit b 5 \<and> \<not> bit b 4" by (subst e) (auto simp: bit_simps)
  show "b AND 0xF8 = 0xF0 \<longleftrightarrow> bit b 7 \<and> bit b 6 \<and> bit b 5 \<and> bit b 4 \<and> \<not> bit b 3" by (subst e) (auto simp: bit_simps)
qed

section \<open>UTF-8 sequences\<close>

definition scalar :: "u32 \<Rightarrow> bool" where
  "scalar cp \<longleftrightarrow> cp < 0x110000 \<and> \<not> (0xD800 \<le> cp \<and> cp \<le> 0xDFFF)"

definition utf8_bytes :: "u32 \<Rightarrow> byte list" where
  "utf8_bytes cp =
     (if cp < 0x80 then [ucast cp]
      else if cp < 0x800 then [ucast (0xC0 OR (drop_bit 6 cp AND 0x1F)), ucast (0x80 OR (cp AND 0x3F))]
      else if cp < 0x10000 then
        [ucast (0xE0 OR (drop_bit 12 cp AND 0x0F)), ucast (0x80 OR (drop_bit 6 cp AND 0x3F)), ucast (0x80 OR (cp AND 0x3F))]
      else [ucast (0xF0 OR (drop_bit 18 cp AND 0x07)), ucast (0x80 OR (drop_bit 12 cp AND 0x3F)),
            ucast (0x80 OR (drop_bit 6 cp AND 0x3F)), ucast (0x80 OR (cp AND 0x3F))])"

lemma utf8_encode_put_all:
  "utf8_encode_quiet cp fe s = (if scalar cp then put_all fe s (utf8_bytes cp) else (E_PARAM, s))"
proof -
  have "cp < 0x800 \<Longrightarrow> \<not> 0xD800 \<le> cp" "\<not> cp < 0x10000 \<Longrightarrow> \<not> cp \<le> 0xDFFF" "cp < 0x80 \<Longrightarrow> cp < 0x800"
    "cp < 0x10000 \<Longrightarrow> cp < 0x110000" "cp < 0x800 \<Longrightarrow> cp < 0x10000"
    by (simp_all add: word_less_nat_alt word_le_nat_alt)
  then show ?thesis by (auto simp: utf8_encode_quiet_def utf8_bytes_def scalar_def ifok_id)
qed

lemma take_bit_small: "unat w < 2 ^ n \<Longrightarrow> take_bit n w = w" for w :: u32
  by (simp add: word_unat_eq_iff unsigned_take_bit_eq take_bit_nat_eq_self)

lemma small_iff:
  fixes cp :: u32
  shows "cp < 0x80 \<Longrightarrow> take_bit 7 cp = cp" "cp < 0x800 \<Longrightarrow> take_bit 11 cp = cp"
  "cp < 0x10000 \<Longrightarrow> take_bit 16 cp = cp" "cp < 0x110000 \<Longrightarrow> take_bit 21 cp = cp"
  by (rule take_bit_small, simp add: word_less_nat_alt)+

lemma tail_byte:
  fixes x :: u32
  shows "(ucast (0x80 OR (x AND 0x3F)) :: byte) AND 0xC0 = 0x80"
    and "ucast ((ucast (0x80 OR (x AND 0x3F)) :: byte) AND 0x3F) = x AND 0x3F"
proof -
  show "(ucast (0x80 OR (x AND 0x3F)) :: byte) AND 0xC0 = 0x80" by (simp add: start_byte bit_simps)
  show "ucast ((ucast (0x80 OR (x AND 0x3F)) :: byte) AND 0x3F) = x AND 0x3F"
    by (rule bit_word_eqI; drule u32_bits; elim disjE; (drule u16_bits; elim disjE)?; simp add: bit_simps)
qed

lemma head_byte:
  fixes x :: u32
  shows "ucast ((ucast (0xC0 OR (x AND 0x1F)) :: byte) AND 0x1F) = x AND 0x1F"
    and "ucast ((ucast (0xE0 OR (x AND 0x0F)) :: byte) AND 0x0F) = x AND 0x0F"
    and "ucast ((ucast (0xF0 OR (x AND 0x07)) :: byte) AND 0x0F) = x AND 0x07"
  by (rule bit_word_eqI; drule u32_bits; elim disjE; (drule u16_bits; elim disjE)?; simp add: bit_simps)+

lemma head_tests:
  fixes x :: u32
  shows "(ucast (0xC0 OR (x AND 0x1F)) :: byte) AND 0x80 \<noteq> 0" "(ucast (0xC0 OR (x AND 0x1F)) :: byte) AND 0xE0 = 0xC0"
    and "(ucast (0xE0 OR (x AND 0x0F)) :: byte) AND 0x80 \<noteq> 0" "(ucast (0xE0 OR (x AND 0x0F)) :: byte) AND 0xE0 \<noteq> 0xC0"
      "(ucast (0xE0 OR (x AND 0x0F)) :: byte) AND 0xF0 = 0xE0"
    and "(ucast (0xF0 OR (x AND 0x07)) :: byte) AND 0x80 \<noteq> 0" "(ucast (0xF0 OR (x AND 0x07)) :: byte) AND 0xE0 \<noteq> 0xC0"
      "(ucast (0xF0 OR (x AND 0x07)) :: byte) AND 0xF0 \<noteq> 0xE0" "(ucast (0xF0 OR (x AND 0x07)) :: byte) AND 0xF8 = 0xF0"
  by (simp_all only: start_byte) (simp_all add: bit_simps)

lemma assemble:
  fixes cp :: u32
  shows "push_bit 6 (drop_bit 6 cp AND 0x1F) OR (cp AND 0x3F) = take_bit 11 cp"
    and "push_bit 6 (push_bit 6 (drop_bit 12 cp AND 0x0F) OR (drop_bit 6 cp AND 0x3F)) OR (cp AND 0x3F) = take_bit 16 cp"
    and "push_bit 6 (push_bit 6 (push_bit 6 (drop_bit 18 cp AND 0x07) OR (drop_bit 12 cp AND 0x3F)) OR (drop_bit 6 cp AND 0x3F)) OR
         (cp AND 0x3F) = take_bit 21 cp"
  by (rule bit_word_eqI; drule u32_bits; elim disjE; (drule u16_bits; elim disjE)?; simp add: bit_simps)+

lemma ascii_byte:
  fixes cp :: u32
  assumes "cp < 0x80"
  shows "(ucast cp :: byte) AND 0x80 = 0" "ucast (ucast cp :: byte) = cp"
proof -
  have t: "take_bit 7 cp = cp" using small_iff(1) [OF assms] .
  have "\<not> bit (take_bit 7 cp) 7" by (simp add: bit_simps)
  then show "(ucast cp :: byte) AND 0x80 = 0" unfolding t by (simp add: start_byte bit_simps)
  have "ucast (ucast (take_bit 7 cp) :: byte) = take_bit 7 cp"
    by (rule bit_word_eqI; drule u32_bits; elim disjE; (drule u16_bits; elim disjE)?; simp add: bit_simps)
  then show "ucast (ucast cp :: byte) = cp" unfolding t .
qed

text \<open>Between sequences the code point read last does not matter.\<close>

lemma utf8_loop_between: "utf8_loop fe cp0 s c 0 xs = utf8_loop fe cp0 s c' 0 xs"
  by (induction xs arbitrary: s) (auto split: prod.split)

lemma utf8_loop_sequence:
  assumes "scalar cp"
  shows "utf8_loop fe cp0 s c 0 (utf8_bytes cp @ xs) =
    (case fe s cp of (e, s') \<Rightarrow> if e \<noteq> E_NONE then (e, s', cp0, 0) else utf8_loop fe cp0 s' c 0 xs)"
proof -
  have sur: "\<not> (0xD800 \<le> cp \<and> cp \<le> 0xDFFF)" "cp < 0x110000" using assms by (simp_all add: scalar_def)
  consider "cp < 0x80" | "\<not> cp < 0x80" "cp < 0x800" | "\<not> cp < 0x80" "\<not> cp < 0x800" "cp < 0x10000"
    | "\<not> cp < 0x80" "\<not> cp < 0x800" "\<not> cp < 0x10000" by blast
  then show ?thesis
  proof cases
    case 1
    then have b: "utf8_bytes cp = [ucast cp]" by (simp add: utf8_bytes_def)
    show ?thesis unfolding b by (simp add: ascii_byte [OF 1])
  next
    case 2
    then have b: "utf8_bytes cp = [ucast (0xC0 OR (drop_bit 6 cp AND 0x1F)), ucast (0x80 OR (cp AND 0x3F))]"
      by (simp add: utf8_bytes_def)
    have v: "push_bit 6 (drop_bit 6 cp AND 0x1F) OR (cp AND 0x3F) = cp" using assemble(1) small_iff(2) [OF 2(2)] by simp
    show ?thesis unfolding b append.simps
      by (simp only: utf8_loop.simps head_tests if_False if_True head_byte tail_byte v One_nat_def Let_def
          sur(1) simp_thms utf8_loop_between [of fe cp0 _ cp _ c])
  next
    case 3
    then have b: "utf8_bytes cp = [ucast (0xE0 OR (drop_bit 12 cp AND 0x0F)), ucast (0x80 OR (drop_bit 6 cp AND 0x3F)),
        ucast (0x80 OR (cp AND 0x3F))]" by (simp add: utf8_bytes_def)
    have v: "push_bit 6 (push_bit 6 (drop_bit 12 cp AND 0x0F) OR (drop_bit 6 cp AND 0x3F)) OR (cp AND 0x3F) = cp"
      using assemble(2) small_iff(3) [OF 3(3)] by simp
    show ?thesis unfolding b append.simps
      by (simp only: utf8_loop.simps head_tests if_False if_True head_byte tail_byte v numeral_2_eq_2 Let_def
          sur(1) simp_thms nat.distinct utf8_loop_between [of fe cp0 _ cp _ c])
  next
    case 4
    then have b: "utf8_bytes cp = [ucast (0xF0 OR (drop_bit 18 cp AND 0x07)), ucast (0x80 OR (drop_bit 12 cp AND 0x3F)),
        ucast (0x80 OR (drop_bit 6 cp AND 0x3F)), ucast (0x80 OR (cp AND 0x3F))]" by (simp add: utf8_bytes_def)
    have v: "push_bit 6 (push_bit 6 (push_bit 6 (drop_bit 18 cp AND 0x07) OR (drop_bit 12 cp AND 0x3F)) OR (drop_bit 6 cp AND 0x3F)) OR
        (cp AND 0x3F) = cp" using assemble(3) small_iff(4) [OF sur(2)] by simp
    show ?thesis unfolding b append.simps
      by (simp only: utf8_loop.simps head_tests if_False if_True head_byte tail_byte v numeral_3_eq_3 Let_def
          sur(1) simp_thms nat.distinct utf8_loop_between [of fe cp0 _ cp _ c])
  qed
qed

lemma utf8_loop_text:
  assumes "\<forall>cp \<in> set cps. scalar cp"
  shows "utf8_loop fe cp0 s c 0 (concat (map utf8_bytes cps)) = (fst (put_all fe s cps), snd (put_all fe s cps), cp0, 0)"
  using assms
proof (induction cps arbitrary: s)
  case (Cons cp cps)
  then show ?case by (auto simp: utf8_loop_sequence ifok_def split: prod.split)
qed simp

text \<open>
  C36. A sequence of Unicode scalar values, encoded one by one and read back in one go: the encoder
  hands its callback the UTF-8 bytes of each value and refuses exactly the values that are not
  scalar; the decoder hands its callback exactly the encoded values, in order, for any callback,
  stopping with the callback's own error if it has one.
\<close>

theorem utf8_roundtrip:
  "(scalar cp \<longrightarrow> utf8_encode_quiet cp fb d = put_all fb d (utf8_bytes cp)) \<and>
   (\<not> scalar cp \<longrightarrow> utf8_encode_quiet cp fb d = (E_PARAM, d)) \<and>
   ((\<forall>c \<in> set cps. scalar c) \<longrightarrow>
      utf8_decode_quiet (concat (map utf8_bytes cps)) fe s = put_all fe s cps)"
  by (auto simp: utf8_encode_put_all utf8_decode_quiet_def utf8_decode_stream_def utf8_loop_text prod_eq_iff)

theorem utf8_roundtrip_witness:
  "scalar 0x20AC \<and> \<not> scalar 0xD800 \<and>
   utf8_encode_quiet 0x20AC (\<lambda>d b. (E_NONE, d @ [b])) [] = (E_NONE, [0xE2, 0x82, 0xAC]) \<and>
   utf8_encode_quiet 0xD800 (\<lambda>d b. (E_NONE, d @ [b])) [] = (E_PARAM, []) \<and>
   utf8_decode_quiet (concat (map utf8_bytes [0x41, 0x20AC, 0x10FFFF])) (\<lambda>d c. (E_NONE, d @ [c])) [] =
     (E_NONE, [0x41, 0x20AC, 0x10FFFF])"
  using utf8_roundtrip [of "0x20AC" "\<lambda>d b. (E_NONE, d @ [b])" "[]" "[0x41, 0x20AC, 0x10FFFF]" "\<lambda>d c. (E_NONE, d @ [c])" "[]"]
    utf8_roundtrip [of "0xD800" "\<lambda>d b. (E_NONE, d @ [b])" "[]" "[]" "\<lambda>d c. (E_NONE, d @ [c])" "[]"]
  by (simp add: scalar_def utf8_bytes_def ifok_def word_less_nat_alt word_le_nat_alt)

section \<open>UTF-16 sequences\<close>

definition utf16_units :: "u32 \<Rightarrow> u16 list" where
  "utf16_units cp =
     (if cp < 0x10000 then [ucast cp]
      else [ucast (0xD800 OR (drop_bit 10 (cp - 0x10000) AND 0x3FF)), ucast (0xDC00 OR ((cp - 0x10000) AND 0x3FF))])"

definition unit_bytes :: "bool \<Rightarrow> u16 \<Rightarrow> byte list" where
  "unit_bytes be u = (if be then [ucast (drop_bit 8 u), ucast u] else [ucast u, ucast (drop_bit 8 u)])"

definition utf16_bytes :: "bool \<Rightarrow> u32 \<Rightarrow> byte list" where
  "utf16_bytes be cp = concat (map (unit_bytes be) (utf16_units cp))"

lemma utf16_encode_put_all:
  "scalar cp \<Longrightarrow> utf16_encode_quiet cp fe s = put_all fe s (utf16_units cp)"
  by (auto simp: utf16_encode_quiet_def utf16_units_def scalar_def ifok_id Let_def)

lemma mku16_unit: "unit_bytes be u = [a, b] \<Longrightarrow> mku16 be a b = u"
proof -
  have "push_bit 8 (ucast (ucast (drop_bit 8 u) :: byte)) OR ucast (ucast u :: byte) = u"
    by (rule bit_word_eqI; drule u16_bits; elim disjE; simp add: bit_simps)
  then show "unit_bytes be u = [a, b] \<Longrightarrow> mku16 be a b = u"
    by (auto simp: unit_bytes_def mku16_def or.commute split: if_splits)
qed

lemma unit_bytes_ex: "\<exists>a b. unit_bytes be u = [a, b]"
  by (simp add: unit_bytes_def)

lemma surrogate_split:
  fixes c :: u32
  shows "mku32 (ucast (0xD800 OR (drop_bit 10 c AND 0x3FF))) (ucast (0xDC00 OR (c AND 0x3FF))) = take_bit 20 c + 0x10000"
proof -
  have "push_bit 10 (ucast ((ucast (0xD800 OR (drop_bit 10 c AND 0x3FF)) :: u16) AND 0x3FF)) OR
      ucast ((ucast (0xDC00 OR (c AND 0x3FF)) :: u16) AND 0x3FF) = take_bit 20 c"
    by (rule bit_word_eqI; drule u32_bits; elim disjE; (drule u16_bits; elim disjE)?; simp add: bit_simps)
  then show ?thesis by (simp add: mku32_def)
qed

lemma surrogate_cast:
  fixes c :: u32
  shows "(ucast (0xD800 OR (c AND 0x3FF)) :: u16) = 0xD800 + take_bit 10 (ucast c)"
    "(ucast (0xDC00 OR (c AND 0x3FF)) :: u16) = 0xDC00 + take_bit 10 (ucast c)"
proof -
  have "0xD800 AND take_bit 10 (ucast c :: u16) = 0" "0xDC00 AND take_bit 10 (ucast c :: u16) = 0"
    by (rule bit_word_eqI; drule u16_bits; elim disjE; simp add: bit_simps)+
  note d = this [THEN disjunctive_add_eq_or]
  show "(ucast (0xD800 OR (c AND 0x3FF)) :: u16) = 0xD800 + take_bit 10 (ucast c)"
    "(ucast (0xDC00 OR (c AND 0x3FF)) :: u16) = 0xDC00 + take_bit 10 (ucast c)"
    unfolding d by (rule bit_word_eqI; drule u16_bits; elim disjE; simp add: bit_simps)+
qed

lemma surrogate_ranges:
  fixes c :: u32
  shows "\<not> (ucast (0xD800 OR (c AND 0x3FF)) :: u16) < 0xD800" "(ucast (0xD800 OR (c AND 0x3FF)) :: u16) < 0xDC00"
    and "\<not> (ucast (0xDC00 OR (c AND 0x3FF)) :: u16) < 0xDC00" "\<not> 0xDFFF < (ucast (0xDC00 OR (c AND 0x3FF)) :: u16)"
proof -
  have l: "unat (take_bit 10 (ucast c :: u16)) < 1024"
    using take_bit_nat_less_exp [of 10 "unat (ucast c :: u16)"] by (simp add: unsigned_take_bit_eq)
  then have "unat (0xD800 + take_bit 10 (ucast c) :: u16) = 0xD800 + unat (take_bit 10 (ucast c :: u16))"
    "unat (0xDC00 + take_bit 10 (ucast c) :: u16) = 0xDC00 + unat (take_bit 10 (ucast c :: u16))"
    by (simp_all only: unat_word_ariths) simp_all
  note u = this l
  show "\<not> (ucast (0xD800 OR (c AND 0x3FF)) :: u16) < 0xD800" unfolding surrogate_cast word_less_nat_alt u by simp
  show "(ucast (0xD800 OR (c AND 0x3FF)) :: u16) < 0xDC00" unfolding surrogate_cast word_less_nat_alt u using l by simp
  show "\<not> (ucast (0xDC00 OR (c AND 0x3FF)) :: u16) < 0xDC00" unfolding surrogate_cast word_less_nat_alt u by simp
  show "\<not> 0xDFFF < (ucast (0xDC00 OR (c AND 0x3FF)) :: u16)" unfolding surrogate_cast word_less_nat_alt u using l by simp
qed

text \<open>One scalar value: the callback sees it, and the loop goes on in a state with the same byte order.\<close>

lemma utf16_loop_sequence:
  assumes "scalar cp" "st t = 0"
  shows "\<exists>t' t2. st t' = 0 \<and> bigendian t' = bigendian t \<and> (\<forall>xs.
    utf16_loop fe t s (utf16_bytes (bigendian t) cp @ xs) =
    (case fe s cp of (e, s') \<Rightarrow> if e \<noteq> E_NONE then (e, s', t2) else utf16_loop fe t' s' xs))"
proof (cases "cp < 0x10000")
  case True
  let ?u = "ucast cp :: u16"
  obtain a b where ab: "unit_bytes (bigendian t) ?u = [a, b]" using unit_bytes_ex by blast
  have "unat ?u = unat cp" using True by (simp add: unsigned_ucast_eq take_bit_nat_eq_self word_less_nat_alt)
  have "ucast ?u = take_bit 16 cp"
    by (rule bit_word_eqI; drule u32_bits; elim disjE; (drule u16_bits; elim disjE)?; simp add: bit_simps)
  then have u: "ucast ?u = cp" using small_iff(3) [OF True] by simp
  from \<open>unat ?u = unat cp\<close> have r: "?u < 0xD800 \<or> ?u > 0xDFFF" using assms(1) by (auto simp: scalar_def word_less_nat_alt word_le_nat_alt)
  let ?t2 = "t\<lparr>u1 := a, st := 1\<rparr>"
  let ?t' = "?t2\<lparr>u2 := b, st := 0\<rparr>"
  have "utf16_loop fe t s (utf16_bytes (bigendian t) cp @ xs) =
    (case fe s cp of (e, s') \<Rightarrow> if e \<noteq> E_NONE then (e, s', ?t2) else utf16_loop fe ?t' s' xs)" for xs
    using r True assms(2) by (simp add: utf16_bytes_def utf16_units_def ab mku16_unit [OF ab] u split: prod.split)
  then show ?thesis by (intro exI [of _ ?t'] exI [of _ ?t2] conjI allI) simp_all
next
  case False
  define h :: u16 where "h = ucast (0xD800 OR (drop_bit 10 (cp - 0x10000) AND 0x3FF))"
  define l :: u16 where "l = ucast (0xDC00 OR ((cp - 0x10000) AND 0x3FF))"
  obtain a b c d where ab: "unit_bytes (bigendian t) h = [a, b]" and cd: "unit_bytes (bigendian t) l = [c, d]"
    using unit_bytes_ex by metis
  have r: "\<not> h < 0xD800" "h < 0xDC00" "\<not> (l < 0xDC00 \<or> 0xDFFF < l)"
    using surrogate_ranges unfolding h_def l_def by auto
  then have "\<not> 0xDFFF < h" by (simp add: word_less_nat_alt)
  note r = r this
  have "unat (cp - 0x10000) < 2 ^ 20" using False assms(1) by (auto simp: scalar_def word_less_nat_alt unat_sub word_le_nat_alt)
  then have v: "mku32 h l = cp" unfolding h_def l_def surrogate_split by (simp add: take_bit_small)
  have bs: "utf16_bytes (bigendian t) cp = [a, b, c, d]"
    using False ab cd by (simp add: utf16_bytes_def utf16_units_def h_def l_def)
  let ?t2 = "t\<lparr>u1 := a, u2 := b, u3 := c, st := 3\<rparr>"
  let ?t' = "?t2\<lparr>st := 0\<rparr>"
  have "utf16_loop fe t s (utf16_bytes (bigendian t) cp @ xs) =
    (case fe s cp of (e, s') \<Rightarrow> if e \<noteq> E_NONE then (e, s', ?t2) else utf16_loop fe ?t' s' xs)" for xs
    using r assms(2) by (simp add: bs mku16_unit [OF ab] mku16_unit [OF cd] v split: prod.split)
  then show ?thesis by (intro exI [of _ ?t'] exI [of _ ?t2] conjI allI) simp_all
qed

lemma utf16_loop_text:
  assumes "\<forall>cp \<in> set cps. scalar cp" "st t = 0"
  shows "\<exists>t'. utf16_loop fe t s (concat (map (utf16_bytes (bigendian t)) cps)) = (fst (put_all fe s cps), snd (put_all fe s cps), t') \<and>
    (fst (put_all fe s cps) = E_NONE \<longrightarrow> st t' = 0)"
  using assms
proof (induction cps arbitrary: s t)
  case (Cons cp cps)
  obtain t' t2 where t: "st t' = 0" "bigendian t' = bigendian t"
    "\<And>xs. utf16_loop fe t s (utf16_bytes (bigendian t) cp @ xs) =
      (case fe s cp of (e, s') \<Rightarrow> if e \<noteq> E_NONE then (e, s', t2) else utf16_loop fe t' s' xs)"
    using utf16_loop_sequence [of cp t fe s] Cons.prems by auto
  obtain e s' where f: "fe s cp = (e, s')" by (cases "fe s cp")
  show ?case using Cons.IH [of t' s'] Cons.prems by (auto simp: t f ifok_def)
qed simp

text \<open>
  C37. The same for UTF-16 in both byte orders, with the byte order given or announced by a byte
  order mark: the encoder hands over the units of each scalar value, and the decoder hands its
  callback exactly the encoded values, in order, stopping with the callback's own error.
\<close>

theorem utf16_roundtrip:
  assumes "\<forall>c \<in> set cps. scalar c"
  shows "(cp \<in> set cps \<longrightarrow> utf16_encode_quiet cp fu d = put_all fu d (utf16_units cp)) \<and>
    utf16_be_decode_quiet (concat (map (utf16_bytes True) cps)) fe s = put_all fe s cps \<and>
    utf16_le_decode_quiet (concat (map (utf16_bytes False) cps)) fe s = put_all fe s cps \<and>
    utf16_decode_quiet ([0xFE, 0xFF] @ concat (map (utf16_bytes True) cps)) fe s = put_all fe s cps \<and>
    utf16_decode_quiet ([0xFF, 0xFE] @ concat (map (utf16_bytes False) cps)) fe s = put_all fe s cps"
proof (intro conjI)
  have *: "utf16_decode_from t inp fe s = put_all fe s cps"
    if "read_bom t inp = Some (t', concat (map (utf16_bytes (bigendian t')) cps))" "st t' = 0" for t t' inp
    using utf16_loop_text [OF assms that(2), of fe s] that(1)
    by (cases "put_all fe s cps") (auto simp: utf16_decode_from_def utf16_decode_stream_def)
  show "cp \<in> set cps \<longrightarrow> utf16_encode_quiet cp fu d = put_all fu d (utf16_units cp)"
    using assms by (simp add: utf16_encode_put_all)
  show "utf16_be_decode_quiet (concat (map (utf16_bytes True) cps)) fe s = put_all fe s cps"
    unfolding utf16_be_decode_quiet_def
    by (rule * [of _ _ utf16_start_be]) (simp_all add: utf16_start_be_def utf16_zero_def read_bom_def)
  show "utf16_le_decode_quiet (concat (map (utf16_bytes False) cps)) fe s = put_all fe s cps"
    unfolding utf16_le_decode_quiet_def
    by (rule * [of _ _ utf16_start_le]) (simp_all add: utf16_start_le_def utf16_zero_def read_bom_def)
  show "utf16_decode_quiet ([0xFE, 0xFF] @ concat (map (utf16_bytes True) cps)) fe s = put_all fe s cps"
    unfolding utf16_decode_quiet_def
    by (rule * [of _ _ "utf16_start_be\<lparr>u1 := 0xFE, u2 := 0xFF\<rparr>"])
      (simp_all add: utf16_start_be_def utf16_zero_def read_bom_def)
  show "utf16_decode_quiet ([0xFF, 0xFE] @ concat (map (utf16_bytes False) cps)) fe s = put_all fe s cps"
    unfolding utf16_decode_quiet_def
    by (rule * [of _ _ "utf16_start_le\<lparr>u1 := 0xFF, u2 := 0xFE\<rparr>"])
      (simp_all add: utf16_start_le_def utf16_zero_def read_bom_def)
qed

theorem utf16_roundtrip_witness:
  "utf16_encode_quiet 0x1F600 (\<lambda>d u. (E_NONE, d @ [u])) [] = (E_NONE, [0xD83D, 0xDE00]) \<and>
   utf16_be_decode_quiet (concat (map (utf16_bytes True) [0x41, 0x1F600])) (\<lambda>d c. (E_NONE, d @ [c])) [] = (E_NONE, [0x41, 0x1F600]) \<and>
   utf16_le_decode_quiet (concat (map (utf16_bytes False) [0x41, 0x1F600])) (\<lambda>d c. (E_NONE, d @ [c])) [] = (E_NONE, [0x41, 0x1F600])"
  using utf16_roundtrip [of "[0x41, 0x1F600]" "0x1F600" "\<lambda>d u. (E_NONE, d @ [u])" "[]" "\<lambda>d c. (E_NONE, d @ [c])" "[]"]
  by (simp add: scalar_def utf16_units_def ifok_def word_less_nat_alt word_le_nat_alt)

section \<open>Streams\<close>

text \<open>What the stream leaves in \<open>*codepointp\<close> when no sequence is pending is its value on entry.\<close>

lemma utf8_loop_entry:
  "utf8_loop fe cp1 s c tail xs =
    (case utf8_loop fe cp0 s c tail xs of (e, s', c', tail') \<Rightarrow> (e, s', if e = E_NONE \<and> tail' \<noteq> 0 then c' else cp1, tail'))"
  by (induction fe cp0 s c tail xs rule: utf8_loop.induct) (auto simp: Let_def split: prod.split)

lemma utf8_loop_append:
  "utf8_loop fe cp0 s c tail (xs @ ys) =
    (case utf8_loop fe cp0 s c tail xs of (e, s', c', tail') \<Rightarrow>
       if e \<noteq> E_NONE then (e, s', c', tail') else utf8_loop fe cp0 s' c' tail' ys)"
proof (induction fe cp0 s c tail xs rule: utf8_loop.induct)
  case (1 fe cp0 s codepoint)
  show ?case using utf8_loop_between [of fe cp0 s codepoint ys cp0] by simp
qed (auto simp: Let_def split: prod.split)

text \<open>A caller that feeds a stream chunk by chunk until one of the calls fails.\<close>

fun utf8_feed :: "('s \<Rightarrow> u32 \<Rightarrow> derr_type \<times> 's) \<Rightarrow> 's \<Rightarrow> u32 \<Rightarrow> nat \<Rightarrow> byte list list \<Rightarrow> derr_type \<times> 's \<times> nat" where
  "utf8_feed fe s cp tail [] = (E_NONE, s, tail)"
| "utf8_feed fe s cp tail (x # xs) =
     (case utf8_decode_stream x fe s cp tail of (e, s', cp', tail') \<Rightarrow>
        if e \<noteq> E_NONE then (e, s', tail') else utf8_feed fe s' cp' tail' xs)"

fun utf16_feed :: "('s \<Rightarrow> u32 \<Rightarrow> derr_type \<times> 's) \<Rightarrow> 's \<Rightarrow> utf16_state \<Rightarrow> byte list list \<Rightarrow> derr_type \<times> 's \<times> nat" where
  "utf16_feed fe s t [] = (E_NONE, s, st t)"
| "utf16_feed fe s t (x # xs) =
     (case utf16_decode_stream x fe s t of (e, s', t') \<Rightarrow>
        if e \<noteq> E_NONE then (e, s', 0) else utf16_feed fe s' t' xs)"

text \<open>The whole-string functions refuse an unfinished sequence at the end.\<close>

definition at_end :: "derr_type \<times> 's \<times> nat \<Rightarrow> derr_type \<times> 's" where
  "at_end r = (case r of (e, s, n) \<Rightarrow> if e \<noteq> E_NONE then (e, s) else if n \<noteq> 0 then (E_PARAM, s) else (E_NONE, s))"

lemma utf8_feed_concat:
  "utf8_feed fe s cp tail xss = (case utf8_loop fe cp s cp tail (concat xss) of (e, s', cp', tail') \<Rightarrow> (e, s', tail'))"
proof (induction xss arbitrary: s cp tail)
  case Nil
  show ?case by (cases tail) simp_all
next
  case (Cons xs xss)
  obtain e s' cp' tail' where r: "utf8_loop fe cp s cp tail xs = (e, s', cp', tail')" by (metis prod_cases4)
  show ?case
    using utf8_loop_entry [of fe cp' s' cp' tail' "concat xss" cp]
    by (auto simp: Cons.IH utf8_decode_stream_def utf8_loop_append r split: prod.split)
qed

lemma utf16_loop_append:
  "utf16_loop fe t s (xs @ ys) =
    (case utf16_loop fe t s xs of (e, s', t') \<Rightarrow> if e \<noteq> E_NONE then (e, s', t') else utf16_loop fe t' s' ys)"
  by (induction fe t s xs rule: utf16_loop.induct) (auto simp: Let_def split: prod.split)

lemma utf16_loop_bom: "have_bom (snd (snd (utf16_loop fe t s xs))) = have_bom t"
  by (induction fe t s xs rule: utf16_loop.induct) (auto simp: Let_def split: prod.split)

text \<open>Before the mark is complete at most one byte is held.\<close>

definition bom_ok :: "utf16_state \<Rightarrow> bool" where
  "bom_ok t \<longleftrightarrow> have_bom t \<or> st t \<le> 1"

lemma read_bom_cases:
  assumes "bom_ok t" "\<not> have_bom t"
  shows "read_bom t xs =
    (case (if st t = 0 then xs else u1 t # xs) of
       [] \<Rightarrow> Some (t, [])
     | [c] \<Rightarrow> Some (t\<lparr>u1 := c, st := 1\<rparr>, [])
     | c # d # cs \<Rightarrow>
         if c = 0xFE \<and> d = 0xFF then Some (t\<lparr>u1 := c, u2 := d, bigendian := True, st := 0, have_bom := True\<rparr>, cs)
         else if c = 0xFF \<and> d = 0xFE then Some (t\<lparr>u1 := c, u2 := d, bigendian := False, st := 0, have_bom := True\<rparr>, cs)
         else None)"
  using assms by (cases t) (auto simp: bom_ok_def read_bom_def le_Suc_eq split: list.split)

lemma utf16_stream_error: "utf16_decode_stream xs fe s t = (e, s', t') \<Longrightarrow> e \<noteq> E_NONE \<Longrightarrow> t' = t"
  by (auto simp: utf16_decode_stream_def split: option.splits prod.splits if_splits)

lemma utf16_stream_append:
  assumes "bom_ok t"
  shows "utf16_decode_stream (xs @ ys) fe s t =
    (case utf16_decode_stream xs fe s t of (e, s', t') \<Rightarrow>
       if e \<noteq> E_NONE then (e, s', t)
       else case utf16_decode_stream ys fe s' t' of (e2, s2, t2) \<Rightarrow> (e2, s2, if e2 \<noteq> E_NONE then t else t2))"
proof (cases "have_bom t")
  case True
  then show ?thesis
    using utf16_loop_bom [of fe t s xs]
    by (auto simp: utf16_decode_stream_def read_bom_def utf16_loop_append split: prod.split)
next
  case False
  have bom: "have_bom t' \<Longrightarrow> utf16_loop fe t' s xs = (e, s', t2) \<Longrightarrow> read_bom t2 ys = Some (t2, ys)" for t' xs e s' t2
    using utf16_loop_bom [of fe t' s xs] by (simp add: read_bom_def)
  let ?w = "if st t = 0 then xs else u1 t # xs"
  consider "?w = []" | c where "?w = [c]" | c d cs where "?w = c # d # cs" by (metis list.exhaust)
  then show ?thesis
  proof cases
    case 1
    then have "xs = []" "utf16_decode_stream [] fe s t = (E_NONE, s, t)"
      using False assms by (auto simp: utf16_decode_stream_def read_bom_cases split: if_splits)
    then show ?thesis using utf16_stream_error [of ys fe s t] by (auto split: prod.split)
  next
    case 2
    have rb: "read_bom (t\<lparr>u1 := c', st := Suc 0\<rparr>) zs =
        (case zs of [] \<Rightarrow> Some (t\<lparr>u1 := c', st := Suc 0\<rparr>, [])
         | d # cs \<Rightarrow>
         if c' = 0xFE \<and> d = 0xFF then Some (t\<lparr>u1 := c', u2 := d, bigendian := True, st := 0, have_bom := True\<rparr>, cs)
         else if c' = 0xFF \<and> d = 0xFE then Some (t\<lparr>u1 := c', u2 := d, bigendian := False, st := 0, have_bom := True\<rparr>, cs)
         else None)" for c' zs
      using False by (subst read_bom_cases) (auto simp: bom_ok_def split: list.split)
    have w: "(if st t = 0 then xs @ ys else u1 t # xs @ ys) = c # ys" using 2 by (auto split: if_splits)
    note step = utf16_decode_stream_def read_bom_cases [OF assms False] w 2
    show ?thesis
    proof (cases ys)
      case Nil
      then show ?thesis unfolding step by (simp add: rb)
    next
      case (Cons d cs)
      consider "c = 0xFE \<and> d = 0xFF" | "c = 0xFF \<and> d = 0xFE" | "\<not> (c = 0xFE \<and> d = 0xFF)" "\<not> (c = 0xFF \<and> d = 0xFE)" by blast
      then show ?thesis
        unfolding step unfolding Cons by cases (simp_all add: rb split: prod.split)
    qed
  next
    case 3
    have w: "(if st t = 0 then xs @ ys else u1 t # xs @ ys) = c # d # cs @ ys" using 3 by (auto split: if_splits)
    show ?thesis
    proof (cases "read_bom t xs")
      case None
      then have "read_bom t (xs @ ys) = None"
        unfolding read_bom_cases [OF assms False] w 3 by (auto split: if_splits)
      then show ?thesis using None by (simp add: utf16_decode_stream_def)
    next
      case (Some p)
      then obtain t1 where "read_bom t xs = Some (t1, cs)" "read_bom t (xs @ ys) = Some (t1, cs @ ys)" "have_bom t1"
        unfolding read_bom_cases [OF assms False] w 3 by (auto split: if_splits)
      then show ?thesis
        by (auto simp: utf16_decode_stream_def utf16_loop_append dest!: bom split: prod.split)
    qed
  qed
qed

lemma utf16_stream_ok: "bom_ok t \<Longrightarrow> utf16_decode_stream xs fe s t = (E_NONE, s', t') \<Longrightarrow> bom_ok t'"
proof (cases "have_bom t")
  case True
  then show "utf16_decode_stream xs fe s t = (E_NONE, s', t') \<Longrightarrow> bom_ok t'"
    using utf16_loop_bom [of fe t s xs] by (auto simp: utf16_decode_stream_def read_bom_def bom_ok_def split: prod.splits if_splits)
next
  case False
  assume ok: "bom_ok t" and r: "utf16_decode_stream xs fe s t = (E_NONE, s', t')"
  obtain t1 ys where b: "read_bom t xs = Some (t1, ys)" and l: "utf16_loop fe t1 s ys = (E_NONE, s', t')"
    using r by (auto simp: utf16_decode_stream_def split: option.splits prod.splits if_splits)
  from b have "have_bom t1 \<or> bom_ok t1 \<and> ys = []"
    unfolding read_bom_cases [OF ok False] using ok by (auto simp: bom_ok_def split: list.splits if_splits)
  then show ?thesis using l utf16_loop_bom [of fe t1 s ys] by (auto simp: bom_ok_def)
qed

lemma utf16_feed_concat:
  "bom_ok t \<Longrightarrow> at_end (utf16_feed fe s t xss) = at_end (case utf16_decode_stream (concat xss) fe s t of (e, s', t') \<Rightarrow> (e, s', st t'))"
proof (induction xss arbitrary: s t)
  case Nil
  then show ?case by (cases "have_bom t") (auto simp: utf16_decode_stream_def read_bom_cases read_bom_def bom_ok_def)
next
  case (Cons xs xss)
  obtain e s' t' where r: "utf16_decode_stream xs fe s t = (e, s', t')" by (metis prod_cases3)
  show ?case
    using Cons.IH [of t' s'] utf16_stream_ok [OF Cons.prems, of xs fe s s' t'] r
    by (auto simp: utf16_stream_append [OF Cons.prems] at_end_def split: prod.split)
qed

text \<open>
  C38. A text that arrives in pieces is decoded as if it had arrived at once: feeding the chunks one
  by one to the UTF-8 stream decoder, or to the UTF-16 stream decoder from any of its starting
  states, and checking at the end that no sequence is unfinished gives the result of the
  whole-string function on the concatenation, wherever the cuts fall and whatever the callback does.
\<close>

theorem unicode_stream_split:
  "utf8_decode_quiet (concat chunks) fe s = at_end (utf8_feed fe s 0 0 chunks) \<and>
   utf16_decode_quiet (concat chunks) fe s = at_end (utf16_feed fe s utf16_zero chunks) \<and>
   utf16_be_decode_quiet (concat chunks) fe s = at_end (utf16_feed fe s utf16_start_be chunks) \<and>
   utf16_le_decode_quiet (concat chunks) fe s = at_end (utf16_feed fe s utf16_start_le chunks)"
proof (intro conjI)
  show "utf8_decode_quiet (concat chunks) fe s = at_end (utf8_feed fe s 0 0 chunks)"
    by (auto simp: utf8_decode_quiet_def utf8_decode_stream_def utf8_feed_concat at_end_def split: prod.split)
  have "utf16_decode_from t (concat chunks) fe s = at_end (utf16_feed fe s t chunks)" if "bom_ok t" for t
    unfolding utf16_feed_concat [OF that] by (auto simp: utf16_decode_from_def at_end_def split: prod.split)
  note * = this
  show "utf16_decode_quiet (concat chunks) fe s = at_end (utf16_feed fe s utf16_zero chunks)"
    unfolding utf16_decode_quiet_def by (rule *) (simp add: bom_ok_def utf16_zero_def)
  show "utf16_be_decode_quiet (concat chunks) fe s = at_end (utf16_feed fe s utf16_start_be chunks)"
    unfolding utf16_be_decode_quiet_def by (rule *) (simp add: bom_ok_def utf16_start_be_def)
  show "utf16_le_decode_quiet (concat chunks) fe s = at_end (utf16_feed fe s utf16_start_le chunks)"
    unfolding utf16_le_decode_quiet_def by (rule *) (simp add: bom_ok_def utf16_start_le_def)
qed

end
