(* ===== verification/Hashmap.thy ===== *)
theory Hashmap
  imports Dstr "HOL-Library.Multiset"
begin

text \<open>
  The intrusive chained hash table (\<open>src/libdstr/hashmap.c\<close>).  A bucket is the list of the elements
  chained from it up to the sentinel; an element carries its key, its cached hash and the identity
  of the structure it is embedded in (what \<open>CONTAINER_OF\<close> gives).  An element's \<open>next\<close> pointer is
  null exactly when the element is in no table; since every element field of the program is used
  with one table only, the check against re-insertion asks whether the identity is in this table.
  \<open>None\<close> stands for \<open>LOG_FATAL\<close>, which aborts the process.  \<open>dstr_eq\<close> on keys is equality of their
  bytes (\<open>Dstr.dstr_eq_iff\<close>).

  The lemmas show that the table implements a finite map for both kinds of keys, that doubling the
  table keeps it, and that a traversal which may remove the element it stands on visits every
  element once.
\<close>

unbundle bit_operations_syntax

section \<open>Keys and hashes\<close>

datatype hash_key = Str "byte list" | Uint u32

definition hash_uint :: "u32 \<Rightarrow> u32" where
  "hash_uint k0 =
     (let k = k0 + push_bit 12 k0;
          k = k XOR drop_bit 22 k;
          k = k + push_bit 4 k;
          k = k XOR drop_bit 9 k;
          k = k + push_bit 10 k;
          k = k XOR drop_bit 2 k;
          k = k + push_bit 7 k;
          k = k XOR drop_bit 12 k
      in ucast (((ucast (drop_bit 3 k) :: u64) * 2654435761) AND 0xFFFFFFFF))"

definition hash_str :: "byte list \<Rightarrow> u32" where
  "hash_str s = foldl (\<lambda>x c. (x * 33) XOR ucast c) 0 s"

definition hash_of :: "hash_key \<Rightarrow> u32" where
  "hash_of k = (case k of Str s \<Rightarrow> hash_str s | Uint u \<Rightarrow> hash_uint u)"

record 'e hash_elem =
  ekey :: hash_key
  ehash :: u32
  eid :: 'e

record 'e hashmap =
  num_buckets :: nat
  num_elems :: nat
  buckets :: "'e hash_elem list list"
  hmask :: u32

section \<open>Table\<close>

definition init_num_buckets :: nat where
  "init_num_buckets = 32"

definition hashmap_init :: "allocator \<Rightarrow> derr_type \<times> 'e hashmap option" where
  "hashmap_init alloc =
     (if \<not> alloc (pow2_from 32 (init_num_buckets * 8)) then (E_NOMEM, None)
      else (E_NONE, Some \<lparr>num_buckets = init_num_buckets, num_elems = 0,
                          buckets = replicate init_num_buckets [], hmask = of_nat (init_num_buckets - 1)\<rparr>))"

text \<open>Every old bucket is split in two, each half built by pushing at its front.\<close>

definition split_bucket :: "u32 \<Rightarrow> 'e hash_elem list \<Rightarrow> 'e hash_elem list \<times> 'e hash_elem list" where
  "split_bucket upper_bit old =
     foldl (\<lambda>(lo, hi) e. if ehash e AND upper_bit \<noteq> 0 then (lo, e # hi) else (e # lo, hi)) ([], []) old"

definition check_rehash :: "allocator \<Rightarrow> 'e hashmap \<Rightarrow> 'e hashmap" where
  "check_rehash alloc h =
     (if num_elems h div num_buckets h < 1 then h
      else let n = num_buckets h * 2 in
        if \<not> alloc (pow2_from 32 (n * 8)) then h
        else let m = of_nat (n - 1) AND 0xFFFFFFFF;
                 halves = map (split_bucket (m XOR hmask h)) (buckets h)
             in h\<lparr>num_buckets := n, hmask := m, buckets := map fst halves @ map snd halves\<rparr>)"

definition elem_ids :: "'e hashmap \<Rightarrow> 'e list" where
  "elem_ids h = map eid (concat (buckets h))"

definition hash_elem_match :: "'e hash_elem \<Rightarrow> 'e hash_elem \<Rightarrow> bool" where
  "hash_elem_match a b = (case ekey a of
       Str s \<Rightarrow> (case ekey b of Str t \<Rightarrow> s = t | Uint _ \<Rightarrow> False)
     | Uint u \<Rightarrow> (case ekey b of Str _ \<Rightarrow> False | Uint v \<Rightarrow> u = v))"

definition hashmap_elem_init :: "hash_key \<Rightarrow> 'e \<Rightarrow> 'e hash_elem" where
  "hashmap_elem_init k e = \<lparr>ekey = k, ehash = hash_of k, eid = e\<rparr>"

definition bucket_idx_of :: "'e hashmap \<Rightarrow> 'e hash_elem \<Rightarrow> nat" where
  "bucket_idx_of h e = unat (ehash e AND hmask h)"

text \<open>Replace the first matching element of a bucket.\<close>

fun replace_in :: "'e hash_elem \<Rightarrow> 'e hash_elem list \<Rightarrow> ('e \<times> 'e hash_elem list) option" where
  "replace_in e [] = None"
| "replace_in e (x # xs) =
     (if hash_elem_match e x then Some (eid x, e # xs)
      else map_option (\<lambda>(old, ys). (old, x # ys)) (replace_in e xs))"

definition hashmap_set :: "allocator \<Rightarrow> 'e hashmap \<Rightarrow> hash_key \<Rightarrow> 'e \<Rightarrow> bool \<Rightarrow> (derr_type \<times> 'e option \<times> 'e hashmap) option" where
  "hashmap_set alloc h k e want_old =
     (if e \<in> set (elem_ids h) then None
      else let el = hashmap_elem_init k e; idx = bucket_idx_of h el in
        Some (case replace_in el (buckets h ! idx) of
          Some (old, b) \<Rightarrow>
            if \<not> want_old then (E_PARAM, None, h)
            else (E_NONE, Some old, h\<lparr>buckets := (buckets h)[idx := b]\<rparr>)
        | None \<Rightarrow>
            (E_NONE, None, check_rehash alloc
               (h\<lparr>buckets := (buckets h)[idx := buckets h ! idx @ [el]], num_elems := num_elems h + 1\<rparr>))))"

definition hashmap_sets :: "allocator \<Rightarrow> 'e hashmap \<Rightarrow> byte list \<Rightarrow> 'e \<Rightarrow> ('e option \<times> 'e hashmap) option" where
  "hashmap_sets alloc h k e = map_option snd (hashmap_set alloc h (Str k) e True)"

definition hashmap_setu :: "allocator \<Rightarrow> 'e hashmap \<Rightarrow> u32 \<Rightarrow> 'e \<Rightarrow> ('e option \<times> 'e hashmap) option" where
  "hashmap_setu alloc h k e = map_option snd (hashmap_set alloc h (Uint k) e True)"

definition hashmap_sets_unique :: "allocator \<Rightarrow> 'e hashmap \<Rightarrow> byte list \<Rightarrow> 'e \<Rightarrow> (derr_type \<times> 'e hashmap) option" where
  "hashmap_sets_unique alloc h k e = map_option (\<lambda>(t, _, h'). (t, h')) (hashmap_set alloc h (Str k) e False)"

definition hashmap_setu_unique :: "allocator \<Rightarrow> 'e hashmap \<Rightarrow> u32 \<Rightarrow> 'e \<Rightarrow> (derr_type \<times> 'e hashmap) option" where
  "hashmap_setu_unique alloc h k e = map_option (\<lambda>(t, _, h'). (t, h')) (hashmap_set alloc h (Uint k) e False)"

definition dummy :: "hash_key \<Rightarrow> unit hash_elem" where
  "dummy k = hashmap_elem_init k ()"

definition key_match :: "hash_key \<Rightarrow> 'e hash_elem \<Rightarrow> bool" where
  "key_match k x = hash_elem_match (dummy k) (hashmap_elem_init (ekey x) ())"

definition hashmap_get :: "'e hashmap \<Rightarrow> hash_key \<Rightarrow> 'e option" where
  "hashmap_get h k = map_option eid (find (key_match k) (buckets h ! unat (hash_of k AND hmask h)))"

definition hashmap_gets :: "'e hashmap \<Rightarrow> byte list \<Rightarrow> 'e option" where
  "hashmap_gets h k = hashmap_get h (Str k)"

definition hashmap_getu :: "'e hashmap \<Rightarrow> u32 \<Rightarrow> 'e option" where
  "hashmap_getu h k = hashmap_get h (Uint k)"

text \<open>Unlink the first element of a bucket that satisfies a condition.\<close>

fun remove_in :: "('e hash_elem \<Rightarrow> bool) \<Rightarrow> 'e hash_elem list \<Rightarrow> ('e \<times> 'e hash_elem list) option" where
  "remove_in p [] = None"
| "remove_in p (x # xs) =
     (if p x then Some (eid x, xs) else map_option (\<lambda>(old, ys). (old, x # ys)) (remove_in p xs))"

definition hashmap_del :: "'e hashmap \<Rightarrow> hash_key \<Rightarrow> ('e option \<times> 'e hashmap) option" where
  "hashmap_del h k =
     (let idx = unat (hash_of k AND hmask h) in
      case remove_in (key_match k) (buckets h ! idx) of
        None \<Rightarrow> Some (None, h)
      | Some (old, b) \<Rightarrow>
          if num_elems h = 0 then None
          else Some (Some old, h\<lparr>buckets := (buckets h)[idx := b], num_elems := num_elems h - 1\<rparr>))"

definition hashmap_dels :: "'e hashmap \<Rightarrow> byte list \<Rightarrow> ('e option \<times> 'e hashmap) option" where
  "hashmap_dels h k = hashmap_del h (Str k)"

definition hashmap_delu :: "'e hashmap \<Rightarrow> u32 \<Rightarrow> ('e option \<times> 'e hashmap) option" where
  "hashmap_delu h k = hashmap_del h (Uint k)"

text \<open>Removal by the element itself; nothing happens when it is in no table.\<close>

definition hash_elem_remove :: "'e hashmap \<Rightarrow> 'e \<Rightarrow> 'e hashmap option" where
  "hash_elem_remove h e =
     (case find (\<lambda>x. eid x = e) (concat (buckets h)) of
        None \<Rightarrow> Some h
      | Some el \<Rightarrow>
          if num_elems h = 0 then None
          else let idx = bucket_idx_of h el in
            map_option (\<lambda>(_, b). h\<lparr>buckets := (buckets h)[idx := b], num_elems := num_elems h - 1\<rparr>)
              (remove_in (\<lambda>x. eid x = e) (buckets h ! idx)))"

section \<open>Traversal\<close>

text \<open>
  \<open>t_current\<close> and \<open>t_next\<close> are \<open>None\<close> for the sentinel, a bucket index is \<open>None\<close> for \<open>SIZE_MAX\<close>
  (no table has that many buckets).
\<close>

record 'e hashmap_trav =
  t_bucket :: "nat option"
  t_current :: "'e option"
  t_next :: "'e option"

definition next_nonempty_bucket :: "'e hashmap \<Rightarrow> nat option \<Rightarrow> nat option" where
  "next_nonempty_bucket h i =
     (case i of None \<Rightarrow> None | Some i \<Rightarrow> find (\<lambda>j. buckets h ! j \<noteq> []) [i ..< num_buckets h])"

text \<open>The \<open>next\<close> pointer of an element.\<close>

fun next_in :: "'e \<Rightarrow> 'e hash_elem list \<Rightarrow> 'e option" where
  "next_in e [] = None"
| "next_in e (x # xs) = (if eid x = e then (case xs of [] \<Rightarrow> None | y # ys \<Rightarrow> Some (eid y)) else next_in e xs)"

definition elem_next :: "'e hashmap \<Rightarrow> 'e \<Rightarrow> 'e option" where
  "elem_next h e = (case find (\<lambda>b. e \<in> set (map eid b)) (buckets h) of None \<Rightarrow> None | Some b \<Rightarrow> next_in e b)"

definition enter_bucket :: "'e hashmap \<Rightarrow> 'e hashmap_trav \<Rightarrow> 'e option \<times> 'e hashmap_trav" where
  "enter_bucket h t =
     (let i = next_nonempty_bucket h (t_bucket t); t = t\<lparr>t_bucket := i\<rparr> in
      case i of
        None \<Rightarrow> (None, t)
      | Some j \<Rightarrow> let e = eid (hd (buckets h ! j)) in (Some e, t\<lparr>t_current := Some e, t_next := elem_next h e\<rparr>))"

definition hashmap_next :: "'e hashmap \<Rightarrow> 'e hashmap_trav \<Rightarrow> 'e option \<times> 'e hashmap_trav" where
  "hashmap_next h t =
     (if t_current t \<noteq> None then
        (case t_next t of
           Some e \<Rightarrow> (Some e, t\<lparr>t_current := Some e, t_next := elem_next h e\<rparr>)
         | None \<Rightarrow> enter_bucket h (t\<lparr>t_current := None, t_bucket := map_option Suc (t_bucket t)\<rparr>))
      else enter_bucket h t)"

definition hashmap_iter :: "'e hashmap \<Rightarrow> 'e option \<times> 'e hashmap_trav" where
  "hashmap_iter h = hashmap_next h \<lparr>t_bucket = Some 0, t_current = None, t_next = None\<rparr>"

definition hashmap_pop_next :: "'e hashmap \<Rightarrow> nat option \<Rightarrow> ('e option \<times> nat option \<times> 'e hashmap) option" where
  "hashmap_pop_next h i0 =
     (let i = next_nonempty_bucket h i0 in
      case i of
        None \<Rightarrow> Some (None, i, h)
      | Some j \<Rightarrow>
          if num_elems h = 0 then None
          else Some (Some (eid (hd (buckets h ! j))), i,
                 h\<lparr>buckets := (buckets h)[j := tl (buckets h ! j)], num_elems := num_elems h - 1\<rparr>))"

definition hashmap_pop_iter :: "'e hashmap \<Rightarrow> ('e option \<times> nat option \<times> 'e hashmap) option" where
  "hashmap_pop_iter h = hashmap_pop_next h (Some 0)"

text \<open>
  The loop \<open>for(elem = hashmap_iter(..); elem; elem = hashmap_next(..))\<close> around a body that may
  change the table (read from the state by \<open>tab\<close>); the fuel bounds the number of rounds.
\<close>

fun hashmap_loop :: "nat \<Rightarrow> ('s \<Rightarrow> 'e hashmap) \<Rightarrow> ('e \<Rightarrow> 's \<Rightarrow> 's option) \<Rightarrow> 'e option \<times> 'e hashmap_trav \<Rightarrow> 's \<Rightarrow> 's option" where
  "hashmap_loop fuel tab body (None, t) s = Some s"
| "hashmap_loop 0 tab body (Some e, t) s = None"
| "hashmap_loop (Suc fuel) tab body (Some e, t) s =
     (case body e s of
        None \<Rightarrow> None
      | Some s' \<Rightarrow> hashmap_loop fuel tab body (hashmap_next (tab s') t) s')"

text \<open>The loop that empties a table with \<open>hashmap_pop_iter\<close> and \<open>hashmap_pop_next\<close>.\<close>

fun hashmap_pop_loop :: "nat \<Rightarrow> 'e hashmap \<Rightarrow> nat option \<Rightarrow> 'e list \<Rightarrow> ('e list \<times> 'e hashmap) option" where
  "hashmap_pop_loop 0 h i acc = None"
| "hashmap_pop_loop (Suc fuel) h i acc =
     (case hashmap_pop_next h i of
        None \<Rightarrow> None
      | Some (None, i', h') \<Rightarrow> Some (acc, h')
      | Some (Some e, i', h') \<Rightarrow> hashmap_pop_loop fuel h' i' (acc @ [e]))"

section \<open>The table as a finite map\<close>

text \<open>
  Invariant: the number of buckets is a power of two, the mask selects that many buckets, every
  element is chained in the bucket of its hash, and no key or element occurs twice.
\<close>

definition hm_ok :: "'e hashmap \<Rightarrow> bool" where
  "hm_ok h \<longleftrightarrow>
     (\<exists>k. num_buckets h = 2 ^ k \<and> hmask h = of_nat (2 ^ k - 1)) \<and>
     length (buckets h) = num_buckets h \<and>
     num_elems h = length (concat (buckets h)) \<and>
     (\<forall>i < length (buckets h). \<forall>e \<in> set (buckets h ! i). bucket_idx_of h e = i) \<and>
     (\<forall>e \<in> set (concat (buckets h)). ehash e = hash_of (ekey e)) \<and>
     distinct (map ekey (concat (buckets h))) \<and> distinct (elem_ids h)"

definition hm_map :: "'e hashmap \<Rightarrow> hash_key \<Rightarrow> 'e option" where
  "hm_map h = map_of (map (\<lambda>e. (ekey e, eid e)) (concat (buckets h)))"

lemma key_match_iff [simp]: "key_match k x \<longleftrightarrow> ekey x = k"
  by (auto simp: key_match_def hash_elem_match_def dummy_def hashmap_elem_init_def split: hash_key.split)

lemma hash_elem_match_iff [simp]: "hash_elem_match a b \<longleftrightarrow> ekey a = ekey b"
  by (auto simp: hash_elem_match_def split: hash_key.split)

lemma mask_and: "x AND of_nat (2 ^ k - 1) = take_bit k (x :: u32)"
  by (simp add: take_bit_eq_mask mask_eq_exp_minus_1 of_nat_diff)

lemma idx_take_bit: "unat (x AND of_nat (2 ^ k - 1)) = take_bit k (unat (x :: u32))"
  unfolding mask_and by (simp add: unsigned_take_bit_eq)

lemma idx_less: "num_buckets h = 2 ^ k \<Longrightarrow> hmask h = of_nat (2 ^ k - 1) \<Longrightarrow> unat (x AND hmask h) < num_buckets h"
  by (simp only: idx_take_bit take_bit_nat_less_exp)

lemma hm_ok_idx: "hm_ok h \<Longrightarrow> unat (x AND hmask h) < length (buckets h)"
  unfolding hm_ok_def using idx_less by metis

text \<open>A bucket in its place.\<close>

lemma bucket_split:
  assumes "i < length bs"
  obtains pre post where "bs = pre @ bs ! i # post" "length pre = i" "\<And>b. bs[i := b] = pre @ b # post"
  using assms by (metis id_take_nth_drop length_take list_update_append1 list_update_length min.absorb4 upd_conv_take_nth_drop)

lemma hm_map_iff:
  assumes "distinct (map ekey (concat (buckets h)))"
  shows "hm_map h k = Some e \<longleftrightarrow> (\<exists>el \<in> set (concat (buckets h)). ekey el = k \<and> eid el = e)"
proof -
  have "map fst (map (\<lambda>e. (ekey e, eid e)) (concat (buckets h))) = map ekey (concat (buckets h))" by (simp add: comp_def)
  then have "distinct (map fst (map (\<lambda>e. (ekey e, eid e)) (concat (buckets h))))" using assms by metis
  from map_of_eq_Some_iff [OF this] show ?thesis unfolding hm_map_def by (auto simp: image_iff)
qed

lemma hm_map_None: "hm_map h k = None \<longleftrightarrow> (\<forall>el \<in> set (concat (buckets h)). ekey el \<noteq> k)"
  by (auto simp: hm_map_def map_of_eq_None_iff image_iff)

lemma hm_map_unique:
  assumes "distinct (map ekey (concat (buckets h)))" "el \<in> set (concat (buckets h))"
  shows "hm_map h (ekey el) = Some (eid el)"
  using hm_map_iff [OF assms(1)] assms(2) by blast

text \<open>An element can only be in the bucket of its hash.\<close>

lemma hm_ok_bucket:
  assumes "hm_ok h" "el \<in> set (concat (buckets h))"
  shows "el \<in> set (buckets h ! unat (hash_of (ekey el) AND hmask h))"
proof -
  obtain i where i: "i < length (buckets h)" "el \<in> set (buckets h ! i)"
    using assms(2) by (metis UN_E in_set_conv_nth set_concat)
  then have "bucket_idx_of h el = i" "ehash el = hash_of (ekey el)" using assms by (auto simp: hm_ok_def)
  with i show ?thesis by (auto simp: bucket_idx_of_def)
qed

lemma hashmap_get_correct:
  assumes "hm_ok h"
  shows "hashmap_get h k = hm_map h k"
proof (cases "hm_map h k")
  case None
  then have "find (key_match k) (buckets h ! unat (hash_of k AND hmask h)) = None"
    using hm_ok_idx [OF assms] by (auto simp: hm_map_None find_None_iff)
  with None show ?thesis by (simp add: hashmap_get_def)
next
  case (Some e)
  then obtain el where el: "el \<in> set (concat (buckets h))" "ekey el = k" "eid el = e"
    using hm_map_iff assms by (metis hm_ok_def)
  from hm_ok_bucket [OF assms el(1)] el(2) have "el \<in> set (buckets h ! unat (hash_of k AND hmask h))" by simp
  then obtain x where x: "find (key_match k) (buckets h ! unat (hash_of k AND hmask h)) = Some x"
    using el(2) by (metis find_None_iff key_match_iff not_None_eq)
  then have "x \<in> set (buckets h ! unat (hash_of k AND hmask h))" "ekey x = k"
    by (auto simp: find_Some_iff)
  then have "x \<in> set (concat (buckets h))" using hm_ok_idx [OF assms] by auto
  then have "hm_map h k = Some (eid x)" using hm_map_unique assms \<open>ekey x = k\<close> by (metis hm_ok_def)
  then show ?thesis using x by (simp add: hashmap_get_def)
qed

text \<open>Replacing one bucket, said with the elements around it.\<close>

lemma hm_ok_with_bucket:
  assumes ok: "hm_ok h" and i: "i < length (buckets h)" and h': "h' = h\<lparr>buckets := (buckets h)[i := b], num_elems := n\<rparr>"
    and idx: "\<forall>e \<in> set b. unat (ehash e AND hmask h) = i" and hsh: "\<forall>e \<in> set b. ehash e = hash_of (ekey e)"
    and parts: "buckets h = pre @ buckets h ! i # post" "length pre = i"
    and keys: "distinct (map ekey (concat pre @ b @ concat post))" and ids: "distinct (map eid (concat pre @ b @ concat post))"
    and n: "n = length (concat pre @ b @ concat post)"
  shows "hm_ok h' \<and> concat (buckets h') = concat pre @ b @ concat post"
proof -
  have u: "(buckets h)[i := b] = pre @ b # post" using parts by (metis list_update_length)
  then have c: "concat (buckets h') = concat pre @ b @ concat post" by (simp add: h')
  have bi: "\<forall>j < length (buckets h'). \<forall>e \<in> set (buckets h' ! j). bucket_idx_of h' e = j"
    using ok i idx by (auto simp: h' hm_ok_def bucket_idx_of_def nth_list_update)
  have hs: "\<forall>e \<in> set (concat (buckets h')). ehash e = hash_of (ekey e)"
  proof
    fix e assume "e \<in> set (concat (buckets h'))"
    then have "e \<in> set b \<or> e \<in> set (concat (buckets h))" unfolding c using parts(1)
      by (metis UnE UnI1 UnI2 concat.simps(2) concat_append set_append)
    then show "ehash e = hash_of (ekey e)" using hsh ok by (auto simp: hm_ok_def)
  qed
  have "\<exists>k. num_buckets h' = 2 ^ k \<and> hmask h' = of_nat (2 ^ k - 1)" "length (buckets h') = num_buckets h'"
    "num_elems h' = length (concat (buckets h'))" "distinct (map ekey (concat (buckets h')))" "distinct (elem_ids h')"
    unfolding elem_ids_def c using ok keys ids n by (auto simp: h' hm_ok_def)
  with bi hs c show ?thesis unfolding hm_ok_def by blast
qed

lemma replace_in_None: "replace_in e b = None \<longleftrightarrow> (\<forall>x \<in> set b. ekey x \<noteq> ekey e)"
  by (induction b) auto

lemma replace_in_Some:
  "replace_in e b = Some (old, b') \<Longrightarrow> \<exists>xs x ys. b = xs @ x # ys \<and> b' = xs @ e # ys \<and> ekey x = ekey e \<and> eid x = old"
proof (induction b arbitrary: b')
  case (Cons y b)
  show ?case
  proof (cases "ekey e = ekey y")
    case True
    with Cons.prems show ?thesis by (auto intro!: exI [of _ "[]"])
  next
    case False
    with Cons.prems obtain b2 where b2: "replace_in e b = Some (old, b2)" "b' = y # b2" by auto
    from Cons.IH [OF b2(1)] obtain xs x ys where
      "b = xs @ x # ys \<and> b2 = xs @ e # ys \<and> ekey x = ekey e \<and> eid x = old" by blast
    then show ?thesis using b2(2) by (intro exI [of _ "y # xs"]) auto
  qed
qed simp

lemma remove_in_None: "remove_in p b = None \<longleftrightarrow> (\<forall>x \<in> set b. \<not> p x)"
  by (induction b) auto

lemma remove_in_Some:
  "remove_in p b = Some (old, b') \<Longrightarrow> \<exists>xs x ys. b = xs @ x # ys \<and> b' = xs @ ys \<and> p x \<and> eid x = old \<and> (\<forall>z \<in> set xs. \<not> p z)"
proof (induction b arbitrary: b')
  case (Cons y b)
  show ?case
  proof (cases "p y")
    case True
    with Cons.prems show ?thesis by (auto intro!: exI [of _ "[]"])
  next
    case False
    with Cons.prems obtain b2 where b2: "remove_in p b = Some (old, b2)" "b' = y # b2" by auto
    from Cons.IH [OF b2(1)] obtain xs x ys where
      "b = xs @ x # ys \<and> b2 = xs @ ys \<and> p x \<and> eid x = old \<and> (\<forall>z \<in> set xs. \<not> p z)" by blast
    then show ?thesis using b2(2) False by (intro exI [of _ "y # xs"]) auto
  qed
qed simp

lemma hm_map_concat: "hm_map h = map_of (map (\<lambda>e. (ekey e, eid e)) (concat (buckets h)))"
  by (simp add: hm_map_def)

lemma map_of_remove_mid:
  assumes "distinct (map fst (us @ (k, v) # vs))"
  shows "map_of (us @ vs) = (map_of (us @ (k, v) # vs))(k := None)"
proof
  fix x
  have "map_of us k = None" "map_of vs k = None" using assms by (auto simp: map_of_eq_None_iff)
  then show "map_of (us @ vs) x = ((map_of (us @ (k, v) # vs))(k := None)) x"
    by (auto simp: map_add_def split: option.split)
qed

lemma map_of_replace_mid:
  assumes "distinct (map fst (us @ (k, v) # vs))"
  shows "map_of (us @ (k, w) # vs) = (map_of (us @ (k, v) # vs))(k \<mapsto> w)"
proof
  fix x
  have "map_of us k = None" "map_of vs k = None" using assms by (auto simp: map_of_eq_None_iff)
  then show "map_of (us @ (k, w) # vs) x = ((map_of (us @ (k, v) # vs))(k \<mapsto> w)) x"
    by (auto simp: map_add_def split: option.split)
qed

lemma map_of_insert_mid:
  assumes "k \<notin> fst ` set (us @ vs)"
  shows "map_of (us @ (k, w) # vs) = (map_of (us @ vs))(k \<mapsto> w)"
proof
  fix x
  have "map_of us k = None" "map_of vs k = None" using assms by (auto simp: map_of_eq_None_iff image_Un)
  then show "map_of (us @ (k, w) # vs) x = ((map_of (us @ vs))(k \<mapsto> w)) x"
    by (auto simp: map_add_def split: option.split)
qed

lemma elem_ids_ran: "hm_ok h \<Longrightarrow> set (elem_ids h) = ran (hm_map h)"
proof -
  assume "hm_ok h"
  then have d: "distinct (map ekey (concat (buckets h)))" by (simp add: hm_ok_def)
  show ?thesis unfolding elem_ids_def ran_def hm_map_iff [OF d] by auto
qed

lemma hm_map_inj: "hm_ok h \<Longrightarrow> hm_map h k = Some e \<Longrightarrow> hm_map h k' = Some e \<Longrightarrow> k = k'"
proof -
  assume ok: "hm_ok h" and e: "hm_map h k = Some e" "hm_map h k' = Some e"
  from ok have d: "distinct (map ekey (concat (buckets h)))" "distinct (map eid (concat (buckets h)))"
    by (simp_all add: hm_ok_def elem_ids_def)
  obtain x y where xy: "x \<in> set (concat (buckets h))" "ekey x = k" "eid x = e" "y \<in> set (concat (buckets h))" "ekey y = k'" "eid y = e"
    using e hm_map_iff [OF d(1)] by blast
  then have "x = y" using d(2) by (metis distinct_map inj_onD)
  with xy show ?thesis by simp
qed

lemma split_bucket_eq:
  "split_bucket u b = (rev (filter (\<lambda>e. ehash e AND u = 0) b), rev (filter (\<lambda>e. ehash e AND u \<noteq> 0) b))"
proof -
  have "foldl (\<lambda>(lo, hi) e. if ehash e AND u \<noteq> 0 then (lo, e # hi) else (e # lo, hi)) (lo, hi) b =
    (rev (filter (\<lambda>e. ehash e AND u = 0) b) @ lo, rev (filter (\<lambda>e. ehash e AND u \<noteq> 0) b) @ hi)" for lo hi
    by (induction b arbitrary: lo hi) auto
  then show ?thesis by (simp add: split_bucket_def)
qed

lemma mset_halves:
  "mset (concat (map fst (map (split_bucket u) bs) @ map snd (map (split_bucket u) bs))) = mset (concat bs)"
proof (induction bs)
  case (Cons b bs)
  let ?f = "concat (map fst (map (split_bucket u) bs))" and ?s = "concat (map snd (map (split_bucket u) bs))"
  have p: "mset (fst (split_bucket u b)) + mset (snd (split_bucket u b)) = mset b"
    by (simp add: split_bucket_eq)
  have "mset (concat (map fst (map (split_bucket u) (b # bs)) @ map snd (map (split_bucket u) (b # bs)))) =
      (mset (fst (split_bucket u b)) + mset (snd (split_bucket u b))) + (mset ?f + mset ?s)" by simp
  also have "mset ?f + mset ?s = mset (concat bs)" using Cons by simp
  finally show ?case unfolding p by simp
qed simp

lemma upper_bit_test:
  "x AND ((of_nat (2 ^ Suc k - 1) AND 0xFFFFFFFF) XOR of_nat (2 ^ k - 1)) \<noteq> 0 \<longleftrightarrow> bit (x :: u32) k"
proof -
  have m: "(of_nat (2 ^ n - 1) :: u32) = mask n" for n
    by (simp add: mask_eq_exp_minus_1 of_nat_diff)
  have "(0xFFFFFFFF :: u32) = - 1" by simp
  then have "(of_nat (2 ^ Suc k - 1) AND 0xFFFFFFFF) XOR of_nat (2 ^ k - 1) = (mask (Suc k) XOR mask k :: u32)"
    unfolding m by (metis and.right_neutral)
  also have "\<dots> = push_bit k 1" by (rule bit_word_eqI) (auto simp: bit_simps)
  finally show ?thesis
    by (simp add: bit_iff_and_push_bit_not_eq_0)
qed

lemma hm_map_mset:
  assumes "mset (concat (buckets h')) = mset (concat (buckets h))" "distinct (map ekey (concat (buckets h)))"
  shows "hm_map h' = hm_map h \<and> distinct (map ekey (concat (buckets h')))"
proof -
  have d: "distinct (map ekey (concat (buckets h')))"
    using assms by (metis mset_eq_imp_distinct_iff mset_map)
  have "hm_map h' k = hm_map h k" for k
    using hm_map_iff [OF d, of k] hm_map_iff [OF assms(2), of k] mset_eq_setD [OF assms(1)]
    by (cases "hm_map h' k"; cases "hm_map h k") fastforce+
  with d show ?thesis by blast
qed

lemma check_rehash_ok:
  assumes ok: "hm_ok h"
  shows "hm_ok (check_rehash alloc h) \<and> hm_map (check_rehash alloc h) = hm_map h \<and>
    mset (concat (buckets (check_rehash alloc h))) = mset (concat (buckets h))"
proof (cases "num_elems h div num_buckets h < 1 \<or> \<not> alloc (pow2_from 32 (num_buckets h * 2 * 8))")
  case True
  then show ?thesis using ok by (auto simp: check_rehash_def Let_def)
next
  case False
  obtain k where k: "num_buckets h = 2 ^ k" "hmask h = of_nat (2 ^ k - 1)" using ok by (auto simp: hm_ok_def)
  let ?m = "of_nat (2 ^ Suc k - 1) AND 0xFFFFFFFF :: u32"
  let ?u = "?m XOR hmask h"
  define h' where "h' = check_rehash alloc h"
  have h': "num_buckets h' = 2 ^ Suc k" "hmask h' = ?m" "num_elems h' = num_elems h"
    "buckets h' = map fst (map (split_bucket ?u) (buckets h)) @ map snd (map (split_bucket ?u) (buckets h))"
    using False by (auto simp: h'_def check_rehash_def Let_def k(1) mult.commute)
  have "(0xFFFFFFFF :: u32) = - 1" by simp
  then have m: "?m = of_nat (2 ^ Suc k - 1)" by (metis and.right_neutral)
  have ms: "mset (concat (buckets h')) = mset (concat (buckets h))" unfolding h' by (rule mset_halves)
  have dk: "distinct (map ekey (concat (buckets h)))" using ok by (simp add: hm_ok_def)
  note mp = hm_map_mset [OF ms dk]
  have u: "x AND ?u \<noteq> 0 \<longleftrightarrow> bit x k" for x unfolding k(2) by (rule upper_bit_test)
  have idx: "bucket_idx_of h' e = bucket_idx_of h e + (if bit (ehash e) k then 2 ^ k else 0)" for e
    unfolding bucket_idx_of_def h' m k(2) idx_take_bit
    by (simp add: take_bit_Suc_from_most bit_unsigned_iff)
  have bi: "bucket_idx_of h' e = j" if j: "j < length (buckets h')" and e: "e \<in> set (buckets h' ! j)" for j e
  proof -
    have len: "length (buckets h) = 2 ^ k" using ok k by (simp add: hm_ok_def)
    show ?thesis
    proof (cases "j < 2 ^ k")
      case True
      then have "e \<in> set (buckets h ! j)" "\<not> bit (ehash e) k"
        using e len u [of "ehash e"] unfolding h' by (auto simp: nth_append split_bucket_eq)
      then show ?thesis using True len ok by (auto simp: idx hm_ok_def)
    next
      case False
      then have j2: "j - 2 ^ k < length (buckets h)" using j len by (simp add: h')
      then have "e \<in> set (buckets h ! (j - 2 ^ k))" "bit (ehash e) k"
        using e len u [of "ehash e"] False unfolding h' by (auto simp: nth_append split_bucket_eq)
      then show ?thesis using False j2 ok by (auto simp: idx hm_ok_def)
    qed
  qed
  have "num_elems h' = length (concat (buckets h'))" using ok h'(3) mset_eq_length [OF ms] by (simp add: hm_ok_def)
  moreover have "\<forall>e \<in> set (concat (buckets h')). ehash e = hash_of (ekey e)"
    unfolding mset_eq_setD [OF ms] using ok by (simp add: hm_ok_def)
  moreover have "distinct (elem_ids h')"
    using ok ms unfolding hm_ok_def elem_ids_def by (metis mset_eq_imp_distinct_iff mset_map)
  moreover have "length (buckets h') = num_buckets h'" using ok k by (simp add: h' hm_ok_def)
  moreover have "\<exists>k. num_buckets h' = 2 ^ k \<and> hmask h' = of_nat (2 ^ k - 1)" using h'(1,2) m by metis
  ultimately show ?thesis unfolding h'_def [symmetric] using mp ms bi unfolding hm_ok_def by blast
qed

text \<open>The bucket a key belongs to, with what surrounds it.\<close>

lemma bucket_elems:
  assumes "hm_ok h" "i < length (buckets h)" "e \<in> set (buckets h ! i)"
  shows "unat (ehash e AND hmask h) = i \<and> ehash e = hash_of (ekey e)"
  using assms by (auto simp: hm_ok_def bucket_idx_of_def)

lemma key_bucket:
  assumes "hm_ok h"
  obtains i b pre post where "i = unat (hash_of k AND hmask h)" "b = buckets h ! i" "i < length (buckets h)"
    "buckets h = pre @ buckets h ! i # post" "length pre = i" "concat (buckets h) = concat pre @ b @ concat post"
    "\<forall>x \<in> set b. unat (ehash x AND hmask h) = i" "\<forall>x \<in> set b. ehash x = hash_of (ekey x)"
proof -
  define i where "i = unat (hash_of k AND hmask h)"
  have i: "i < length (buckets h)" unfolding i_def by (rule hm_ok_idx [OF assms])
  obtain pre post where p: "buckets h = pre @ buckets h ! i # post" "length pre = i" using bucket_split [OF i] by metis
  then have "concat (buckets h) = concat pre @ buckets h ! i @ concat post" by (metis concat.simps(2) concat_append)
  with p i i_def bucket_elems [OF assms i] show ?thesis by (intro that) auto
qed

lemma elem_init_simps [simp]:
  "ekey (hashmap_elem_init k e) = k" "ehash (hashmap_elem_init k e) = hash_of k" "eid (hashmap_elem_init k e) = e"
  by (simp_all add: hashmap_elem_init_def)

lemma hm_distinct: "hm_ok h \<Longrightarrow> distinct (map ekey (concat (buckets h)))" "hm_ok h \<Longrightarrow> distinct (map eid (concat (buckets h)))"
  by (simp_all add: hm_ok_def elem_ids_def)

lemma no_key_in_bucket:
  assumes "hm_ok h"
  shows "(\<forall>x \<in> set (buckets h ! unat (hash_of k AND hmask h)). ekey x \<noteq> k) \<longleftrightarrow> hm_map h k = None"
proof
  assume "\<forall>x \<in> set (buckets h ! unat (hash_of k AND hmask h)). ekey x \<noteq> k"
  then show "hm_map h k = None" using hm_ok_bucket [OF assms] by (auto simp: hm_map_None)
next
  assume "hm_map h k = None"
  then show "\<forall>x \<in> set (buckets h ! unat (hash_of k AND hmask h)). ekey x \<noteq> k"
    using hm_ok_idx [OF assms] by (auto simp: hm_map_None)
qed

lemma hashmap_set_insert:
  assumes ok: "hm_ok h" and new: "e \<notin> set (elem_ids h)" and none: "hm_map h k = None"
  shows "\<exists>h'. hashmap_set alloc h k e want = Some (E_NONE, None, h') \<and> hm_ok h' \<and> hm_map h' = (hm_map h)(k \<mapsto> e)"
proof -
  let ?el = "hashmap_elem_init k e"
  obtain i b pre post where i: "i = unat (hash_of k AND hmask h)" "b = buckets h ! i" "i < length (buckets h)"
    and p: "buckets h = pre @ buckets h ! i # post" "length pre = i" "concat (buckets h) = concat pre @ b @ concat post"
    and b: "\<forall>x \<in> set b. unat (ehash x AND hmask h) = i" "\<forall>x \<in> set b. ehash x = hash_of (ekey x)"
    using key_bucket [OF ok, of k] by blast
  let ?h = "h\<lparr>buckets := (buckets h)[i := b @ [?el]], num_elems := num_elems h + 1\<rparr>"
  have fresh: "k \<notin> ekey ` set (concat (buckets h))" "e \<notin> eid ` set (concat (buckets h))"
    using none new by (auto simp: hm_map_None elem_ids_def)
  have "distinct (map ekey (concat pre @ (b @ [?el]) @ concat post))" "distinct (map eid (concat pre @ (b @ [?el]) @ concat post))"
    using hm_distinct [OF ok] fresh unfolding p(3) by auto
  moreover have "\<forall>x \<in> set (b @ [?el]). unat (ehash x AND hmask h) = i" "\<forall>x \<in> set (b @ [?el]). ehash x = hash_of (ekey x)"
    using b by (auto simp: i(1))
  moreover have "num_elems h + 1 = length (concat pre @ (b @ [?el]) @ concat post)"
    using ok p(3) by (simp add: hm_ok_def)
  ultimately have h: "hm_ok ?h \<and> concat (buckets ?h) = concat pre @ (b @ [?el]) @ concat post"
    using hm_ok_with_bucket [OF ok i(3) refl _ _ p(1,2)] by blast
  have "hm_map ?h = (hm_map h)(k \<mapsto> e)"
    using fresh map_of_insert_mid [of k "map (\<lambda>e. (ekey e, eid e)) (concat pre @ b)" "map (\<lambda>e. (ekey e, eid e)) (concat post)" e]
    unfolding hm_map_def h [THEN conjunct2] p(3) by (simp add: image_Un image_image)
  moreover have "replace_in ?el b = None"
    using no_key_in_bucket [OF ok, of k] none by (simp add: replace_in_None i)
  then have "hashmap_set alloc h k e want = Some (E_NONE, None, check_rehash alloc ?h)"
    using new by (simp add: hashmap_set_def Let_def bucket_idx_of_def flip: i(1) i(2))
  ultimately show ?thesis using check_rehash_ok h by (metis (no_types, lifting))
qed

lemma hashmap_set_replace:
  assumes ok: "hm_ok h" and new: "e \<notin> set (elem_ids h)" and some: "hm_map h k = Some old"
  shows "\<exists>h'. hashmap_set alloc h k e want = Some (if want then (E_NONE, Some old, h') else (E_PARAM, None, h)) \<and>
    hm_ok h' \<and> hm_map h' = (hm_map h)(k \<mapsto> e)"
proof -
  let ?el = "hashmap_elem_init k e"
  obtain i b pre post where i: "i = unat (hash_of k AND hmask h)" "b = buckets h ! i" "i < length (buckets h)"
    and p: "buckets h = pre @ buckets h ! i # post" "length pre = i" "concat (buckets h) = concat pre @ b @ concat post"
    and b: "\<forall>x \<in> set b. unat (ehash x AND hmask h) = i" "\<forall>x \<in> set b. ehash x = hash_of (ekey x)"
    using key_bucket [OF ok, of k] by blast
  have "replace_in ?el b \<noteq> None"
    using no_key_in_bucket [OF ok, of k] some unfolding i(1) [symmetric] i(2) [symmetric] by (auto simp: replace_in_None)
  then obtain old' b' where r: "replace_in ?el b = Some (old', b')" by fastforce
  then obtain xs x ys where x: "b = xs @ x # ys" "b' = xs @ ?el # ys" "ekey x = k" "eid x = old'"
    using replace_in_Some [OF r] by auto
  have "x \<in> set (concat (buckets h))" unfolding p(3) x by simp
  from hm_map_unique [OF hm_distinct(1) [OF ok] this] some x have old: "old' = old" by simp
  let ?h = "h\<lparr>buckets := (buckets h)[i := b'], num_elems := num_elems h\<rparr>"
  have fresh: "e \<notin> eid ` set (concat (buckets h))" using new by (auto simp: elem_ids_def)
  have "map ekey (concat pre @ b' @ concat post) = map ekey (concat (buckets h))" unfolding p(3) x using x(3) by simp
  then have "distinct (map ekey (concat pre @ b' @ concat post))" using hm_distinct(1) [OF ok] by metis
  moreover have "distinct (map eid (concat pre @ b' @ concat post))"
    using hm_distinct(2) [OF ok] fresh unfolding p(3) x by auto
  moreover have "\<forall>x \<in> set b'. unat (ehash x AND hmask h) = i" "\<forall>x \<in> set b'. ehash x = hash_of (ekey x)"
    using b unfolding x by (auto simp: i(1))
  moreover have "num_elems h = length (concat pre @ b' @ concat post)"
    using ok p(3) x by (simp add: hm_ok_def)
  ultimately have h: "hm_ok ?h \<and> concat (buckets ?h) = concat pre @ b' @ concat post"
    using hm_ok_with_bucket [OF ok i(3) refl _ _ p(1,2)] by blast
  let ?m = "map (\<lambda>e. (ekey e, eid e))"
  have "distinct (map fst (?m (concat pre @ xs) @ (k, old) # ?m (ys @ concat post)))"
    using hm_distinct(1) [OF ok] unfolding p(3) x(1) by (simp add: comp_def x(3))
  from map_of_replace_mid [OF this, of e] have "hm_map ?h = (hm_map h)(k \<mapsto> e)"
    unfolding hm_map_def h [THEN conjunct2] p(3) unfolding x using x(3,4) old by simp
  moreover have "hashmap_set alloc h k e want = Some (if want then (E_NONE, Some old, ?h) else (E_PARAM, None, h))"
    using new r old by (simp add: hashmap_set_def Let_def bucket_idx_of_def flip: i(1) i(2))
  ultimately show ?thesis using h by blast
qed

text \<open>Unlinking the element found in the bucket \<open>i\<close>.\<close>

lemma unlink_bucket:
  assumes ok: "hm_ok h" and i: "i < length (buckets h)" and r: "remove_in p (buckets h ! i) = Some (e, b')"
  shows "\<exists>x h'. h' = h\<lparr>buckets := (buckets h)[i := b'], num_elems := num_elems h - 1\<rparr> \<and> num_elems h \<noteq> 0 \<and>
    x \<in> set (buckets h ! i) \<and> p x \<and> eid x = e \<and> hm_ok h' \<and> hm_map h' = (hm_map h)(ekey x := None) \<and>
    (\<exists>us ws. concat (buckets h) = us @ x # ws \<and> concat (buckets h') = us @ ws)"
proof -
  obtain pre post where q: "buckets h = pre @ buckets h ! i # post" "length pre = i" using bucket_split [OF i] by metis
  then have c: "concat (buckets h) = concat pre @ buckets h ! i @ concat post" by (metis concat.simps(2) concat_append)
  obtain xs x ys where x: "buckets h ! i = xs @ x # ys" "b' = xs @ ys" "p x" "eid x = e"
    using remove_in_Some [OF r] by blast
  let ?h = "h\<lparr>buckets := (buckets h)[i := b'], num_elems := num_elems h - 1\<rparr>"
  have n: "num_elems h = length (concat (buckets h))" using ok by (simp add: hm_ok_def)
  have "distinct (map ekey (concat pre @ b' @ concat post))" "distinct (map eid (concat pre @ b' @ concat post))"
    using hm_distinct [OF ok] unfolding c x by auto
  moreover have "\<forall>x \<in> set (buckets h ! i). unat (ehash x AND hmask h) = i" "\<forall>x \<in> set (buckets h ! i). ehash x = hash_of (ekey x)"
    using bucket_elems [OF ok i] by blast+
  then have "\<forall>x \<in> set b'. unat (ehash x AND hmask h) = i" "\<forall>x \<in> set b'. ehash x = hash_of (ekey x)" unfolding x by auto
  moreover have "num_elems h - 1 = length (concat pre @ b' @ concat post)" using n c x by simp
  ultimately have h: "hm_ok ?h \<and> concat (buckets ?h) = concat pre @ b' @ concat post"
    using hm_ok_with_bucket [OF ok i refl _ _ q] by blast
  let ?m = "map (\<lambda>e. (ekey e, eid e))"
  have "distinct (map fst (?m (concat pre @ xs) @ (ekey x, e) # ?m (ys @ concat post)))"
    using hm_distinct(1) [OF ok] unfolding c x by (simp add: comp_def)
  from map_of_remove_mid [OF this] have m: "hm_map ?h = (hm_map h)(ekey x := None)"
    unfolding hm_map_def h [THEN conjunct2] c unfolding x using x(4) by simp
  have z: "num_elems h \<noteq> 0" using n c x by simp
  have cc: "concat (buckets h) = (concat pre @ xs) @ x # (ys @ concat post)"
    "concat (buckets ?h) = (concat pre @ xs) @ (ys @ concat post)" unfolding h [THEN conjunct2] c unfolding x by simp_all
  have "x \<in> set (buckets h ! i)" using x by simp
  with m z cc h x(3,4) show ?thesis by blast
qed

lemma hashmap_del_correct:
  assumes ok: "hm_ok h"
  shows "\<exists>h'. hashmap_del h k = Some (hm_map h k, h') \<and> hm_ok h' \<and> hm_map h' = (hm_map h)(k := None)"
proof (cases "hm_map h k")
  case None
  then have "remove_in (key_match k) (buckets h ! unat (hash_of k AND hmask h)) = None"
    using no_key_in_bucket [OF ok, of k] by (simp add: remove_in_None)
  then have "hashmap_del h k = Some (None, h)" by (simp add: hashmap_del_def Let_def)
  then show ?thesis using ok None by auto
next
  case (Some e)
  let ?i = "unat (hash_of k AND hmask h)"
  have "remove_in (key_match k) (buckets h ! ?i) \<noteq> None"
    using no_key_in_bucket [OF ok, of k] Some by (auto simp: remove_in_None)
  then obtain e' b' where r: "remove_in (key_match k) (buckets h ! ?i) = Some (e', b')" by fastforce
  from unlink_bucket [OF ok hm_ok_idx [OF ok] r] obtain x h' where
    h': "h' = h\<lparr>buckets := (buckets h)[?i := b'], num_elems := num_elems h - 1\<rparr>" "num_elems h \<noteq> 0"
    "x \<in> set (buckets h ! ?i)" "ekey x = k" "eid x = e'" "hm_ok h'" "hm_map h' = (hm_map h)(k := None)" by auto
  have "x \<in> set (concat (buckets h))" using h'(3) hm_ok_idx [OF ok] by auto
  from hm_map_unique [OF hm_distinct(1) [OF ok] this] have "e' = e" using h' Some by simp
  then show ?thesis using r h' Some by (auto simp: hashmap_del_def Let_def)
qed

lemma hash_elem_remove_absent: "e \<notin> set (elem_ids h) \<Longrightarrow> hash_elem_remove h e = Some h"
proof -
  assume "e \<notin> set (elem_ids h)"
  then have "find (\<lambda>x. eid x = e) (concat (buckets h)) = None" by (auto simp: elem_ids_def find_None_iff)
  then show ?thesis by (simp add: hash_elem_remove_def)
qed

lemma hash_elem_remove_correct:
  assumes ok: "hm_ok h" and m: "hm_map h k = Some e"
  shows "\<exists>h' x us ws. hash_elem_remove h e = Some h' \<and> hm_ok h' \<and> hm_map h' = (hm_map h)(k := None) \<and>
    concat (buckets h) = us @ x # ws \<and> concat (buckets h') = us @ ws \<and> eid x = e"
proof -
  obtain el where el: "el \<in> set (concat (buckets h))" "ekey el = k" "eid el = e"
    using m hm_map_iff [OF hm_distinct(1) [OF ok]] by blast
  obtain y where y: "find (\<lambda>x. eid x = e) (concat (buckets h)) = Some y" "y \<in> set (concat (buckets h))" "eid y = e"
    using el(1,3) by (metis (mono_tags, lifting) find_None_iff find_Some_iff not_None_eq nth_mem)
  then have "y = el" using el hm_distinct(2) [OF ok] by (metis distinct_map inj_onD)
  let ?i = "bucket_idx_of h el"
  have "ehash el = hash_of (ekey el)" using ok el(1) by (auto simp: hm_ok_def)
  then have i: "?i < length (buckets h)" "el \<in> set (buckets h ! ?i)"
    using hm_ok_idx [OF ok] hm_ok_bucket [OF ok el(1)] by (simp_all add: bucket_idx_of_def)
  then have "remove_in (\<lambda>x. eid x = e) (buckets h ! ?i) \<noteq> None" using el(3) by (auto simp: remove_in_None)
  then obtain e' b' where r: "remove_in (\<lambda>x. eid x = e) (buckets h ! ?i) = Some (e', b')" by fastforce
  from unlink_bucket [OF ok i(1) r] obtain x h' us ws where
    h': "h' = h\<lparr>buckets := (buckets h)[?i := b'], num_elems := num_elems h - 1\<rparr>" "num_elems h \<noteq> 0"
    "x \<in> set (buckets h ! ?i)" "eid x = e" "hm_ok h'" "hm_map h' = (hm_map h)(ekey x := None)"
    "concat (buckets h) = us @ x # ws" "concat (buckets h') = us @ ws" by blast
  have "x = el" using h'(4,7) el hm_distinct(2) [OF ok] by (metis distinct_map in_set_conv_decomp inj_onD)
  then show ?thesis using h' y \<open>y = el\<close> r el(2) by (auto simp: hash_elem_remove_def Let_def)
qed

section \<open>Traversal visits every element once\<close>

text \<open>What a traversal still has to visit.\<close>

definition trav_at :: "'e hashmap \<Rightarrow> 'e hashmap_trav \<Rightarrow> 'e list \<Rightarrow> bool" where
  "trav_at h t rest \<longleftrightarrow> (case t_bucket t of
     None \<Rightarrow> t_current t = None \<and> rest = []
   | Some i \<Rightarrow>
       if t_current t = None then i \<le> length (buckets h) \<and> rest = map eid (concat (drop i (buckets h)))
       else i < length (buckets h) \<and> (\<exists>us xs. map eid (buckets h ! i) = us @ xs \<and>
              t_next t = (case xs of [] \<Rightarrow> None | x # _ \<Rightarrow> Some x) \<and>
              rest = xs @ map eid (concat (drop (Suc i) (buckets h)))))"

lemma next_in_split:
  assumes "map eid b = us @ e # xs" "distinct (map eid b)"
  shows "next_in e b = (case xs of [] \<Rightarrow> None | x # _ \<Rightarrow> Some x)"
  using assms
proof (induction b arbitrary: us)
  case (Cons y b)
  show ?case
  proof (cases us)
    case Nil
    with Cons.prems have "eid y = e" "map eid b = xs" by auto
    then show ?thesis by (cases b) auto
  next
    case (Cons u us')
    with Cons.prems have "eid y = u" "map eid b = us' @ e # xs" by auto
    moreover from this Cons.prems(2) have "eid y \<noteq> e" by auto
    ultimately show ?thesis using Cons.IH Cons.prems(2) by simp
  qed
qed simp

lemma elem_next_bucket:
  assumes ids: "distinct (elem_ids h)" and i: "i < length (buckets h)" and b: "map eid (buckets h ! i) = us @ e # xs"
  shows "elem_next h e = (case xs of [] \<Rightarrow> None | x # _ \<Rightarrow> Some x)"
proof -
  obtain pre post where p: "buckets h = pre @ buckets h ! i # post" using bucket_split [OF i] by metis
  then have ids: "elem_ids h = map eid (concat pre) @ map eid (buckets h ! i) @ map eid (concat post)"
    unfolding elem_ids_def by (metis concat.simps(2) concat_append map_append)
  have "e \<notin> eid ` set (concat pre)" "distinct (map eid (buckets h ! i))"
    using assms(1) unfolding ids b by auto
  then have "find (\<lambda>b. e \<in> set (map eid b)) pre = None" by (auto simp: find_None_iff)
  moreover have "e \<in> set (map eid (buckets h ! i))" unfolding b by simp
  moreover have "find P (xs @ y # ys) = Some y" if "find P xs = None" "P y" for P xs y and ys :: "'e hash_elem list list"
    using that by (induction xs) auto
  ultimately have "find (\<lambda>b. e \<in> set (map eid b)) (buckets h) = Some (buckets h ! i)" by (subst p) blast
  then show ?thesis using next_in_split [OF b \<open>distinct (map eid (buckets h ! i))\<close>] by (simp add: elem_next_def)
qed

lemma next_nonempty:
  assumes "num_buckets h = length (buckets h)" "i \<le> length (buckets h)"
  shows "case next_nonempty_bucket h (Some i) of
      None \<Rightarrow> concat (drop i (buckets h)) = []
    | Some j \<Rightarrow> i \<le> j \<and> j < length (buckets h) \<and> buckets h ! j \<noteq> [] \<and>
        concat (drop i (buckets h)) = buckets h ! j @ concat (drop (Suc j) (buckets h))"
  using assms(2)
proof (induction "length (buckets h) - i" arbitrary: i)
  case 0
  then show ?case using assms(1) by (simp add: next_nonempty_bucket_def)
next
  case (Suc n)
  then have i: "i < length (buckets h)" by simp
  have d: "drop i (buckets h) = buckets h ! i # drop (Suc i) (buckets h)" using Cons_nth_drop_Suc [OF i] by simp
  have u: "[i ..< num_buckets h] = i # [Suc i ..< num_buckets h]" using i assms(1) by (simp add: upt_conv_Cons)
  show ?case
  proof (cases "buckets h ! i = []")
    case True
    then have "next_nonempty_bucket h (Some i) = next_nonempty_bucket h (Some (Suc i))"
      by (simp add: next_nonempty_bucket_def u)
    moreover have "n = length (buckets h) - Suc i" using Suc.hyps(2) by simp
    ultimately show ?thesis using True Suc.hyps(1) [of "Suc i"] i d by (auto split: option.splits)
  next
    case False
    then have "next_nonempty_bucket h (Some i) = Some i" by (simp add: next_nonempty_bucket_def u)
    with False i d show ?thesis by simp
  qed
qed

lemma enter_bucket_at:
  assumes ok: "hm_ok h" and t: "t_current t = None" "t_bucket t = Some i" "i \<le> length (buckets h)"
  shows "\<exists>t'. (case map eid (concat (drop i (buckets h))) of
      [] \<Rightarrow> enter_bucket h t = (None, t')
    | e # rest \<Rightarrow> enter_bucket h t = (Some e, t') \<and> t_current t' = Some e \<and> trav_at h t' rest)"
proof -
  have nb: "num_buckets h = length (buckets h)" "distinct (elem_ids h)" using ok by (simp_all add: hm_ok_def)
  show ?thesis
  proof (cases "next_nonempty_bucket h (Some i)")
    case None
    then have "concat (drop i (buckets h)) = []" using next_nonempty [OF nb(1) t(3)] by simp
    then have "map eid (concat (drop i (buckets h))) = []" by (simp only: list.map(1))
    then show ?thesis using None t by (simp only: list.case) (simp add: enter_bucket_def Let_def)
  next
    case (Some j)
    with next_nonempty [OF nb(1) t(3)] have j: "j < length (buckets h)" "buckets h ! j \<noteq> []"
      "concat (drop i (buckets h)) = buckets h ! j @ concat (drop (Suc j) (buckets h))" by auto
    then obtain x b where x: "buckets h ! j = x # b" by (cases "buckets h ! j") auto
    then have b: "map eid (buckets h ! j) = [] @ eid x # map eid b" by simp
    let ?t = "t\<lparr>t_bucket := Some j, t_current := Some (eid x), t_next := elem_next h (eid x)\<rparr>"
    have "trav_at h ?t (map eid b @ map eid (concat (drop (Suc j) (buckets h))))"
      unfolding trav_at_def using j(1) elem_next_bucket [OF nb(2) j(1) b] x
      by (auto intro!: exI [of _ "[eid x]"])
    then show ?thesis using Some t j x by (auto simp: enter_bucket_def Let_def)
  qed
qed

lemma hashmap_next_at:
  assumes ok: "hm_ok h" and t: "trav_at h t rest"
  shows "\<exists>t'. (case rest of
      [] \<Rightarrow> hashmap_next h t = (None, t')
    | e # rest' \<Rightarrow> hashmap_next h t = (Some e, t') \<and> t_current t' = Some e \<and> trav_at h t' rest')"
proof (cases "t_bucket t")
  case None
  then show ?thesis using t by (auto simp: trav_at_def hashmap_next_def enter_bucket_def next_nonempty_bucket_def)
next
  case (Some i)
  show ?thesis
  proof (cases "t_current t")
    case None
    then have "hashmap_next h t = enter_bucket h t" "i \<le> length (buckets h)" "rest = map eid (concat (drop i (buckets h)))"
      using t Some by (simp_all add: trav_at_def hashmap_next_def)
    then show ?thesis using enter_bucket_at [OF ok None Some] by metis
  next
    case cur: (Some c)
    with t Some obtain us xs where i: "i < length (buckets h)" and b: "map eid (buckets h ! i) = us @ xs"
      and n: "t_next t = (case xs of [] \<Rightarrow> None | x # _ \<Rightarrow> Some x)"
      and rest: "rest = xs @ map eid (concat (drop (Suc i) (buckets h)))" by (auto simp: trav_at_def)
    show ?thesis
    proof (cases xs)
      case Nil
      let ?t = "t\<lparr>t_current := None, t_bucket := Some (Suc i)\<rparr>"
      have "hashmap_next h t = enter_bucket h ?t" using cur n Nil Some by (simp add: hashmap_next_def)
      moreover have "rest = map eid (concat (drop (Suc i) (buckets h)))" using rest Nil by simp
      moreover have "t_current ?t = None" "t_bucket ?t = Some (Suc i)" "Suc i \<le> length (buckets h)" using i by simp_all
      ultimately show ?thesis using enter_bucket_at [OF ok, of ?t "Suc i"] by metis
    next
      case (Cons x xs')
      let ?t = "t\<lparr>t_current := Some x, t_next := elem_next h x\<rparr>"
      have "distinct (elem_ids h)" using ok by (simp add: hm_ok_def)
      from elem_next_bucket [OF this i b [unfolded Cons]]
      have "trav_at h ?t (xs' @ map eid (concat (drop (Suc i) (buckets h))))"
        unfolding trav_at_def using i b Cons Some by (auto intro!: exI [of _ "us @ [x]"])
      then show ?thesis using cur n Cons rest by (auto simp: hashmap_next_def)
    qed
  qed
qed

lemma hashmap_iter_at: "trav_at h \<lparr>t_bucket = Some 0, t_current = None, t_next = None\<rparr> (elem_ids h)"
  by (simp add: trav_at_def elem_ids_def)

text \<open>Unlinking the element the traversal stands on leaves what is still to come as it is.\<close>

definition without :: "'e \<Rightarrow> 'e hash_elem list list \<Rightarrow> 'e hash_elem list list" where
  "without e bs = map (filter (\<lambda>x. eid x \<noteq> e)) bs"

lemma map_eid_filter: "map eid (filter (\<lambda>x. eid x \<noteq> e) b) = filter (\<lambda>y. y \<noteq> e) (map eid b)"
  by (induction b) auto

lemma without_ids: "map eid (concat (without e bs)) = filter (\<lambda>y. y \<noteq> e) (map eid (concat bs))"
  by (induction bs) (auto simp: without_def map_eid_filter)

lemma trav_at_without:
  assumes t: "trav_at h t rest" "e \<notin> set rest" "t_current t \<noteq> None" and h': "buckets h' = without e (buckets h)"
  shows "trav_at h' t rest"
proof -
  obtain i us xs where i: "t_bucket t = Some i" "i < length (buckets h)" and b: "map eid (buckets h ! i) = us @ xs"
    and n: "t_next t = (case xs of [] \<Rightarrow> None | x # _ \<Rightarrow> Some x)"
    and rest: "rest = xs @ map eid (concat (drop (Suc i) (buckets h)))"
    using t by (auto simp: trav_at_def split: option.splits)
  have "map eid (buckets h' ! i) = filter (\<lambda>y. y \<noteq> e) us @ xs"
    using b i(2) t(2) rest by (auto simp: h' without_def map_eid_filter filter_id_conv)
  moreover have "drop (Suc i) (buckets h') = without e (drop (Suc i) (buckets h))" by (simp add: h' without_def drop_map)
  then have "map eid (concat (drop (Suc i) (buckets h'))) = map eid (concat (drop (Suc i) (buckets h)))"
    using t(2) rest by (simp only: without_ids) (auto simp: filter_id_conv)
  moreover have "i < length (buckets h')" using i by (simp add: h' without_def)
  ultimately show ?thesis unfolding trav_at_def using i(1) n rest t(3) by auto
qed

lemma remove_in_filter:
  "remove_in (\<lambda>x. eid x = e) b = Some (e', b') \<Longrightarrow> distinct (map eid b) \<Longrightarrow> b' = filter (\<lambda>x. eid x \<noteq> e) b"
proof (induction b arbitrary: b')
  case (Cons y b)
  show ?case
  proof (cases "eid y = e")
    case True
    with Cons.prems have "b' = b" "e \<notin> eid ` set b" by auto
    moreover from this(2) have "filter (\<lambda>x. eid x \<noteq> e) b = b" by (auto simp: filter_id_conv)
    ultimately show ?thesis using True by simp
  next
    case False
    with Cons show ?thesis by auto
  qed
qed simp

lemma hash_elem_remove_buckets:
  assumes ok: "hm_ok h" and r: "hash_elem_remove h e = Some h'"
  shows "buckets h' = without e (buckets h)"
proof (cases "find (\<lambda>x. eid x = e) (concat (buckets h))")
  case None
  then have "e \<notin> set (map eid b)" if "b \<in> set (buckets h)" for b using that by (auto simp: find_None_iff)
  then have "without e (buckets h) = buckets h" unfolding without_def by (intro map_idI) (auto simp: filter_id_conv)
  with None r show ?thesis by (simp add: hash_elem_remove_def)
next
  case (Some el)
  let ?i = "bucket_idx_of h el"
  from Some r obtain e' b' where b': "remove_in (\<lambda>x. eid x = e) (buckets h ! ?i) = Some (e', b')"
    "buckets h' = (buckets h)[?i := b']" by (auto simp: hash_elem_remove_def Let_def split: if_splits)
  have el: "el \<in> set (concat (buckets h))" "eid el = e" using Some by (auto simp: find_Some_iff simp del: set_concat)
  have i: "?i < length (buckets h)" using hm_ok_idx [OF ok] by (simp add: bucket_idx_of_def)
  have dist: "distinct (map eid (concat (buckets h)))" by (rule hm_distinct(2) [OF ok])
  have db: "distinct (map eid (buckets h ! j))" if j: "j < length (buckets h)" for j
  proof -
    obtain pre post where p: "buckets h = pre @ buckets h ! j # post" using bucket_split [OF j] by metis
    then have "concat (buckets h) = concat pre @ buckets h ! j @ concat post" by (metis concat.simps(2) concat_append)
    with dist show ?thesis by simp
  qed
  have "(buckets h)[?i := b'] ! j = filter (\<lambda>x. eid x \<noteq> e) (buckets h ! j)" if j: "j < length (buckets h)" for j
  proof (cases "j = ?i")
    case True
    then show ?thesis using remove_in_filter [OF b'(1) db [OF i]] i by simp
  next
    case False
    have "eid x \<noteq> e" if x: "x \<in> set (buckets h ! j)" for x
    proof
      assume "eid x = e"
      moreover have "x \<in> set (concat (buckets h))" using x j by auto
      ultimately have "x = el" using el dist by (metis distinct_map inj_onD)
      then show False using ok j x False by (auto simp: hm_ok_def)
    qed
    then show ?thesis using False by (simp add: filter_id_conv)
  qed
  then show ?thesis unfolding b'(2) without_def by (intro nth_equalityI) auto
qed

text \<open>
  A loop whose body leaves the table alone or unlinks the element it was given runs over the
  elements that were in the table at the start, in their order.
\<close>

fun fold_opt :: "('e \<Rightarrow> 's \<Rightarrow> 's option) \<Rightarrow> 'e list \<Rightarrow> 's \<Rightarrow> 's option" where
  "fold_opt f [] s = Some s"
| "fold_opt f (e # es) s = (case f e s of None \<Rightarrow> None | Some s' \<Rightarrow> fold_opt f es s')"

lemma hashmap_loop_fold:
  assumes body: "\<And>e es s. Inv (e # es) s \<Longrightarrow> \<exists>s'. body e s = Some s' \<and> Inv es s' \<and>
      (buckets (tab s') = buckets (tab s) \<or> buckets (tab s') = without e (buckets (tab s)))"
    and inv: "\<And>es s. Inv es s \<Longrightarrow> hm_ok (tab s)"
    and "Inv rest s" "trav_at (tab s) t rest" "distinct rest" "length rest \<le> fuel"
  shows "hashmap_loop fuel tab body (hashmap_next (tab s) t) s = fold_opt body rest s \<and> fold_opt body rest s \<noteq> None"
  using assms(3-)
proof (induction rest arbitrary: s t fuel)
  case Nil
  from hashmap_next_at [OF inv [OF Nil(1)] Nil(2)] obtain t' where "hashmap_next (tab s) t = (None, t')" by auto
  then show ?case by simp
next
  case (Cons e es)
  from hashmap_next_at [OF inv [OF Cons.prems(1)] Cons.prems(2)] obtain t' where
    t': "hashmap_next (tab s) t = (Some e, t')" "t_current t' = Some e" "trav_at (tab s) t' es" by auto
  from body [OF Cons.prems(1)] obtain s' where s': "body e s = Some s'" "Inv es s'"
    "buckets (tab s') = buckets (tab s) \<or> buckets (tab s') = without e (buckets (tab s))" by blast
  obtain fuel' where f: "fuel = Suc fuel'" "length es \<le> fuel'" using Cons.prems(4) by (cases fuel) auto
  have "trav_at (tab s') t' es"
    using s'(3)
  proof
    assume "buckets (tab s') = buckets (tab s)"
    then show ?thesis using t'(3) unfolding trav_at_def by metis
  next
    assume "buckets (tab s') = without e (buckets (tab s))"
    then show ?thesis using trav_at_without [OF t'(3)] Cons.prems(3) t'(2) by auto
  qed
  from Cons.IH [OF s'(2) this _ f(2)] Cons.prems(3) s'(1) t'(1) f(1) show ?case by simp
qed

lemmas hashmap_iter_fold =
  hashmap_loop_fold [OF _ _ _ hashmap_iter_at, folded hashmap_iter_def]

text \<open>Popping.\<close>

lemma hashmap_pop_at:
  assumes ok: "hm_ok h" and i: "i \<le> length (buckets h)" and pre: "concat (take i (buckets h)) = []"
  shows "case elem_ids h of
      [] \<Rightarrow> hashmap_pop_next h (Some i) = Some (None, None, h)
    | e # es \<Rightarrow> \<exists>j h'. hashmap_pop_next h (Some i) = Some (Some e, Some j, h') \<and> hm_ok h' \<and> elem_ids h' = es \<and>
        j \<le> length (buckets h') \<and> concat (take j (buckets h')) = []"
proof -
  have c: "concat (buckets h) = concat (drop i (buckets h))"
    using pre by (metis append_Nil append_take_drop_id concat_append)
  have nb: "num_buckets h = length (buckets h)" using ok by (simp add: hm_ok_def)
  show ?thesis
  proof (cases "next_nonempty_bucket h (Some i)")
    case None
    then have "elem_ids h = []" using next_nonempty [OF nb i] c by (simp only: elem_ids_def option.case list.map)
    then show ?thesis using None by (simp add: hashmap_pop_next_def)
  next
    case (Some j)
    with next_nonempty [OF nb i] have j: "j < length (buckets h)" "buckets h ! j \<noteq> []"
      "concat (buckets h) = buckets h ! j @ concat (drop (Suc j) (buckets h))" unfolding c by auto
    then obtain x b where x: "buckets h ! j = x # b" by (cases "buckets h ! j") auto
    have "concat (take j (buckets h)) @ concat (drop j (buckets h)) = concat (buckets h)"
      by (metis append_take_drop_id concat_append)
    then have t: "concat (take j (buckets h)) = []"
      using j(3) Cons_nth_drop_Suc [OF j(1)] by (metis append_self_conv2 concat.simps(2))
    have "remove_in (\<lambda>_. True) (buckets h ! j) = Some (eid x, b)" by (simp add: x)
    from unlink_bucket [OF ok j(1) this] obtain h' where
      h': "h' = h\<lparr>buckets := (buckets h)[j := b], num_elems := num_elems h - 1\<rparr>" "num_elems h \<noteq> 0" "hm_ok h'" by blast
    have "elem_ids h' = map eid b @ map eid (concat (drop (Suc j) (buckets h)))"
      using t j(1) by (simp add: h' elem_ids_def upd_conv_take_nth_drop)
    moreover have "elem_ids h = eid x # map eid b @ map eid (concat (drop (Suc j) (buckets h)))"
      unfolding elem_ids_def j(3) x by simp
    moreover have "hashmap_pop_next h (Some i) = Some (Some (eid x), Some j, h')"
      using Some h' x by (simp add: hashmap_pop_next_def)
    moreover have "j \<le> length (buckets h')" "concat (take j (buckets h')) = []" using j(1) t by (simp_all add: h')
    ultimately show ?thesis using h'(3) by auto
  qed
qed

lemma hashmap_pop_loop_all:
  assumes "hm_ok h" "i \<le> length (buckets h)" "concat (take i (buckets h)) = []" "length (elem_ids h) < fuel"
  shows "\<exists>h'. hashmap_pop_loop fuel h (Some i) acc = Some (acc @ elem_ids h, h') \<and> hm_ok h' \<and> elem_ids h' = []"
  using assms
proof (induction "elem_ids h" arbitrary: h i fuel acc)
  case Nil
  from hashmap_pop_at [OF Nil(2-4)] Nil(1,5) have "hashmap_pop_next h (Some i) = Some (None, None, h)"
    by (simp flip: Nil(1))
  moreover obtain f where "fuel = Suc f" using Nil(5) by (cases fuel) auto
  ultimately show ?case using Nil(1,2) by auto
next
  case (Cons e es)
  note ids = Cons(2) [symmetric]
  from hashmap_pop_at [OF Cons(3-5)] obtain j h' where
    h': "hashmap_pop_next h (Some i) = Some (Some e, Some j, h')" "hm_ok h'" "elem_ids h' = es"
    "j \<le> length (buckets h')" "concat (take j (buckets h')) = []" unfolding ids list.case by blast
  obtain f where f: "fuel = Suc f" "length (elem_ids h') < f" using Cons(6) h'(3) unfolding ids by (cases fuel) simp_all
  from Cons(1) [OF h'(3) [symmetric] h'(2,4,5) f(2), of "acc @ [e]"] show ?case
    unfolding ids f(1) hashmap_pop_loop.simps h'(1) h'(3) by simp
qed

section \<open>The contract of a table\<close>

text \<open>
  What the clients rely on, for one kind of keys: lookups, replacing insertion of an element that
  is not in the table yet, and deletion, with the elements the table holds.
\<close>

locale key_table =
  fixes ok :: "'h \<Rightarrow> bool" and look :: "'h \<Rightarrow> 'k \<Rightarrow> 'e option" and held :: "'h \<Rightarrow> 'e set"
    and get :: "'h \<Rightarrow> 'k \<Rightarrow> 'e option" and put :: "'h \<Rightarrow> 'k \<Rightarrow> 'e \<Rightarrow> ('e option \<times> 'h) option"
    and del :: "'h \<Rightarrow> 'k \<Rightarrow> ('e option \<times> 'h) option"
  assumes get_law: "ok h \<Longrightarrow> get h k = look h k"
    and put_law: "ok h \<Longrightarrow> e \<notin> held h \<Longrightarrow> \<exists>h'. put h k e = Some (look h k, h') \<and> ok h' \<and> look h' = (look h)(k \<mapsto> e) \<and>
      held h' = insert e (held h - set_option (look h k))"
    and del_law: "ok h \<Longrightarrow> \<exists>h'. del h k = Some (look h k, h') \<and> ok h' \<and> look h' = (look h)(k := None) \<and>
      held h' = held h - set_option (look h k)"
begin

lemma get_after_put:
  assumes "ok h" "e \<notin> held h" "put h k e = Some (old, h')"
  shows "old = get h k \<and> get h' j = (if j = k then Some e else get h j)"
  using put_law [OF assms(1,2), of k] assms(1,3) by (auto simp: get_law)

lemma get_after_del:
  assumes "ok h" "del h k = Some (old, h')"
  shows "old = get h k \<and> get h' j = (if j = k then None else get h j)"
  using del_law [OF assms(1), of k] assms by (auto simp: get_law)

text \<open>Insertion and deletion never abort on a table in order, and a deleted element can be put back.\<close>

lemma put_back:
  assumes "ok h" "del h k = Some (Some e, h')"
  shows "\<exists>h2. put h' k e = Some (None, h2) \<and> ok h2 \<and> look h2 = look h"
proof -
  from del_law [OF assms(1), of k] obtain h1 where h1: "del h k = Some (look h k, h1)" "ok h1"
    "look h1 = (look h)(k := None)" "held h1 = held h - set_option (look h k)" by blast
  then have e: "look h k = Some e" "h1 = h'" using assms(2) by simp_all
  have "e \<notin> held h1" using h1(4) e(1) by simp
  from put_law [OF h1(2) this, of k] obtain h2 where h2: "put h1 k e = Some (look h1 k, h2)" "ok h2" "look h2 = (look h1)(k \<mapsto> e)"
    by blast
  have "look h1 k = None" unfolding h1(3) by simp
  moreover have "look h2 = look h" unfolding h2(3) h1(3) using e(1) by (simp add: fun_upd_idem)
  ultimately show ?thesis using e(2) h2(1,2) by metis
qed

end

lemma ran_del:
  assumes "\<And>k1 k2 v. m k1 = Some v \<Longrightarrow> m k2 = Some v \<Longrightarrow> k1 = k2"
  shows "ran (m(k := None)) = ran m - set_option (m k)"
proof (intro set_eqI iffI)
  fix x assume "x \<in> ran (m(k := None))"
  then obtain j where "m j = Some x" "j \<noteq> k" by (auto simp: ran_def split: if_splits)
  then show "x \<in> ran m - set_option (m k)" using assms [of j x k] by (auto simp: ran_def elem_set)
next
  fix x assume x: "x \<in> ran m - set_option (m k)"
  then obtain j where "m j = Some x" by (auto simp: ran_def)
  moreover from this x have "j \<noteq> k" by auto
  ultimately have "(m(k := None)) j = Some x" by simp
  then show "x \<in> ran (m(k := None))" unfolding ran_def by blast
qed

lemma ran_upd:
  assumes "\<And>k1 k2 v. m k1 = Some v \<Longrightarrow> m k2 = Some v \<Longrightarrow> k1 = k2"
  shows "ran (m(k \<mapsto> e)) = insert e (ran m - set_option (m k))"
  using ran_map_upd [of "m(k := None)" k e] ran_del [of m k, OF assms] by simp

lemma hashmap_put_law:
  assumes "hm_ok h" "e \<notin> set (elem_ids h)"
  shows "\<exists>h'. map_option snd (hashmap_set alloc h k e True) = Some (hm_map h k, h') \<and> hm_ok h' \<and>
    hm_map h' = (hm_map h)(k \<mapsto> e) \<and> set (elem_ids h') = insert e (set (elem_ids h) - set_option (hm_map h k))"
proof -
  obtain h' where h': "hashmap_set alloc h k e True = Some (E_NONE, hm_map h k, h')" "hm_ok h'" "hm_map h' = (hm_map h)(k \<mapsto> e)"
    using hashmap_set_insert [OF assms, of k alloc True] hashmap_set_replace [OF assms, of k _ alloc True]
    by (cases "hm_map h k") auto
  have "set (elem_ids h') = insert e (set (elem_ids h) - set_option (hm_map h k))"
    unfolding elem_ids_ran [OF h'(2)] elem_ids_ran [OF assms(1)] h'(3)
    using hm_map_inj [OF assms(1)] by (intro ran_upd)
  with h' show ?thesis by simp
qed

lemma hashmap_del_law:
  assumes "hm_ok h"
  shows "\<exists>h'. hashmap_del h k = Some (hm_map h k, h') \<and> hm_ok h' \<and> hm_map h' = (hm_map h)(k := None) \<and>
    set (elem_ids h') = set (elem_ids h) - set_option (hm_map h k)"
proof -
  obtain h' where h': "hashmap_del h k = Some (hm_map h k, h')" "hm_ok h'" "hm_map h' = (hm_map h)(k := None)"
    using hashmap_del_correct [OF assms] by blast
  have "set (elem_ids h') = set (elem_ids h) - set_option (hm_map h k)"
    unfolding elem_ids_ran [OF h'(2)] elem_ids_ran [OF assms] h'(3) using hm_map_inj [OF assms] by (intro ran_del)
  with h' show ?thesis by simp
qed

interpretation str_table: key_table hm_ok "\<lambda>h k. hm_map h (Str k)" "\<lambda>h. set (elem_ids h)"
  hashmap_gets "hashmap_sets alloc" hashmap_dels for alloc
proof
  fix h :: "'e hashmap" and k e
  show "hm_ok h \<Longrightarrow> hashmap_gets h k = hm_map h (Str k)" by (simp add: hashmap_gets_def hashmap_get_correct)
  show "hm_ok h \<Longrightarrow> e \<notin> set (elem_ids h) \<Longrightarrow> \<exists>h'. hashmap_sets alloc h k e = Some (hm_map h (Str k), h') \<and> hm_ok h' \<and>
      (\<lambda>k. hm_map h' (Str k)) = (\<lambda>k. hm_map h (Str k))(k \<mapsto> e) \<and>
      set (elem_ids h') = insert e (set (elem_ids h) - set_option (hm_map h (Str k)))"
    using hashmap_put_law [of h e alloc "Str k"] by (auto simp: hashmap_sets_def fun_eq_iff)
  show "hm_ok h \<Longrightarrow> \<exists>h'. hashmap_dels h k = Some (hm_map h (Str k), h') \<and> hm_ok h' \<and>
      (\<lambda>k. hm_map h' (Str k)) = (\<lambda>k. hm_map h (Str k))(k := None) \<and>
      set (elem_ids h') = set (elem_ids h) - set_option (hm_map h (Str k))"
    using hashmap_del_law [of h "Str k"] by (auto simp: hashmap_dels_def fun_eq_iff)
qed

interpretation uint_table: key_table hm_ok "\<lambda>h k. hm_map h (Uint k)" "\<lambda>h. set (elem_ids h)"
  hashmap_getu "hashmap_setu alloc" hashmap_delu for alloc
proof
  fix h :: "'e hashmap" and k e
  show "hm_ok h \<Longrightarrow> hashmap_getu h k = hm_map h (Uint k)" by (simp add: hashmap_getu_def hashmap_get_correct)
  show "hm_ok h \<Longrightarrow> e \<notin> set (elem_ids h) \<Longrightarrow> \<exists>h'. hashmap_setu alloc h k e = Some (hm_map h (Uint k), h') \<and> hm_ok h' \<and>
      (\<lambda>k. hm_map h' (Uint k)) = (\<lambda>k. hm_map h (Uint k))(k \<mapsto> e) \<and>
      set (elem_ids h') = insert e (set (elem_ids h) - set_option (hm_map h (Uint k)))"
    using hashmap_put_law [of h e alloc "Uint k"] by (auto simp: hashmap_setu_def fun_eq_iff)
  show "hm_ok h \<Longrightarrow> \<exists>h'. hashmap_delu h k = Some (hm_map h (Uint k), h') \<and> hm_ok h' \<and>
      (\<lambda>k. hm_map h' (Uint k)) = (\<lambda>k. hm_map h (Uint k))(k := None) \<and>
      set (elem_ids h') = set (elem_ids h) - set_option (hm_map h (Uint k))"
    using hashmap_del_law [of h "Uint k"] by (auto simp: hashmap_delu_def fun_eq_iff)
qed

section \<open>Properties\<close>

text \<open>A program over a table: a sequence of insertions, deletions and removals by element.\<close>

datatype 'e table_op = Set hash_key 'e | Del hash_key | Remove hash_key

fun run_op :: "allocator \<Rightarrow> 'e table_op \<Rightarrow> 'e hashmap \<Rightarrow> 'e hashmap option" where
  "run_op alloc (Set k e) h = map_option (\<lambda>(_, _, h'). h') (hashmap_set alloc h k e True)"
| "run_op alloc (Del k) h = map_option snd (hashmap_del h k)"
| "run_op alloc (Remove k) h = (case hashmap_get h k of None \<Rightarrow> Some h | Some e \<Rightarrow> hash_elem_remove h e)"

fun spec_op :: "'e table_op \<Rightarrow> (hash_key \<rightharpoonup> 'e) \<Rightarrow> hash_key \<rightharpoonup> 'e" where
  "spec_op (Set k e) m = m(k \<mapsto> e)"
| "spec_op (Del k) m = m(k := None)"
| "spec_op (Remove k) m = m(k := None)"

fun op_allowed :: "'e table_op \<Rightarrow> (hash_key \<rightharpoonup> 'e) \<Rightarrow> bool" where
  "op_allowed (Set k e) m \<longleftrightarrow> e \<notin> ran m"
| "op_allowed (Del k) m \<longleftrightarrow> True"
| "op_allowed (Remove k) m \<longleftrightarrow> True"

fun ops_allowed :: "'e table_op list \<Rightarrow> (hash_key \<rightharpoonup> 'e) \<Rightarrow> bool" where
  "ops_allowed [] m \<longleftrightarrow> True"
| "ops_allowed (x # xs) m \<longleftrightarrow> op_allowed x m \<and> ops_allowed xs (spec_op x m)"

lemma run_op_refines:
  assumes ok: "hm_ok h" and a: "op_allowed x (hm_map h)"
  shows "\<exists>h'. run_op alloc x h = Some h' \<and> hm_ok h' \<and> hm_map h' = spec_op x (hm_map h)"
proof (cases x)
  case (Set k e)
  with a have "e \<notin> set (elem_ids h)" using elem_ids_ran [OF ok] by simp
  then show ?thesis
    using hashmap_set_insert [OF ok, of e k alloc True] hashmap_set_replace [OF ok, of e k _ alloc True] Set
    by (cases "hm_map h k") auto
next
  case (Del k)
  then show ?thesis using hashmap_del_correct [OF ok, of k] by auto
next
  case (Remove k)
  show ?thesis
  proof (cases "hm_map h k")
    case None
    then have "(hm_map h)(k := None) = hm_map h" by auto
    with None Remove ok show ?thesis by (simp add: hashmap_get_correct)
  next
    case (Some e)
    from hash_elem_remove_correct [OF ok Some] Some Remove ok show ?thesis by (auto simp: hashmap_get_correct)
  qed
qed

lemma hashmap_init_ok: "hashmap_init alloc = (E_NONE, Some h) \<Longrightarrow> hm_ok h \<and> hm_map h = Map.empty"
proof -
  assume "hashmap_init alloc = (E_NONE, Some h)"
  then have h: "h = \<lparr>num_buckets = 32, num_elems = 0, buckets = replicate 32 [], hmask = of_nat 31\<rparr>"
    by (simp add: hashmap_init_def init_num_buckets_def split: if_splits)
  have "num_buckets h = 2 ^ 5 \<and> hmask h = of_nat (2 ^ 5 - 1)" by (simp add: h)
  then have "\<exists>k. num_buckets h = 2 ^ k \<and> hmask h = of_nat (2 ^ k - 1)" by blast
  moreover have "concat (buckets h) = []" by (simp add: h)
  ultimately show ?thesis by (simp add: hm_ok_def hm_map_def elem_ids_def h)
qed

text \<open>
  C7. The hash table implements a finite map with keys of both kinds: from a fresh table any
  sequence of insertions (of elements not in the table), deletions by key and removals by element
  runs without aborting, through every doubling of the table the allocator grants or refuses, and
  afterwards a lookup of any key gives what the sequence leaves in the map.
\<close>

theorem hashmap_refines_map:
  assumes "hashmap_init alloc0 = (E_NONE, Some h0)" "ops_allowed xs Map.empty"
  shows "\<exists>h. fold_opt (run_op alloc) xs h0 = Some h \<and> num_elems h = length (elem_ids h) \<and>
    (\<forall>k. hashmap_get h k = fold spec_op xs Map.empty k)"
proof -
  have "\<exists>h'. fold_opt (run_op alloc) xs h = Some h' \<and> hm_ok h' \<and> hm_map h' = fold spec_op xs (hm_map h)"
    if "hm_ok h" "ops_allowed xs (hm_map h)" for h
    using that
  proof (induction xs arbitrary: h)
    case (Cons x xs)
    from run_op_refines [OF Cons.prems(1), of x alloc] Cons.prems(2) obtain h1 where
      "run_op alloc x h = Some h1" "hm_ok h1" "hm_map h1 = spec_op x (hm_map h)" by auto
    with Cons.IH [of h1] Cons.prems(2) show ?case by auto
  qed simp
  from this [of h0] hashmap_init_ok [OF assms(1)] assms(2) obtain h where
    "fold_opt (run_op alloc) xs h0 = Some h" "hm_ok h" "hm_map h = fold spec_op xs Map.empty" by auto
  then show ?thesis by (auto simp: hashmap_get_correct hm_ok_def elem_ids_def)
qed

theorem hashmap_refines_map_witness:
  "\<exists>h0 h. hashmap_init alloc_ok = (E_NONE, Some h0) \<and>
     fold_opt (run_op alloc_ok) [Set (Str [97]) (1 :: nat), Set (Uint 7) 2, Set (Str [97]) 3, Del (Uint 7)] h0 = Some h \<and>
     hashmap_get h (Str [97]) = Some 3 \<and> hashmap_get h (Uint 7) = None"
proof -
  obtain h0 :: "nat hashmap" where h0: "hashmap_init alloc_ok = (E_NONE, Some h0)" by (simp add: hashmap_init_def)
  have "ops_allowed [Set (Str [97]) (1 :: nat), Set (Uint 7) 2, Set (Str [97]) 3, Del (Uint 7)] Map.empty"
    by (auto simp: ran_def split: if_splits)
  from hashmap_refines_map [OF h0 this, of alloc_ok] h0 show ?thesis by auto
qed

text \<open>A loop body that records the element it is given and unlinks it if \<open>p\<close> holds.\<close>

definition visit :: "('e \<Rightarrow> bool) \<Rightarrow> 'e \<Rightarrow> 'e list \<times> 'e hashmap \<Rightarrow> ('e list \<times> 'e hashmap) option" where
  "visit p e s = map_option (\<lambda>h'. (fst s @ [e], h')) (if p e then hash_elem_remove (snd s) e else Some (snd s))"

text \<open>
  C39. A traversal of a table in order that unlinks any of the elements it is handed, while it stands
  on them, visits every element exactly once and leaves exactly the others; the popping traversal
  hands out every element and leaves the table empty.  Both end within one round per element.
\<close>

theorem hashmap_traversal_complete:
  assumes "hm_ok h"
  shows "(\<exists>h'. hashmap_loop (length (elem_ids h)) snd (visit p) (hashmap_iter h) ([], h) = Some (elem_ids h, h') \<and> hm_ok h' \<and>
      elem_ids h' = filter (\<lambda>e. \<not> p e) (elem_ids h)) \<and>
    (\<exists>h'. hashmap_pop_loop (Suc (length (elem_ids h))) h (Some 0) [] = Some (elem_ids h, h') \<and> hm_ok h' \<and> elem_ids h' = []) \<and>
    distinct (elem_ids h)"
proof (intro conjI)
  let ?Inv = "\<lambda>es s. \<exists>vs. fst s = vs \<and> hm_ok (snd s) \<and> elem_ids h = vs @ es \<and>
      elem_ids (snd s) = filter (\<lambda>e. \<not> p e) vs @ es"
  have dist: "distinct (elem_ids h)" using assms by (simp add: hm_ok_def)
  then show "distinct (elem_ids h)" .
  have body: "\<exists>s'. visit p e s = Some s' \<and> ?Inv es s' \<and>
      (buckets (snd s') = buckets (snd s) \<or> buckets (snd s') = without e (buckets (snd s)))" if I: "?Inv (e # es) s" for e es s
  proof (cases "p e")
    case True
    have ok: "hm_ok (snd s)" and e: "e \<in> set (elem_ids (snd s))" using I by auto
    then obtain k where "hm_map (snd s) k = Some e" using elem_ids_ran [OF ok] by (auto simp: ran_def)
    from hash_elem_remove_correct [OF ok this] obtain h' where h': "hash_elem_remove (snd s) e = Some h'" "hm_ok h'" by blast
    from hash_elem_remove_buckets [OF ok h'(1)] have b: "buckets h' = without e (buckets (snd s))" .
    then have "elem_ids h' = filter (\<lambda>y. y \<noteq> e) (elem_ids (snd s))" by (simp only: elem_ids_def without_ids)
    moreover have "e \<notin> set (fst s)" "e \<notin> set es" using dist I by auto
    then have "filter (\<lambda>y. y \<noteq> e) es = es" "filter (\<lambda>x. \<not> p x \<and> x \<noteq> e) (fst s) = filter (\<lambda>e. \<not> p e) (fst s)"
      by (auto simp: filter_id_conv intro: filter_cong)
    ultimately have "elem_ids h' = filter (\<lambda>e. \<not> p e) (fst s @ [e]) @ es" using I True by auto
    then show ?thesis using I h' b True by (auto simp: visit_def)
  next
    case False
    then show ?thesis using I by (auto simp: visit_def)
  qed
  have "?Inv (elem_ids h) ([], h)" using assms by simp
  from hashmap_loop_fold [where tab = snd and Inv = ?Inv and body = "visit p" and s = "([], h)", OF body _ this _ dist order.refl]
  have loop: "hashmap_loop (length (elem_ids h)) snd (visit p) (hashmap_iter h) ([], h) = fold_opt (visit p) (elem_ids h) ([], h)"
    using hashmap_iter_at [of h] by (auto simp: hashmap_iter_def)
  have "\<exists>s'. fold_opt (visit p) es s = Some s' \<and> ?Inv [] s'" if "?Inv es s" for es s
    using that
  proof (induction es arbitrary: s)
    case (Cons e es)
    from body [OF Cons.prems] obtain s' where s': "visit p e s = Some s'" "?Inv es s'" by blast
    from Cons.IH [OF s'(2)] s'(1) show ?case by simp
  qed auto
  from this [OF \<open>?Inv (elem_ids h) ([], h)\<close>] loop
  show "\<exists>h'. hashmap_loop (length (elem_ids h)) snd (visit p) (hashmap_iter h) ([], h) = Some (elem_ids h, h') \<and> hm_ok h' \<and>
      elem_ids h' = filter (\<lambda>e. \<not> p e) (elem_ids h)" by auto
  show "\<exists>h'. hashmap_pop_loop (Suc (length (elem_ids h))) h (Some 0) [] = Some (elem_ids h, h') \<and> hm_ok h' \<and> elem_ids h' = []"
    using hashmap_pop_loop_all [OF assms, of 0 "Suc (length (elem_ids h))" "[]"] by simp
qed

definition demo_table :: "nat hashmap" where
  "demo_table = the (fold_opt (run_op alloc_ok) [Set (Str [97]) 1, Set (Uint 7) 2, Set (Str [98]) 3]
     (the (snd (hashmap_init alloc_ok))))"

lemma demo_table_ok: "hm_ok demo_table"
proof -
  obtain h0 :: "nat hashmap" where h0: "hashmap_init alloc_ok = (E_NONE, Some h0)" by (simp add: hashmap_init_def)
  note i = hashmap_init_ok [OF h0]
  obtain h1 where h1: "run_op alloc_ok (Set (Str [97]) (1 :: nat)) h0 = Some h1" "hm_ok h1" "hm_map h1 = [Str [97] \<mapsto> 1]"
    using run_op_refines [of h0 "Set (Str [97]) 1" alloc_ok] i by auto
  obtain h2 where h2: "run_op alloc_ok (Set (Uint 7) 2) h1 = Some h2" "hm_ok h2" "hm_map h2 = [Str [97] \<mapsto> 1, Uint 7 \<mapsto> 2]"
    using run_op_refines [of h1 "Set (Uint 7) 2" alloc_ok] h1 by auto
  have "(3 :: nat) \<notin> ran (hm_map h2)" unfolding h2(3) by (auto simp: ran_def split: if_splits)
  then obtain h3 where h3: "run_op alloc_ok (Set (Str [98]) 3) h2 = Some h3" "hm_ok h3"
    using run_op_refines [OF h2(2), of "Set (Str [98]) 3" alloc_ok] by auto
  show ?thesis using h0 h1(1) h2(1) h3 by (simp add: demo_table_def del: run_op.simps)
qed

theorem hashmap_traversal_complete_witness:
  "\<exists>h'. hashmap_loop (length (elem_ids demo_table)) snd (visit (\<lambda>e. e = 2)) (hashmap_iter demo_table) ([], demo_table) =
     Some (elem_ids demo_table, h') \<and> elem_ids h' = filter (\<lambda>e. e \<noteq> 2) (elem_ids demo_table)"
  using hashmap_traversal_complete [OF demo_table_ok, of "\<lambda>e. e = 2"] by blast

end
