(* ===== verification/Kvp_Pkts.thy ===== *)
theory Kvp_Pkts
  imports Dstr
begin

text \<open>
  The packets of the key-value synchronisation protocol (\<open>src/server/libkvpsync/pkts.c\<close>).  The
  \<open>type\<close> field is an 8-bit field, so it may hold a number that is no packet type; the buffers \<open>key\<close>
  and \<open>val\<close> of an update are arrays of 255 bytes of which \<open>klen\<close> and \<open>vlen\<close> count.
\<close>

unbundle bit_operations_syntax

type_synonym xtime = u64

definition KVPSYNC_MAX_LEN :: nat where
  "KVPSYNC_MAX_LEN = 255"

datatype kvp_update_type =
    KVP_UPDATE_EMPTY | KVP_UPDATE_FLUSH | KVP_UPDATE_START | KVP_UPDATE_INSERT | KVP_UPDATE_DELETE
  | KVP_UPDATE_UNKNOWN byte

definition type_of_byte :: "byte \<Rightarrow> kvp_update_type" where
  "type_of_byte b =
     (if b = 0 then KVP_UPDATE_EMPTY else if b = 1 then KVP_UPDATE_FLUSH else if b = 2 then KVP_UPDATE_START
      else if b = 3 then KVP_UPDATE_INSERT else if b = 4 then KVP_UPDATE_DELETE else KVP_UPDATE_UNKNOWN b)"

fun byte_of_type :: "kvp_update_type \<Rightarrow> byte" where
  "byte_of_type KVP_UPDATE_EMPTY = 0"
| "byte_of_type KVP_UPDATE_FLUSH = 1"
| "byte_of_type KVP_UPDATE_START = 2"
| "byte_of_type KVP_UPDATE_INSERT = 3"
| "byte_of_type KVP_UPDATE_DELETE = 4"
| "byte_of_type (KVP_UPDATE_UNKNOWN b) = b"

record kvp_update =
  ok_expiry :: xtime
  sync_id :: u32
  update_id :: u32
  utype :: kvp_update_type
  resync_id :: u32
  klen :: byte
  key :: "byte list"
  delete_id :: u32
  vlen :: byte
  val :: "byte list"

record kvp_ack =
  ack_sync_id :: u32
  ack_update_id :: u32

definition zero_update :: kvp_update where
  "zero_update = \<lparr>ok_expiry = 0, sync_id = 0, update_id = 0, utype = KVP_UPDATE_EMPTY, resync_id = 0,
     klen = 0, key = replicate KVPSYNC_MAX_LEN 0, delete_id = 0, vlen = 0, val = replicate KVPSYNC_MAX_LEN 0\<rparr>"

definition zero_ack :: kvp_ack where
  "zero_ack = \<lparr>ack_sync_id = 0, ack_update_id = 0\<rparr>"

section \<open>Big-endian integers\<close>

text \<open>A reader takes and returns the position and the \<open>ok\<close> flag.\<close>

definition be_fold :: "byte list \<Rightarrow> 'a::len word" where
  "be_fold bs = foldl (\<lambda>u b. push_bit 8 u OR ucast b) 0 bs"

definition read_uint64 :: "byte list \<Rightarrow> nat \<times> bool \<Rightarrow> u64 \<times> nat \<times> bool" where
  "read_uint64 rbuf st = (case st of (pos, ok) \<Rightarrow>
     if \<not> ok then (0, pos, False)
     else if pos + 8 > length rbuf then (0, pos, False)
     else (be_fold (take 8 (drop pos rbuf)), pos + 8, True))"

definition read_uint32 :: "byte list \<Rightarrow> nat \<times> bool \<Rightarrow> u32 \<times> nat \<times> bool" where
  "read_uint32 rbuf st = (case st of (pos, ok) \<Rightarrow>
     if \<not> ok then (0, pos, False)
     else if pos + 4 > length rbuf then (0, pos, False)
     else (be_fold (take 4 (drop pos rbuf)), pos + 4, True))"

definition read_uint8 :: "byte list \<Rightarrow> nat \<times> bool \<Rightarrow> byte \<times> nat \<times> bool" where
  "read_uint8 rbuf st = (case st of (pos, ok) \<Rightarrow>
     if \<not> ok then (0, pos, False)
     else if pos + 1 > length rbuf then (0, pos, False)
     else (rbuf ! pos, pos + 1, True))"

definition be64 :: "u64 \<Rightarrow> byte list" where
  "be64 u = [ucast (drop_bit 56 u AND 0xFF), ucast (drop_bit 48 u AND 0xFF), ucast (drop_bit 40 u AND 0xFF),
     ucast (drop_bit 32 u AND 0xFF), ucast (drop_bit 24 u AND 0xFF), ucast (drop_bit 16 u AND 0xFF),
     ucast (drop_bit 8 u AND 0xFF), ucast (drop_bit 0 u AND 0xFF)]"

definition be32 :: "u32 \<Rightarrow> byte list" where
  "be32 u = [ucast (drop_bit 24 u AND 0xFF), ucast (drop_bit 16 u AND 0xFF), ucast (drop_bit 8 u AND 0xFF),
     ucast (drop_bit 0 u AND 0xFF)]"

text \<open>Grow the buffer, then store the bytes at its end.\<close>

definition grow_and_store :: "allocator \<Rightarrow> byte list \<Rightarrow> dstr \<Rightarrow> derr_type \<times> dstr" where
  "grow_and_store A bs out =
     ifok (dstr_grow A out (dlen out + length bs)) (\<lambda>out. (E_NONE, out\<lparr>ddata := ddata out @ bs\<rparr>)) id"

definition write_uint64 :: "allocator \<Rightarrow> u64 \<Rightarrow> dstr \<Rightarrow> derr_type \<times> dstr" where
  "write_uint64 A u out = grow_and_store A (be64 u) out"

definition write_uint32 :: "allocator \<Rightarrow> u32 \<Rightarrow> dstr \<Rightarrow> derr_type \<times> dstr" where
  "write_uint32 A u out = grow_and_store A (be32 u) out"

definition write_uint8 :: "allocator \<Rightarrow> byte \<Rightarrow> dstr \<Rightarrow> derr_type \<times> dstr" where
  "write_uint8 A u out = grow_and_store A [u] out"

section \<open>Packets\<close>

text \<open>\<open>memcpy\<close> of \<open>n\<close> bytes to the front of an array.\<close>

definition copy_into :: "byte list \<Rightarrow> byte list \<Rightarrow> byte list" where
  "copy_into bs arr = bs @ drop (length bs) arr"

text \<open>The key of an insertion or deletion, then what follows it.\<close>

definition read_rest :: "byte list \<Rightarrow> nat \<Rightarrow> kvp_update \<Rightarrow> bool \<times> kvp_update" where
  "read_rest rbuf pos u =
     (let (n, pos, ok) = read_uint8 rbuf (pos, True); u = u\<lparr>klen := n\<rparr> in
      if \<not> ok then (False, u)
      else if pos + unat n > length rbuf then (False, u)
      else let u = u\<lparr>key := copy_into (take (unat n) (drop pos rbuf)) (key u)\<rparr>; pos = pos + unat n in
        if utype u = KVP_UPDATE_DELETE
        then (let (d, pos, ok) = read_uint32 rbuf (pos, True) in (ok, u\<lparr>delete_id := d\<rparr>))
        else let (n, pos, ok) = read_uint8 rbuf (pos, True); u = u\<lparr>vlen := n\<rparr> in
          if \<not> ok then (False, u)
          else if pos + unat n > length rbuf then (False, u)
          else (True, u\<lparr>val := copy_into (take (unat n) (drop pos rbuf)) (val u)\<rparr>))"

definition kvpsync_update_read :: "byte list \<Rightarrow> bool \<times> kvp_update" where
  "kvpsync_update_read rbuf =
     (let (e, pos, ok) = read_uint64 rbuf (0, True);
          (s, pos, ok) = read_uint32 rbuf (pos, ok);
          (i, pos, ok) = read_uint32 rbuf (pos, ok);
          (t, pos, ok) = read_uint8 rbuf (pos, ok);
          u = zero_update\<lparr>ok_expiry := e, sync_id := s, update_id := i, utype := type_of_byte t\<rparr>
      in if \<not> ok then (False, u)
         else case utype u of
           KVP_UPDATE_EMPTY \<Rightarrow> (True, u)
         | KVP_UPDATE_FLUSH \<Rightarrow> (True, u)
         | KVP_UPDATE_START \<Rightarrow>
             if update_id u \<noteq> 1 then (False, u)
             else (let (r, pos, ok) = read_uint32 rbuf (pos, ok) in (ok, u\<lparr>resync_id := r\<rparr>))
         | KVP_UPDATE_INSERT \<Rightarrow> read_rest rbuf pos u
         | KVP_UPDATE_DELETE \<Rightarrow> read_rest rbuf pos u
         | KVP_UPDATE_UNKNOWN _ \<Rightarrow> (False, u))"

definition write_rest :: "allocator \<Rightarrow> kvp_update \<Rightarrow> dstr \<Rightarrow> derr_type \<times> dstr" where
  "write_rest A u out =
     ifok (write_uint8 A (klen u) out) (\<lambda>out.
     ifok (grow_and_store A (take (unat (klen u)) (key u)) out) (\<lambda>out.
       if utype u = KVP_UPDATE_DELETE then write_uint32 A (delete_id u) out
       else
         ifok (write_uint8 A (vlen u) out) (\<lambda>out.
         grow_and_store A (take (unat (vlen u)) (val u)) out) id) id) id"

definition kvpsync_update_write :: "allocator \<Rightarrow> kvp_update \<Rightarrow> dstr \<Rightarrow> derr_type \<times> dstr" where
  "kvpsync_update_write A u out =
     ifok (write_uint64 A (ok_expiry u) out) (\<lambda>out.
     ifok (write_uint32 A (sync_id u) out) (\<lambda>out.
     ifok (write_uint32 A (update_id u) out) (\<lambda>out.
     ifok (write_uint8 A (byte_of_type (utype u)) out) (\<lambda>out.
       case utype u of
         KVP_UPDATE_EMPTY \<Rightarrow> (E_NONE, out)
       | KVP_UPDATE_FLUSH \<Rightarrow> (E_NONE, out)
       | KVP_UPDATE_START \<Rightarrow>
           if update_id u \<noteq> 1 then (E_INTERNAL, out) else write_uint32 A (resync_id u) out
       | KVP_UPDATE_INSERT \<Rightarrow> write_rest A u out
       | KVP_UPDATE_DELETE \<Rightarrow> write_rest A u out
       | KVP_UPDATE_UNKNOWN _ \<Rightarrow> (E_INTERNAL, out)) id) id) id) id"

definition kvpsync_ack_read :: "byte list \<Rightarrow> bool \<times> kvp_ack" where
  "kvpsync_ack_read rbuf =
     (let (s, pos, ok) = read_uint32 rbuf (0, True);
          (i, pos, ok) = read_uint32 rbuf (pos, ok)
      in (ok, \<lparr>ack_sync_id = s, ack_update_id = i\<rparr>))"

definition kvpsync_ack_write :: "allocator \<Rightarrow> kvp_ack \<Rightarrow> dstr \<Rightarrow> derr_type \<times> dstr" where
  "kvpsync_ack_write A ack out =
     ifok (write_uint32 A (ack_sync_id ack) out) (\<lambda>out. write_uint32 A (ack_update_id ack) out) id"

definition kvp_update_type_name :: "kvp_update_type \<Rightarrow> string" where
  "kvp_update_type_name t = (case t of
       KVP_UPDATE_EMPTY \<Rightarrow> ''KVP_UPDATE_EMPTY''
     | KVP_UPDATE_FLUSH \<Rightarrow> ''KVP_UPDATE_FLUSH''
     | KVP_UPDATE_START \<Rightarrow> ''KVP_UPDATE_START''
     | KVP_UPDATE_INSERT \<Rightarrow> ''KVP_UPDATE_INSERT''
     | KVP_UPDATE_DELETE \<Rightarrow> ''KVP_UPDATE_DELETE''
     | KVP_UPDATE_UNKNOWN _ \<Rightarrow> ''unknown'')"

section \<open>Integers survive\<close>

lemma be_step:
  "push_bit 8 (drop_bit (k + 8) u) OR ucast (ucast (drop_bit k u AND 0xFF) :: byte) = drop_bit k (u :: u64)"
  "push_bit 8 (drop_bit (k + 8) v) OR ucast (ucast (drop_bit k v AND 0xFF) :: byte) = drop_bit k (v :: u32)"
proof -
  have m: "(0xFF :: u64) = mask 8" "(0xFF :: u32) = mask 8" by (simp_all add: mask_eq_exp_minus_1)
  have i: "\<not> n < 8 \<Longrightarrow> k + 8 + (n - 8) = k + n" for n by simp
  show "push_bit 8 (drop_bit (k + 8) u) OR ucast (ucast (drop_bit k u AND 0xFF) :: byte) = drop_bit k (u :: u64)"
  proof (unfold m, rule bit_word_eqI)
    fix n assume "n < LENGTH(64)"
    then show "bit (push_bit 8 (drop_bit (k + 8) u) OR ucast (ucast (drop_bit k u AND mask 8) :: byte)) n = bit (drop_bit k u) n"
      using i [of n] by (cases "n < 8") (auto simp: bit_simps)
  qed
  show "push_bit 8 (drop_bit (k + 8) v) OR ucast (ucast (drop_bit k v AND 0xFF) :: byte) = drop_bit k (v :: u32)"
  proof (unfold m, rule bit_word_eqI)
    fix n assume "n < LENGTH(32)"
    then show "bit (push_bit 8 (drop_bit (k + 8) v) OR ucast (ucast (drop_bit k v AND mask 8) :: byte)) n = bit (drop_bit k v) n"
      using i [of n] by (cases "n < 8") (auto simp: bit_simps)
  qed
qed

lemma be_fold_be64: "be_fold (be64 u) = u"
proof -
  have z: "drop_bit 64 u = 0" by (rule bit_word_eqI) (simp add: bit_simps)
  show ?thesis
    using be_step(1) [of 56 u] be_step(1) [of 48 u] be_step(1) [of 40 u] be_step(1) [of 32 u] be_step(1) [of 24 u]
      be_step(1) [of 16 u] be_step(1) [of 8 u] be_step(1) [of 0 u] z
    by (simp add: be_fold_def be64_def)
qed

lemma be_fold_be32: "be_fold (be32 u) = u"
proof -
  have z: "drop_bit 32 u = 0" by (rule bit_word_eqI) (simp add: bit_simps)
  show ?thesis
    using be_step(2) [of 24 u] be_step(2) [of 16 u] be_step(2) [of 8 u] be_step(2) [of 0 u] z
    by (simp add: be_fold_def be32_def)
qed

section \<open>Writing appends the packet's bytes\<close>

lemma grow_and_store_append: "grow_and_store A bs out = dstr_append_quiet A out bs"
  by (simp add: grow_and_store_def dstr_grow_def dstr_append_quiet_def do_dstr_append_def dstr_grow_quiet_def)

lemma grow_and_store_eta: "grow_and_store A bs = (\<lambda>out. dstr_append_quiet A out bs)"
  by (simp add: fun_eq_iff grow_and_store_append)

text \<open>The pieces a packet is written in, and whether the writer accepts it.\<close>

definition rest_pieces :: "kvp_update \<Rightarrow> byte list list" where
  "rest_pieces u = [[klen u], take (unat (klen u)) (key u)] @
     (if utype u = KVP_UPDATE_DELETE then [be32 (delete_id u)] else [[vlen u], take (unat (vlen u)) (val u)])"

definition update_pieces :: "kvp_update \<Rightarrow> byte list list" where
  "update_pieces u = [be64 (ok_expiry u), be32 (sync_id u), be32 (update_id u), [byte_of_type (utype u)]] @
     (case utype u of
        KVP_UPDATE_START \<Rightarrow> if update_id u \<noteq> 1 then [] else [be32 (resync_id u)]
      | KVP_UPDATE_INSERT \<Rightarrow> rest_pieces u | KVP_UPDATE_DELETE \<Rightarrow> rest_pieces u | _ \<Rightarrow> [])"

definition writable :: "kvp_update \<Rightarrow> bool" where
  "writable u \<longleftrightarrow> (case utype u of KVP_UPDATE_START \<Rightarrow> update_id u = 1 | KVP_UPDATE_UNKNOWN _ \<Rightarrow> False | _ \<Rightarrow> True)"

abbreviation wire :: "kvp_update \<Rightarrow> byte list" where
  "wire u \<equiv> concat (update_pieces u)"

lemma ifok_ifok: "ifok (ifok r k id) l id = ifok r (\<lambda>s. ifok (k s) l id) id"
  by (auto simp: ifok_def split: prod.split)

lemma kvpsync_update_write_pieces:
  "kvpsync_update_write A u out =
     ifok (put_all (dstr_append_quiet A) out (update_pieces u)) (\<lambda>out. (if writable u then E_NONE else E_INTERNAL, out)) id"
  by (cases "utype u")
    (simp_all add: kvpsync_update_write_def write_rest_def update_pieces_def rest_pieces_def writable_def
      write_uint64_def write_uint32_def write_uint8_def grow_and_store_eta ifok_ifok ifok_id)

section \<open>Reading\<close>

text \<open>The unused fields of a packet are zero in what the reader returns.\<close>

definition array_of :: "byte list \<Rightarrow> byte \<Rightarrow> byte list" where
  "array_of a n = copy_into (take (unat n) a) (replicate KVPSYNC_MAX_LEN 0)"

definition normal :: "kvp_update \<Rightarrow> kvp_update" where
  "normal u = (let v = zero_update\<lparr>ok_expiry := ok_expiry u, sync_id := sync_id u, update_id := update_id u, utype := utype u\<rparr>;
       w = v\<lparr>klen := klen u, key := array_of (key u) (klen u)\<rparr> in
     case utype u of
       KVP_UPDATE_START \<Rightarrow> v\<lparr>resync_id := resync_id u\<rparr>
     | KVP_UPDATE_INSERT \<Rightarrow> w\<lparr>vlen := vlen u, val := array_of (val u) (vlen u)\<rparr>
     | KVP_UPDATE_DELETE \<Rightarrow> w\<lparr>delete_id := delete_id u\<rparr>
     | _ \<Rightarrow> v)"

lemma length_be [simp]: "length (be64 u) = 8" "length (be32 v) = 4"
  by (simp_all add: be64_def be32_def)

lemma read_uint64_at: "length pre = n \<Longrightarrow> read_uint64 (pre @ be64 u @ post) (n, True) = (u, n + 8, True)"
  by (simp add: read_uint64_def be_fold_be64)

lemma read_uint32_at: "length pre = n \<Longrightarrow> read_uint32 (pre @ be32 u @ post) (n, True) = (u, n + 4, True)"
  by (simp add: read_uint32_def be_fold_be32)

lemma read_uint8_at: "length pre = n \<Longrightarrow> read_uint8 (pre @ [b] @ post) (n, True) = (b, n + 1, True)"
  by (auto simp: read_uint8_def nth_append)

lemma type_of_byte_simps:
  "type_of_byte 0 = KVP_UPDATE_EMPTY" "type_of_byte 1 = KVP_UPDATE_FLUSH" "type_of_byte 2 = KVP_UPDATE_START"
  "type_of_byte 3 = KVP_UPDATE_INSERT" "type_of_byte 4 = KVP_UPDATE_DELETE"
  by (simp_all add: type_of_byte_def)

lemma read_rest_at:
  assumes n: "n = length pre" and arr: "length (key u) = 255" "length (val u) = 255"
    and z: "key v = replicate KVPSYNC_MAX_LEN 0" "val v = replicate KVPSYNC_MAX_LEN 0" "utype v = utype u"
  shows "read_rest (pre @ concat (rest_pieces u) @ post) n v =
    (True, let w = v\<lparr>klen := klen u, key := array_of (key u) (klen u)\<rparr> in
      if utype u = KVP_UPDATE_DELETE then w\<lparr>delete_id := delete_id u\<rparr> else w\<lparr>vlen := vlen u, val := array_of (val u) (vlen u)\<rparr>)"
proof -
  define k where "k = take (unat (klen u)) (key u)"
  define x where "x = take (unat (vlen u)) (val u)"
  have le: "unat (klen u) \<le> 255" "unat (vlen u) \<le> 255" using byte_unat_less [of "klen u"] byte_unat_less [of "vlen u"] by linarith+
  then have lk: "length k = unat (klen u)" "length x = unat (vlen u)" using arr by (simp_all add: k_def x_def)
  let ?tail = "if utype u = KVP_UPDATE_DELETE then be32 (delete_id u) else [vlen u] @ x"
  let ?buf = "pre @ [klen u] @ k @ ?tail @ post"
  have buf: "pre @ concat (rest_pieces u) @ post = ?buf" by (simp add: rest_pieces_def k_def x_def)
  have r1: "read_uint8 ?buf (n, True) = (klen u, n + 1, True)" using read_uint8_at [of pre n] n by simp
  have fits: "\<not> n + 1 + unat (klen u) > length ?buf" using n lk by simp
  have kk: "take (unat (klen u)) (drop (n + 1) ?buf) = k" using n lk(1) by simp
  show ?thesis
  proof (cases "utype u = KVP_UPDATE_DELETE")
    case True
    have "read_uint32 ((pre @ [klen u] @ k) @ be32 (delete_id u) @ post) (n + 1 + unat (klen u), True) =
        (delete_id u, n + 1 + unat (klen u) + 4, True)" using n lk by (intro read_uint32_at) simp
    then have r2: "read_uint32 ?buf (n + 1 + unat (klen u), True) = (delete_id u, n + 1 + unat (klen u) + 4, True)" using True by simp
    show ?thesis unfolding buf read_rest_def r1 using fits kk r2 True z
      by (simp add: Let_def array_of_def k_def)
  next
    case False
    have "read_uint8 ((pre @ [klen u] @ k) @ [vlen u] @ (x @ post)) (n + 1 + unat (klen u), True) =
        (vlen u, n + 1 + unat (klen u) + 1, True)" using n lk by (intro read_uint8_at) simp
    then have r2: "read_uint8 ?buf (n + 1 + unat (klen u), True) = (vlen u, n + 1 + unat (klen u) + 1, True)" using False by simp
    have fits2: "\<not> n + 1 + unat (klen u) + 1 + unat (vlen u) > length ?buf" using n lk False by simp
    have xx: "take (unat (vlen u)) (drop (n + 1 + unat (klen u) + 1) ?buf) = x" using n lk False by simp
    show ?thesis unfolding buf read_rest_def r1 using fits kk r2 fits2 xx False z
      by (simp add: Let_def array_of_def k_def x_def)
  qed
qed

definition header_bytes :: "kvp_update \<Rightarrow> byte list" where
  "header_bytes u = be64 (ok_expiry u) @ be32 (sync_id u) @ be32 (update_id u) @ [byte_of_type (utype u)]"

lemma length_header [simp]: "length (header_bytes u) = 17"
  by (simp add: header_bytes_def)

lemma read_header:
  fixes u post
  defines "buf \<equiv> header_bytes u @ post"
  shows "read_uint64 buf (0, True) = (ok_expiry u, 8, True)" "read_uint32 buf (8, True) = (sync_id u, 12, True)"
    "read_uint32 buf (12, True) = (update_id u, 16, True)" "read_uint8 buf (16, True) = (byte_of_type (utype u), 17, True)"
proof -
  show "read_uint64 buf (0, True) = (ok_expiry u, 8, True)"
    using read_uint64_at [of "[]" 0] by (simp add: buf_def header_bytes_def)
  show "read_uint32 buf (8, True) = (sync_id u, 12, True)"
    using read_uint32_at [of "be64 (ok_expiry u)" 8] by (simp add: buf_def header_bytes_def)
  show "read_uint32 buf (12, True) = (update_id u, 16, True)"
    using read_uint32_at [of "be64 (ok_expiry u) @ be32 (sync_id u)" 12] by (simp add: buf_def header_bytes_def)
  show "read_uint8 buf (16, True) = (byte_of_type (utype u), 17, True)"
    using read_uint8_at [of "be64 (ok_expiry u) @ be32 (sync_id u) @ be32 (update_id u)" 16] by (simp add: buf_def header_bytes_def)
qed

lemma read_wire:
  assumes "writable u" "length (key u) = 255" "length (val u) = 255"
  shows "kvpsync_update_read (wire u @ junk) = (True, normal u)"
proof -
  let ?z = "zero_update\<lparr>ok_expiry := ok_expiry u, sync_id := sync_id u, update_id := update_id u, utype := utype u\<rparr>"
  note t = type_of_byte_simps
  have z: "key ?z = replicate KVPSYNC_MAX_LEN 0" "val ?z = replicate KVPSYNC_MAX_LEN 0" "utype ?z = utype u"
    by (simp_all add: zero_update_def)
  note rest = read_rest_at [OF _ assms(2,3) z, of 17 "header_bytes u" junk]
  show ?thesis
  proof (cases "utype u")
    case KVP_UPDATE_START
    then have w: "wire u @ junk = header_bytes u @ be32 (resync_id u) @ junk" "update_id u = 1"
      using assms(1) by (simp_all add: update_pieces_def header_bytes_def writable_def)
    have "read_uint32 (header_bytes u @ be32 (resync_id u) @ junk) (17, True) = (resync_id u, 21, True)"
      using read_uint32_at [of "header_bytes u" 17 "resync_id u" junk] by simp
    with KVP_UPDATE_START w show ?thesis
      by (simp add: kvpsync_update_read_def read_header t normal_def Let_def)
  next
    case KVP_UPDATE_INSERT
    then have w: "wire u @ junk = header_bytes u @ concat (rest_pieces u) @ junk"
      by (simp add: update_pieces_def header_bytes_def)
    show ?thesis unfolding w using KVP_UPDATE_INSERT rest
      by (simp add: kvpsync_update_read_def read_header t normal_def Let_def)
  next
    case KVP_UPDATE_DELETE
    then have w: "wire u @ junk = header_bytes u @ concat (rest_pieces u) @ junk"
      by (simp add: update_pieces_def header_bytes_def)
    show ?thesis unfolding w using KVP_UPDATE_DELETE rest
      by (simp add: kvpsync_update_read_def read_header t normal_def Let_def)
  next
    case KVP_UPDATE_EMPTY
    then have w: "wire u @ junk = header_bytes u @ junk" by (simp add: update_pieces_def header_bytes_def)
    show ?thesis unfolding w using KVP_UPDATE_EMPTY
      by (simp add: kvpsync_update_read_def read_header t normal_def Let_def)
  next
    case KVP_UPDATE_FLUSH
    then have w: "wire u @ junk = header_bytes u @ junk" by (simp add: update_pieces_def header_bytes_def)
    show ?thesis unfolding w using KVP_UPDATE_FLUSH
      by (simp add: kvpsync_update_read_def read_header t normal_def Let_def)
  next
    case (KVP_UPDATE_UNKNOWN b)
    then show ?thesis using assms(1) by (simp add: writable_def)
  qed
qed

lemma length_wire: "length (wire u) \<le> 529"
proof -
  have "unat (klen u) \<le> 255" "unat (vlen u) \<le> 255" using byte_unat_less [of "klen u"] byte_unat_less [of "vlen u"] by linarith+
  then show ?thesis by (cases "utype u") (simp_all add: update_pieces_def rest_pieces_def)
qed

section \<open>Properties\<close>

text \<open>
  C40. What the sender writes is what the receiver reads: on a buffer in order the writer appends
  exactly the packet's bytes or reports an error; a packet is at most 529 bytes, so a buffer with
  that much room takes it, unless it is a malformed one (an unknown type, or a start packet whose
  \<open>update_id\<close> is not 1), which is refused with \<open>E_INTERNAL\<close>.  Reading the bytes, with anything
  behind them, gives the packet back with its unused fields zeroed, and acknowledgements likewise.
\<close>

theorem kvp_packet_roundtrip:
  assumes "dstr_ok out" "length (key u) = 255" "length (val u) = 255"
  shows "(kvpsync_update_write A u out = (E_NONE, out') \<longrightarrow>
      ddata out' = ddata out @ wire u \<and> kvpsync_update_read (wire u @ junk) = (True, normal u)) \<and>
    (dlen out + 529 \<le> dsize out \<longrightarrow> fst (kvpsync_update_write A u out) = (if writable u then E_NONE else E_INTERNAL)) \<and>
    (kvpsync_ack_write A ack out = (E_NONE, out') \<longrightarrow>
      (\<exists>bs. ddata out' = ddata out @ bs \<and> length bs = 8 \<and> kvpsync_ack_read (bs @ junk) = (True, ack)))"
proof (intro conjI impI)
  assume w: "kvpsync_update_write A u out = (E_NONE, out')"
  then have p: "put_all (dstr_append_quiet A) out (update_pieces u) = (E_NONE, out')" and wr: "writable u"
    unfolding kvpsync_update_write_pieces by (auto split: if_splits)
  show "ddata out' = ddata out @ wire u" using dstr_sink.put_all_none [OF assms(1) p] by simp
  show "kvpsync_update_read (wire u @ junk) = (True, normal u)" by (rule read_wire [OF wr assms(2,3)])
next
  assume "dlen out + 529 \<le> dsize out"
  then have "dlen out + length (wire u) \<le> dsize out" using length_wire [of u] by linarith
  from put_all_fits [OF this, of A] show "fst (kvpsync_update_write A u out) = (if writable u then E_NONE else E_INTERNAL)"
    unfolding kvpsync_update_write_pieces by simp
next
  let ?bs = "be32 (ack_sync_id ack) @ be32 (ack_update_id ack)"
  assume "kvpsync_ack_write A ack out = (E_NONE, out')"
  then have "put_all (dstr_append_quiet A) out [be32 (ack_sync_id ack), be32 (ack_update_id ack)] = (E_NONE, out')"
    by (simp add: kvpsync_ack_write_def write_uint32_def grow_and_store_eta ifok_id)
  from dstr_sink.put_all_none [OF assms(1) this] have "ddata out' = ddata out @ ?bs" by simp
  moreover have "read_uint32 (?bs @ junk) (0, True) = (ack_sync_id ack, 4, True)"
    using read_uint32_at [of "[]" 0 "ack_sync_id ack" "be32 (ack_update_id ack) @ junk"] by simp
  moreover have "read_uint32 (?bs @ junk) (4, True) = (ack_update_id ack, 8, True)"
    using read_uint32_at [of "be32 (ack_sync_id ack)" 4 "ack_update_id ack" junk] by simp
  ultimately show "\<exists>bs. ddata out' = ddata out @ bs \<and> length bs = 8 \<and> kvpsync_ack_read (bs @ junk) = (True, ack)"
    by (intro exI [of _ ?bs]) (simp add: kvpsync_ack_read_def)
qed

definition demo_insert :: kvp_update where
  "demo_insert = zero_update\<lparr>ok_expiry := 9, sync_id := 1, update_id := 3, utype := KVP_UPDATE_INSERT, klen := 1,
     key := 97 # replicate 254 0, vlen := 2, val := 98 # 99 # replicate 253 0\<rparr>"

theorem kvp_packet_roundtrip_witness:
  "\<exists>out'. kvpsync_update_write alloc_ok demo_insert (dstr_var 600) = (E_NONE, out') \<and> ddata out' = wire demo_insert \<and>
     kvpsync_update_read (wire demo_insert @ [1, 2]) = (True, normal demo_insert)"
proof -
  have l: "length (key demo_insert) = 255" "length (val demo_insert) = 255" by (simp_all add: demo_insert_def)
  note r = kvp_packet_roundtrip [OF dstr_ok_var [of 600] l, of alloc_ok]
  have "fst (kvpsync_update_write alloc_ok demo_insert (dstr_var 600)) = E_NONE"
    using r [of _ "[]" zero_ack] by (simp add: dstr_var_def demo_insert_def writable_def)
  then obtain out' where o: "kvpsync_update_write alloc_ok demo_insert (dstr_var 600) = (E_NONE, out')"
    by (cases "kvpsync_update_write alloc_ok demo_insert (dstr_var 600)") simp
  with r [of out' "[1, 2]" zero_ack] show ?thesis by (simp add: dstr_var_def)
qed

end
