(* ===== verification/Kvp_Recv.thy ===== *)
theory Kvp_Recv
  imports Hashmap Kvp_Pkts
begin

text \<open>
  The receiving side of the key-value synchronisation protocol (\<open>src/server/libkvpsync/recv.c\<close>),
  which must cope with update packets that arrive late, twice or out of order.

  The structures the code allocates live in a store: \<open>r_mem\<close> maps the address of a \<open>recv_data_t\<close> to
  its key and the list of its \<open>recv_datum_t\<close>, each datum with its own address and the address of
  the data it belongs to.  The hash table holds addresses of data, and the garbage list the pairs of
  data and datum address.  \<open>None\<close> stands for an abort (\<open>LOG_FATAL\<close>) or for an access to memory that
  was freed.
\<close>

section \<open>State\<close>

record recv_datum =
  d_id :: nat
  d_data :: nat
  d_sync_id :: u32
  d_update_id :: u32
  d_delete_id :: u32
  d_val :: "byte list"
  d_gc_time :: xtime

record recv_data =
  rd_key :: "byte list"
  rd_list :: "recv_datum list"

record kvpsync_recv =
  r_h :: "nat hashmap"
  r_recv_id :: u32
  r_sync_id :: u32
  r_initial_sync_acked :: bool
  r_ok_expiry :: xtime
  r_gc :: "(nat \<times> nat) list"
  r_mem :: "nat \<rightharpoonup> recv_data"
  r_brk :: nat

definition GC_DELAY :: xtime where
  "GC_DELAY = 255"

definition sizeof_recv_datum :: nat where
  "sizeof_recv_datum = 352"

definition sizeof_recv_data :: nat where
  "sizeof_recv_data = 328"

section \<open>Allocation\<close>

definition recv_datum_new ::
  "allocator \<Rightarrow> nat \<Rightarrow> nat \<Rightarrow> u32 \<Rightarrow> u32 \<Rightarrow> u32 \<Rightarrow> byte list \<Rightarrow> derr_type \<times> recv_datum option" where
  "recv_datum_new A addr data sid uid did v =
     (if length v > KVPSYNC_MAX_LEN then (E_INTERNAL, None)
      else if \<not> A sizeof_recv_datum then (E_NOMEM, None)
      else case dstr_append A (dstr_var KVPSYNC_MAX_LEN) v of (e, d) \<Rightarrow>
        if e \<noteq> E_NONE then (e, None)
        else (E_NONE, Some \<lparr>d_id = addr, d_data = data, d_sync_id = sid, d_update_id = uid, d_delete_id = did,
                            d_val = ddata d, d_gc_time = 0\<rparr>))"

definition recv_data_new :: "allocator \<Rightarrow> byte list \<Rightarrow> derr_type \<times> recv_data option" where
  "recv_data_new A k =
     (if length k > KVPSYNC_MAX_LEN then (E_INTERNAL, None)
      else if \<not> A sizeof_recv_data then (E_NOMEM, None)
      else case dstr_append A (dstr_var KVPSYNC_MAX_LEN) k of (e, d) \<Rightarrow>
        if e \<noteq> E_NONE then (e, None) else (E_NONE, Some \<lparr>rd_key = ddata d, rd_list = []\<rparr>))"

definition set_list :: "nat \<Rightarrow> recv_datum list \<Rightarrow> kvpsync_recv \<Rightarrow> kvpsync_recv" where
  "set_list a xs r = (case r_mem r a of None \<Rightarrow> r | Some data \<Rightarrow> r\<lparr>r_mem := (r_mem r)(a \<mapsto> data\<lparr>rd_list := xs\<rparr>)\<rparr>)"

text \<open>Returns whether the data still exists.\<close>

definition data_remove_datum :: "kvpsync_recv \<Rightarrow> nat \<Rightarrow> nat \<Rightarrow> (bool \<times> kvpsync_recv) option" where
  "data_remove_datum r a d =
     (case r_mem r a of
        None \<Rightarrow> None
      | Some data \<Rightarrow>
          let xs = filter (\<lambda>x. d_id x \<noteq> d) (rd_list data);
              r = r\<lparr>r_gc := filter (\<lambda>p. p \<noteq> (a, d)) (r_gc r)\<rparr>
          in if xs \<noteq> [] then Some (True, set_list a xs r)
             else map_option (\<lambda>h. (False, r\<lparr>r_h := h, r_mem := (r_mem r)(a := None)\<rparr>)) (hash_elem_remove (r_h r) a))"

definition link_gc :: "nat \<Rightarrow> nat \<Rightarrow> kvpsync_recv \<Rightarrow> kvpsync_recv option" where
  "link_gc a d r = (if (a, d) \<in> set (r_gc r) then None else Some (r\<lparr>r_gc := r_gc r @ [(a, d)]\<rparr>))"

text \<open>The numbers read from the operating system until one is not zero.\<close>

fun nonzero_id :: "u32 list \<Rightarrow> u32 option" where
  "nonzero_id [] = None"
| "nonzero_id (x # xs) = (if x = 0 then nonzero_id xs else Some x)"

definition kvpsync_recv_init :: "allocator \<Rightarrow> u32 list \<Rightarrow> (derr_type \<times> kvpsync_recv option) option" where
  "kvpsync_recv_init A rnd =
     (case nonzero_id rnd of
        None \<Rightarrow> None
      | Some i \<Rightarrow> Some (case hashmap_init A of
          (e, None) \<Rightarrow> (e, None)
        | (e, Some h) \<Rightarrow> (e, Some \<lparr>r_h = h, r_recv_id = i, r_sync_id = 0, r_initial_sync_acked = False,
                                     r_ok_expiry = 0, r_gc = [], r_mem = Map.empty, r_brk = 0\<rparr>)))"

section \<open>Walking over all data\<close>

fun datums_loop :: "(kvpsync_recv \<Rightarrow> recv_datum \<Rightarrow> bool) \<Rightarrow> nat \<Rightarrow> recv_datum list \<Rightarrow> kvpsync_recv \<Rightarrow> kvpsync_recv option" where
  "datums_loop should_free a [] r = Some r"
| "datums_loop should_free a (x # xs) r =
     (if \<not> should_free r x then datums_loop should_free a xs r
      else case data_remove_datum r a (d_id x) of
        None \<Rightarrow> None
      | Some (data_ok, r') \<Rightarrow> if data_ok then datums_loop should_free a xs r' else Some r')"

definition visit_data :: "(kvpsync_recv \<Rightarrow> recv_datum \<Rightarrow> bool) \<Rightarrow> nat \<Rightarrow> kvpsync_recv \<Rightarrow> kvpsync_recv option" where
  "visit_data should_free a r =
     (case r_mem r a of None \<Rightarrow> None | Some data \<Rightarrow> datums_loop should_free a (rd_list data) r)"

definition for_each_datum :: "kvpsync_recv \<Rightarrow> (kvpsync_recv \<Rightarrow> recv_datum \<Rightarrow> bool) \<Rightarrow> kvpsync_recv option" where
  "for_each_datum r should_free =
     hashmap_loop (num_elems (r_h r)) r_h (visit_data should_free) (hashmap_iter (r_h r)) r"

definition always_should_free :: "kvpsync_recv \<Rightarrow> recv_datum \<Rightarrow> bool" where
  "always_should_free r x = True"

definition flush_should_free :: "kvpsync_recv \<Rightarrow> recv_datum \<Rightarrow> bool" where
  "flush_should_free r x = (d_sync_id x \<noteq> r_sync_id r)"

definition kvpsync_recv_free :: "kvpsync_recv \<Rightarrow> kvpsync_recv option" where
  "kvpsync_recv_free r = for_each_datum r always_should_free"

definition flush_stale_data :: "kvpsync_recv \<Rightarrow> kvpsync_recv option" where
  "flush_stale_data r = for_each_datum r flush_should_free"

section \<open>Garbage collection\<close>

definition find_datum :: "kvpsync_recv \<Rightarrow> nat \<Rightarrow> nat \<Rightarrow> recv_datum option" where
  "find_datum r a d = (case r_mem r a of None \<Rightarrow> None | Some data \<Rightarrow> find (\<lambda>x. d_id x = d) (rd_list data))"

fun gc_loop :: "xtime \<Rightarrow> (nat \<times> nat) list \<Rightarrow> kvpsync_recv \<Rightarrow> kvpsync_recv option" where
  "gc_loop now [] r = Some r"
| "gc_loop now ((a, d) # ls) r =
     (case find_datum r a d of
        None \<Rightarrow> None
      | Some x \<Rightarrow>
          if now < d_gc_time x then Some r
          else case data_remove_datum r a d of None \<Rightarrow> None | Some (_, r') \<Rightarrow> gc_loop now ls r')"

definition do_gc :: "kvpsync_recv \<Rightarrow> xtime \<Rightarrow> kvpsync_recv option" where
  "do_gc r now = gc_loop now (r_gc r) r"

section \<open>Updates\<close>

text \<open>
  The loop over the data already held for the key: \<open>Inl\<close> when the function returns from inside it,
  \<open>Inr\<close> with the timer for the new datum when it runs to its end.
\<close>

fun match_loop ::
  "xtime \<Rightarrow> u32 \<Rightarrow> u32 \<Rightarrow> u32 \<Rightarrow> nat \<Rightarrow> recv_datum list \<Rightarrow> xtime \<Rightarrow> kvpsync_recv \<Rightarrow> (kvpsync_recv + xtime \<times> kvpsync_recv) option" where
  "match_loop now sid uid did a [] gct r = Some (Inr (gct, r))"
| "match_loop now sid uid did a (x # xs) gct r =
     (if d_sync_id x \<noteq> sid then match_loop now sid uid did a xs gct r
      else if d_update_id x = uid then Some (Inl r)
      else if did \<noteq> 0 \<and> d_update_id x = did then
        match_loop now sid uid did a xs (now + GC_DELAY)
          (set_list a (filter (\<lambda>y. d_id y \<noteq> d_id x) (rd_list (the (r_mem r a)))) r)
      else if did = 0 \<and> d_delete_id x = uid then
        (if d_gc_time x \<noteq> 0 then Some (Inl r)
         else map_option Inl (link_gc a (d_id x)
           (set_list a (map (\<lambda>y. if d_id y = d_id x then y\<lparr>d_gc_time := now + GC_DELAY\<rparr> else y) (rd_list (the (r_mem r a)))) r)))
      else match_loop now sid uid did a xs gct r)"

definition handle_recv_or_delete ::
  "allocator \<Rightarrow> kvpsync_recv \<Rightarrow> xtime \<Rightarrow> u32 \<Rightarrow> u32 \<Rightarrow> byte list \<Rightarrow> u32 \<Rightarrow> byte list \<Rightarrow> (derr_type \<times> kvpsync_recv) option" where
  "handle_recv_or_delete A r now sid uid k did v =
     (case hashmap_gets (r_h r) k of
        None \<Rightarrow>
          (case recv_data_new A k of
             (e, None) \<Rightarrow> Some (e, r)
           | (_, Some data) \<Rightarrow>
               (case recv_datum_new A (r_brk r + 1) (r_brk r) sid uid did v of
                  (e, None) \<Rightarrow> Some (e, r)
                | (_, Some x) \<Rightarrow>
                    map_option (\<lambda>(e, h).
                        if e \<noteq> E_NONE then (e, r\<lparr>r_h := h\<rparr>)
                        else (E_NONE, r\<lparr>r_h := h, r_mem := (r_mem r)(r_brk r \<mapsto> data\<lparr>rd_list := [x]\<rparr>), r_brk := r_brk r + 2\<rparr>))
                      (hashmap_sets_unique A (r_h r) (rd_key data) (r_brk r))))
      | Some a \<Rightarrow>
          (case r_mem r a of
             None \<Rightarrow> None
           | Some data \<Rightarrow>
               (case match_loop now sid uid did a (rd_list data) 0 r of
                  None \<Rightarrow> None
                | Some (Inl r') \<Rightarrow> Some (E_NONE, r')
                | Some (Inr (gct, r')) \<Rightarrow>
                    (case recv_datum_new A (r_brk r') a sid uid did v of
                       (e, None) \<Rightarrow> Some (e, r')
                     | (_, Some x) \<Rightarrow>
                         let r2 = set_list a (rd_list (the (r_mem r' a)) @ [if gct \<noteq> 0 then x\<lparr>d_gc_time := gct\<rparr> else x])
                                    (r'\<lparr>r_brk := r_brk r' + 1\<rparr>)
                         in map_option (Pair E_NONE) (if gct \<noteq> 0 then link_gc a (d_id x) r2 else Some r2)))))"

definition kvpsync_recv_handle_update ::
  "allocator \<Rightarrow> kvpsync_recv \<Rightarrow> xtime \<Rightarrow> kvp_update \<Rightarrow> (derr_type \<times> kvpsync_recv \<times> kvp_ack) option" where
  "kvpsync_recv_handle_update A r now u =
     (let ack = \<lparr>ack_sync_id = sync_id u, ack_update_id = update_id u\<rparr> in
      if \<not> r_initial_sync_acked r then
        (if utype u \<noteq> KVP_UPDATE_START \<or> resync_id u \<noteq> r_recv_id r
         then Some (E_NONE, r, \<lparr>ack_sync_id = r_recv_id r, ack_update_id = 0\<rparr>)
         else Some (E_NONE, r\<lparr>r_initial_sync_acked := True\<rparr>, ack))
      else case do_gc r now of
        None \<Rightarrow> None
      | Some r \<Rightarrow>
          let r = (if sync_id u = r_sync_id r then r\<lparr>r_ok_expiry := max (ok_expiry u) (r_ok_expiry r)\<rparr> else r) in
          (case utype u of
             KVP_UPDATE_EMPTY \<Rightarrow> Some (E_NONE, r, ack)
           | KVP_UPDATE_START \<Rightarrow> Some (E_NONE, r, ack)
           | KVP_UPDATE_FLUSH \<Rightarrow>
               if \<not> r_initial_sync_acked r then Some (E_NONE, r, ack)
               else map_option (\<lambda>r. (E_NONE, r, ack))
                 (flush_stale_data (r\<lparr>r_sync_id := sync_id u, r_ok_expiry := max (r_ok_expiry r) (ok_expiry u)\<rparr>))
           | KVP_UPDATE_UNKNOWN _ \<Rightarrow> None
           | _ \<Rightarrow>
               if \<not> r_initial_sync_acked r then Some (E_NONE, r, ack)
               else map_option (\<lambda>(e, r). (e, r, ack))
                 (handle_recv_or_delete A r now (sync_id u) (update_id u) (take (unat (klen u)) (key u)) (delete_id u)
                    (take (unat (vlen u)) (val u)))))"

section \<open>Answers\<close>

datatype reply = NULL | UNSURE | Answer "byte list"

fun best_loop :: "u32 \<Rightarrow> recv_datum list \<Rightarrow> byte list option \<Rightarrow> u32 \<Rightarrow> byte list option \<times> u32" where
  "best_loop sid [] ans uid = (ans, uid)"
| "best_loop sid (x # xs) ans uid =
     (if d_sync_id x \<noteq> sid then best_loop sid xs ans uid
      else if d_update_id x < uid then best_loop sid xs ans uid
      else best_loop sid xs (if d_delete_id x \<noteq> 0 then None else Some (d_val x)) (d_update_id x))"

definition kvpsync_recv_get_value :: "kvpsync_recv \<Rightarrow> xtime \<Rightarrow> byte list \<Rightarrow> (reply \<times> kvpsync_recv) option" where
  "kvpsync_recv_get_value r now k =
     (case do_gc r now of
        None \<Rightarrow> None
      | Some r \<Rightarrow>
          let negative = (if now < r_ok_expiry r then NULL else UNSURE) in
          if r_sync_id r = 0 then Some (UNSURE, r)
          else case hashmap_gets (r_h r) k of
            None \<Rightarrow> Some (negative, r)
          | Some a \<Rightarrow>
              (case r_mem r a of
                 None \<Rightarrow> None
               | Some data \<Rightarrow>
                   (case best_loop (r_sync_id r) (rd_list data) None 0 of
                      (ans, uid) \<Rightarrow>
                        if uid = 0 then Some (negative, r)
                        else case ans of None \<Rightarrow> Some (negative, r) | Some v \<Rightarrow> Some (Answer v, r))))"

section \<open>Well-formed stores\<close>

text \<open>
  The table and the store agree, no data is empty, addresses are below the break and unique in
  their list, and the garbage list links exactly the datums that have a timer.
\<close>

definition recv_ok :: "kvpsync_recv \<Rightarrow> bool" where
  "recv_ok r \<longleftrightarrow> hm_ok (r_h r) \<and>
     (\<forall>k a. hm_map (r_h r) k = Some a \<longrightarrow> (\<exists>data. r_mem r a = Some data \<and> k = Str (rd_key data))) \<and>
     (\<forall>a data. r_mem r a = Some data \<longrightarrow>
        hm_map (r_h r) (Str (rd_key data)) = Some a \<and> a < r_brk r \<and> rd_list data \<noteq> [] \<and> distinct (map d_id (rd_list data)) \<and>
        (\<forall>x \<in> set (rd_list data). d_data x = a \<and> d_id x < r_brk r \<and> ((a, d_id x) \<in> set (r_gc r) \<longleftrightarrow> d_gc_time x \<noteq> 0))) \<and>
     distinct (r_gc r) \<and>
     (\<forall>(a, d) \<in> set (r_gc r). \<exists>data. r_mem r a = Some data \<and> d \<in> d_id ` set (rd_list data))"

text \<open>What is held for a key.\<close>

definition kept :: "kvpsync_recv \<Rightarrow> byte list \<Rightarrow> recv_datum list" where
  "kept r k = (case hm_map (r_h r) (Str k) of None \<Rightarrow> [] | Some a \<Rightarrow> rd_list (the (r_mem r a)))"

text \<open>The fields no list operation touches.\<close>

definition same_head :: "kvpsync_recv \<Rightarrow> kvpsync_recv \<Rightarrow> bool" where
  "same_head r r' \<longleftrightarrow> r_recv_id r' = r_recv_id r \<and> r_sync_id r' = r_sync_id r \<and>
     r_initial_sync_acked r' = r_initial_sync_acked r \<and> r_ok_expiry r' = r_ok_expiry r"

lemma same_head_refl [simp]: "same_head r r"
  by (simp add: same_head_def)

lemma same_head_trans: "same_head r r' \<Longrightarrow> same_head r' r'' \<Longrightarrow> same_head r r''"
  by (simp add: same_head_def)

lemma recv_okD:
  assumes "recv_ok r"
  shows "hm_ok (r_h r)" "hm_map (r_h r) k = Some a \<Longrightarrow> \<exists>data. r_mem r a = Some data \<and> k = Str (rd_key data)"
    "r_mem r a = Some data \<Longrightarrow> hm_map (r_h r) (Str (rd_key data)) = Some a"
    "r_mem r a = Some data \<Longrightarrow> a < r_brk r" "r_mem r a = Some data \<Longrightarrow> rd_list data \<noteq> []"
    "r_mem r a = Some data \<Longrightarrow> distinct (map d_id (rd_list data))"
    "r_mem r a = Some data \<Longrightarrow> x \<in> set (rd_list data) \<Longrightarrow> d_data x = a \<and> d_id x < r_brk r"
    "r_mem r a = Some data \<Longrightarrow> x \<in> set (rd_list data) \<Longrightarrow> (a, d_id x) \<in> set (r_gc r) \<longleftrightarrow> d_gc_time x \<noteq> 0"
    "distinct (r_gc r)" "(a, d) \<in> set (r_gc r) \<Longrightarrow> \<exists>data. r_mem r a = Some data \<and> d \<in> d_id ` set (rd_list data)"
  using assms unfolding recv_ok_def by blast+

lemma kept_data: "recv_ok r \<Longrightarrow> r_mem r a = Some data \<Longrightarrow> kept r (rd_key data) = rd_list data"
  using recv_okD(3) by (simp add: kept_def)

lemma kept_cases:
  assumes "recv_ok r"
  obtains "hm_map (r_h r) (Str k) = None" "kept r k = []"
  | a data where "hm_map (r_h r) (Str k) = Some a" "r_mem r a = Some data" "rd_key data = k" "kept r k = rd_list data"
proof (cases "hm_map (r_h r) (Str k)")
  case None
  then show ?thesis using that(1) by (simp add: kept_def)
next
  case (Some a)
  from recv_okD(2) [OF assms Some] obtain data where "r_mem r a = Some data" "rd_key data = k" by auto
  with Some show ?thesis using that(2) by (simp add: kept_def)
qed

lemma filter_ids:
  assumes "distinct (map d_id xs)"
  shows "set (filter (\<lambda>x. d_id x \<noteq> d) xs) = {x \<in> set xs. d_id x \<noteq> d}" "distinct (map d_id (filter (\<lambda>x. d_id x \<noteq> d) xs))"
  using assms by (auto intro: distinct_map_filter)

text \<open>Taking a datum out of its data, with and without its link in the garbage list.\<close>

lemma set_list_mem: "r_mem r a = Some data \<Longrightarrow> set_list a xs r = r\<lparr>r_mem := (r_mem r)(a \<mapsto> data\<lparr>rd_list := xs\<rparr>)\<rparr>"
  by (simp add: set_list_def)

lemma recv_ok_set_list:
  assumes ok: "recv_ok r" and m: "r_mem r a = Some data" and ne: "xs \<noteq> []" and d: "distinct (map d_id xs)"
    and h: "r_h r' = r_h r" "r_mem r' = (r_mem r)(a \<mapsto> data\<lparr>rd_list := xs\<rparr>)" "r_brk r \<le> r_brk r'"
    and x: "\<forall>x \<in> set xs. d_data x = a \<and> d_id x < r_brk r' \<and> ((a, d_id x) \<in> set (r_gc r') \<longleftrightarrow> d_gc_time x \<noteq> 0)"
    and g: "distinct (r_gc r')" "\<forall>(b, e) \<in> set (r_gc r'). b = a \<longrightarrow> e \<in> d_id ` set xs"
      "\<forall>b e. b \<noteq> a \<longrightarrow> ((b, e) \<in> set (r_gc r') \<longleftrightarrow> (b, e) \<in> set (r_gc r))"
  shows "recv_ok r' \<and> kept r' = (kept r)(rd_key data := xs)"
proof
  have a: "hm_map (r_h r) (Str (rd_key data)) = Some a" using recv_okD(3) [OF ok m] .
  show "recv_ok r'"
    unfolding recv_ok_def
  proof (intro conjI allI impI ballI)
    show "hm_ok (r_h r')" using recv_okD(1) [OF ok] h by simp
    show "distinct (r_gc r')" by (rule g(1))
  next
    fix k b assume "hm_map (r_h r') k = Some b"
    with recv_okD(2) [OF ok] m h show "\<exists>data. r_mem r' b = Some data \<and> k = Str (rd_key data)"
      by (cases "b = a") fastforce+
  next
    fix b dt assume b: "r_mem r' b = Some dt"
    show "hm_map (r_h r') (Str (rd_key dt)) = Some b" using b h a recv_okD(3) [OF ok] by (cases "b = a") auto
    show "b < r_brk r'" using b h recv_okD(4) [OF ok] m by (cases "b = a") fastforce+
    show "rd_list dt \<noteq> []" using b h recv_okD(5) [OF ok] ne by (cases "b = a") auto
    show "distinct (map d_id (rd_list dt))" using b h recv_okD(6) [OF ok] d by (cases "b = a") auto
    fix y assume y: "y \<in> set (rd_list dt)"
    show "d_data y = b" using b h y recv_okD(7) [OF ok] x by (cases "b = a") auto
    show "d_id y < r_brk r'" using b h y recv_okD(7) [OF ok] x by (cases "b = a") fastforce+
    show "(b, d_id y) \<in> set (r_gc r') \<longleftrightarrow> d_gc_time y \<noteq> 0"
      using b h y recv_okD(8) [OF ok] x g(3) by (cases "b = a") auto
  next
    fix p assume p: "p \<in> set (r_gc r')"
    obtain b e where be: "p = (b, e)" by (cases p)
    show "case p of (b, e) \<Rightarrow> \<exists>data. r_mem r' b = Some data \<and> e \<in> d_id ` set (rd_list data)"
    proof (cases "b = a")
      case True
      then show ?thesis using p be g(2) h by auto
    next
      case False
      then show ?thesis using p be g(3) h recv_okD(10) [OF ok, of b e] by auto
    qed
  qed
  show "kept r' = (kept r)(rd_key data := xs)"
  proof
    fix k
    show "kept r' k = ((kept r)(rd_key data := xs)) k"
    proof (cases "k = rd_key data")
      case True
      then show ?thesis using a h by (simp add: kept_def)
    next
      case False
      then have "hm_map (r_h r) (Str k) \<noteq> Some a" using recv_okD(2) [OF ok, of "Str k" a] m by auto
      then show ?thesis using False h by (auto simp: kept_def split: option.split)
    qed
  qed
qed

lemma data_remove_datum_ok:
  fixes d :: nat
  assumes ok: "recv_ok r" and m: "r_mem r a = Some data"
  defines "xs \<equiv> filter (\<lambda>x. d_id x \<noteq> d) (rd_list data)"
  shows "\<exists>r'. data_remove_datum r a d = Some (xs \<noteq> [], r') \<and> recv_ok r' \<and> same_head r r' \<and> r_brk r' = r_brk r \<and>
    kept r' = (kept r)(rd_key data := xs) \<and> r_gc r' = filter (\<lambda>p. p \<noteq> (a, d)) (r_gc r) \<and>
    r_mem r' = (r_mem r)(a := (if xs = [] then None else Some (data\<lparr>rd_list := xs\<rparr>))) \<and>
    buckets (r_h r') = (if xs = [] then without a (buckets (r_h r)) else buckets (r_h r))"
proof (cases "xs = []")
  case False
  let ?r = "r\<lparr>r_gc := filter (\<lambda>p. p \<noteq> (a, d)) (r_gc r), r_mem := (r_mem r)(a \<mapsto> data\<lparr>rd_list := xs\<rparr>)\<rparr>"
  have e: "data_remove_datum r a d = Some (True, ?r)"
    using m False by (simp add: data_remove_datum_def set_list_def Let_def xs_def)
  have "recv_ok ?r \<and> kept ?r = (kept r)(rd_key data := xs)"
  proof (rule recv_ok_set_list [OF ok m False])
    show "distinct (map d_id xs)" unfolding xs_def using recv_okD(6) [OF ok m] by (rule filter_ids)
    show "\<forall>x \<in> set xs. d_data x = a \<and> d_id x < r_brk ?r \<and> ((a, d_id x) \<in> set (r_gc ?r) \<longleftrightarrow> d_gc_time x \<noteq> 0)"
      using recv_okD(7,8) [OF ok m] by (auto simp: xs_def)
    show "distinct (r_gc ?r)" using recv_okD(9) [OF ok] by simp
    show "\<forall>(b, e) \<in> set (r_gc ?r). b = a \<longrightarrow> e \<in> d_id ` set xs"
      using recv_okD(10) [OF ok] m by (fastforce simp: xs_def)
  qed auto
  then show ?thesis using e False by (auto simp: same_head_def)
next
  case True
  have k: "hm_map (r_h r) (Str (rd_key data)) = Some a" using recv_okD(3) [OF ok m] .
  from hash_elem_remove_correct [OF recv_okD(1) [OF ok] k] obtain h' where
    h': "hash_elem_remove (r_h r) a = Some h'" "hm_ok h'" "hm_map h' = (hm_map (r_h r))(Str (rd_key data) := None)" by blast
  note b = hash_elem_remove_buckets [OF recv_okD(1) [OF ok] h'(1)]
  let ?r = "r\<lparr>r_gc := filter (\<lambda>p. p \<noteq> (a, d)) (r_gc r), r_h := h', r_mem := (r_mem r)(a := None)\<rparr>"
  have e: "data_remove_datum r a d = Some (False, ?r)"
    using m True h' by (simp add: data_remove_datum_def Let_def xs_def)
  have all: "\<forall>x \<in> set (rd_list data). d_id x = d" using True by (auto simp: xs_def filter_empty_conv)
  have "recv_ok ?r"
    unfolding recv_ok_def
  proof (intro conjI allI impI ballI)
    show "hm_ok (r_h ?r)" using h' by simp
    show "distinct (r_gc ?r)" using recv_okD(9) [OF ok] by simp
  next
    fix j b assume "hm_map (r_h ?r) j = Some b"
    then have j: "hm_map (r_h r) j = Some b" "j \<noteq> Str (rd_key data)" using h' by (auto split: if_splits)
    then have "b \<noteq> a" using recv_okD(2) [OF ok j(1)] m by auto
    then show "\<exists>data. r_mem ?r b = Some data \<and> j = Str (rd_key data)" using recv_okD(2) [OF ok j(1)] by simp
  next
    fix b dt assume "r_mem ?r b = Some dt"
    then have b: "b \<noteq> a" "r_mem r b = Some dt" by (auto split: if_splits)
    have "rd_key dt \<noteq> rd_key data" using recv_okD(3) [OF ok b(2)] k b(1) by auto
    then show "hm_map (r_h ?r) (Str (rd_key dt)) = Some b" using recv_okD(3) [OF ok b(2)] h' by simp
    show "b < r_brk ?r" "rd_list dt \<noteq> []" "distinct (map d_id (rd_list dt))"
      using recv_okD(4,5,6) [OF ok b(2)] by simp_all
    fix y assume y: "y \<in> set (rd_list dt)"
    show "d_data y = b" "d_id y < r_brk ?r" "(b, d_id y) \<in> set (r_gc ?r) \<longleftrightarrow> d_gc_time y \<noteq> 0"
      using recv_okD(7,8) [OF ok b(2) y] b(1) by auto
  next
    fix p assume p: "p \<in> set (r_gc ?r)"
    obtain b e where be: "p = (b, e)" by (cases p)
    have "b \<noteq> a"
    proof
      assume "b = a"
      then have "e \<in> d_id ` set (rd_list data)" using p be recv_okD(10) [OF ok, of a e] m by auto
      then show False using all p be \<open>b = a\<close> by auto
    qed
    then show "case p of (b, e) \<Rightarrow> \<exists>data. r_mem ?r b = Some data \<and> e \<in> d_id ` set (rd_list data)"
      using p be recv_okD(10) [OF ok, of b e] by auto
  qed
  moreover have "kept ?r = (kept r)(rd_key data := xs)"
  proof
    fix j
    show "kept ?r j = ((kept r)(rd_key data := xs)) j"
    proof (cases "j = rd_key data")
      case False
      then have "hm_map (r_h r) (Str j) \<noteq> Some a" using recv_okD(2) [OF ok, of "Str j" a] m by auto
      then show ?thesis using False h' by (auto simp: kept_def split: option.split)
    qed (simp add: kept_def h' True)
  qed
  ultimately show ?thesis using e True b by (auto simp: same_head_def)
qed

section \<open>Collecting\<close>

text \<open>Only datums whose timer has run out are gone.\<close>

definition shrunk :: "xtime \<Rightarrow> kvpsync_recv \<Rightarrow> kvpsync_recv \<Rightarrow> bool" where
  "shrunk now r r' \<longleftrightarrow> same_head r r' \<and> r_brk r' = r_brk r \<and>
     (\<forall>k. \<exists>P. kept r' k = filter P (kept r k) \<and> (\<forall>x \<in> set (kept r k). \<not> P x \<longrightarrow> d_gc_time x \<noteq> 0 \<and> d_gc_time x \<le> now))"

lemma shrunk_refl: "shrunk now r r"
  unfolding shrunk_def by (auto intro!: exI [of _ "\<lambda>_. True"])

lemma shrunk_trans:
  assumes "shrunk now r r'" "shrunk now r' r''"
  shows "shrunk now r r''"
  unfolding shrunk_def
proof (intro conjI allI)
  show "same_head r r''" "r_brk r'' = r_brk r" using assms same_head_trans by (auto simp: shrunk_def)
  fix k
  obtain P Q where P: "kept r' k = filter P (kept r k)" "\<forall>x \<in> set (kept r k). \<not> P x \<longrightarrow> d_gc_time x \<noteq> 0 \<and> d_gc_time x \<le> now"
    and Q: "kept r'' k = filter Q (kept r' k)" "\<forall>x \<in> set (kept r' k). \<not> Q x \<longrightarrow> d_gc_time x \<noteq> 0 \<and> d_gc_time x \<le> now"
    using assms unfolding shrunk_def by blast
  then have "kept r'' k = filter (\<lambda>x. P x \<and> Q x) (kept r k)" by (simp add: conj_commute)
  moreover have "\<forall>x \<in> set (kept r k). \<not> (P x \<and> Q x) \<longrightarrow> d_gc_time x \<noteq> 0 \<and> d_gc_time x \<le> now" using P Q by auto
  ultimately show "\<exists>P. kept r'' k = filter P (kept r k) \<and> (\<forall>x \<in> set (kept r k). \<not> P x \<longrightarrow> d_gc_time x \<noteq> 0 \<and> d_gc_time x \<le> now)"
    by blast
qed

lemma gc_loop_ok:
  assumes "recv_ok r" "set ls \<subseteq> set (r_gc r)" "distinct ls"
  shows "\<exists>r'. gc_loop now ls r = Some r' \<and> recv_ok r' \<and> shrunk now r r'"
  using assms
proof (induction ls arbitrary: r)
  case Nil
  then show ?case by (simp add: shrunk_refl)
next
  case (Cons p ls)
  obtain a d where p: "p = (a, d)" by (cases p)
  note ok = Cons.prems(1)
  from recv_okD(10) [OF ok, of a d] Cons.prems(2) p obtain data where m: "r_mem r a = Some data" "d \<in> d_id ` set (rd_list data)"
    by auto
  then have "find (\<lambda>x. d_id x = d) (rd_list data) \<noteq> None" by (auto simp: find_None_iff)
  then obtain x where f: "find (\<lambda>x. d_id x = d) (rd_list data) = Some x" by blast
  then have x: "x \<in> set (rd_list data)" "d_id x = d" by (auto simp: find_Some_iff)
  have fd: "find_datum r a d = Some x" using m f by (simp add: find_datum_def)
  show ?case
  proof (cases "now < d_gc_time x")
    case True
    then show ?thesis using fd p ok by (simp add: shrunk_refl)
  next
    case False
    from data_remove_datum_ok [OF ok m(1), of d] obtain r1 where r1: "data_remove_datum r a d = Some (filter (\<lambda>x. d_id x \<noteq> d) (rd_list data) \<noteq> [], r1)"
      "recv_ok r1" "same_head r r1" "r_brk r1 = r_brk r" "kept r1 = (kept r)(rd_key data := filter (\<lambda>x. d_id x \<noteq> d) (rd_list data))"
      "r_gc r1 = filter (\<lambda>p. p \<noteq> (a, d)) (r_gc r)" by blast
    have "set ls \<subseteq> set (r_gc r1)" using Cons.prems(2,3) p r1(6) by auto
    from Cons.IH [OF r1(2) this] Cons.prems(3) obtain r' where r': "gc_loop now ls r1 = Some r'" "recv_ok r'" "shrunk now r1 r'" by auto
    have "d_gc_time x \<noteq> 0" using recv_okD(8) [OF ok m(1) x(1)] Cons.prems(2) p x(2) by auto
    moreover have "y = x" if "y \<in> set (rd_list data)" "d_id y = d" for y
      using recv_okD(6) [OF ok m(1)] that x by (metis distinct_map inj_onD)
    ultimately have "shrunk now r r1"
      unfolding shrunk_def
    proof (intro conjI allI)
      fix k
      show "\<exists>P. kept r1 k = filter P (kept r k) \<and> (\<forall>x \<in> set (kept r k). \<not> P x \<longrightarrow> d_gc_time x \<noteq> 0 \<and> d_gc_time x \<le> now)"
      proof (cases "k = rd_key data")
        case True
        show ?thesis
          using True r1(5) kept_data [OF ok m(1)] False \<open>d_gc_time x \<noteq> 0\<close> \<open>\<And>y. y \<in> set (rd_list data) \<Longrightarrow> d_id y = d \<Longrightarrow> y = x\<close>
          by (intro exI [of _ "\<lambda>y. d_id y \<noteq> d"]) auto
      next
        case False
        then show ?thesis using r1(5) by (intro exI [of _ "\<lambda>_. True"]) simp
      qed
    qed (use r1 in auto)
    then show ?thesis using fd p False r1(1) r' shrunk_trans by (auto simp: fd)
  qed
qed

lemma do_gc_ok: "recv_ok r \<Longrightarrow> \<exists>r'. do_gc r now = Some r' \<and> recv_ok r' \<and> shrunk now r r'"
  unfolding do_gc_def by (rule gc_loop_ok) (simp_all add: recv_okD)

section \<open>Flushing\<close>

lemma datums_loop_ok:
  assumes "recv_ok r" "r_mem r a = Some data" "set xs \<subseteq> set (rd_list data)" "distinct (map d_id xs)"
    and sf: "\<And>r' x. same_head r r' \<Longrightarrow> sf r' x = p x"
  defines "ys \<equiv> filter (\<lambda>x. \<not> (x \<in> set xs \<and> p x)) (rd_list data)"
  shows "\<exists>r'. datums_loop sf a xs r = Some r' \<and> recv_ok r' \<and> same_head r r' \<and> r_brk r' = r_brk r \<and>
    kept r' = (kept r)(rd_key data := ys) \<and> (\<forall>b. b \<noteq> a \<longrightarrow> r_mem r' b = r_mem r b) \<and>
    (buckets (r_h r') = buckets (r_h r) \<or> buckets (r_h r') = without a (buckets (r_h r)))"
  using assms(1-5) unfolding ys_def
proof (induction xs arbitrary: r data)
  case Nil
  then have "(kept r)(rd_key data := rd_list data) = kept r" using kept_data by (auto simp: fun_upd_idem)
  then show ?case using Nil by auto
next
  case (Cons x xs)
  note ok = Cons.prems(1) and m = Cons.prems(2)
  have dist: "distinct (map d_id (rd_list data))" using recv_okD(6) [OF ok m] .
  show ?case
  proof (cases "p x")
    case False
    then have "\<not> sf r x" using Cons.prems(5) by simp
    moreover have "filter (\<lambda>y. \<not> (y \<in> set (x # xs) \<and> p y)) (rd_list data) = filter (\<lambda>y. \<not> (y \<in> set xs \<and> p y)) (rd_list data)"
      using False by (intro filter_cong) auto
    ultimately show ?thesis using Cons.IH [OF ok m _ _ Cons.prems(5)] Cons.prems(3,4) by simp
  next
    case True
    let ?l = "filter (\<lambda>y. d_id y \<noteq> d_id x) (rd_list data)"
    from data_remove_datum_ok [OF ok m, of "d_id x"] obtain r1 where r1: "data_remove_datum r a (d_id x) = Some (?l \<noteq> [], r1)"
      "recv_ok r1" "same_head r r1" "r_brk r1 = r_brk r" "kept r1 = (kept r)(rd_key data := ?l)"
      "r_mem r1 = (r_mem r)(a := (if ?l = [] then None else Some (data\<lparr>rd_list := ?l\<rparr>)))"
      "buckets (r_h r1) = (if ?l = [] then without a (buckets (r_h r)) else buckets (r_h r))" by blast
    have xid: "y = x" if "y \<in> set (rd_list data)" "d_id y = d_id x" for y
      using dist that Cons.prems(3) by (metis distinct_map inj_onD list.set_intros(1) subsetD)
    have fl: "filter (\<lambda>y. \<not> (y \<in> set xs \<and> p y)) ?l = filter (\<lambda>y. \<not> (y \<in> set (x # xs) \<and> p y)) (rd_list data)"
      using xid True by (auto simp: filter_filter intro!: filter_cong)
    have s: "sf r x" using Cons.prems(5) True by simp
    show ?thesis
    proof (cases "?l = []")
      case True
      then have "filter (\<lambda>y. \<not> (y \<in> set (x # xs) \<and> p y)) (rd_list data) = []" using fl by simp
      then have "kept r1 = (kept r)(rd_key data := filter (\<lambda>y. \<not> (y \<in> set (x # xs) \<and> p y)) (rd_list data))"
        using r1(5) True by simp
      then show ?thesis using True r1 s by (intro exI [of _ r1]) simp
    next
      case False
      let ?d = "data\<lparr>rd_list := ?l\<rparr>"
      have m1: "r_mem r1 a = Some ?d" using r1(6) False by simp
      have "set xs \<subseteq> set (rd_list ?d)" using Cons.prems(3,4) by (auto simp: image_iff)
      moreover have "sf r' y = p y" if "same_head r1 r'" for r' y using Cons.prems(5) same_head_trans [OF r1(3) that] by blast
      ultimately obtain r' where r': "datums_loop sf a xs r1 = Some r'" "recv_ok r'" "same_head r1 r'" "r_brk r' = r_brk r1"
        "kept r' = (kept r1)(rd_key ?d := filter (\<lambda>x. \<not> (x \<in> set xs \<and> p x)) (rd_list ?d))"
        "\<forall>b. b \<noteq> a \<longrightarrow> r_mem r' b = r_mem r1 b"
        "buckets (r_h r') = buckets (r_h r1) \<or> buckets (r_h r') = without a (buckets (r_h r1))"
        using Cons.IH [OF r1(2) m1] Cons.prems(4) unfolding list.map distinct.simps by blast
      have "kept r' = (kept r)(rd_key data := filter (\<lambda>y. \<not> (y \<in> set (x # xs) \<and> p y)) (rd_list data))"
        using r'(5) r1(5) fl by simp
      then show ?thesis using s r1 r' False same_head_trans by (intro exI [of _ r']) auto
    qed
  qed
qed

lemma for_each_datum_ok:
  assumes ok: "recv_ok r" and sf: "\<And>r' x. same_head r r' \<Longrightarrow> sf r' x = p x"
  shows "\<exists>r'. for_each_datum r sf = Some r' \<and> recv_ok r' \<and> same_head r r' \<and> r_brk r' = r_brk r \<and>
    (\<forall>k. kept r' k = filter (\<lambda>x. \<not> p x) (kept r k))"
proof -
  define todo where "todo es k = (case hm_map (r_h r) (Str k) of None \<Rightarrow> False | Some a \<Rightarrow> a \<in> set es)" for es k
  let ?Inv = "\<lambda>es r'. recv_ok r' \<and> same_head r r' \<and> r_brk r' = r_brk r \<and> distinct es \<and>
    (\<forall>a \<in> set es. r_mem r' a = r_mem r a \<and> r_mem r a \<noteq> None) \<and>
    (\<forall>k. kept r' k = (if todo es k then kept r k else filter (\<lambda>x. \<not> p x) (kept r k)))"
  have body: "\<exists>s'. visit_data sf e s = Some s' \<and> ?Inv es s' \<and>
      (buckets (r_h s') = buckets (r_h s) \<or> buckets (r_h s') = without e (buckets (r_h s)))" if I: "?Inv (e # es) s" for e es s
  proof -
    obtain data where m: "r_mem r e = Some data" "r_mem s e = Some data" using I by auto
    have "sf r' x = p x" if "same_head s r'" for r' x using sf same_head_trans that I by blast
    from datums_loop_ok [where sf = sf and p = p, OF _ m(2) subset_refl _ this] recv_okD(6) [OF _ m(2)] I obtain s' where
      s': "datums_loop sf e (rd_list data) s = Some s'" "recv_ok s'" "same_head s s'" "r_brk s' = r_brk s"
      "kept s' = (kept s)(rd_key data := filter (\<lambda>x. \<not> (x \<in> set (rd_list data) \<and> p x)) (rd_list data))"
      "\<forall>b. b \<noteq> e \<longrightarrow> r_mem s' b = r_mem s b" "buckets (r_h s') = buckets (r_h s) \<or> buckets (r_h s') = without e (buckets (r_h s))"
      by blast
    have fc: "filter (\<lambda>x. \<not> (x \<in> set (rd_list data) \<and> p x)) (rd_list data) = filter (\<lambda>x. \<not> p x) (rd_list data)"
      by (intro filter_cong) auto
    have k: "hm_map (r_h r) (Str (rd_key data)) = Some e" using recv_okD(3) [OF ok m(1)] .
    have "kept s' k = (if todo es k then kept r k else filter (\<lambda>x. \<not> p x) (kept r k))" for k
    proof (cases "k = rd_key data")
      case True
      have "\<not> todo es k" using I k True by (simp add: todo_def)
      then show ?thesis using s'(5) True fc kept_data [OF ok m(1)] by simp
    next
      case False
      have "hm_map (r_h r) (Str k) \<noteq> Some e" using recv_okD(2) [OF ok, of "Str k" e] m(1) False by auto
      then have "todo (e # es) k = todo es k" by (auto simp: todo_def split: option.split)
      then show ?thesis using s'(5) False I by simp
    qed
    moreover have "\<forall>a \<in> set es. r_mem s' a = r_mem r a \<and> r_mem r a \<noteq> None" using I s'(6) by auto
    ultimately have "?Inv es s'" using s'(2,3,4) I same_head_trans by auto
    then show ?thesis using s' m(2) by (auto simp: visit_data_def)
  qed
  have hm: "hm_ok (r_h r)" using recv_okD(1) [OF ok] .
  have dist: "distinct (elem_ids (r_h r))" using hm by (simp add: hm_ok_def)
  have ids: "a \<in> set (elem_ids (r_h r)) \<longleftrightarrow> (\<exists>k. hm_map (r_h r) k = Some a)" for a
    using elem_ids_ran [OF hm] by (auto simp: ran_def)
  have "todo (elem_ids (r_h r)) k \<longleftrightarrow> hm_map (r_h r) (Str k) \<noteq> None" for k
    using ids by (auto simp: todo_def split: option.split)
  then have "\<forall>k. kept r k = (if todo (elem_ids (r_h r)) k then kept r k else filter (\<lambda>x. \<not> p x) (kept r k))"
    by (auto simp: kept_def)
  then have I0: "?Inv (elem_ids (r_h r)) r" using ok dist ids recv_okD(2) [OF ok] by fastforce
  have n: "num_elems (r_h r) = length (elem_ids (r_h r))" using hm by (simp add: hm_ok_def elem_ids_def)
  from hashmap_loop_fold [where tab = r_h and Inv = ?Inv and body = "visit_data sf" and s = r, OF body _ I0 hashmap_iter_at dist order.refl]
  have loop: "for_each_datum r sf = fold_opt (visit_data sf) (elem_ids (r_h r)) r"
    unfolding for_each_datum_def n hashmap_iter_def using recv_okD(1) by blast
  have "\<exists>s'. fold_opt (visit_data sf) es s = Some s' \<and> ?Inv [] s'" if "?Inv es s" for es s
    using that
  proof (induction es arbitrary: s)
    case (Cons e es)
    from body [OF Cons.prems] obtain s' where s': "visit_data sf e s = Some s'" "?Inv es s'" by blast
    from Cons.IH [OF s'(2)] s'(1) show ?case by simp
  qed auto
  moreover have "\<not> todo [] k" for k by (simp add: todo_def split: option.split)
  ultimately show ?thesis using I0 loop by fastforce
qed

lemma flush_stale_data_ok:
  assumes "recv_ok r"
  shows "\<exists>r'. flush_stale_data r = Some r' \<and> recv_ok r' \<and> same_head r r' \<and> r_brk r' = r_brk r \<and>
    (\<forall>k. kept r' k = filter (\<lambda>x. d_sync_id x = r_sync_id r) (kept r k))"
  using for_each_datum_ok [OF assms, of flush_should_free "\<lambda>x. d_sync_id x \<noteq> r_sync_id r"]
  by (simp add: flush_stale_data_def flush_should_free_def same_head_def)

section \<open>One insertion or deletion\<close>

lemma match_loop_insert:
  "match_loop now sid uid 0 a xs g r =
    (case find (\<lambda>x. d_sync_id x = sid \<and> (d_update_id x = uid \<or> d_delete_id x = uid)) xs of
       None \<Rightarrow> Some (Inr (g, r))
     | Some x \<Rightarrow>
         if d_update_id x = uid \<or> d_gc_time x \<noteq> 0 then Some (Inl r)
         else map_option Inl (link_gc a (d_id x)
           (set_list a (map (\<lambda>y. if d_id y = d_id x then y\<lparr>d_gc_time := now + GC_DELAY\<rparr> else y) (rd_list (the (r_mem r a)))) r)))"
  by (induction xs) auto

lemma match_loop_copy:
  assumes "did \<noteq> 0" "\<forall>x \<in> set xs. \<not> (d_sync_id x = sid \<and> d_update_id x = did)" "\<exists>x \<in> set xs. d_sync_id x = sid \<and> d_update_id x = uid"
  shows "match_loop now sid uid did a xs g r = Some (Inl r)"
  using assms by (induction xs) auto

lemma match_loop_delete:
  assumes "did \<noteq> 0" "\<forall>x \<in> set xs. \<not> (d_sync_id x = sid \<and> d_update_id x = uid)" "r_mem r a = Some data"
  shows "match_loop now sid uid did a xs g r =
    Some (Inr (if \<exists>x \<in> set xs. d_sync_id x = sid \<and> d_update_id x = did then now + GC_DELAY else g,
      set_list a (filter (\<lambda>y. \<not> (\<exists>x \<in> set xs. d_sync_id x = sid \<and> d_update_id x = did \<and> d_id y = d_id x)) (rd_list data)) r))"
  using assms
proof (induction xs arbitrary: g r data)
  case Nil
  then show ?case by (simp add: set_list_mem) (metis fun_upd_triv kvpsync_recv.surjective kvpsync_recv.update_convs(7) recv_data.surjective recv_data.update_convs(2))
next
  case (Cons x xs)
  show ?case
  proof (cases "d_sync_id x = sid \<and> d_update_id x = did")
    case True
    let ?l = "filter (\<lambda>y. d_id y \<noteq> d_id x) (rd_list data)"
    have m: "r_mem (set_list a ?l r) a = Some (data\<lparr>rd_list := ?l\<rparr>)" using Cons.prems(3) by (simp add: set_list_mem)
    have st: "set_list a zs (set_list a ?l r) = set_list a zs r" for zs using Cons.prems(3) by (simp add: set_list_def)
    have "match_loop now sid uid did a (x # xs) g r = match_loop now sid uid did a xs (now + GC_DELAY) (set_list a ?l r)"
      using True Cons.prems by auto
    also have "\<dots> = Some (Inr (now + GC_DELAY, set_list a (filter (\<lambda>y. \<not> (\<exists>x \<in> set xs. d_sync_id x = sid \<and> d_update_id x = did \<and> d_id y = d_id x)) ?l) r))"
      using Cons.IH [OF Cons.prems(1) _ m] Cons.prems(2) st by simp
    also have "filter (\<lambda>y. \<not> (\<exists>x \<in> set xs. d_sync_id x = sid \<and> d_update_id x = did \<and> d_id y = d_id x)) ?l =
        filter (\<lambda>y. \<not> (\<exists>x \<in> set (x # xs). d_sync_id x = sid \<and> d_update_id x = did \<and> d_id y = d_id x)) (rd_list data)"
      using True by (auto simp: filter_filter intro!: filter_cong)
    finally show ?thesis using True by auto
  next
    case False
    then have "match_loop now sid uid did a (x # xs) g r = match_loop now sid uid did a xs g r" using Cons.prems by auto
    then show ?thesis using Cons.IH [OF Cons.prems(1) _ Cons.prems(3)] Cons.prems(2) False by (auto intro!: arg_cong [where f = "\<lambda>l. set_list a l r"] filter_cong)
  qed
qed

definition new_datum :: "nat \<Rightarrow> nat \<Rightarrow> u32 \<Rightarrow> u32 \<Rightarrow> u32 \<Rightarrow> byte list \<Rightarrow> xtime \<Rightarrow> recv_datum" where
  "new_datum i a sid uid did v g = \<lparr>d_id = i, d_data = a, d_sync_id = sid, d_update_id = uid, d_delete_id = did, d_val = v, d_gc_time = g\<rparr>"

text \<open>The effect on the datums of the key.\<close>

definition after_update :: "xtime \<Rightarrow> u32 \<Rightarrow> u32 \<Rightarrow> u32 \<Rightarrow> (xtime \<Rightarrow> recv_datum) \<Rightarrow> recv_datum list \<Rightarrow> recv_datum list" where
  "after_update now sid uid did new xs =
     (if did = 0 then
        (case find (\<lambda>x. d_sync_id x = sid \<and> (d_update_id x = uid \<or> d_delete_id x = uid)) xs of
           None \<Rightarrow> xs @ [new 0]
         | Some x \<Rightarrow>
             if d_update_id x = uid \<or> d_gc_time x \<noteq> 0 then xs
             else map (\<lambda>y. if d_id y = d_id x then y\<lparr>d_gc_time := now + GC_DELAY\<rparr> else y) xs)
      else if \<exists>x \<in> set xs. d_sync_id x = sid \<and> d_update_id x = uid then xs
      else filter (\<lambda>x. \<not> (d_sync_id x = sid \<and> d_update_id x = did)) xs @
        [new (if \<exists>x \<in> set xs. d_sync_id x = sid \<and> d_update_id x = did then now + GC_DELAY else 0)])"

lemma append_var: "length v \<le> KVPSYNC_MAX_LEN \<Longrightarrow> dstr_append_quiet alloc_ok (dstr_var KVPSYNC_MAX_LEN) v =
    (E_NONE, (dstr_var KVPSYNC_MAX_LEN)\<lparr>ddata := v\<rparr>)"
  by (simp add: dstr_append_quiet_def do_dstr_append_def dstr_var_def)

lemma recv_datum_new_ok: "length v \<le> KVPSYNC_MAX_LEN \<Longrightarrow> recv_datum_new alloc_ok i a sid uid did v = (E_NONE, Some (new_datum i a sid uid did v 0))"
  by (simp add: recv_datum_new_def append_var new_datum_def)

lemma recv_data_new_ok: "length k \<le> KVPSYNC_MAX_LEN \<Longrightarrow> recv_data_new alloc_ok k = (E_NONE, Some \<lparr>rd_key = k, rd_list = []\<rparr>)"
  by (simp add: recv_data_new_def append_var)

text \<open>The first datum of a key.\<close>

lemma handle_first:
  assumes ok: "recv_ok r" and none: "hm_map (r_h r) (Str k) = None" and len: "length k \<le> KVPSYNC_MAX_LEN" "length v \<le> KVPSYNC_MAX_LEN"
  shows "\<exists>r' a i. handle_recv_or_delete alloc_ok r now sid uid k did v = Some (E_NONE, r') \<and> recv_ok r' \<and> same_head r r' \<and>
    kept r' = (kept r)(k := [new_datum i a sid uid did v 0])"
proof -
  let ?x = "new_datum (r_brk r + 1) (r_brk r) sid uid did v 0"
  have fresh: "r_brk r \<notin> set (elem_ids (r_h r))"
  proof
    assume "r_brk r \<in> set (elem_ids (r_h r))"
    then obtain j where "hm_map (r_h r) j = Some (r_brk r)" using elem_ids_ran [OF recv_okD(1) [OF ok]] by (auto simp: ran_def)
    from recv_okD(2) [OF ok this] recv_okD(4) [OF ok] show False by auto
  qed
  from hashmap_set_insert [OF recv_okD(1) [OF ok] fresh none, of alloc_ok False] obtain h' where
    h': "hashmap_set alloc_ok (r_h r) (Str k) (r_brk r) False = Some (E_NONE, None, h')" "hm_ok h'"
    "hm_map h' = (hm_map (r_h r))(Str k \<mapsto> r_brk r)" by blast
  let ?r = "r\<lparr>r_h := h', r_mem := (r_mem r)(r_brk r \<mapsto> \<lparr>rd_key = k, rd_list = [?x]\<rparr>), r_brk := r_brk r + 2\<rparr>"
  have e: "handle_recv_or_delete alloc_ok r now sid uid k did v = Some (E_NONE, ?r)"
    using none h' by (simp add: handle_recv_or_delete_def str_table.get_law recv_okD(1) [OF ok] recv_data_new_ok [OF len(1)]
      recv_datum_new_ok [OF len(2)] hashmap_sets_unique_def)
  have old: "a < r_brk r" "rd_key data \<noteq> k" if "r_mem r a = Some data" for a data
    using recv_okD(4) [OF ok that] recv_okD(3) [OF ok that] none by auto
  have gcb: "a < r_brk r" if "(a, d) \<in> set (r_gc r)" for a d using recv_okD(10) [OF ok that] old by blast
  have "recv_ok ?r"
    unfolding recv_ok_def
  proof (intro conjI allI impI ballI)
    show "hm_ok (r_h ?r)" using h' by simp
    show "distinct (r_gc ?r)" using recv_okD(9) [OF ok] by simp
  next
    fix j b assume "hm_map (r_h ?r) j = Some b"
    then have "(j = Str k \<and> b = r_brk r) \<or> (j \<noteq> Str k \<and> hm_map (r_h r) j = Some b)" using h' by (auto split: if_splits)
    then show "\<exists>data. r_mem ?r b = Some data \<and> j = Str (rd_key data)"
      using recv_okD(2) [OF ok, of j b] old by fastforce
  next
    fix b dt assume "r_mem ?r b = Some dt"
    then consider "b = r_brk r" "dt = \<lparr>rd_key = k, rd_list = [?x]\<rparr>" | "b \<noteq> r_brk r" "r_mem r b = Some dt" by (auto split: if_splits)
    note c = this
    show "hm_map (r_h ?r) (Str (rd_key dt)) = Some b" using c h' recv_okD(3) [OF ok] old by cases auto
    show "b < r_brk ?r" using c recv_okD(4) [OF ok] by cases fastforce+
    show "rd_list dt \<noteq> []" using c recv_okD(5) [OF ok] by cases auto
    show "distinct (map d_id (rd_list dt))" using c recv_okD(6) [OF ok] by cases auto
    fix y assume y: "y \<in> set (rd_list dt)"
    show "d_data y = b" using c y recv_okD(7) [OF ok] by cases (auto simp: new_datum_def)
    show "d_id y < r_brk ?r" using c y recv_okD(7) [OF ok] by cases (fastforce simp: new_datum_def)+
    show "(b, d_id y) \<in> set (r_gc ?r) \<longleftrightarrow> d_gc_time y \<noteq> 0"
      using c y recv_okD(8) [OF ok] gcb by cases (fastforce simp: new_datum_def)+
  next
    fix p assume p: "p \<in> set (r_gc ?r)"
    obtain b d where "p = (b, d)" by (cases p)
    then show "case p of (b, e) \<Rightarrow> \<exists>data. r_mem ?r b = Some data \<and> e \<in> d_id ` set (rd_list data)"
      using p recv_okD(10) [OF ok, of b d] gcb by fastforce
  qed
  moreover have "kept ?r = (kept r)(k := [?x])"
  proof
    fix j
    have "hm_map (r_h r) (Str j) \<noteq> Some (r_brk r)" using recv_okD(2) [OF ok, of "Str j" "r_brk r"] old by blast
    then show "kept ?r j = ((kept r)(k := [?x])) j" using h' by (auto simp: kept_def split: option.split)
  qed
  ultimately show ?thesis using e by (auto simp: same_head_def)
qed

text \<open>
  A further packet for the key.  A deletion must not meet both its own copy and its insertion, and
  the insertion it takes out has no timer.
\<close>

definition update_allowed :: "u32 \<Rightarrow> u32 \<Rightarrow> u32 \<Rightarrow> recv_datum list \<Rightarrow> bool" where
  "update_allowed sid uid did xs \<longleftrightarrow> did \<noteq> 0 \<longrightarrow>
     (\<forall>x \<in> set xs. d_sync_id x = sid \<longrightarrow> d_update_id x = did \<longrightarrow>
        d_gc_time x = 0 \<and> (\<forall>y \<in> set xs. d_sync_id y = sid \<longrightarrow> d_update_id y \<noteq> uid))"

lemma handle_further:
  assumes ok: "recv_ok r" and a: "hm_map (r_h r) (Str k) = Some a" and len: "length v \<le> KVPSYNC_MAX_LEN"
    and al: "update_allowed sid uid did (kept r k)" and t: "now + GC_DELAY \<noteq> 0"
  shows "\<exists>r' i. handle_recv_or_delete alloc_ok r now sid uid k did v = Some (E_NONE, r') \<and> recv_ok r' \<and> same_head r r' \<and>
    kept r' = (kept r)(k := after_update now sid uid did (new_datum i a sid uid did v) (kept r k))"
proof -
  from recv_okD(2) [OF ok a] obtain data where m: "r_mem r a = Some data" "rd_key data = k" by auto
  have kd: "kept r k = rd_list data" using kept_data [OF ok m(1)] m(2) by simp
  have g: "hashmap_gets (r_h r) k = Some a" using a by (simp add: str_table.get_law recv_okD(1) [OF ok])
  note dist = recv_okD(6) [OF ok m(1)] and dat = recv_okD(7) [OF ok m(1)] and gc = recv_okD(8) [OF ok m(1)]
  let ?i = "r_brk r"
  let ?new = "new_datum ?i a sid uid did v"
  have newb: "?i \<notin> d_id ` set (rd_list data)" "(a, ?i) \<notin> set (r_gc r)"
    using dat recv_okD(10) [OF ok, of a ?i] m(1) by fastforce+
  show ?thesis
  proof (cases "did = 0")
    case True
    let ?f = "find (\<lambda>x. d_sync_id x = sid \<and> (d_update_id x = uid \<or> d_delete_id x = uid)) (rd_list data)"
    show ?thesis
    proof (cases ?f)
      case None
      let ?r = "r\<lparr>r_brk := r_brk r + 1, r_mem := (r_mem r)(a \<mapsto> data\<lparr>rd_list := rd_list data @ [?new 0]\<rparr>)\<rparr>"
      have "handle_recv_or_delete alloc_ok r now sid uid k did v = Some (E_NONE, ?r)"
        using g m(1) True None by (simp add: handle_recv_or_delete_def match_loop_insert recv_datum_new_ok [OF len] set_list_def)
      moreover have "recv_ok ?r \<and> kept ?r = (kept r)(rd_key data := rd_list data @ [?new 0])"
      proof (rule recv_ok_set_list [OF ok m(1)])
        show "distinct (map d_id (rd_list data @ [?new 0]))" using dist newb by (auto simp: new_datum_def)
        show "\<forall>x \<in> set (rd_list data @ [?new 0]). d_data x = a \<and> d_id x < r_brk ?r \<and> ((a, d_id x) \<in> set (r_gc ?r) \<longleftrightarrow> d_gc_time x \<noteq> 0)"
          using dat gc newb by (fastforce simp: new_datum_def)
        show "distinct (r_gc ?r)" using recv_okD(9) [OF ok] by simp
        show "\<forall>(b, e) \<in> set (r_gc ?r). b = a \<longrightarrow> e \<in> d_id ` set (rd_list data @ [?new 0])"
          using recv_okD(10) [OF ok] m(1) by fastforce
      qed auto
      ultimately show ?thesis using True None m(2) kd by (intro exI [of _ ?r] exI [of _ ?i]) (auto simp: after_update_def same_head_def)
    next
      case (Some x)
      then have x: "x \<in> set (rd_list data)" by (auto simp: find_Some_iff)
      show ?thesis
      proof (cases "d_update_id x = uid \<or> d_gc_time x \<noteq> 0")
        case dup: True
        then have "handle_recv_or_delete alloc_ok r now sid uid k did v = Some (E_NONE, r)"
          using g m(1) True Some by (simp add: handle_recv_or_delete_def match_loop_insert)
        moreover have "after_update now sid uid did (?new) (kept r k) = kept r k"
          using True Some dup kd by (auto simp: after_update_def)
        ultimately show ?thesis using ok by (intro exI [of _ r] exI [of _ ?i]) simp
      next
        case False
        let ?l = "map (\<lambda>y. if d_id y = d_id x then y\<lparr>d_gc_time := now + GC_DELAY\<rparr> else y) (rd_list data)"
        let ?r = "r\<lparr>r_mem := (r_mem r)(a \<mapsto> data\<lparr>rd_list := ?l\<rparr>), r_gc := r_gc r @ [(a, d_id x)]\<rparr>"
        have notin: "(a, d_id x) \<notin> set (r_gc r)" using gc [OF x] False by simp
        have ids: "map d_id ?l = map d_id (rd_list data)" by (induction "rd_list data") auto
        then have "handle_recv_or_delete alloc_ok r now sid uid k did v = Some (E_NONE, ?r)"
          using g m(1) True Some False notin by (simp add: handle_recv_or_delete_def match_loop_insert set_list_def link_gc_def)
        moreover have "recv_ok ?r \<and> kept ?r = (kept r)(rd_key data := ?l)"
        proof (rule recv_ok_set_list [OF ok m(1)])
          show "?l \<noteq> []" using x by auto
          show "distinct (map d_id ?l)" unfolding ids by (rule dist)
          show "\<forall>y \<in> set ?l. d_data y = a \<and> d_id y < r_brk ?r \<and> ((a, d_id y) \<in> set (r_gc ?r) \<longleftrightarrow> d_gc_time y \<noteq> 0)"
            using dat gc t dat [OF x] by auto
          show "distinct (r_gc ?r)" using recv_okD(9) [OF ok] notin by simp
          have "d_id ` set ?l = d_id ` set (rd_list data)" using ids by (metis set_map)
          then show "\<forall>(b, e) \<in> set (r_gc ?r). b = a \<longrightarrow> e \<in> d_id ` set ?l"
            using recv_okD(10) [OF ok] m(1) x by fastforce
        qed auto
        ultimately show ?thesis using True Some False m(2) kd by (intro exI [of _ ?r]) (auto simp: after_update_def same_head_def)
      qed
    qed
  next
    case False
    show ?thesis
    proof (cases "\<exists>x \<in> set (rd_list data). d_sync_id x = sid \<and> d_update_id x = uid")
      case True
      then have "\<forall>x \<in> set (rd_list data). \<not> (d_sync_id x = sid \<and> d_update_id x = did)" using al False kd by (auto simp: update_allowed_def)
      from match_loop_copy [OF False this True] have "handle_recv_or_delete alloc_ok r now sid uid k did v = Some (E_NONE, r)"
        using g m(1) by (simp add: handle_recv_or_delete_def)
      moreover have "after_update now sid uid did (?new) (kept r k) = kept r k" using True False kd by (auto simp: after_update_def)
      ultimately show ?thesis using ok by (intro exI [of _ r] exI [of _ ?i]) simp
    next
      case fresh: False
      define M where "M \<longleftrightarrow> (\<exists>x \<in> set (rd_list data). d_sync_id x = sid \<and> d_update_id x = did)"
      let ?g = "if M then now + GC_DELAY else 0"
      let ?keep = "filter (\<lambda>x. \<not> (d_sync_id x = sid \<and> d_update_id x = did)) (rd_list data)"
      let ?l = "?keep @ [?new ?g]"
      have inj: "\<exists>x \<in> set (rd_list data). d_sync_id x = sid \<and> d_update_id x = did \<and> d_id y = d_id x \<Longrightarrow> d_sync_id y = sid \<and> d_update_id y = did"
        if "y \<in> set (rd_list data)" for y using dist that by (metis distinct_map inj_onD)
      then have keep: "filter (\<lambda>y. \<not> (\<exists>x \<in> set (rd_list data). d_sync_id x = sid \<and> d_update_id x = did \<and> d_id y = d_id x)) (rd_list data) = ?keep"
        by (intro filter_cong refl) blast
      have ml: "match_loop now sid uid did a (rd_list data) 0 r = Some (Inr (?g, set_list a ?keep r))"
        using match_loop_delete [OF False _ m(1), of "rd_list data" sid uid now 0] fresh unfolding keep M_def by blast
      let ?r = "r\<lparr>r_brk := r_brk r + 1, r_mem := (r_mem r)(a \<mapsto> data\<lparr>rd_list := ?l\<rparr>), r_gc := r_gc r @ (if M then [(a, ?i)] else [])\<rparr>"
      have nd: "(if M then (?new 0)\<lparr>d_gc_time := now + GC_DELAY\<rparr> else ?new 0) = ?new ?g"
        by (cases M) (simp_all only: if_True if_False, simp_all add: new_datum_def)
      have "handle_recv_or_delete alloc_ok r now sid uid k did v = Some (E_NONE, ?r)"
        using g m(1) ml t newb nd
        by (cases M) (simp_all only: if_True if_False, simp_all add: handle_recv_or_delete_def recv_datum_new_ok [OF len] set_list_def link_gc_def Let_def new_datum_def)
      moreover have "recv_ok ?r \<and> kept ?r = (kept r)(rd_key data := ?l)"
      proof (rule recv_ok_set_list [OF ok m(1)])
        show "distinct (map d_id ?l)" using dist newb by (auto simp: new_datum_def distinct_map_filter)
        show "\<forall>x \<in> set ?l. d_data x = a \<and> d_id x < r_brk ?r \<and> ((a, d_id x) \<in> set (r_gc ?r) \<longleftrightarrow> d_gc_time x \<noteq> 0)"
        proof
          fix x assume "x \<in> set ?l"
          then consider "x \<in> set (rd_list data)" | "x = ?new ?g" by auto
          then show "d_data x = a \<and> d_id x < r_brk ?r \<and> ((a, d_id x) \<in> set (r_gc ?r) \<longleftrightarrow> d_gc_time x \<noteq> 0)"
          proof cases
            case 1
            then have "d_id x \<noteq> ?i" using newb(1) by (metis imageI)
            then show ?thesis using dat [OF 1] gc [OF 1] by (cases M) simp_all
          next
            case 2
            then show ?thesis using newb(2) t by (cases M) (simp_all add: new_datum_def)
          qed
        qed
        show "distinct (r_gc ?r)" using recv_okD(9) [OF ok] newb(2) by (cases M) auto
        have "e \<in> d_id ` set ?keep" if e: "(a, e) \<in> set (r_gc r)" for e
        proof -
          obtain y where y: "y \<in> set (rd_list data)" "d_id y = e" using recv_okD(10) [OF ok e] m(1) by auto
          then have "d_gc_time y \<noteq> 0" using gc e by auto
          then have "\<not> (d_sync_id y = sid \<and> d_update_id y = did)" using al False kd y by (auto simp: update_allowed_def)
          then show ?thesis using y by auto
        qed
        then show "\<forall>(b, e) \<in> set (r_gc ?r). b = a \<longrightarrow> e \<in> d_id ` set ?l" by (cases M) (auto simp: new_datum_def)
      qed auto
      moreover have "after_update now sid uid did ?new (kept r k) = ?l"
        using False fresh kd unfolding after_update_def M_def by (simp only: if_False)
      ultimately show ?thesis using m(2) kd by (intro exI [of _ ?r] exI [of _ ?i]) (simp add: same_head_def)
    qed
  qed
qed

lemma handle_ok:
  assumes ok: "recv_ok r" and len: "length k \<le> KVPSYNC_MAX_LEN" "length v \<le> KVPSYNC_MAX_LEN"
    and al: "update_allowed sid uid did (kept r k)" and t: "now + GC_DELAY \<noteq> 0"
  shows "\<exists>r' i a. handle_recv_or_delete alloc_ok r now sid uid k did v = Some (E_NONE, r') \<and> recv_ok r' \<and> same_head r r' \<and>
    kept r' = (kept r)(k := after_update now sid uid did (new_datum i a sid uid did v) (kept r k))"
proof (cases rule: kept_cases [OF ok, of k])
  case 1
  then show ?thesis using handle_first [OF ok 1(1) len, of now sid uid did] by (auto simp: after_update_def)
next
  case (2 a data)
  then show ?thesis using handle_further [OF ok 2(1) len(2) al t] by blast
qed

end
