(* ===== verification/Kvp_Sync.thy ===== *)
theory Kvp_Sync
  imports Kvp_Recv
begin

text \<open>
  The receiver of the key-value protocol under all orders of delivery: the reachable states, that no
  reachable state is stuck, and that the answers converge to the map the sender means.
\<close>

section \<open>Packets of a well-behaved sender\<close>

definition is_data :: "kvp_update \<Rightarrow> bool" where
  "is_data u \<longleftrightarrow> utype u = KVP_UPDATE_INSERT \<or> utype u = KVP_UPDATE_DELETE"

definition ukey :: "kvp_update \<Rightarrow> byte list" where
  "ukey u = take (unat (klen u)) (key u)"

definition uval :: "kvp_update \<Rightarrow> byte list" where
  "uval u = take (unat (vlen u)) (val u)"

text \<open>
  Within a sync, the number of an update is not zero and decides what it deletes, and what is deleted
  is not itself a deletion.
\<close>

definition honest :: "kvp_update set \<Rightarrow> bool" where
  "honest P \<longleftrightarrow> (\<forall>p \<in> P. \<forall>b. utype p \<noteq> KVP_UPDATE_UNKNOWN b) \<and> (\<forall>p \<in> P. is_data p \<longrightarrow> update_id p \<noteq> 0) \<and>
     (\<forall>p \<in> P. \<forall>q \<in> P. is_data p \<and> is_data q \<and> sync_id p = sync_id q \<and> update_id p = update_id q \<longrightarrow> delete_id p = delete_id q) \<and>
     (\<forall>p \<in> P. \<forall>q \<in> P. is_data p \<and> is_data q \<and> sync_id p = sync_id q \<and> delete_id p \<noteq> 0 \<and> delete_id p = update_id q \<longrightarrow> delete_id q = 0)"

text \<open>A datum that says what a packet said.\<close>

definition tells :: "recv_datum \<Rightarrow> kvp_update \<Rightarrow> bool" where
  "tells x p \<longleftrightarrow> is_data p \<and> sync_id p = d_sync_id x \<and> update_id p = d_update_id x \<and> delete_id p = d_delete_id x \<and> uval p = d_val x"

text \<open>
  What is held for a key comes from packets, only deletions are on a timer, and a deletion and what
  it deletes are never held together.
\<close>

definition datums_ok :: "kvp_update set \<Rightarrow> byte list \<Rightarrow> recv_datum list \<Rightarrow> bool" where
  "datums_ok P k xs \<longleftrightarrow> (\<forall>x \<in> set xs. \<exists>p \<in> P. tells x p \<and> ukey p = k) \<and>
     (\<forall>x \<in> set xs. d_gc_time x \<noteq> 0 \<longrightarrow> d_delete_id x \<noteq> 0) \<and>
     (\<forall>x \<in> set xs. \<forall>y \<in> set xs. d_sync_id x = d_sync_id y \<and> d_delete_id x \<noteq> 0 \<longrightarrow> d_delete_id x \<noteq> d_update_id y)"

definition recv_inv :: "kvp_update set \<Rightarrow> kvpsync_recv \<Rightarrow> bool" where
  "recv_inv P r \<longleftrightarrow> recv_ok r \<and> (\<forall>k. datums_ok P k (kept r k))"

lemma datums_ok_filter: "datums_ok P k xs \<Longrightarrow> datums_ok P k (filter Q xs)"
  by (simp add: datums_ok_def)

lemma datums_ok_parts:
  assumes "datums_ok P k xs"
  shows "\<forall>x \<in> set xs. \<exists>p \<in> P. tells x p \<and> ukey p = k" "\<forall>x \<in> set xs. d_gc_time x \<noteq> 0 \<longrightarrow> d_delete_id x \<noteq> 0"
    "\<forall>x \<in> set xs. \<forall>y \<in> set xs. d_sync_id x = d_sync_id y \<and> d_delete_id x \<noteq> 0 \<longrightarrow> d_delete_id x \<noteq> d_update_id y"
  using assms unfolding datums_ok_def by - (elim conjE, assumption)+

lemma honest_parts:
  assumes "honest P"
  shows "\<forall>p \<in> P. \<forall>b. utype p \<noteq> KVP_UPDATE_UNKNOWN b" "\<forall>p \<in> P. is_data p \<longrightarrow> update_id p \<noteq> 0"
    "\<forall>p \<in> P. \<forall>q \<in> P. is_data p \<and> is_data q \<and> sync_id p = sync_id q \<and> update_id p = update_id q \<longrightarrow> delete_id p = delete_id q"
    "\<forall>p \<in> P. \<forall>q \<in> P. is_data p \<and> is_data q \<and> sync_id p = sync_id q \<and> delete_id p \<noteq> 0 \<and> delete_id p = update_id q \<longrightarrow> delete_id q = 0"
  using assms unfolding honest_def by - (elim conjE, assumption)+

lemmas datums_okD = datums_ok_parts [rule_format]
lemmas honestD = honest_parts [rule_format]

lemma honest_allowed:
  assumes h: "honest P" and p: "p \<in> P" "is_data p" and d: "datums_ok P k xs"
  shows "update_allowed (sync_id p) (update_id p) (delete_id p) xs"
  unfolding update_allowed_def
proof (intro impI ballI conjI)
  fix x assume n: "delete_id p \<noteq> 0" and x: "x \<in> set xs" "d_sync_id x = sync_id p" "d_update_id x = delete_id p"
  obtain q where q: "q \<in> P" "tells x q" using datums_okD(1) [OF d x(1)] by blast
  have "delete_id q = 0" using honestD(4) [OF h p(1) q(1)] p(2) q(2) x n by (simp add: tells_def)
  then show "d_gc_time x = 0" using datums_okD(2) [OF d x(1)] q(2) by (auto simp: tells_def)
  fix y assume y: "y \<in> set xs" "d_sync_id y = sync_id p"
  obtain q' where q': "q' \<in> P" "tells y q'" using datums_okD(1) [OF d y(1)] by blast
  show "d_update_id y \<noteq> update_id p"
  proof
    assume "d_update_id y = update_id p"
    then have "d_delete_id y = delete_id p" using honestD(3) [OF h p(1) q'(1)] p(2) q'(2) y by (simp add: tells_def)
    then show False using datums_okD(3) [OF d y(1) x(1)] x y n by simp
  qed
qed

lemma datums_ok_update:
  assumes h: "honest P" and p: "p \<in> P" "is_data p" "ukey p = k" and d: "datums_ok P k xs"
    and ids: "\<And>x y. x \<in> set xs \<Longrightarrow> y \<in> set xs \<Longrightarrow> d_id x = d_id y \<Longrightarrow> x = y"
  shows "datums_ok P k (after_update now (sync_id p) (update_id p) (delete_id p) (new_datum i a (sync_id p) (update_id p) (delete_id p) (uval p)) xs)"
proof (cases "delete_id p = 0")
  case True
  let ?f = "find (\<lambda>x. d_sync_id x = sync_id p \<and> (d_update_id x = update_id p \<or> d_delete_id x = update_id p)) xs"
  let ?n = "new_datum i a (sync_id p) (update_id p) (delete_id p) (uval p) 0"
  show ?thesis
  proof (cases ?f)
    case None
    then have none: "d_delete_id x \<noteq> update_id p" if "x \<in> set xs" "d_sync_id x = sync_id p" for x using that by (auto simp: find_None_iff)
    have "tells ?n p" using p by (simp add: tells_def new_datum_def)
    then have "datums_ok P k (xs @ [?n])"
      using d p(1,3) none True by (auto simp: datums_ok_def new_datum_def)
    then show ?thesis using True None by (simp add: after_update_def)
  next
    case (Some x)
    then have x: "x \<in> set xs" "d_update_id x = update_id p \<or> d_delete_id x = update_id p" by (auto simp: find_Some_iff)
    let ?g = "\<lambda>y. if d_id y = d_id x then y\<lparr>d_gc_time := now + GC_DELAY\<rparr> else y"
    have g: "tells (?g y) q = tells y q" "d_sync_id (?g y) = d_sync_id y" "d_update_id (?g y) = d_update_id y" "d_delete_id (?g y) = d_delete_id y" for y q
      by (simp_all add: tells_def)
    have "datums_ok P k (map ?g xs)" if "d_delete_id x = update_id p"
    proof -
      have "d_delete_id y \<noteq> 0" if "y \<in> set xs" "d_gc_time (?g y) \<noteq> 0" for y
        using that ids [OF _ x(1), of y] datums_okD(2) [OF d, of y] honestD(2) [OF h p(1,2)] \<open>d_delete_id x = update_id p\<close> by (auto split: if_splits)
      then show ?thesis using d unfolding datums_ok_def by (simp only: g set_map ball_simps) blast
    qed
    then show ?thesis using True Some x(2) d by (auto simp: after_update_def)
  qed
next
  case False
  show ?thesis
  proof (cases "\<exists>x \<in> set xs. d_sync_id x = sync_id p \<and> d_update_id x = update_id p")
    case True
    then show ?thesis using d False unfolding after_update_def by (simp only: if_True if_False)
  next
    case fresh: False
    let ?n = "\<lambda>g. new_datum i a (sync_id p) (update_id p) (delete_id p) (uval p) g"
    let ?keep = "filter (\<lambda>x. \<not> (d_sync_id x = sync_id p \<and> d_update_id x = delete_id p)) xs"
    have "d_delete_id x \<noteq> update_id p" if x: "x \<in> set xs" "d_sync_id x = sync_id p" for x
    proof -
      obtain q where q: "q \<in> P" "tells x q" using datums_okD(1) [OF d x(1)] by blast
      then show ?thesis using honestD(4) [OF h q(1) p(1)] p(2) x False honestD(2) [OF h p(1,2)] by (auto simp: tells_def)
    qed
    moreover have "tells (?n g) p" for g using p by (simp add: tells_def new_datum_def)
    moreover have "delete_id p \<noteq> update_id p" using honestD(4) [OF h p(1) p(1)] p(2) False by auto
    ultimately have "datums_ok P k (?keep @ [?n g])" for g
      using d p(1,3) False unfolding datums_ok_def by (auto simp: new_datum_def)
    then show ?thesis using False fresh unfolding after_update_def by (simp only: if_False)
  qed
qed

section \<open>The effect of a packet\<close>

text \<open>What a packet does to the datums of a key, after the collection of garbage.\<close>

definition effect :: "xtime \<Rightarrow> kvp_update \<Rightarrow> (nat \<Rightarrow> nat \<Rightarrow> byte list \<Rightarrow> recv_datum list \<Rightarrow> recv_datum list)" where
  "effect now u i a k xs =
     (if utype u = KVP_UPDATE_FLUSH then filter (\<lambda>x. d_sync_id x = sync_id u) xs
      else if is_data u \<and> k = ukey u
        then after_update now (sync_id u) (update_id u) (delete_id u) (new_datum i a (sync_id u) (update_id u) (delete_id u) (uval u)) xs
      else xs)"

lemma byte_le: "unat (b :: byte) \<le> KVPSYNC_MAX_LEN"
  using byte_unat_less [of b] unfolding KVPSYNC_MAX_LEN_def by linarith

lemma ukey_len: "length (ukey u) \<le> KVPSYNC_MAX_LEN"
  unfolding ukey_def length_take by (rule min.coboundedI2) (rule byte_le)

lemma uval_len: "length (uval u) \<le> KVPSYNC_MAX_LEN"
  unfolding uval_def length_take by (rule min.coboundedI2) (rule byte_le)

lemma kept_ids:
  assumes "recv_ok r" "x \<in> set (kept r k)" "y \<in> set (kept r k)" "d_id x = d_id y"
  shows "x = y"
  using assms(2-4) by (cases rule: kept_cases [OF assms(1), of k]) (auto simp: distinct_map inj_on_def dest: recv_okD(6) [OF assms(1)])

lemma recv_inv_shrunk: "recv_inv P r \<Longrightarrow> recv_ok r' \<Longrightarrow> shrunk now r r' \<Longrightarrow> recv_inv P r'"
  unfolding recv_inv_def shrunk_def using datums_ok_filter by metis

lemma kept_mem: "r_h r' = r_h r \<Longrightarrow> r_mem r' = r_mem r \<Longrightarrow> kept r' = kept r"
  by (auto simp: kept_def split: option.split)

lemma handle_update_effect:
  assumes inv: "recv_inv P r" and h: "honest P" and u: "u \<in> P" and t: "now + GC_DELAY \<noteq> 0" and ack: "r_initial_sync_acked r"
  shows "\<exists>r1 r' i a. kvpsync_recv_handle_update alloc_ok r now u =
      Some (E_NONE, r', \<lparr>ack_sync_id = sync_id u, ack_update_id = update_id u\<rparr>) \<and>
    recv_inv P r' \<and> recv_ok r1 \<and> shrunk now r r1 \<and> (\<forall>k. kept r' k = effect now u i a k (kept r1 k)) \<and> r_initial_sync_acked r' \<and>
    r_sync_id r' = (if utype u = KVP_UPDATE_FLUSH then sync_id u else r_sync_id r) \<and>
    r_recv_id r' = r_recv_id r \<and> r_ok_expiry r' \<le> max (r_ok_expiry r) (ok_expiry u)"
proof -
  have ok: "recv_ok r" using inv by (simp add: recv_inv_def)
  from do_gc_ok [OF ok, of now] obtain r1 where r1: "do_gc r now = Some r1" "recv_ok r1" "shrunk now r r1" by blast
  have inv1: "recv_inv P r1" using recv_inv_shrunk [OF inv r1(2,3)] .
  have hd: "r_initial_sync_acked r1" "r_sync_id r1 = r_sync_id r" "r_recv_id r1 = r_recv_id r" "r_ok_expiry r1 = r_ok_expiry r"
    using r1(3) ack by (simp_all add: shrunk_def same_head_def)
  define r2 where "r2 = (if sync_id u = r_sync_id r1 then r1\<lparr>r_ok_expiry := max (ok_expiry u) (r_ok_expiry r1)\<rparr> else r1)"
  have k2: "kept r2 = kept r1" by (rule kept_mem) (simp_all add: r2_def)
  then have r2: "kept r2 = kept r1" "r_initial_sync_acked r2" "r_sync_id r2 = r_sync_id r" "recv_ok r2"
    using hd r1(2) by (simp_all add: r2_def recv_ok_def)
  have e2: "r_recv_id r2 = r_recv_id r" "r_ok_expiry r2 \<le> max (r_ok_expiry r) (ok_expiry u)" using hd by (auto simp: r2_def)
  have inv2: "recv_inv P r2" using inv1 r2 by (simp add: recv_inv_def)
  let ?ack = "\<lparr>ack_sync_id = sync_id u, ack_update_id = update_id u\<rparr>"
  consider "utype u = KVP_UPDATE_EMPTY \<or> utype u = KVP_UPDATE_START" | "utype u = KVP_UPDATE_FLUSH" | "is_data u"
    using honestD(1) [OF h u] by (cases "utype u") (auto simp: is_data_def)
  then show ?thesis
  proof cases
    case 1
    then have "kvpsync_recv_handle_update alloc_ok r now u = Some (E_NONE, r2, ?ack)"
      using r1 ack by (auto simp: kvpsync_recv_handle_update_def r2_def Let_def)
    moreover have "effect now u 0 0 k xs = xs" for k xs using 1 by (auto simp: effect_def is_data_def)
    moreover have "utype u \<noteq> KVP_UPDATE_FLUSH" using 1 by auto
    ultimately show ?thesis using inv2 r1 r2 e2 by (intro exI [of _ r1] exI [of _ r2] exI [of _ 0]) simp
  next
    case 2
    let ?r = "r2\<lparr>r_sync_id := sync_id u, r_ok_expiry := max (r_ok_expiry r2) (ok_expiry u)\<rparr>"
    have kr: "kept ?r = kept r1" unfolding r2(1) [symmetric] by (rule kept_mem) simp_all
    have "recv_ok ?r" using r2(4) by (simp add: recv_ok_def)
    from flush_stale_data_ok [OF this] obtain r' where r': "flush_stale_data ?r = Some r'" "recv_ok r'" "same_head ?r r'"
      "\<And>k. kept r' k = filter (\<lambda>x. d_sync_id x = sync_id u) (kept ?r k)" by auto
    have "kvpsync_recv_handle_update alloc_ok r now u = Some (E_NONE, r', ?ack)"
      using r1 ack r2(2) r'(1) 2 by (simp add: kvpsync_recv_handle_update_def r2_def [symmetric] Let_def)
    moreover have "recv_inv P r'" using r'(2,4) inv1 kr by (auto simp: recv_inv_def intro: datums_ok_filter)
    ultimately show ?thesis using r1 r' kr 2 r2(2) e2 by (intro exI [of _ r1] exI [of _ r'] exI [of _ 0]) (simp add: effect_def same_head_def)
  next
    case 3
    then have nf: "utype u \<noteq> KVP_UPDATE_FLUSH" by (auto simp: is_data_def)
    have al: "update_allowed (sync_id u) (update_id u) (delete_id u) (kept r2 (ukey u))"
      using honest_allowed [OF h u 3, of "ukey u" "kept r2 (ukey u)"] inv2 by (simp add: recv_inv_def)
    from handle_ok [OF r2(4) ukey_len uval_len al t] obtain r' i a where
      r': "handle_recv_or_delete alloc_ok r2 now (sync_id u) (update_id u) (ukey u) (delete_id u) (uval u) = Some (E_NONE, r')"
      "recv_ok r'" "same_head r2 r'"
      "kept r' = (kept r2)(ukey u := after_update now (sync_id u) (update_id u) (delete_id u)
        (new_datum i a (sync_id u) (update_id u) (delete_id u) (uval u)) (kept r2 (ukey u)))" by blast
    have "kvpsync_recv_handle_update alloc_ok r now u = Some (E_NONE, r', ?ack)"
      using r1 ack r2(2) r'(1) 3 unfolding kvpsync_recv_handle_update_def is_data_def ukey_def uval_def
      by (elim disjE) (simp_all add: r2_def [symmetric] Let_def)
    moreover have "recv_inv P r'"
      using datums_ok_update [OF h u 3 refl, of "kept r2 (ukey u)"] kept_ids [OF r2(4)] inv2 r'(2,4) by (simp add: recv_inv_def)
    ultimately show ?thesis using r1 r2 r'(2-) 3 nf e2 by (intro exI [of _ r1] exI [of _ r'] exI [of _ i] exI [of _ a]) (simp add: effect_def same_head_def)
  qed
qed

lemma handle_update_unacked:
  assumes "\<not> r_initial_sync_acked r"
  shows "\<exists>b ack. kvpsync_recv_handle_update alloc_ok r now u = Some (E_NONE, r\<lparr>r_initial_sync_acked := b\<rparr>, ack)"
  using assms by (cases r) (auto simp: kvpsync_recv_handle_update_def Let_def)

lemma get_value_ok:
  assumes "recv_ok r"
  shows "\<exists>r' rep. kvpsync_recv_get_value r now k = Some (rep, r') \<and> recv_ok r' \<and> shrunk now r r' \<and>
    rep = (let negative = (if now < r_ok_expiry r then NULL else UNSURE) in
      if r_sync_id r = 0 then UNSURE
      else case best_loop (r_sync_id r) (kept r' k) None 0 of (ans, uid) \<Rightarrow>
        if uid = 0 then negative else case ans of None \<Rightarrow> negative | Some v \<Rightarrow> Answer v)"
proof -
  from do_gc_ok [OF assms, of now] obtain r1 where r1: "do_gc r now = Some r1" "recv_ok r1" "shrunk now r r1" by blast
  then have hd: "r_ok_expiry r1 = r_ok_expiry r" "r_sync_id r1 = r_sync_id r" by (simp_all add: shrunk_def same_head_def)
  show ?thesis
  proof (cases rule: kept_cases [OF r1(2), of k])
    case 1
    then show ?thesis using r1 hd by (simp add: kvpsync_recv_get_value_def Let_def str_table.get_law recv_okD(1))
  next
    case (2 a data)
    then show ?thesis using r1 hd
      by (intro exI [of _ r1]) (simp add: kvpsync_recv_get_value_def Let_def str_table.get_law recv_okD(1) split: prod.split option.split)
  qed
qed

section \<open>Reachable receivers\<close>

text \<open>
  The receiver after it booted, and after any interleaving of packets out of a set and of questions.
  A packet may come any number of times and in any order; only the times at which the sum
  \<open>now + GC_DELAY\<close> is zero modulo $2^{64}$ are left out.
\<close>

inductive recv_reach :: "kvp_update set \<Rightarrow> kvpsync_recv \<Rightarrow> bool" for P where
  boot: "kvpsync_recv_init alloc_ok rnd = Some (E_NONE, Some r) \<Longrightarrow> recv_reach P r"
| packet: "recv_reach P r \<Longrightarrow> u \<in> P \<Longrightarrow> now + GC_DELAY \<noteq> 0 \<Longrightarrow>
    kvpsync_recv_handle_update alloc_ok r now u = Some (e, r', ack) \<Longrightarrow> recv_reach P r'"
| question: "recv_reach P r \<Longrightarrow> kvpsync_recv_get_value r now k = Some (rep, r') \<Longrightarrow> recv_reach P r'"

lemma boot_inv:
  assumes "kvpsync_recv_init alloc_ok rnd = Some (E_NONE, Some r)"
  shows "recv_inv P r \<and> kept r k = []"
proof -
  have m: "hm_ok (r_h r) \<and> hm_map (r_h r) = Map.empty \<and> r_mem r = Map.empty \<and> r_gc r = []"
    using assms by (auto simp: kvpsync_recv_init_def split: option.splits prod.splits dest: hashmap_init_ok)
  then show ?thesis by (auto simp: recv_inv_def recv_ok_def kept_def datums_ok_def)
qed

lemma handle_update_total:
  assumes "recv_inv P r" "honest P" "u \<in> P" "now + GC_DELAY \<noteq> 0"
  shows "\<exists>r' ack. kvpsync_recv_handle_update alloc_ok r now u = Some (E_NONE, r', ack) \<and> recv_inv P r'"
proof (cases "r_initial_sync_acked r")
  case True
  from handle_update_effect [OF assms True] show ?thesis by blast
next
  case False
  from handle_update_unacked [OF this, of now u] obtain b ack where
    "kvpsync_recv_handle_update alloc_ok r now u = Some (E_NONE, r\<lparr>r_initial_sync_acked := b\<rparr>, ack)" by blast
  moreover have "kept (r\<lparr>r_initial_sync_acked := b\<rparr>) = kept r" by (rule kept_mem) simp_all
  ultimately show ?thesis using assms(1) by (simp add: recv_inv_def recv_ok_def)
qed

lemma reach_inv:
  assumes "recv_reach P r" and h: "honest P"
  shows "recv_inv P r"
  using assms(1)
proof (induction rule: recv_reach.induct)
  case (boot rnd r)
  then show ?case using boot_inv by blast
next
  case (packet r u now e r' ack)
  then show ?case using handle_update_total [OF packet.IH h packet.hyps(2,3)] by auto
next
  case (question r now k rep r')
  from get_value_ok [of r now k] question show ?case using recv_inv_shrunk [of P r r' now] by (auto simp: recv_inv_def)
qed

lemma free_ok:
  assumes "recv_ok r"
  shows "\<exists>r'. kvpsync_recv_free r = Some r' \<and> r_mem r' = Map.empty \<and> r_gc r' = []"
proof -
  from for_each_datum_ok [OF assms, of always_should_free "\<lambda>_. True"] obtain r' where
    r': "kvpsync_recv_free r = Some r'" "recv_ok r'" "\<And>k. kept r' k = []"
    by (auto simp: kvpsync_recv_free_def always_should_free_def)
  have "r_mem r' a = None" for a
  proof (cases "r_mem r' a")
    case (Some data)
    from recv_okD(5) [OF r'(2) Some] kept_data [OF r'(2) Some] r'(3) show ?thesis by simp
  qed
  then have m: "r_mem r' = Map.empty" by auto
  moreover have "r_gc r' = []"
  proof (cases "r_gc r'")
    case (Cons p ps)
    obtain a d where "p = (a, d)" by (cases p)
    then show ?thesis using recv_okD(10) [OF r'(2), of a d] Cons m by simp
  qed
  ultimately show ?thesis using r'(1) by blast
qed

text \<open>
  C6. Whatever the order in which the packets of a well-behaved sender arrive, and however often, and
  whatever is asked in between, the receiver is never stuck: the next packet is handled without an
  abort, an error or an access to freed memory, the next question is answered, and the receiver can
  be freed, after which no structure is left allocated.  In every reachable state the table, the
  lists of the keys and the garbage list agree (\<open>recv_ok\<close>), and no deletion is held together with
  the insertion it deletes.
\<close>

theorem kvpsync_recv_safe:
  assumes "recv_reach P r" "honest P"
  shows "recv_inv P r \<and>
    (\<forall>u \<in> P. \<forall>now. now + GC_DELAY \<noteq> 0 \<longrightarrow> (\<exists>r' ack. kvpsync_recv_handle_update alloc_ok r now u = Some (E_NONE, r', ack))) \<and>
    (\<forall>now k. \<exists>rep r'. kvpsync_recv_get_value r now k = Some (rep, r')) \<and>
    (\<exists>r'. kvpsync_recv_free r = Some r' \<and> r_mem r' = Map.empty \<and> r_gc r' = [])"
proof -
  note inv = reach_inv [OF assms]
  then have ok: "recv_ok r" by (simp add: recv_inv_def)
  show ?thesis using inv handle_update_total [OF inv assms(2)] get_value_ok [OF ok] free_ok [OF ok] by blast
qed

end
