(* ===== verification/Kvp_Converge.thy ===== *)
theory Kvp_Converge
  imports Kvp_Sync
begin

text \<open>
  The receiver converges: once every update of a sync was delivered, in any order and with copies
  that are not too late, its answers are those of the map that the sender's updates build.
\<close>

section \<open>The log of a sync\<close>

text \<open>
  A sender numbers its updates upwards, inserts a key only while it is absent, and deletes it by
  the number of its insertion.  The state is the last number and the current map.
\<close>

type_synonym log_state = "u32 \<times> (byte list \<rightharpoonup> u32 \<times> byte list)"

fun log_step :: "u32 \<Rightarrow> kvp_update \<Rightarrow> log_state \<Rightarrow> log_state option" where
  "log_step s u (hi, cur) =
     (if sync_id u \<noteq> s \<or> update_id u \<le> hi then None
      else if utype u = KVP_UPDATE_INSERT \<and> delete_id u = 0 \<and> cur (ukey u) = None
        then Some (update_id u, cur(ukey u \<mapsto> (update_id u, uval u)))
      else if utype u = KVP_UPDATE_DELETE \<and> delete_id u \<noteq> 0 \<and> map_option fst (cur (ukey u)) = Some (delete_id u)
        then Some (update_id u, cur(ukey u := None))
      else None)"

definition log_run :: "u32 \<Rightarrow> kvp_update list \<Rightarrow> log_state option" where
  "log_run s us = fold_opt (log_step s) us (0, Map.empty)"

lemma fold_opt_append: "fold_opt f (xs @ ys) s = (case fold_opt f xs s of None \<Rightarrow> None | Some s' \<Rightarrow> fold_opt f ys s')"
  by (induction xs arbitrary: s) (auto split: option.split)

text \<open>What such a log implies, whatever the order it is read in.\<close>

definition log_inv :: "u32 \<Rightarrow> kvp_update set \<Rightarrow> log_state \<Rightarrow> bool" where
  "log_inv s P st \<longleftrightarrow> (case st of (hi, cur) \<Rightarrow>
     (\<forall>p \<in> P. is_data p \<and> sync_id p = s \<and> update_id p \<noteq> 0 \<and> update_id p \<le> hi) \<and>
     (\<forall>p \<in> P. \<forall>q \<in> P. update_id p = update_id q \<longrightarrow> p = q) \<and>
     (\<forall>q \<in> P. delete_id q \<noteq> 0 \<longrightarrow> (\<exists>p \<in> P. update_id p = delete_id q \<and> delete_id p = 0 \<and> ukey p = ukey q)) \<and>
     (\<forall>p \<in> P. \<forall>q \<in> P. delete_id p \<noteq> 0 \<and> delete_id p = delete_id q \<longrightarrow> p = q) \<and>
     (\<forall>k i v. cur k = Some (i, v) \<longrightarrow> (\<exists>p \<in> P. ukey p = k \<and> update_id p = i \<and> uval p = v \<and> delete_id p = 0)) \<and>
     (\<forall>k i v. \<forall>q \<in> P. cur k = Some (i, v) \<longrightarrow> delete_id q \<noteq> i \<and> (ukey q = k \<and> delete_id q \<noteq> 0 \<longrightarrow> update_id q < i)) \<and>
     (\<forall>p \<in> P. delete_id p = 0 \<longrightarrow> cur (ukey p) = Some (update_id p, uval p) \<or> (\<exists>q \<in> P. delete_id q = update_id p)))"

lemma log_inv_parts:
  assumes "log_inv s P (hi, cur)"
  shows "\<forall>p \<in> P. is_data p \<and> sync_id p = s \<and> update_id p \<noteq> 0 \<and> update_id p \<le> hi"
    "\<forall>p \<in> P. \<forall>q \<in> P. update_id p = update_id q \<longrightarrow> p = q"
    "\<forall>q \<in> P. delete_id q \<noteq> 0 \<longrightarrow> (\<exists>p \<in> P. update_id p = delete_id q \<and> delete_id p = 0 \<and> ukey p = ukey q)"
    "\<forall>p \<in> P. \<forall>q \<in> P. delete_id p \<noteq> 0 \<and> delete_id p = delete_id q \<longrightarrow> p = q"
    "\<forall>k i v. cur k = Some (i, v) \<longrightarrow> (\<exists>p \<in> P. ukey p = k \<and> update_id p = i \<and> uval p = v \<and> delete_id p = 0)"
    "\<forall>k i v. \<forall>q \<in> P. cur k = Some (i, v) \<longrightarrow> delete_id q \<noteq> i \<and> (ukey q = k \<and> delete_id q \<noteq> 0 \<longrightarrow> update_id q < i)"
    "\<forall>p \<in> P. delete_id p = 0 \<longrightarrow> cur (ukey p) = Some (update_id p, uval p) \<or> (\<exists>q \<in> P. delete_id q = update_id p)"
  using assms unfolding log_inv_def prod.case by - (elim conjE, assumption)+

lemmas log_invD = log_inv_parts [rule_format]

lemma log_inv_insert:
  assumes I: "log_inv s P (hi, cur)" and u: "sync_id u = s" "hi < update_id u" "utype u = KVP_UPDATE_INSERT" "delete_id u = 0" "cur (ukey u) = None"
  shows "log_inv s (insert u P) (update_id u, cur(ukey u \<mapsto> (update_id u, uval u)))"
proof -
  have new: "update_id p \<noteq> update_id u" "update_id p < update_id u" "delete_id p \<noteq> update_id u" if "p \<in> P" for p
  proof -
    have le: "update_id q < update_id u" if "q \<in> P" for q using log_invD(1) [OF I that] u(2) by (meson le_less_trans)
    show "update_id p \<noteq> update_id u" "update_id p < update_id u" using le [OF that] by auto
    show "delete_id p \<noteq> update_id u"
    proof (cases "delete_id p = 0")
      case True
      then show ?thesis using u(2) word_coorder.extremum [of hi] by auto
    next
      case False
      from log_invD(3) [OF I that this] le show ?thesis by (metis less_irrefl)
    qed
  qed
  have uz: "update_id u \<noteq> 0" using u(2) by auto
  show ?thesis
    unfolding log_inv_def prod.case
  proof (intro conjI)
    show "\<forall>p \<in> insert u P. is_data p \<and> sync_id p = s \<and> update_id p \<noteq> 0 \<and> update_id p \<le> update_id u"
      using log_invD(1) [OF I] new u uz by (auto simp: is_data_def less_imp_le)
    show "\<forall>p \<in> insert u P. \<forall>q \<in> insert u P. update_id p = update_id q \<longrightarrow> p = q"
      using log_invD(2) [OF I] new(1) by (metis insertE)
    show "\<forall>q \<in> insert u P. delete_id q \<noteq> 0 \<longrightarrow> (\<exists>p \<in> insert u P. update_id p = delete_id q \<and> delete_id p = 0 \<and> ukey p = ukey q)"
      using log_invD(3) [OF I] u(4) by auto
    show "\<forall>p \<in> insert u P. \<forall>q \<in> insert u P. delete_id p \<noteq> 0 \<and> delete_id p = delete_id q \<longrightarrow> p = q"
      using log_invD(4) [OF I] u(4) by (metis insertE)
    show "\<forall>k i v. (cur(ukey u \<mapsto> (update_id u, uval u))) k = Some (i, v) \<longrightarrow>
        (\<exists>p \<in> insert u P. ukey p = k \<and> update_id p = i \<and> uval p = v \<and> delete_id p = 0)"
      using log_invD(5) [OF I] u(4) by auto
    show "\<forall>k i v. \<forall>q \<in> insert u P. (cur(ukey u \<mapsto> (update_id u, uval u))) k = Some (i, v) \<longrightarrow>
        delete_id q \<noteq> i \<and> (ukey q = k \<and> delete_id q \<noteq> 0 \<longrightarrow> update_id q < i)"
    proof (intro allI ballI impI)
      fix k i v q assume q: "q \<in> insert u P" and c: "(cur(ukey u \<mapsto> (update_id u, uval u))) k = Some (i, v)"
      show "delete_id q \<noteq> i \<and> (ukey q = k \<and> delete_id q \<noteq> 0 \<longrightarrow> update_id q < i)"
      proof (cases "k = ukey u")
        case True
        then show ?thesis using c q new u(4) uz by auto
      next
        case False
        then have c': "cur k = Some (i, v)" using c by simp
        have "i \<noteq> 0" using log_invD(5) [OF I c'] log_invD(1) [OF I] by auto
        then show ?thesis using q log_invD(6) [OF I _ c'] u(4) by auto
      qed
    qed
    show "\<forall>p \<in> insert u P. delete_id p = 0 \<longrightarrow>
        (cur(ukey u \<mapsto> (update_id u, uval u))) (ukey p) = Some (update_id p, uval p) \<or> (\<exists>q \<in> insert u P. delete_id q = update_id p)"
      using log_invD(7) [OF I] u(5) by fastforce
  qed
qed

lemma log_inv_delete:
  assumes I: "log_inv s P (hi, cur)" and u: "sync_id u = s" "hi < update_id u" "utype u = KVP_UPDATE_DELETE" "cur (ukey u) = Some (delete_id u, w)"
  shows "log_inv s (insert u P) (update_id u, cur(ukey u := None))"
proof -
  have le: "update_id q < update_id u" if "q \<in> P" for q using log_invD(1) [OF I that] u(2) by (meson le_less_trans)
  have new: "update_id p \<noteq> update_id u" "delete_id p \<noteq> delete_id u" if "p \<in> P" for p
    using le [OF that] log_invD(6) [OF I that u(4)] by auto
  have uz: "update_id u \<noteq> 0" using u(2) by auto
  from log_invD(5) [OF I u(4)] obtain p0 where p0: "p0 \<in> P" "ukey p0 = ukey u" "update_id p0 = delete_id u" "delete_id p0 = 0" by auto
  then have dz: "delete_id u \<noteq> 0" using log_invD(1) [OF I] by metis
  show ?thesis
    unfolding log_inv_def prod.case
  proof (intro conjI)
    show "\<forall>p \<in> insert u P. is_data p \<and> sync_id p = s \<and> update_id p \<noteq> 0 \<and> update_id p \<le> update_id u"
      using log_invD(1) [OF I] le u uz by (auto simp: is_data_def less_imp_le)
    show "\<forall>p \<in> insert u P. \<forall>q \<in> insert u P. update_id p = update_id q \<longrightarrow> p = q"
      using log_invD(2) [OF I] new(1) by (metis insertE)
    show "\<forall>q \<in> insert u P. delete_id q \<noteq> 0 \<longrightarrow> (\<exists>p \<in> insert u P. update_id p = delete_id q \<and> delete_id p = 0 \<and> ukey p = ukey q)"
      using log_invD(3) [OF I] p0 by auto
    show "\<forall>p \<in> insert u P. \<forall>q \<in> insert u P. delete_id p \<noteq> 0 \<and> delete_id p = delete_id q \<longrightarrow> p = q"
      using log_invD(4) [OF I] new(2) by (metis insertE)
    show "\<forall>k i v. (cur(ukey u := None)) k = Some (i, v) \<longrightarrow> (\<exists>p \<in> insert u P. ukey p = k \<and> update_id p = i \<and> uval p = v \<and> delete_id p = 0)"
      using log_invD(5) [OF I] by auto
    show "\<forall>k i v. \<forall>q \<in> insert u P. (cur(ukey u := None)) k = Some (i, v) \<longrightarrow>
        delete_id q \<noteq> i \<and> (ukey q = k \<and> delete_id q \<noteq> 0 \<longrightarrow> update_id q < i)"
    proof (intro allI ballI impI)
      fix k i v q assume q: "q \<in> insert u P" and "(cur(ukey u := None)) k = Some (i, v)"
      then have k: "k \<noteq> ukey u" and c: "cur k = Some (i, v)" by (auto split: if_splits)
      have "delete_id u \<noteq> i" using log_invD(5) [OF I c] log_invD(2) [OF I p0(1)] p0 k by metis
      then show "delete_id q \<noteq> i \<and> (ukey q = k \<and> delete_id q \<noteq> 0 \<longrightarrow> update_id q < i)"
        using q log_invD(6) [OF I _ c] k by auto
    qed
    show "\<forall>p \<in> insert u P. delete_id p = 0 \<longrightarrow>
        (cur(ukey u := None)) (ukey p) = Some (update_id p, uval p) \<or> (\<exists>q \<in> insert u P. delete_id q = update_id p)"
      using log_invD(7) [OF I] u(4) dz by fastforce
  qed
qed

lemma log_run_inv: "log_run s us = Some st \<Longrightarrow> log_inv s (set us) st"
proof (induction us arbitrary: st rule: rev_induct)
  case Nil
  then show ?case by (auto simp: log_run_def log_inv_def)
next
  case (snoc u us)
  then obtain st' where st': "log_run s us = Some st'" "log_step s u st' = Some st"
    by (auto simp: log_run_def fold_opt_append split: option.splits)
  obtain hi cur where c: "st' = (hi, cur)" by (cases st')
  note I = snoc.IH [OF st'(1), unfolded c]
  from st'(2) c consider
    "sync_id u = s" "hi < update_id u" "utype u = KVP_UPDATE_INSERT" "delete_id u = 0" "cur (ukey u) = None" "st = (update_id u, cur(ukey u \<mapsto> (update_id u, uval u)))"
  | w where "sync_id u = s" "hi < update_id u" "utype u = KVP_UPDATE_DELETE" "cur (ukey u) = Some (delete_id u, w)" "st = (update_id u, cur(ukey u := None))"
    by (auto split: if_splits simp: not_le)
  then show ?case
  proof cases
    case 1
    then show ?thesis using log_inv_insert [OF I 1(1-5)] by simp
  next
    case 2
    then show ?thesis using log_inv_delete [OF I 2(1-4)] by simp
  qed
qed

section \<open>Histories\<close>

type_synonym history = "(xtime \<times> kvp_update) list"

text \<open>When an update of the sync was first received.\<close>

definition first_time :: "u32 \<Rightarrow> history \<Rightarrow> u32 \<Rightarrow> xtime option" where
  "first_time s H i = map_option fst (find (\<lambda>(t, u). is_data u \<and> sync_id u = s \<and> update_id u = i) H)"

text \<open>What happens to a receiver: packets, and questions for a key.\<close>

datatype event = Packet (at: xtime) kvp_update | Question (at: xtime) "byte list"

fun packets :: "event list \<Rightarrow> history" where
  "packets [] = []"
| "packets (Packet t u # es) = (t, u) # packets es"
| "packets (Question t k # es) = packets es"

fun run_events :: "event list \<Rightarrow> kvpsync_recv \<Rightarrow> kvpsync_recv option" where
  "run_events [] r = Some r"
| "run_events (Packet now u # es) r =
     (case kvpsync_recv_handle_update alloc_ok r now u of
        Some (E_NONE, r', _) \<Rightarrow> run_events es r'
      | _ \<Rightarrow> None)"
| "run_events (Question now k # es) r =
     (case kvpsync_recv_get_value r now k of
        Some (_, r') \<Rightarrow> run_events es r'
      | None \<Rightarrow> None)"

text \<open>
  No copy of an insertion or of its deletion arrives \<open>GC_DELAY\<close> or more after the first copies of
  both did.
\<close>

definition timely :: "u32 \<Rightarrow> kvp_update set \<Rightarrow> history \<Rightarrow> bool" where
  "timely s P H \<longleftrightarrow> (\<forall>(t, u) \<in> set H. \<forall>q \<in> P. is_data u \<and> sync_id u = s \<and> delete_id q \<noteq> 0 \<and>
     (update_id u = update_id q \<or> update_id u = delete_id q) \<longrightarrow>
       (case (first_time s H (update_id q), first_time s H (delete_id q)) of
          (Some a, Some b) \<Rightarrow> t < max a b + GC_DELAY
        | _ \<Rightarrow> True))"

lemma first_time_snoc:
  "first_time s (H @ [(t, u)]) i =
    (case first_time s H i of
       None \<Rightarrow> if is_data u \<and> sync_id u = s \<and> update_id u = i then Some t else None
     | Some a \<Rightarrow> Some a)"
  by (induction H) (auto simp: first_time_def)

lemma first_time_mem: "first_time s H i = Some a \<Longrightarrow> \<exists>u. (a, u) \<in> set H"
  by (force simp: first_time_def find_Some_iff in_set_conv_nth)

lemma timely_iff:
  "timely s P H \<longleftrightarrow> (\<forall>t u q a b. (t, u) \<in> set H \<and> q \<in> P \<and> is_data u \<and> sync_id u = s \<and> delete_id q \<noteq> 0 \<and>
     (update_id u = update_id q \<or> update_id u = delete_id q) \<and> first_time s H (update_id q) = Some a \<and> first_time s H (delete_id q) = Some b \<longrightarrow>
       t < max a b + GC_DELAY)"
  unfolding timely_def by (fastforce split: option.splits)

lemma timely_snocD:
  assumes "timely s P (H @ [(t, u)])"
  shows "timely s P H"
    "q \<in> P \<and> is_data u \<and> sync_id u = s \<and> delete_id q \<noteq> 0 \<and> (update_id u = update_id q \<or> update_id u = delete_id q) \<and>
      first_time s H (update_id q) = Some a \<and> first_time s H (delete_id q) = Some b \<longrightarrow> t < max a b + GC_DELAY"
proof -
  have ft: "first_time s (H @ [(t, u)]) i = Some c" if "first_time s H i = Some c" for i c using that by (simp add: first_time_snoc)
  show "timely s P H" using assms ft unfolding timely_iff by (simp only: set_append Un_iff) metis
  show "q \<in> P \<and> is_data u \<and> sync_id u = s \<and> delete_id q \<noteq> 0 \<and> (update_id u = update_id q \<or> update_id u = delete_id q) \<and>
      first_time s H (update_id q) = Some a \<and> first_time s H (delete_id q) = Some b \<longrightarrow> t < max a b + GC_DELAY"
    using assms ft unfolding timely_iff by (simp only: set_append Un_iff list.set insert_iff) metis
qed

section \<open>The timers of a key\<close>

text \<open>
  Of the datums of one sync and key, only the number and the timer matter: the number says the rest.
\<close>

type_synonym view = "u32 \<rightharpoonup> xtime"

definition view :: "recv_datum list \<Rightarrow> view" where
  "view ys = map_of (map (\<lambda>x. (d_update_id x, d_gc_time x)) ys)"

definition of_log :: "u32 \<Rightarrow> kvp_update set \<Rightarrow> byte list \<Rightarrow> recv_datum list \<Rightarrow> bool" where
  "of_log s P k ys \<longleftrightarrow> distinct (map d_update_id ys) \<and> (\<forall>x \<in> set ys. d_sync_id x = s \<and> (\<exists>p \<in> P. tells x p \<and> ukey p = k))"

definition upd_view :: "xtime \<Rightarrow> kvp_update set \<Rightarrow> kvp_update \<Rightarrow> view \<Rightarrow> view" where
  "upd_view t P p M =
     (if M (update_id p) \<noteq> None then M
      else if delete_id p \<noteq> 0 then
        M(delete_id p := None, update_id p \<mapsto> (if M (delete_id p) \<noteq> None then t + GC_DELAY else 0))
      else if \<exists>q \<in> P. delete_id q = update_id p \<and> M (update_id q) \<noteq> None then
        (\<lambda>i. if M i = Some 0 \<and> (\<exists>q \<in> P. delete_id q = update_id p \<and> update_id q = i) then Some (t + GC_DELAY) else M i)
      else M(update_id p \<mapsto> 0))"

lemma view_Some: "distinct (map d_update_id ys) \<Longrightarrow> view ys i = Some g \<longleftrightarrow> (\<exists>x \<in> set ys. d_update_id x = i \<and> d_gc_time x = g)"
  by (subst view_def, subst map_of_eq_Some_iff) (auto simp: comp_def)

lemma view_None: "view ys i = None \<longleftrightarrow> (\<forall>x \<in> set ys. d_update_id x \<noteq> i)"
  by (induction ys) (auto simp: view_def)

lemma view_snoc: "view ys (d_update_id n) = None \<Longrightarrow> view (ys @ [n]) = (view ys)(d_update_id n \<mapsto> d_gc_time n)"
  by (auto simp: view_def map_add_def fun_eq_iff split: option.split)

lemma view_filter: "view (filter (\<lambda>x. d_update_id x \<noteq> i) ys) = (view ys)(i := None)"
  by (induction ys) (auto simp: view_def)

section \<open>Updates of the timers\<close>

definition in_sync :: "u32 \<Rightarrow> recv_datum list \<Rightarrow> recv_datum list" where
  "in_sync s xs = filter (\<lambda>x. d_sync_id x = s) xs"

lemma find_filter: "(\<And>x. P x \<Longrightarrow> Q x) \<Longrightarrow> find P (filter Q xs) = find P xs"
  by (induction xs) auto

lemma new_datum_sel [simp]:
  "d_id (new_datum i a sid uid did v g) = i" "d_sync_id (new_datum i a sid uid did v g) = sid" "d_update_id (new_datum i a sid uid did v g) = uid"
  "d_delete_id (new_datum i a sid uid did v g) = did" "d_gc_time (new_datum i a sid uid did v g) = g" "d_val (new_datum i a sid uid did v g) = v"
  by (simp_all add: new_datum_def)

lemma in_sync_map: "in_sync s (map (\<lambda>y. if c y then y\<lparr>d_gc_time := g\<rparr> else y) xs) = map (\<lambda>y. if c y then y\<lparr>d_gc_time := g\<rparr> else y) (in_sync s xs)"
  by (induction xs) (auto simp: in_sync_def)

lemma in_sync_same:
  "in_sync s (after_update t s uid did (new_datum i a s uid did v) xs) = after_update t s uid did (new_datum i a s uid did v) (in_sync s xs)"
proof (cases "did = 0")
  case True
  have "find (\<lambda>x. d_sync_id x = s \<and> (d_update_id x = uid \<or> d_delete_id x = uid)) (in_sync s xs) =
      find (\<lambda>x. d_sync_id x = s \<and> (d_update_id x = uid \<or> d_delete_id x = uid)) xs"
    unfolding in_sync_def by (rule find_filter) simp
  then show ?thesis unfolding after_update_def using True by (auto simp: in_sync_map split: option.split) (simp add: in_sync_def)
next
  case False
  have "(\<exists>x \<in> set (in_sync s xs). d_sync_id x = s \<and> d_update_id x = j) \<longleftrightarrow> (\<exists>x \<in> set xs. d_sync_id x = s \<and> d_update_id x = j)" for j
    by (auto simp: in_sync_def)
  moreover have "in_sync s (filter Q xs @ [new_datum i a s uid did v g]) = filter Q (in_sync s xs) @ [new_datum i a s uid did v g]" for Q g
    by (simp add: in_sync_def conj_commute)
  ultimately show ?thesis unfolding after_update_def using False by (simp only: if_False split: if_split) blast
qed

lemma in_sync_other:
  assumes "sid \<noteq> s" and ids: "\<And>x y. x \<in> set xs \<Longrightarrow> y \<in> set xs \<Longrightarrow> d_id x = d_id y \<Longrightarrow> x = y"
  shows "in_sync s (after_update t sid uid did (new_datum i a sid uid did v) xs) = in_sync s xs"
proof (cases "did = 0")
  case True
  have "map (\<lambda>y. if d_id y = d_id x then y\<lparr>d_gc_time := g\<rparr> else y) (in_sync s xs) = in_sync s xs"
    if "find (\<lambda>x. d_sync_id x = sid \<and> (d_update_id x = uid \<or> d_delete_id x = uid)) xs = Some x" for x g
  proof (rule map_idI)
    fix y assume y: "y \<in> set (in_sync s xs)"
    have "x \<in> set xs" "d_sync_id x = sid" using that by (auto simp: find_Some_iff)
    then have "d_id y \<noteq> d_id x" using y ids [of y x] assms(1) by (auto simp: in_sync_def)
    then show "(if d_id y = d_id x then y\<lparr>d_gc_time := g\<rparr> else y) = y" by simp
  qed
  then show ?thesis unfolding after_update_def using True assms(1) by (auto simp: in_sync_map split: option.split) (simp add: in_sync_def)
next
  case False
  have "in_sync s (filter (\<lambda>x. \<not> (d_sync_id x = sid \<and> d_update_id x = did)) xs @ [new_datum i a sid uid did v g]) = in_sync s xs" for g
    using assms(1) by (auto simp: in_sync_def intro!: filter_cong)
  then show ?thesis unfolding after_update_def using False by (simp only: if_False split: if_split) blast
qed

text \<open>
  The log gives, for a deletion, its insertion and conversely, so that an update acts on the timers
  alone.
\<close>

lemma of_log_the:
  assumes I: "log_inv s P st" and y: "of_log s P k ys" "x \<in> set ys" and p: "p \<in> P" "d_update_id x = update_id p"
  shows "tells x p \<and> ukey p = k"
proof -
  obtain hi cur where "st = (hi, cur)" by (cases st)
  note I = I [unfolded this]
  obtain q where q: "q \<in> P" "tells x q" "ukey q = k" using y by (auto simp: of_log_def)
  then have "q = p" using log_invD(2) [OF I q(1) p(1)] p(2) by (simp add: tells_def)
  then show ?thesis using q by simp
qed

lemma of_log_uniq: "of_log s P k ys \<Longrightarrow> x \<in> set ys \<Longrightarrow> y \<in> set ys \<Longrightarrow> d_update_id x = d_update_id y \<Longrightarrow> x = y"
  unfolding of_log_def by (metis distinct_map inj_onD)

lemma view_after_delete:
  fixes t i a
  assumes y: "of_log s P k ys" and p: "p \<in> P" "ukey p = k" "is_data p" "sync_id p = s" and d: "delete_id p \<noteq> 0" "delete_id p \<noteq> update_id p"
  defines "zs \<equiv> after_update t s (update_id p) (delete_id p) (new_datum i a s (update_id p) (delete_id p) (uval p)) ys"
  shows "of_log s P k zs \<and> view zs = upd_view t P p (view ys)"
proof (cases "view ys (update_id p)")
  case None
  have sy: "\<forall>x \<in> set ys. d_sync_id x = s" using y by (simp add: of_log_def)
  have fr: "\<not> (\<exists>x \<in> set ys. d_sync_id x = s \<and> d_update_id x = update_id p)" using None by (auto simp: view_None)
  let ?g = "if \<exists>x \<in> set ys. d_sync_id x = s \<and> d_update_id x = delete_id p then t + GC_DELAY else 0"
  let ?n = "new_datum i a s (update_id p) (delete_id p) (uval p) ?g"
  let ?keep = "filter (\<lambda>x. d_update_id x \<noteq> delete_id p) ys"
  have keep: "filter (\<lambda>x. \<not> (d_sync_id x = s \<and> d_update_id x = delete_id p)) ys = ?keep" using sy by (intro filter_cong) auto
  have zs: "zs = ?keep @ [?n]" unfolding zs_def after_update_def keep using d(1) fr by (simp only: if_False)
  have "view ?keep (d_update_id ?n) = None" using None by (simp add: view_filter)
  from view_snoc [OF this] have "view zs = (view ys)(delete_id p := None, update_id p \<mapsto> ?g)" unfolding zs view_filter by simp
  moreover have "(\<exists>x \<in> set ys. d_sync_id x = s \<and> d_update_id x = delete_id p) \<longleftrightarrow> view ys (delete_id p) \<noteq> None"
    using sy unfolding view_None by blast
  moreover have "tells (new_datum i a s (update_id p) (delete_id p) (uval p) g) p" for g using p by (simp add: tells_def)
  then have "of_log s P k zs" using y fr p sy unfolding zs of_log_def by (auto simp: distinct_map_filter simp del: if_split)
  ultimately show ?thesis using None d by (simp add: upd_view_def)
next
  case (Some g)
  then have "\<exists>x \<in> set ys. d_sync_id x = s \<and> d_update_id x = update_id p" using y view_None [of ys "update_id p"] by (auto simp: of_log_def)
  then have "zs = ys" unfolding zs_def after_update_def using d(1) by (simp only: if_True if_False)
  then show ?thesis using y Some by (simp add: upd_view_def)
qed

lemma of_log_snoc:
  assumes "of_log s P k ys" "view ys (update_id p) = None" "p \<in> P" "ukey p = k" "tells n p" "d_sync_id n = s" "d_update_id n = update_id p"
  shows "of_log s P k (ys @ [n])"
proof -
  have "update_id p \<notin> set (map d_update_id ys)" using assms(2) by (auto simp: view_None)
  then show ?thesis using assms unfolding of_log_def by auto
qed

lemma view_timer:
  assumes y: "of_log s P k ys" and x: "x \<in> set ys" and ids: "\<And>x y. x \<in> set ys \<Longrightarrow> y \<in> set ys \<Longrightarrow> d_id x = d_id y \<Longrightarrow> x = y"
  shows "view (map (\<lambda>y. if d_id y = d_id x then y\<lparr>d_gc_time := g\<rparr> else y) ys) = (view ys)(d_update_id x \<mapsto> g)"
proof -
  have g: "map_of (map (\<lambda>y. (d_update_id y, if d_update_id y = j then g else d_gc_time y)) zs) i =
      (if i = j \<and> view zs j \<noteq> None then Some g else view zs i)" for zs i j
    by (induction zs) (auto simp: view_def)
  have "(d_id y = d_id x) = (d_update_id y = d_update_id x)" if "y \<in> set ys" for y using ids [OF that x] of_log_uniq [OF y that x] by auto
  then have e: "map (\<lambda>z. (d_update_id z, d_gc_time z)) (map (\<lambda>y. if d_id y = d_id x then y\<lparr>d_gc_time := g\<rparr> else y) ys) =
      map (\<lambda>y. (d_update_id y, if d_update_id y = d_update_id x then g else d_gc_time y)) ys" by simp
  have "view ys (d_update_id x) \<noteq> None" using x by (auto simp: view_None)
  then show ?thesis unfolding view_def [of "map _ _"] e by (auto simp: g fun_eq_iff)
qed

lemma of_log_timer:
  assumes "of_log s P k ys"
  shows "of_log s P k (map (\<lambda>y. if c y then y\<lparr>d_gc_time := g\<rparr> else y) ys)"
proof -
  let ?g = "\<lambda>y. if c y then y\<lparr>d_gc_time := g\<rparr> else y"
  have m: "map d_update_id (map ?g ys) = map d_update_id ys" by simp
  have "tells (?g y) q = tells y q" "d_sync_id (?g y) = d_sync_id y" for y q by (simp_all add: tells_def)
  then show ?thesis using assms unfolding of_log_def m by (simp only: set_map ball_simps) blast
qed

lemma view_after_insert:
  fixes t i a
  assumes I: "log_inv s P st" and y: "of_log s P k ys" and p: "p \<in> P" "ukey p = k" "is_data p" "sync_id p = s" "delete_id p = 0" "update_id p \<noteq> 0"
    and ids: "\<And>x y. x \<in> set ys \<Longrightarrow> y \<in> set ys \<Longrightarrow> d_id x = d_id y \<Longrightarrow> x = y"
    and ex: "\<And>x. x \<in> set ys \<Longrightarrow> d_delete_id x \<noteq> 0 \<Longrightarrow> view ys (d_delete_id x) = None"
  defines "zs \<equiv> after_update t s (update_id p) (delete_id p) (new_datum i a s (update_id p) (delete_id p) (uval p)) ys"
  shows "of_log s P k zs \<and> view zs = upd_view t P p (view ys)"
proof -
  obtain hi cur where "st = (hi, cur)" by (cases st)
  note I' = I [unfolded this]
  let ?f = "find (\<lambda>x. d_sync_id x = s \<and> (d_update_id x = update_id p \<or> d_delete_id x = update_id p)) ys"
  have sy: "d_sync_id x = s" if "x \<in> set ys" for x using y that by (simp add: of_log_def)
  show ?thesis
  proof (cases ?f)
    case None
    then have none: "d_update_id x \<noteq> update_id p" "d_delete_id x \<noteq> update_id p" if "x \<in> set ys" for x using that sy by (auto simp: find_None_iff)
    have "view ys (update_id q) = None" if q: "q \<in> P" "delete_id q = update_id p" for q
      unfolding view_None
    proof
      fix x assume "x \<in> set ys"
      with of_log_the [OF I y this q(1)] none(2) [OF this] q(2) show "d_update_id x \<noteq> update_id q" by (auto simp: tells_def)
    qed
    moreover have vn: "view ys (update_id p) = None" using none(1) by (simp add: view_None)
    ultimately have "upd_view t P p (view ys) = (view ys)(update_id p \<mapsto> 0)" using p(5) by (auto simp: upd_view_def)
    moreover have zs: "zs = ys @ [new_datum i a s (update_id p) (delete_id p) (uval p) 0]" using None p(5) by (simp add: zs_def after_update_def)
    moreover have "tells (new_datum i a s (update_id p) (delete_id p) (uval p) 0) p" using p by (simp add: tells_def)
    then have "of_log s P k zs" using of_log_snoc [OF y vn p(1,2)] zs by simp
    ultimately show ?thesis using view_snoc [of ys "new_datum i a s (update_id p) (delete_id p) (uval p) 0"] vn by simp
  next
    case (Some x)
    then have x: "x \<in> set ys" "d_update_id x = update_id p \<or> d_delete_id x = update_id p" by (auto simp: find_Some_iff)
    show ?thesis
    proof (cases "d_update_id x = update_id p")
      case True
      then have "view ys (update_id p) \<noteq> None" using x(1) by (auto simp: view_None)
      moreover have "zs = ys" using Some True p(5) by (simp add: zs_def after_update_def)
      ultimately show ?thesis using y by (simp add: upd_view_def)
    next
      case False
      then have dx: "d_delete_id x = update_id p" using x by simp
      then have vn: "view ys (update_id p) = None" using ex [OF x(1)] p(6) by simp
      obtain q where q: "q \<in> P" "tells x q" using y x(1) by (auto simp: of_log_def)
      then have dq: "delete_id q = update_id p" "update_id q = d_update_id x" using dx by (auto simp: tells_def)
      have uq: "q' = q" if "q' \<in> P" "delete_id q' = update_id p" for q'
        using log_invD(4) [OF I' that(1) q(1)] that dq p(6) by simp
      have vx: "view ys (d_update_id x) = Some (d_gc_time x)" using view_Some [of ys] x(1) y by (auto simp: of_log_def)
      have "\<exists>q \<in> P. delete_id q = update_id p \<and> view ys (update_id q) \<noteq> None" using q(1) dq vx by auto
      moreover have "(\<exists>q \<in> P. delete_id q = update_id p \<and> update_id q = i) \<longleftrightarrow> i = d_update_id x" for i using uq q(1) dq by metis
      ultimately have uv: "upd_view t P p (view ys) = (if d_gc_time x = 0 then (view ys)(d_update_id x \<mapsto> t + GC_DELAY) else view ys)"
        using vn p(5) vx by (auto simp: upd_view_def fun_eq_iff)
      have "zs = (if d_gc_time x \<noteq> 0 then ys else map (\<lambda>y. if d_id y = d_id x then y\<lparr>d_gc_time := t + GC_DELAY\<rparr> else y) ys)"
        using Some False p(5) by (simp add: zs_def after_update_def)
      moreover have "view (map (\<lambda>y. if d_id y = d_id x then y\<lparr>d_gc_time := t + GC_DELAY\<rparr> else y) ys) = (view ys)(d_update_id x \<mapsto> t + GC_DELAY)"
        by (rule view_timer [OF y x(1) ids])
      ultimately show ?thesis using uv y of_log_timer [OF y] by (cases "d_gc_time x = 0") (simp_all only: if_True if_False simp_thms)
    qed
  qed
qed

section \<open>Timers against the history\<close>

text \<open>
  With \<open>F\<close> the times at which the updates were first received: an insertion is held from its arrival
  until that of its deletion; a deletion is held from its arrival, without a timer until its insertion
  came, and at least until its timer runs out.
\<close>

definition ins_rule :: "kvp_update set \<Rightarrow> (u32 \<rightharpoonup> xtime) \<Rightarrow> view \<Rightarrow> kvp_update \<Rightarrow> bool" where
  "ins_rule P F M p \<longleftrightarrow>
     M (update_id p) = (if F (update_id p) \<noteq> None \<and> (\<forall>q \<in> P. delete_id q = update_id p \<longrightarrow> F (update_id q) = None) then Some 0 else None)"

definition del_rule :: "(u32 \<rightharpoonup> xtime) \<Rightarrow> xtime \<Rightarrow> view \<Rightarrow> kvp_update \<Rightarrow> bool" where
  "del_rule F now M q \<longleftrightarrow>
     (case F (update_id q) of
        None \<Rightarrow> M (update_id q) = None
      | Some a \<Rightarrow> (case F (delete_id q) of
          None \<Rightarrow> M (update_id q) = Some 0
        | Some b \<Rightarrow> M (update_id q) = Some (max a b + GC_DELAY) \<or> M (update_id q) = None \<and> max a b + GC_DELAY \<le> now))"

definition conv :: "kvp_update set \<Rightarrow> (u32 \<rightharpoonup> xtime) \<Rightarrow> xtime \<Rightarrow> byte list \<Rightarrow> view \<Rightarrow> bool" where
  "conv P F now k M \<longleftrightarrow>
     (\<forall>p \<in> P. ukey p = k \<longrightarrow> (if delete_id p = 0 then ins_rule P F M p else del_rule F now M p))"

lemma convI:
  "(\<And>p. p \<in> P \<Longrightarrow> ukey p = k \<and> delete_id p = 0 \<Longrightarrow> ins_rule P F M p) \<Longrightarrow>
   (\<And>p. p \<in> P \<Longrightarrow> ukey p = k \<and> delete_id p \<noteq> 0 \<Longrightarrow> del_rule F now M p) \<Longrightarrow> conv P F now k M"
  by (simp add: conv_def)

lemma conv_rules:
  assumes "conv P F now k M" "p \<in> P"
  shows "ukey p = k \<and> delete_id p = 0 \<Longrightarrow> ins_rule P F M p" "ukey p = k \<and> delete_id p \<noteq> 0 \<Longrightarrow> del_rule F now M p"
  using assms by (auto simp: conv_def)

lemmas convD = conv_rules [unfolded ins_rule_def del_rule_def]

lemma ins_rule_cong:
  assumes "ins_rule P F M p" "M' (update_id p) = M (update_id p)" "F' (update_id p) = F (update_id p)"
    "\<And>q. q \<in> P \<Longrightarrow> delete_id q = update_id p \<Longrightarrow> F' (update_id q) = F (update_id q)"
  shows "ins_rule P F' M' p"
proof -
  have "(\<forall>q \<in> P. delete_id q = update_id p \<longrightarrow> F' (update_id q) = None) \<longleftrightarrow> (\<forall>q \<in> P. delete_id q = update_id p \<longrightarrow> F (update_id q) = None)"
    using assms(4) by metis
  then show ?thesis using assms(1-3) unfolding ins_rule_def by presburger
qed

lemma del_rule_cong:
  "del_rule F t M q \<Longrightarrow> M' (update_id q) = M (update_id q) \<Longrightarrow> F' (update_id q) = F (update_id q) \<Longrightarrow> F' (delete_id q) = F (delete_id q) \<Longrightarrow>
    del_rule F' t M' q"
  unfolding del_rule_def by presburger

lemma conv_gc:
  assumes c: "conv P F now k M" and le: "now \<le> t" and M': "\<And>i. M' i = M i \<or> M' i = None \<and> (\<exists>g. M i = Some g \<and> g \<noteq> 0 \<and> g \<le> t)"
  shows "conv P F t k M'"
proof -
  have z: "M' i = M i" if "M i = Some 0 \<or> M i = None" for i using M' [of i] that by auto
  have "ins_rule P F M' p"
    if "p \<in> P" "ukey p = k \<and> delete_id p = 0" for p
    using convD(1) [OF c that] z [of "update_id p"] by (simp add: ins_rule_def split: if_splits)
  moreover have "del_rule F t M' q"
    if "q \<in> P" "ukey q = k \<and> delete_id q \<noteq> 0" for q
    using convD(2) [OF c that] z [of "update_id q"] M' [of "update_id q"] le by (auto simp: del_rule_def split: option.splits)
  ultimately show ?thesis by (intro convI)
qed

text \<open>The receipt of an update of the log, for the first time or again.\<close>

lemma conv_copy:
  assumes I: "log_inv s P st" and c: "conv P F t k M" and p: "p \<in> P" "ukey p = k" "F (update_id p) \<noteq> None"
    and tm: "\<And>q a b. q \<in> P \<Longrightarrow> delete_id q \<noteq> 0 \<Longrightarrow> update_id p = update_id q \<or> update_id p = delete_id q \<Longrightarrow>
      F (update_id q) = Some a \<Longrightarrow> F (delete_id q) = Some b \<Longrightarrow> t < max a b + GC_DELAY"
  shows "upd_view t P p M = M"
proof (cases "delete_id p = 0")
  case False
  have "M (update_id p) \<noteq> None"
  proof (cases "F (delete_id p)")
    case None
    then show ?thesis using convD(2) [OF c p(1)] p False by (auto split: option.splits)
  next
    case (Some b)
    obtain a where "F (update_id p) = Some a" using p(3) by auto
    moreover have "t < max a b + GC_DELAY" using tm [OF p(1) False _ calculation Some] by simp
    ultimately show ?thesis using convD(2) [OF c p(1)] p(2) False Some by (auto simp: not_le)
  qed
  then show ?thesis by (simp add: upd_view_def)
next
  case True
  obtain hi cur where "st = (hi, cur)" by (cases st)
  note I' = I [unfolded this]
  have pz: "update_id p \<noteq> 0" using log_invD(1) [OF I' p(1)] by simp
  show ?thesis
  proof (cases "\<exists>q \<in> P. delete_id q = update_id p \<and> F (update_id q) \<noteq> None")
    case t: True
    then obtain q a b where q: "q \<in> P" "delete_id q = update_id p" "F (update_id q) = Some a" "F (delete_id q) = Some b" using p(3) by auto
    have lt: "t < max a b + GC_DELAY" using tm [OF q(1) _ _ q(3,4)] q(2) pz by simp
    have "ukey q = k" using log_invD(3) [OF I' q(1)] log_invD(2) [OF I' _ p(1)] q(2) pz p(2) by metis
    then have "M (update_id q) = Some (max a b + GC_DELAY)" using convD(2) [OF c q(1)] q pz lt by (auto simp: not_le)
    moreover have "max a b + GC_DELAY \<noteq> 0" using lt by auto
    ultimately have "(\<lambda>i. if M i = Some 0 \<and> (\<exists>q \<in> P. delete_id q = update_id p \<and> update_id q = i) then Some (t + GC_DELAY) else M i) = M"
      using log_invD(4) [OF I' q(1)] q(2) pz by fastforce
    moreover have "\<exists>q \<in> P. delete_id q = update_id p \<and> M (update_id q) \<noteq> None" using q \<open>M (update_id q) = _\<close> by blast
    ultimately show ?thesis using True by (simp add: upd_view_def)
  next
    case False
    then have "M (update_id p) = Some 0" using convD(1) [OF c p(1)] p True by auto
    then show ?thesis by (simp add: upd_view_def)
  qed
qed

lemma conv_insert:
  assumes I: "log_inv s P st" and c: "conv P F t k M" and p: "p \<in> P" "ukey p = k" "delete_id p = 0" "F (update_id p) = None"
    and le: "\<And>i a. F i = Some a \<Longrightarrow> a \<le> t"
  shows "conv P (F(update_id p \<mapsto> t)) t k (upd_view t P p M)"
proof -
  obtain hi cur where "st = (hi, cur)" by (cases st)
  note I' = I [unfolded this]
  let ?F = "F(update_id p \<mapsto> t)"
  have pz: "update_id p \<noteq> 0" using log_invD(1) [OF I' p(1)] by simp
  have Mp: "M (update_id p) = None" using convD(1) [OF c p(1)] p by simp
  have del: "update_id q \<noteq> update_id p" if "q \<in> P" "delete_id q \<noteq> 0" for q using log_invD(2) [OF I' that(1) p(1)] that p(3) by auto
  have key: "ukey q = k" if "q \<in> P" "delete_id q = update_id p" for q
    using log_invD(3) [OF I' that(1)] log_invD(2) [OF I' _ p(1)] that(2) pz p(2) by metis
  have uq: "q' = q" if "q \<in> P" "q' \<in> P" "delete_id q = update_id p" "delete_id q' = update_id p" for q q'
    using log_invD(4) [OF I' that(1,2)] that(3,4) pz by simp
  define M' where "M' = upd_view t P p M"
  have M': "M' i = (if i = update_id p then (if \<exists>q \<in> P. delete_id q = update_id p \<and> F (update_id q) \<noteq> None then None else Some 0)
      else if \<exists>q \<in> P. delete_id q = update_id p \<and> update_id q = i \<and> F i \<noteq> None then Some (t + GC_DELAY) else M i)" for i
  proof (cases "\<exists>q \<in> P. delete_id q = update_id p \<and> F (update_id q) \<noteq> None")
    case True
    then obtain q a where q: "q \<in> P" "delete_id q = update_id p" "F (update_id q) = Some a" by auto
    have Mq: "M (update_id q) = Some 0" using convD(2) [OF c q(1)] key q pz p(4) by simp
    have "M' = (\<lambda>i. if M i = Some 0 \<and> (\<exists>q \<in> P. delete_id q = update_id p \<and> update_id q = i) then Some (t + GC_DELAY) else M i)"
      unfolding M'_def upd_view_def using Mp p(3) q Mq by auto
    moreover have "(\<exists>q \<in> P. delete_id q = update_id p \<and> update_id q = i) \<longleftrightarrow> i = update_id q" using uq [OF q(1)] q(1,2) by metis
    moreover have "(\<exists>q \<in> P. delete_id q = update_id p \<and> update_id q = i \<and> F i \<noteq> None) \<longleftrightarrow> i = update_id q" using uq [OF q(1)] q by (metis option.distinct(1))
    ultimately show ?thesis using True Mp Mq del [OF q(1)] q(2) pz by simp
  next
    case False
    then have "M (update_id q) = None" if "q \<in> P" "delete_id q = update_id p" for q using convD(2) [OF c that(1)] key that pz by force
    then have "M' = M(update_id p \<mapsto> 0)" unfolding M'_def upd_view_def using Mp p(3) by auto
    then show ?thesis using False by auto
  qed
  have "conv P ?F t k M'"
  proof (rule convI)
    fix r assume r: "r \<in> P" "ukey r = k \<and> delete_id r = 0"
    have d: "?F (update_id q) = F (update_id q)" if "q \<in> P" "delete_id q = update_id r" for q
      using del [OF that(1)] that(2) log_invD(1) [OF I' r(1)] by auto
    show "ins_rule P ?F M' r"
    proof (cases "update_id r = update_id p")
      case True
      then show ?thesis using d by (auto simp: M' ins_rule_def)
    next
      case False
      moreover have "\<not> (\<exists>q \<in> P. delete_id q = update_id p \<and> update_id q = update_id r \<and> F (update_id r) \<noteq> None)"
        using log_invD(2) [OF I' _ r(1)] r(2) pz by metis
      ultimately have "M' (update_id r) = M (update_id r)" by (simp only: M' if_False)
      then show ?thesis using ins_rule_cong [OF conv_rules(1) [OF c r]] d False by simp
    qed
  next
    fix r assume r: "r \<in> P" "ukey r = k \<and> delete_id r \<noteq> 0"
    have ur: "update_id r \<noteq> update_id p" using del r by simp
    have ex: "(\<exists>q \<in> P. delete_id q = update_id p \<and> update_id q = update_id r \<and> F (update_id r) \<noteq> None) \<longleftrightarrow>
        delete_id r = update_id p \<and> F (update_id r) \<noteq> None" using log_invD(2) [OF I' _ r(1)] r(1) by auto
    show "del_rule ?F t M' r"
    proof (cases "delete_id r = update_id p")
      case True
      then show ?thesis using convD(2) [OF c r] ur ex p(4) le [of "update_id r"] by (auto simp: M' max_def del_rule_def split: option.splits)
    next
      case False
      then have "M' (update_id r) = M (update_id r)" using ur ex by (simp only: M' if_False simp_thms)
      then show ?thesis using del_rule_cong [OF conv_rules(2) [OF c r]] ur False by simp
    qed
  qed
  then show ?thesis by (simp add: M'_def)
qed

lemma conv_delete:
  assumes I: "log_inv s P st" and c: "conv P F t k M" and p: "p \<in> P" "ukey p = k" "delete_id p \<noteq> 0" "F (update_id p) = None"
    and le: "\<And>i a. F i = Some a \<Longrightarrow> a \<le> t"
  shows "conv P (F(update_id p \<mapsto> t)) t k (upd_view t P p M)"
proof -
  obtain hi cur where "st = (hi, cur)" by (cases st)
  note I' = I [unfolded this]
  let ?F = "F(update_id p \<mapsto> t)"
  have Mp: "M (update_id p) = None" using convD(2) [OF c p(1)] p by simp
  obtain w where w: "w \<in> P" "update_id w = delete_id p" "delete_id w = 0" "ukey w = k" using log_invD(3) [OF I' p(1,3)] p(2) by blast
  have ins: "update_id q \<noteq> update_id p" if "q \<in> P" "delete_id q = 0" for q using log_invD(2) [OF I' that(1) p(1)] that p(3) by metis
  have uq: "q = p" if "q \<in> P" "delete_id q = delete_id p" for q using log_invD(4) [OF I' that(1) p(1)] that p(3) by simp
  have "\<forall>q \<in> P. delete_id q = update_id w \<longrightarrow> F (update_id q) = None" using uq w(2) p(4) by metis
  then have Mw: "M (delete_id p) \<noteq> None \<longleftrightarrow> F (delete_id p) \<noteq> None" using convD(1) [OF c w(1)] w by simp
  define M' where "M' = upd_view t P p M"
  have M': "M' = M(delete_id p := None, update_id p \<mapsto> (if F (delete_id p) \<noteq> None then t + GC_DELAY else 0))"
    unfolding M'_def upd_view_def using Mp p(3) Mw by simp
  have ne: "delete_id p \<noteq> update_id p" using ins [OF w(1,3)] w(2) by simp
  have "conv P ?F t k M'"
  proof (rule convI)
    fix r assume r: "r \<in> P" "ukey r = k \<and> delete_id r = 0"
    have ur: "update_id r \<noteq> update_id p" using ins r by simp
    show "ins_rule P ?F M' r"
    proof (cases "update_id r = delete_id p")
      case True
      then show ?thesis using ne p(1) by (auto simp: M' ins_rule_def)
    next
      case False
      have "?F (update_id q) = F (update_id q)" if "q \<in> P" "delete_id q = update_id r" for q
        using log_invD(2) [OF I' that(1) p(1)] that(2) False by auto
      then show ?thesis using ins_rule_cong [OF conv_rules(1) [OF c r]] ur False by (simp add: M')
    qed
  next
    fix r assume r: "r \<in> P" "ukey r = k \<and> delete_id r \<noteq> 0"
    have ur: "update_id r \<noteq> delete_id p" using log_invD(2) [OF I' r(1) w(1)] w r by auto
    have dr: "delete_id r \<noteq> update_id p" using log_invD(3) [OF I' r(1)] r(2) ins by metis
    show "del_rule ?F t M' r"
    proof (cases "update_id r = update_id p")
      case True
      then have "r = p" using log_invD(2) [OF I' r(1) p(1)] by simp
      then show ?thesis using ne le [of "delete_id p"] by (auto simp: M' max_def del_rule_def split: option.splits)
    next
      case False
      then show ?thesis using del_rule_cong [OF conv_rules(2) [OF c r]] ur dr by (simp add: M')
    qed
  qed
  then show ?thesis by (simp add: M'_def)
qed

text \<open>An update for another key.\<close>

lemma conv_other:
  assumes I: "log_inv s P st" and c: "conv P F t k M" and p: "p \<in> P" "ukey p \<noteq> k"
  shows "conv P (F(update_id p := x)) t k M"
proof -
  obtain hi cur where "st = (hi, cur)" by (cases st)
  note I' = I [unfolded this]
  have up: "(F(update_id p := x)) (update_id r) = F (update_id r)" if "r \<in> P" "ukey r = k" for r
    using log_invD(2) [OF I' that(1) p(1)] that(2) p(2) by auto
  have dl: "(F(update_id p := x)) (delete_id r) = F (delete_id r)" if r: "r \<in> P" "ukey r = k \<and> delete_id r \<noteq> 0" for r
    using log_invD(3) [OF I' r(1)] up r(2) by metis
  have pz: "update_id r \<noteq> 0" if "r \<in> P" for r using log_invD(1) [OF I' that] by simp
  have q: "(F(update_id p := x)) (update_id q) = F (update_id q)" if r: "r \<in> P" "ukey r = k" "q \<in> P" "delete_id q = update_id r" for r q
  proof (rule up [OF r(3)])
    show "ukey q = k" using log_invD(3) [OF I' r(3)] log_invD(2) [OF I' _ r(1)] r(2,4) pz [OF r(1)] by metis
  qed
  show ?thesis
  proof (rule convI)
    fix r assume r: "r \<in> P" "ukey r = k \<and> delete_id r = 0"
    show "ins_rule P (F(update_id p := x)) M r" using ins_rule_cong [OF conv_rules(1) [OF c r]] up [OF r(1)] q [OF r(1)] r(2) by blast
  next
    fix r assume r: "r \<in> P" "ukey r = k \<and> delete_id r \<noteq> 0"
    show "del_rule (F(update_id p := x)) t M r" using del_rule_cong [OF conv_rules(2) [OF c r]] up [OF r(1)] dl [OF r] r(2) by blast
  qed
qed

section \<open>One packet of the history\<close>

definition copy_of :: "kvp_update \<Rightarrow> kvp_update \<Rightarrow> bool" where
  "copy_of p u \<longleftrightarrow> is_data u \<and> sync_id u = sync_id p \<and> update_id u = update_id p \<and> delete_id u = delete_id p \<and> ukey u = ukey p \<and> uval u = uval p"

text \<open>
  What may be delivered while the log of sync \<open>s\<close> is: copies of its updates, whatever honest packets
  of other syncs, but no flush of another sync.
\<close>

definition of_sync :: "u32 \<Rightarrow> kvp_update set \<Rightarrow> kvp_update \<Rightarrow> bool" where
  "of_sync s P u \<longleftrightarrow> (is_data u \<and> sync_id u = s \<longrightarrow> (\<exists>p \<in> P. copy_of p u)) \<and> (utype u = KVP_UPDATE_FLUSH \<longrightarrow> sync_id u = s)"

definition synced :: "u32 \<Rightarrow> kvp_update set \<Rightarrow> (u32 \<rightharpoonup> xtime) \<Rightarrow> xtime \<Rightarrow> kvpsync_recv \<Rightarrow> bool" where
  "synced s P F now r \<longleftrightarrow> (\<forall>k. of_log s P k (in_sync s (kept r k)) \<and> conv P F now k (view (in_sync s (kept r k))))"

lemma view_filter_gc:
  assumes "distinct (map d_update_id ys)" "\<forall>x \<in> set ys. \<not> Q x \<longrightarrow> d_gc_time x \<noteq> 0 \<and> d_gc_time x \<le> t"
  shows "view (filter Q ys) i = view ys i \<or> view (filter Q ys) i = None \<and> (\<exists>g. view ys i = Some g \<and> g \<noteq> 0 \<and> g \<le> t)"
proof (cases "view (filter Q ys) i")
  case None
  show ?thesis
  proof (cases "view ys i")
    case (Some g)
    then obtain x where x: "x \<in> set ys" "d_update_id x = i" "d_gc_time x = g" using view_Some [OF assms(1)] by blast
    then have "\<not> Q x" using None by (auto simp: view_None)
    then show ?thesis using assms(2) x None Some by blast
  qed (simp add: None)
next
  case (Some g)
  have "distinct (map d_update_id (filter Q ys))" using assms(1) by (simp add: distinct_map_filter)
  from view_Some [OF this, of i g] Some view_Some [OF assms(1), of i g] show ?thesis by auto
qed

lemma synced_gc:
  assumes sy: "synced s P F now r" and sh: "shrunk t r r1" and le: "now \<le> t"
  shows "synced s P F t r1"
  unfolding synced_def
proof (intro allI conjI)
  fix k
  from sh obtain Q where Q: "kept r1 k = filter Q (kept r k)" "\<forall>x \<in> set (kept r k). \<not> Q x \<longrightarrow> d_gc_time x \<noteq> 0 \<and> d_gc_time x \<le> t"
    unfolding shrunk_def by blast
  have f: "in_sync s (kept r1 k) = filter Q (in_sync s (kept r k))" unfolding Q(1) by (simp add: in_sync_def conj_commute)
  have ol: "of_log s P k (in_sync s (kept r k))" using sy by (simp add: synced_def)
  then show "of_log s P k (in_sync s (kept r1 k))" unfolding f of_log_def by (simp add: distinct_map_filter)
  show "conv P F t k (view (in_sync s (kept r1 k)))"
    unfolding f
  proof (rule conv_gc [OF _ le])
    show "conv P F now k (view (in_sync s (kept r k)))" using sy by (simp add: synced_def)
    show "view (filter Q (in_sync s (kept r k))) i = view (in_sync s (kept r k)) i \<or>
        view (filter Q (in_sync s (kept r k))) i = None \<and> (\<exists>g. view (in_sync s (kept r k)) i = Some g \<and> g \<noteq> 0 \<and> g \<le> t)" for i
      by (rule view_filter_gc) (use ol Q(2) in \<open>auto simp: of_log_def in_sync_def\<close>)
  qed
qed

lemma synced_collected:
  assumes sy: "synced s P F t r" and sh: "shrunk now r r1"
  shows "of_log s P k (in_sync s (kept r1 k)) \<and> (\<exists>t'. conv P F t' k (view (in_sync s (kept r1 k))))"
proof (cases "t \<le> now")
  case True
  from synced_gc [OF sy sh True] show ?thesis by (auto simp: synced_def)
next
  case False
  have "shrunk t r r1" using sh False unfolding shrunk_def by (meson less_le_not_le linear order_trans)
  from synced_gc [OF sy this order.refl] show ?thesis by (auto simp: synced_def)
qed

lemma synced_data:
  fixes t i a
  assumes I: "log_inv s P st" and sy: "synced s P F t r" and inv: "recv_inv Q r" and p: "p \<in> P" "copy_of p u"
    and le: "\<And>i a. F i = Some a \<Longrightarrow> a \<le> t"
    and tm: "\<And>q a b. q \<in> P \<Longrightarrow> delete_id q \<noteq> 0 \<Longrightarrow> update_id p = update_id q \<or> update_id p = delete_id q \<Longrightarrow>
      F (update_id q) = Some a \<Longrightarrow> F (delete_id q) = Some b \<Longrightarrow> t < max a b + GC_DELAY"
  defines "ys \<equiv> in_sync s (kept r (ukey u))"
  defines "zs \<equiv> after_update t s (update_id u) (delete_id u) (new_datum i a s (update_id u) (delete_id u) (uval u)) ys"
  shows "of_log s P (ukey u) zs \<and> conv P (if F (update_id u) = None then F(update_id u \<mapsto> t) else F) t (ukey u) (view zs)"
proof -
  obtain hi cur where "st = (hi, cur)" by (cases st)
  note I' = I [unfolded this]
  have pd: "is_data p" "sync_id p = s" "update_id p \<noteq> 0" using log_invD(1) [OF I' p(1)] by auto
  have u: "update_id u = update_id p" "delete_id u = delete_id p" "ukey u = ukey p" "uval u = uval p" using p(2) by (auto simp: copy_of_def)
  have y: "of_log s P (ukey p) ys" and c: "conv P F t (ukey p) (view ys)" using sy by (auto simp: synced_def ys_def u)
  have sub: "set ys \<subseteq> set (kept r (ukey p))" by (auto simp: ys_def in_sync_def u)
  have ids: "x = y" if "x \<in> set ys" "y \<in> set ys" "d_id x = d_id y" for x y
    using kept_ids [of r x "ukey p" y] inv sub that by (auto simp: recv_inv_def)
  have ex: "view ys (d_delete_id x) = None" if x: "x \<in> set ys" "d_delete_id x \<noteq> 0" for x
    unfolding view_None
  proof
    fix w assume w: "w \<in> set ys"
    have "d_sync_id x = d_sync_id w" using y x(1) w by (simp add: of_log_def)
    then show "d_update_id w \<noteq> d_delete_id x" using datums_okD(3) [of Q "ukey p" "kept r (ukey p)" x w] inv subsetD [OF sub x(1)] subsetD [OF sub w] x(2) by (auto simp: recv_inv_def)
  qed
  have v: "of_log s P (ukey p) zs \<and> view zs = upd_view t P p (view ys)"
  proof (cases "delete_id p = 0")
    case True
    show ?thesis unfolding zs_def u by (rule view_after_insert [OF I y p(1) refl pd(1,2) True pd(3) ids ex])
  next
    case False
    have "delete_id p \<noteq> update_id p" using log_invD(3) [OF I' p(1) False] log_invD(2) [OF I' _ p(1)] False by metis
    then show ?thesis unfolding zs_def u by (rule view_after_delete [OF y p(1) refl pd(1,2) False])
  qed
  show ?thesis
  proof (cases "F (update_id p) = None")
    case True
    then have "conv P (F(update_id p \<mapsto> t)) t (ukey p) (upd_view t P p (view ys))"
      using conv_insert [OF I c p(1) refl _ True] conv_delete [OF I c p(1) refl _ True] le by metis
    then show ?thesis using v True by (simp add: u)
  next
    case False
    have "upd_view t P p (view ys) = view ys" by (rule conv_copy [OF I c p(1) refl False]) (rule tm)
    then show ?thesis using v c False unfolding u by (simp only: if_False simp_thms)
  qed
qed

lemma synced_step:
  assumes I: "log_inv s P st" and sy: "synced s P F t r" and inv: "recv_inv Q r" and u: "of_sync s P u"
    and le: "\<And>i a. F i = Some a \<Longrightarrow> a \<le> t"
    and tm: "\<And>q a b. is_data u \<Longrightarrow> sync_id u = s \<Longrightarrow> q \<in> P \<Longrightarrow> delete_id q \<noteq> 0 \<Longrightarrow> update_id u = update_id q \<or> update_id u = delete_id q \<Longrightarrow>
      F (update_id q) = Some a \<Longrightarrow> F (delete_id q) = Some b \<Longrightarrow> t < max a b + GC_DELAY"
    and r': "\<And>k. kept r' k = effect t u i a k (kept r k)"
  shows "synced s P (if is_data u \<and> sync_id u = s \<and> F (update_id u) = None then F(update_id u \<mapsto> t) else F) t r'"
proof (cases "is_data u \<and> sync_id u = s")
  case True
  then have nf: "utype u \<noteq> KVP_UPDATE_FLUSH" by (auto simp: is_data_def)
  from u True obtain p where p: "p \<in> P" "copy_of p u" by (auto simp: of_sync_def)
  then have pu: "update_id u = update_id p" "ukey u = ukey p" by (auto simp: copy_of_def)
  let ?F = "if F (update_id u) = None then F(update_id u \<mapsto> t) else F"
  have "of_log s P k (in_sync s (kept r' k)) \<and> conv P ?F t k (view (in_sync s (kept r' k)))" for k
  proof (cases "k = ukey u")
    case k: True
    have "in_sync s (kept r' k) = after_update t s (update_id u) (delete_id u) (new_datum i a s (update_id u) (delete_id u) (uval u)) (in_sync s (kept r (ukey u)))"
      using r' [of k] k True nf in_sync_same by (simp add: effect_def)
    moreover have "of_log s P (ukey u) (after_update t s (update_id u) (delete_id u) (new_datum i a s (update_id u) (delete_id u) (uval u)) (in_sync s (kept r (ukey u)))) \<and>
      conv P ?F t (ukey u) (view (after_update t s (update_id u) (delete_id u) (new_datum i a s (update_id u) (delete_id u) (uval u)) (in_sync s (kept r (ukey u)))))"
      by (rule synced_data [OF I sy inv p le]) (use tm True pu in auto)
    ultimately show ?thesis using k by simp
  next
    case False
    then have "kept r' k = kept r k" using r' [of k] nf by (simp add: effect_def)
    moreover have "conv P (F(update_id p := x)) t k (view (in_sync s (kept r k)))" for x
      using conv_other [OF I _ p(1)] sy False pu by (simp add: synced_def)
    ultimately show ?thesis using sy pu by (simp add: synced_def)
  qed
  then show ?thesis using True by (simp add: synced_def)
next
  case False
  have "in_sync s (kept r' k) = in_sync s (kept r k)" for k
  proof (cases "utype u = KVP_UPDATE_FLUSH")
    case True
    then have "sync_id u = s" using u by (simp add: of_sync_def)
    then show ?thesis using r' [of k] True by (simp add: effect_def in_sync_def)
  next
    case nf: False
    show ?thesis
    proof (cases "is_data u \<and> k = ukey u")
      case True
      then have "sync_id u \<noteq> s" using False by simp
      moreover have "x = y" if "x \<in> set (kept r k)" "y \<in> set (kept r k)" "d_id x = d_id y" for x y
        using kept_ids [of r x k y] inv that by (simp add: recv_inv_def)
      ultimately show ?thesis using in_sync_other r' [of k] True nf by (simp add: effect_def)
    next
      case other: False
      then show ?thesis using r' [of k] nf by (auto simp: effect_def)
    qed
  qed
  then have "synced s P F t r'" using sy unfolding synced_def by presburger
  then show ?thesis using False by presburger
qed

section \<open>The whole history\<close>

definition expected :: "kvpsync_recv \<Rightarrow> xtime \<Rightarrow> byte list option \<Rightarrow> reply" where
  "expected r now m = (case m of Some v \<Rightarrow> Answer v | None \<Rightarrow> if now < r_ok_expiry r then NULL else UNSURE)"

lemma packets_append: "packets (es @ es') = packets es @ packets es'"
  by (induction es rule: packets.induct) auto

lemma run_events_append: "run_events (es @ es') r = (case run_events es r of None \<Rightarrow> None | Some r' \<Rightarrow> run_events es' r')"
  by (induction es r rule: run_events.induct) (auto split: option.split prod.split derr_type.split)

lemma packets_at: "(t, u) \<in> set (packets es) \<Longrightarrow> \<exists>e \<in> set es. at e = t"
  by (induction es rule: packets.induct) auto

lemma first_time_le: "first_time s H i = Some a \<Longrightarrow> \<forall>(t', _) \<in> set H. t' \<le> t \<Longrightarrow> a \<le> t"
  using first_time_mem by fastforce

lemma synced_start:
  assumes "\<forall>k. in_sync s (kept r k) = []"
  shows "synced s P (first_time s []) now r"
  using assms by (auto simp: synced_def conv_def ins_rule_def del_rule_def of_log_def view_def first_time_def)

lemma events_synced:
  assumes I: "log_inv s P st" and h: "honest Q" and r0: "recv_inv Q r" "r_initial_sync_acked r" "\<forall>k. in_sync s (kept r k) = []"
    and es: "\<forall>(t, u) \<in> set (packets es). u \<in> Q \<and> of_sync s P u \<and> t + GC_DELAY \<noteq> 0" "sorted (map at es)" "timely s P (packets es)"
  shows "\<exists>r'. run_events es r = Some r' \<and> recv_inv Q r' \<and> r_initial_sync_acked r' \<and>
    (\<forall>t. (\<forall>e \<in> set es. at e \<le> t) \<longrightarrow> synced s P (first_time s (packets es)) t r') \<and>
    r_sync_id r' = (if \<exists>(t, u) \<in> set (packets es). utype u = KVP_UPDATE_FLUSH then s else r_sync_id r)"
  using es
proof (induction es rule: rev_induct)
  case Nil
  then show ?case using r0 synced_start [OF r0(3)] by simp
next
  case (snoc e es)
  have "sorted (map at es)" and le: "\<forall>x \<in> set es. at x \<le> at e" using snoc.prems(2) by (auto simp: sorted_append)
  moreover have "timely s P (packets es)"
    using snoc.prems(3) timely_snocD(1) by (cases e) (auto simp: packets_append)
  ultimately obtain r1 where r1: "run_events es r = Some r1" "recv_inv Q r1" "r_initial_sync_acked r1"
    "synced s P (first_time s (packets es)) (at e) r1"
    "r_sync_id r1 = (if \<exists>(t, u) \<in> set (packets es). utype u = KVP_UPDATE_FLUSH then s else r_sync_id r)"
    using snoc.IH snoc.prems(1) by (auto simp: packets_append)
  have later: "synced s P F t r'" if "synced s P F (at e) r'" "\<forall>x \<in> set (es @ [e]). at x \<le> t" for F t r'
    by (rule synced_gc [OF that(1) shrunk_refl]) (use that(2) in simp)
  show ?case
  proof (cases e)
    case (Question t k)
    have ok: "recv_ok r1" using r1(2) by (simp add: recv_inv_def)
    from get_value_ok [OF ok, of t k] obtain r' rep where r': "kvpsync_recv_get_value r1 t k = Some (rep, r')" "recv_ok r'" "shrunk t r1 r'" by blast
    have "r_initial_sync_acked r'" "r_sync_id r' = r_sync_id r1" using r'(3) r1(3) by (simp_all add: shrunk_def same_head_def)
    moreover have "synced s P (first_time s (packets es)) (at e) r'" using synced_gc [OF r1(4) r'(3)] Question by simp
    moreover have "run_events (es @ [e]) r = Some r'" using Question r1(1) r'(1) by (simp add: run_events_append)
    ultimately show ?thesis using Question recv_inv_shrunk [OF r1(2) r'(2,3)] r1(5) later by (intro exI [of _ r']) (auto simp: packets_append)
  next
    case e: (Packet t u)
    let ?H = "packets es"
    have tle: "\<forall>(t', _) \<in> set ?H. t' \<le> t" using le packets_at e by fastforce
    have u: "u \<in> Q" "of_sync s P u" "t + GC_DELAY \<noteq> 0" using snoc.prems(1) e by (auto simp: packets_append)
    have tl: "q \<in> P \<and> is_data u \<and> sync_id u = s \<and> delete_id q \<noteq> 0 \<and> (update_id u = update_id q \<or> update_id u = delete_id q) \<and>
      first_time s ?H (update_id q) = Some a \<and> first_time s ?H (delete_id q) = Some b \<longrightarrow> t < max a b + GC_DELAY" for q a b
      using timely_snocD(2) [of s P ?H t u] snoc.prems(3) e by (simp add: packets_append)
    from handle_update_effect [OF r1(2) h u(1,3) r1(3)] obtain r2 r' i a where r2:
      "kvpsync_recv_handle_update alloc_ok r1 t u = Some (E_NONE, r', \<lparr>ack_sync_id = sync_id u, ack_update_id = update_id u\<rparr>)"
      "recv_inv Q r'" "recv_ok r2" "shrunk t r1 r2" "\<And>k. kept r' k = effect t u i a k (kept r2 k)" "r_initial_sync_acked r'"
      "r_sync_id r' = (if utype u = KVP_UPDATE_FLUSH then sync_id u else r_sync_id r1)" by blast
    have s1: "synced s P (first_time s ?H) t r1" using r1(4) e by simp
    have "synced s P (if is_data u \<and> sync_id u = s \<and> first_time s ?H (update_id u) = None then (first_time s ?H)(update_id u \<mapsto> t) else first_time s ?H) t r'"
      by (rule synced_step [OF I synced_gc [OF s1 r2(4) order.refl] recv_inv_shrunk [OF r1(2) r2(3,4)] u(2) _ _ r2(5)])
        (use first_time_le [OF _ tle] tl in blast)+
    moreover have "first_time s (?H @ [(t, u)]) =
        (if is_data u \<and> sync_id u = s \<and> first_time s ?H (update_id u) = None then (first_time s ?H)(update_id u \<mapsto> t) else first_time s ?H)"
      by (auto simp: first_time_snoc fun_eq_iff split: option.split)
    ultimately have "synced s P (first_time s (packets (es @ [e]))) (at e) r'" using e by (simp add: packets_append)
    moreover have "run_events (es @ [e]) r = Some r'" using e r1(1) r2(1) by (simp add: run_events_append)
    moreover have "r_sync_id r' = (if \<exists>(t, u) \<in> set (packets (es @ [e])). utype u = KVP_UPDATE_FLUSH then s else r_sync_id r)"
      using r2(7) r1(5) u(2) e by (auto simp: of_sync_def packets_append)
    ultimately show ?thesis using r2(2,6) later by (intro exI [of _ r']) blast
  qed
qed

lemma best_loop_in_sync: "best_loop s xs ans uid = best_loop s (in_sync s xs) ans uid"
  by (induction xs arbitrary: ans uid) (auto simp: in_sync_def)

lemma best_loop_max:
  assumes "x \<in> set ys" "\<forall>y \<in> set ys. d_sync_id y = s \<and> (y = x \<or> d_update_id y < d_update_id x)"
    "uid < d_update_id x \<or> (uid = d_update_id x \<and> ans = (if d_delete_id x \<noteq> 0 then None else Some (d_val x)))"
  shows "best_loop s ys ans uid = (if d_delete_id x \<noteq> 0 then None else Some (d_val x), d_update_id x)"
proof -
  have stay: "best_loop s zs (if d_delete_id x \<noteq> 0 then None else Some (d_val x)) (d_update_id x) =
      (if d_delete_id x \<noteq> 0 then None else Some (d_val x), d_update_id x)"
    if "\<forall>y \<in> set zs. d_sync_id y = s \<and> (y = x \<or> d_update_id y < d_update_id x)" for zs
    using that by (induction zs) auto
  show ?thesis using assms
  proof (induction ys arbitrary: ans uid)
    case (Cons y ys)
    show ?case
    proof (cases "y = x")
      case True
      have "d_sync_id y = s" using Cons.prems(2) by simp
      moreover have "\<not> d_update_id y < uid" using Cons.prems(3) True by (metis less_irrefl less_not_sym)
      ultimately have "best_loop s (y # ys) ans uid = best_loop s ys (if d_delete_id x \<noteq> 0 then None else Some (d_val x)) (d_update_id x)"
        using True by simp
      moreover have "\<forall>y \<in> set ys. d_sync_id y = s \<and> (y = x \<or> d_update_id y < d_update_id x)" using Cons.prems(2) by simp
      ultimately show ?thesis using stay by metis
    next
      case False
      then have lt: "d_update_id y < d_update_id x" "d_sync_id y = s" "x \<in> set ys" using Cons.prems(1,2) by auto
      have P: "\<forall>y \<in> set ys. d_sync_id y = s \<and> (y = x \<or> d_update_id y < d_update_id x)" using Cons.prems(2) by simp
      show ?thesis
      proof (cases "d_update_id y < uid")
        case True
        then show ?thesis using Cons.IH [OF lt(3) P Cons.prems(3)] lt(2) by simp
      next
        case False
        then show ?thesis using Cons.IH [OF lt(3) P disjI1 [OF lt(1)]] lt(2) by simp
      qed
    qed
  qed simp
qed

lemma best_loop_deletes: "\<forall>y \<in> set ys. d_delete_id y \<noteq> 0 \<Longrightarrow> fst (best_loop s ys None uid) = None"
  by (induction ys arbitrary: uid) auto

lemma seen_datum:
  assumes "of_log s P k ys" "log_inv s P st" "p \<in> P" "view ys (update_id p) \<noteq> None"
  shows "\<exists>x \<in> set ys. d_update_id x = update_id p \<and> tells x p \<and> ukey p = k"
proof -
  obtain x where x: "x \<in> set ys" "d_update_id x = update_id p" using assms(4) by (auto simp: view_None)
  then show ?thesis using of_log_the [OF assms(2,1) x(1) assms(3) x(2)] by auto
qed

text \<open>With every update of the log received, the datums of a key give its value in the log's map.\<close>

lemma best_of_log:
  assumes I: "log_inv s P (hi, cur)" and y: "of_log s P k ys" and c: "conv P F now k (view ys)" and all: "\<And>p. p \<in> P \<Longrightarrow> F (update_id p) \<noteq> None"
  shows "case cur k of
      Some (i, v) \<Rightarrow> best_loop s ys None 0 = (Some v, i) \<and> i \<noteq> 0
    | None \<Rightarrow> fst (best_loop s ys None 0) = None"
proof -
  have ins: "cur k = Some (update_id p, uval p)" if x: "x \<in> set ys" "d_delete_id x = 0" "p \<in> P" "tells x p" "ukey p = k" for x p
  proof -
    have d: "delete_id p = 0" "d_update_id x = update_id p" using x by (auto simp: tells_def)
    have "view ys (update_id p) \<noteq> None" using x(1) d(2) by (auto simp: view_None)
    then have "\<forall>q \<in> P. delete_id q \<noteq> update_id p" using convD(1) [OF c x(3)] d(1) x(5) all by (auto split: if_splits)
    then show ?thesis using log_invD(7) [OF I x(3) d(1)] x(5) by auto
  qed
  show ?thesis
  proof (cases "cur k")
    case None
    have "d_delete_id x \<noteq> 0" if x: "x \<in> set ys" for x
    proof -
      obtain p where "p \<in> P" "tells x p" "ukey p = k" using y x by (auto simp: of_log_def)
      then show ?thesis using ins [OF x] None by auto
    qed
    then show ?thesis using None best_loop_deletes by simp
  next
    case (Some iv)
    obtain i v where iv: "iv = (i, v)" by (cases iv)
    note ck = Some [unfolded iv]
    obtain p where p: "p \<in> P" "ukey p = k" "update_id p = i" "uval p = v" "delete_id p = 0" using log_invD(5) [OF I ck] by blast
    have iz: "i \<noteq> 0" using log_invD(1) [OF I p(1)] p(3) by simp
    have "\<forall>q \<in> P. delete_id q \<noteq> update_id p" using log_invD(6) [OF I _ ck] p(3) by simp
    then have "view ys (update_id p) \<noteq> None" using convD(1) [OF c p(1)] p(2,5) all [OF p(1)] by simp
    then obtain x where x: "x \<in> set ys" "d_update_id x = i" "tells x p" using seen_datum [OF y I p(1)] p(3) by auto
    have "y = x \<or> d_update_id y < d_update_id x" if w: "y \<in> set ys" for y
    proof -
      obtain q where q: "q \<in> P" "tells y q" "ukey q = k" using \<open>of_log s P k ys\<close> w by (auto simp: of_log_def)
      show ?thesis
      proof (cases "d_delete_id y = 0")
        case True
        then have "d_update_id y = d_update_id x" using ins [OF w True q] ck q(2) x(2) by (simp add: tells_def)
        then show ?thesis using of_log_uniq [OF \<open>of_log s P k ys\<close> w x(1)] by simp
      next
        case False
        then show ?thesis using log_invD(6) [OF I q(1) ck] q(2,3) x(2) by (simp add: tells_def)
      qed
    qed
    moreover have "\<forall>y \<in> set ys. d_sync_id y = s" using y by (simp add: of_log_def)
    moreover have "0 < d_update_id x" using iz x(2) by (simp add: word_neq_0_conv)
    ultimately have "best_loop s ys None 0 = (if d_delete_id x \<noteq> 0 then None else Some (d_val x), d_update_id x)"
      using best_loop_max [OF x(1), of s 0 None] by blast
    then show ?thesis using ck x p(4,5) iz by (simp add: tells_def)
  qed
qed

text \<open>What the receiver answers once it has seen the whole log.\<close>

lemma synced_answers:
  assumes I: "log_inv s P (hi, cur)" and s: "s \<noteq> 0" and r: "recv_ok r" "synced s P F t r" "r_sync_id r = s" and seen: "\<And>p. p \<in> P \<Longrightarrow> F (update_id p) \<noteq> None"
  shows "\<exists>r'. kvpsync_recv_get_value r now k = Some (expected r now (map_option snd (cur k)), r')"
proof -
  from get_value_ok [OF r(1), of now k] obtain r2 rep where g: "kvpsync_recv_get_value r now k = Some (rep, r2)" "recv_ok r2" "shrunk now r r2"
    "rep = (let negative = (if now < r_ok_expiry r then NULL else UNSURE) in
      if r_sync_id r = 0 then UNSURE
      else case best_loop (r_sync_id r) (kept r2 k) None 0 of (ans, uid) \<Rightarrow>
        if uid = 0 then negative else case ans of None \<Rightarrow> negative | Some v \<Rightarrow> Answer v)" by blast
  obtain now' where c: "of_log s P k (in_sync s (kept r2 k))" "conv P F now' k (view (in_sync s (kept r2 k)))"
    using synced_collected [OF r(2) g(3)] by blast
  from best_of_log [OF I c seen] show ?thesis
    using g(1,4) r(3) s best_loop_in_sync [of s "kept r2 k" None 0]
    by (auto simp: expected_def split: option.splits prod.splits)
qed

lemma first_time_seen: "(t, u) \<in> set H \<Longrightarrow> copy_of p u \<Longrightarrow> sync_id p = s \<Longrightarrow> first_time s H (update_id p) \<noteq> None"
  by (auto simp: first_time_def find_None_iff copy_of_def)

text \<open>
  C5. Eventual consistency.  Take a sender's log of a sync, numbered upwards, in which a key is
  inserted only while it is absent and deleted by the number of its insertion; and let the receiver,
  having acknowledged the initial sync, get a flush of this sync and every update of the log at least
  once, in any order and with any copies, amid packets of other syncs and questions of its users, where
  no copy of a matched insertion and deletion comes \<open>GC_DELAY\<close> or more after the two met.  Then every
  packet is handled without an error, and at any later time and for every key the receiver answers with
  the value that the log's map holds for the key; for an absent key it answers \<open>NULL\<close> while the sender's
  promise \<open>ok_expiry\<close> lasts and \<open>UNSURE\<close> after that.
\<close>

theorem kvpsync_converges:
  assumes log: "log_run s us = Some (hi, cur)" and s: "s \<noteq> 0"
    and r: "recv_reach Q r" "honest Q" "r_initial_sync_acked r" "\<forall>k. in_sync s (kept r k) = []"
    and es: "\<forall>(t, u) \<in> set (packets es). u \<in> Q \<and> of_sync s (set us) u \<and> t + GC_DELAY \<noteq> 0" "sorted (map at es)" "timely s (set us) (packets es)"
    and all: "\<forall>p \<in> set us. \<exists>(t, u) \<in> set (packets es). copy_of p u" "\<exists>(t, u) \<in> set (packets es). utype u = KVP_UPDATE_FLUSH"
  shows "\<exists>r'. run_events es r = Some r' \<and>
    (\<forall>now k. \<exists>r''. kvpsync_recv_get_value r' now k = Some (expected r' now (map_option snd (cur k)), r''))"
proof -
  note I = log_run_inv [OF log]
  from events_synced [OF I r(2) reach_inv [OF r(1,2)] r(3,4) es] obtain r' where r': "run_events es r = Some r'" "recv_inv Q r'"
    "\<forall>t. (\<forall>e \<in> set es. at e \<le> t) \<longrightarrow> synced s (set us) (first_time s (packets es)) t r'" "r_sync_id r' = s" using all(2) by auto
  have "\<forall>e \<in> set es. at e \<le> - 1" by simp
  then have sy: "synced s (set us) (first_time s (packets es)) (- 1) r'" using r'(3) by blast
  have seen: "first_time s (packets es) (update_id p) \<noteq> None" if p: "p \<in> set us" for p
    using all(1) p first_time_seen log_invD(1) [OF I p] by fastforce
  have ok: "recv_ok r'" using r'(2) by (simp add: recv_inv_def)
  show ?thesis using synced_answers [OF I s ok sy r'(4) seen] r'(1) by blast
qed

section \<open>An example\<close>

text \<open>Packets of sync 9 to the receiver 7, for the key \<open>k\<close>: its values are first \<open>v\<close> and then \<open>w\<close>.\<close>

definition ex_start :: kvp_update where
  "ex_start = zero_update\<lparr>sync_id := 9, update_id := 1, utype := KVP_UPDATE_START, resync_id := 7\<rparr>"

definition ex_ins :: kvp_update where
  "ex_ins = zero_update\<lparr>sync_id := 9, update_id := 2, utype := KVP_UPDATE_INSERT, klen := 1, key := [107], vlen := 1, val := [118]\<rparr>"

definition ex_del :: kvp_update where
  "ex_del = zero_update\<lparr>sync_id := 9, update_id := 3, utype := KVP_UPDATE_DELETE, klen := 1, key := [107], delete_id := 2\<rparr>"

definition ex_ins2 :: kvp_update where
  "ex_ins2 = zero_update\<lparr>sync_id := 9, update_id := 4, utype := KVP_UPDATE_INSERT, klen := 1, key := [107], vlen := 1, val := [119]\<rparr>"

definition ex_flush :: kvp_update where
  "ex_flush = zero_update\<lparr>sync_id := 9, update_id := 5, utype := KVP_UPDATE_FLUSH\<rparr>"

lemmas ex_defs = ex_start_def ex_ins_def ex_del_def ex_ins2_def ex_flush_def zero_update_def

definition ex_packets :: "kvp_update set" where
  "ex_packets = {ex_start, ex_ins, ex_del, ex_ins2, ex_flush}"

definition ex_history :: "event list" where
  "ex_history = [Packet 1000 ex_del, Packet 1001 ex_flush, Packet 1002 ex_ins2, Question 1002 [107], Packet 1003 ex_ins, Packet 1100 ex_del,
     Packet 1200 ex_ins]"

definition ex_boot :: "kvpsync_recv option" where
  "ex_boot = (case kvpsync_recv_init alloc_ok [0, 7] of
     Some (E_NONE, Some r) \<Rightarrow> (case kvpsync_recv_handle_update alloc_ok r 999 ex_start of Some (_, r', _) \<Rightarrow> Some r' | None \<Rightarrow> None)
   | _ \<Rightarrow> None)"

definition ex_answer :: "history \<Rightarrow> xtime \<Rightarrow> reply option" where
  "ex_answer H now = (case ex_boot of None \<Rightarrow> None | Some r \<Rightarrow>
     (case run_events (map (\<lambda>(t, u). Packet t u) H) r of None \<Rightarrow> None | Some r' \<Rightarrow> map_option fst (kvpsync_recv_get_value r' now [107])))"

lemma ex_honest: "honest ex_packets"
  by (simp add: honest_def ex_packets_def is_data_def) (simp add: ex_defs)

lemma ex_booted: "\<exists>r. ex_boot = Some r \<and> recv_reach ex_packets r \<and> r_initial_sync_acked r \<and> (\<forall>k. in_sync 9 (kept r k) = [])"
proof -
  obtain r where r: "kvpsync_recv_init alloc_ok [0, 7] = Some (E_NONE, Some r)" "\<not> r_initial_sync_acked r" "r_recv_id r = 7"
    by (simp add: kvpsync_recv_init_def hashmap_init_def)
  let ?r = "r\<lparr>r_initial_sync_acked := True\<rparr>"
  have h: "kvpsync_recv_handle_update alloc_ok r 999 ex_start = Some (E_NONE, ?r, \<lparr>ack_sync_id = 9, ack_update_id = 1\<rparr>)"
    using r(2,3) by (simp add: kvpsync_recv_handle_update_def ex_start_def)
  have "recv_reach ex_packets ?r"
    by (rule recv_reach.packet [OF recv_reach.boot [OF r(1)] _ _ h]) (simp_all add: ex_packets_def GC_DELAY_def)
  moreover have "kept ?r = kept r" by (rule kept_mem) simp_all
  ultimately show ?thesis using boot_inv [OF r(1)] h r(1) by (simp add: ex_boot_def in_sync_def)
qed

theorem kvpsync_recv_safe_witness:
  "\<exists>r. recv_reach ex_packets r \<and> recv_inv ex_packets r \<and> (\<exists>r' ack. kvpsync_recv_handle_update alloc_ok r 5 ex_del = Some (E_NONE, r', ack))"
proof -
  obtain r where r: "recv_reach ex_packets r" using ex_booted by blast
  have "ex_del \<in> ex_packets" "(5 :: xtime) + GC_DELAY \<noteq> 0" by (simp_all add: ex_packets_def GC_DELAY_def)
  with kvpsync_recv_safe [OF r ex_honest] r show ?thesis by blast
qed

theorem kvpsync_converges_witness:
  "\<exists>r r' r''. recv_reach ex_packets r \<and> run_events ex_history r = Some r' \<and> kvpsync_recv_get_value r' 5000 [107] = Some (Answer [119], r'')"
proof -
  obtain r where r: "recv_reach ex_packets r" "r_initial_sync_acked r" "\<forall>k. in_sync 9 (kept r k) = []" using ex_booted by blast
  have log: "log_run 9 [ex_ins, ex_del, ex_ins2] = Some (4, (Map.empty([107] \<mapsto> (2, [118])))([107] := None, [107] \<mapsto> (4, [119])))"
    by (simp add: log_run_def ukey_def uval_def) (simp add: ex_defs)
  have d: "is_data ex_ins" "is_data ex_del" "is_data ex_ins2" "\<not> is_data ex_flush" by (simp_all add: is_data_def ex_defs)
  have of: "\<forall>(t, u) \<in> set (packets ex_history). u \<in> ex_packets \<and> of_sync 9 (set [ex_ins, ex_del, ex_ins2]) u \<and> t + GC_DELAY \<noteq> 0"
    using d by (auto simp: ex_history_def ex_packets_def of_sync_def copy_of_def GC_DELAY_def) (simp_all add: ex_defs)
  have ft: "first_time 9 (packets ex_history) 2 = Some 1003" "first_time 9 (packets ex_history) 3 = Some 1000"
    using d by (simp_all add: first_time_def ex_history_def) (simp_all add: ex_defs)
  have tm: "timely 9 (set [ex_ins, ex_del, ex_ins2]) (packets ex_history)"
    unfolding timely_def using ft by (simp add: ex_defs ex_history_def) (simp add: GC_DELAY_def max_def)
  have all: "\<forall>p \<in> set [ex_ins, ex_del, ex_ins2]. \<exists>(t, u) \<in> set (packets ex_history). copy_of p u" "\<exists>(t, u) \<in> set (packets ex_history). utype u = KVP_UPDATE_FLUSH"
    using d by (auto simp: ex_history_def copy_of_def) (simp_all add: ex_defs)
  have so: "sorted (map at ex_history)" by (simp add: ex_history_def)
  have nz: "(9 :: u32) \<noteq> 0" by simp
  from kvpsync_converges [OF log nz r(1) ex_honest r(2,3) of so tm all] obtain r' where
    r': "run_events ex_history r = Some r'" "\<And>now k. \<exists>r''. kvpsync_recv_get_value r' now k = Some (expected r' now (map_option snd
      (((Map.empty :: byte list \<rightharpoonup> u32 \<times> byte list)([107] \<mapsto> (2, [118]), [107] := None, [107] \<mapsto> (4, [119]))) k)), r'')" by blast
  from r'(2) [of 5000 "[107]"] have "\<exists>r''. kvpsync_recv_get_value r' 5000 [107] = Some (Answer [119], r'')" by (simp add: expected_def)
  then show ?thesis using r(1) r'(1) by blast
qed

text \<open>
  The hypotheses of the two theorems are needed.  Times count nanoseconds, so \<open>GC_DELAY\<close> is 255 nanoseconds
  and not minutes: a copy of an insertion that comes 254 ns after its deletion is dropped, and one
  that comes 255 ns after it brings the deleted value back.  A deletion that names a deletion on the garbage
  list frees that datum and leaves it linked, so that the next collection reads freed memory.  And a late
  copy of the flush of an older sync takes away what was received of this sync.
\<close>

definition ex_del_del :: kvp_update where
  "ex_del_del = ex_del\<lparr>update_id := 6, delete_id := 3\<rparr>"

definition ex_old_flush :: kvp_update where
  "ex_old_flush = ex_flush\<lparr>sync_id := 8, ok_expiry := 9000\<rparr>"

lemma late_copy_resurrects:
  "ex_answer [(1000, ex_flush), (1001, ex_ins), (1002, ex_del), (1256, ex_ins)] 2000 = Some UNSURE"
  "ex_answer [(1000, ex_flush), (1001, ex_ins), (1002, ex_del), (1257, ex_ins)] 2000 = Some (Answer [118])"
  by code_simp+

lemma delete_of_delete_use_after_free:
  "ex_answer [(1000, ex_flush), (1001, ex_ins), (1002, ex_del), (1003, ex_del_del)] 1100 = None"
  by code_simp

lemma stale_flush_forgets:
  "ex_answer [(1000, ex_ins), (1001, ex_flush)] 2000 = Some (Answer [118])"
  "ex_answer [(1000, ex_ins), (1001, ex_flush), (1002, ex_old_flush), (1003, ex_flush)] 2000 = Some NULL"
  by code_simp+

end
