(* ===== verification/Kvp_Send.thy ===== *)
theory Kvp_Send
  imports Hashmap Kvp_Pkts "HOL-Library.Monad_Syntax"
begin

text \<open>
  The sending side of the key-value synchronisation protocol (\<open>src/server/libkvpsync/send.c\<close>).

  The \<open>send_data_t\<close> structures live in a store \<open>s_mem\<close> from addresses; the two hash tables hold
  addresses, and the intrusive lists \<open>unsent\<close>, \<open>sent\<close> and \<open>oldest\<close> are lists of addresses, so that
  \<open>link_remove\<close> takes an address out and \<open>link_list_append\<close> of an address that is in a list of the same
  link aborts.  \<open>None\<close> stands for an abort (\<open>LOG_FATAL\<close>) or an access to freed memory.  The two
  callbacks are calls of the application: they are recorded in \<open>s_calls\<close>, in their order.
\<close>

section \<open>State\<close>

record send_data =
  sd_update :: kvp_update
  sd_key :: "byte list"
  sd_nrefs :: nat
  sd_inflight :: bool
  sd_inflight_at_send :: int
  sd_congest_validity :: u32
  sd_sent_time :: xtime
  sd_cb :: "nat option"
  sd_deadline :: xtime

datatype call = State_cb bool | Add_key_cb nat

record kvpsync_send =
  s_state_cb :: bool
  s_sync_id :: u32
  s_resync_id :: u32
  s_update_id :: u32
  s_cache :: "nat hashmap"
  s_unsent :: "nat list"
  s_unacked :: "nat hashmap"
  s_sent :: "nat list"
  s_oldest :: "nat list"
  s_inflight :: int
  s_inflight_limit :: int
  s_decrease_backoff :: xtime
  s_congest_validity :: u32
  s_last_recv :: xtime
  s_recv_ok :: bool
  s_old_recv_ok :: bool
  s_ok_expiry :: xtime
  s_last_extend_ok :: xtime
  s_blocked :: bool
  s_synced :: bool
  s_start_done :: bool
  s_start_sent :: bool
  s_sync_done :: bool
  s_sync_sent :: bool
  s_mem :: "nat \<rightharpoonup> send_data"
  s_brk :: nat
  s_calls :: "call list"

definition SECOND :: xtime where
  "SECOND = 1000000000"

definition MIN_RESPONSE :: xtime where
  "MIN_RESPONSE = 15 * SECOND"

definition MIN_INFLIGHT :: int where
  "MIN_INFLIGHT = 1"

definition INCREASE_PKTS :: int where
  "INCREASE_PKTS = 1"

definition DECREASE_BY_FACTOR :: "int \<Rightarrow> int" where
  "DECREASE_BY_FACTOR n = n * 4 div 5"

definition DECREASE_BACKOFF :: xtime where
  "DECREASE_BACKOFF = 1 * SECOND"

definition sizeof_send_data :: nat where
  "sizeof_send_data = 720"

section \<open>The structures\<close>

definition send_data_xnew :: "allocator \<Rightarrow> kvpsync_send \<Rightarrow> (nat \<times> kvpsync_send) option" where
  "send_data_xnew A s =
     (if \<not> A sizeof_send_data then None
      else Some (s_brk s, s\<lparr>s_brk := s_brk s + 1,
        s_mem := (s_mem s)(s_brk s \<mapsto> \<lparr>sd_update = zero_update, sd_key = [], sd_nrefs = 1, sd_inflight = False,
          sd_inflight_at_send = 0, sd_congest_validity = 0, sd_sent_time = 0, sd_cb = None, sd_deadline = 0\<rparr>)\<rparr>))"

definition upd :: "nat \<Rightarrow> (send_data \<Rightarrow> send_data) \<Rightarrow> kvpsync_send \<Rightarrow> kvpsync_send option" where
  "upd a f s = (case s_mem s a of None \<Rightarrow> None | Some d \<Rightarrow> Some (s\<lparr>s_mem := (s_mem s)(a \<mapsto> f d)\<rparr>))"

definition data_downref :: "nat \<Rightarrow> kvpsync_send \<Rightarrow> kvpsync_send option" where
  "data_downref a s =
     (case s_mem s a of
        None \<Rightarrow> None
      | Some d \<Rightarrow>
          if sd_nrefs d = 0 then None
          else if sd_nrefs d - 1 \<noteq> 0 then Some (s\<lparr>s_mem := (s_mem s)(a \<mapsto> d\<lparr>sd_nrefs := sd_nrefs d - 1\<rparr>)\<rparr>)
          else Some (s\<lparr>s_oldest := remove1 a (s_oldest s), s_mem := (s_mem s)(a := None)\<rparr>))"

fun peek :: "nat list \<Rightarrow> nat option" where
  "peek [] = None"
| "peek (a # _) = Some a"

definition data_remove :: "nat \<Rightarrow> kvpsync_send \<Rightarrow> kvpsync_send option" where
  "data_remove a s =
     (case s_mem s a of
        None \<Rightarrow> None
      | Some d \<Rightarrow>
          let n = s_inflight s - of_bool (sd_inflight d) in
          if n < 0 then None
          else Some (s\<lparr>s_unsent := remove1 a (s_unsent s), s_sent := remove1 a (s_sent s), s_inflight := n,
                       s_mem := (s_mem s)(a \<mapsto> d\<lparr>sd_inflight := False\<rparr>)\<rparr>))"

definition append_unsent :: "nat \<Rightarrow> kvpsync_send \<Rightarrow> kvpsync_send option" where
  "append_unsent a s = (if a \<in> set (s_unsent s) \<union> set (s_sent s) then None else Some (s\<lparr>s_unsent := s_unsent s @ [a]\<rparr>))"

definition append_sent :: "nat \<Rightarrow> kvpsync_send \<Rightarrow> kvpsync_send option" where
  "append_sent a s = (if a \<in> set (s_unsent s) \<union> set (s_sent s) then None else Some (s\<lparr>s_sent := s_sent s @ [a]\<rparr>))"

text \<open>\<open>link_list_append(ptr, ..)\<close> where \<open>ptr\<close> is what was the first element of \<open>unsent\<close>, or its head.\<close>

definition insert_before :: "nat option \<Rightarrow> nat \<Rightarrow> kvpsync_send \<Rightarrow> kvpsync_send option" where
  "insert_before ptr a s =
     (if a \<in> set (s_unsent s) \<union> set (s_sent s) then None
      else Some (s\<lparr>s_unsent := (case ptr of None \<Rightarrow> s_unsent s @ [a]
        | Some p \<Rightarrow> takeWhile (\<lambda>b. b \<noteq> p) (s_unsent s) @ [a] @ dropWhile (\<lambda>b. b \<noteq> p) (s_unsent s))\<rparr>))"

section \<open>Life cycle\<close>

fun nonzero_sync_id :: "u32 list \<Rightarrow> u32 option" where
  "nonzero_sync_id [] = None"
| "nonzero_sync_id (x # xs) = (if x = 0 then nonzero_sync_id xs else Some x)"

definition kvpsync_send_init :: "allocator \<Rightarrow> u32 list \<Rightarrow> xtime \<Rightarrow> bool \<Rightarrow> (derr_type \<times> kvpsync_send option) option" where
  "kvpsync_send_init A rnd now state_cb =
     (case nonzero_sync_id rnd of
        None \<Rightarrow> None
      | Some i \<Rightarrow> Some (case hashmap_init A of
          (e, None) \<Rightarrow> (e, None)
        | (_, Some unacked) \<Rightarrow> (case hashmap_init A of
            (e, None) \<Rightarrow> (e, None)
          | (e, Some cache) \<Rightarrow> (e, Some
              \<lparr>s_state_cb = state_cb, s_sync_id = i, s_resync_id = 0, s_update_id = 0, s_cache = cache, s_unsent = [],
               s_unacked = unacked, s_sent = [], s_oldest = [], s_inflight = 0, s_inflight_limit = MIN_INFLIGHT,
               s_decrease_backoff = 0, s_congest_validity = 0, s_last_recv = 0, s_recv_ok = False, s_old_recv_ok = False,
               s_ok_expiry = now + MIN_RESPONSE, s_last_extend_ok = 0, s_blocked = False, s_synced = False, s_start_done = False,
               s_start_sent = False, s_sync_done = False, s_sync_sent = False, s_mem = Map.empty, s_brk = 0, s_calls = []\<rparr>))))"

definition maybe_state_cb :: "kvpsync_send \<Rightarrow> kvpsync_send" where
  "maybe_state_cb s =
     (if \<not> s_state_cb s \<or> s_old_recv_ok s = s_recv_ok s then s
      else s\<lparr>s_calls := s_calls s @ [State_cb (s_recv_ok s)], s_old_recv_ok := s_recv_ok s\<rparr>)"

text \<open>\<open>empty_list\<close> removes the first element until there is none; both lists only shrink.\<close>

fun empty_unsent :: "nat \<Rightarrow> kvpsync_send \<Rightarrow> kvpsync_send option" where
  "empty_unsent fuel s =
     (case peek (s_unsent s) of
        None \<Rightarrow> Some s
      | Some a \<Rightarrow> (case fuel of 0 \<Rightarrow> None | Suc f \<Rightarrow> do { s \<leftarrow> data_remove a s; s \<leftarrow> data_downref a s; empty_unsent f s }))"

fun empty_sent :: "nat \<Rightarrow> kvpsync_send \<Rightarrow> kvpsync_send option" where
  "empty_sent fuel s =
     (case peek (s_sent s) of
        None \<Rightarrow> Some s
      | Some a \<Rightarrow> (case fuel of 0 \<Rightarrow> None | Suc f \<Rightarrow> do { s \<leftarrow> data_remove a s; s \<leftarrow> data_downref a s; empty_sent f s }))"

definition drop_data :: "kvpsync_send \<Rightarrow> kvpsync_send option" where
  "drop_data s = do {
     (_, h) \<leftarrow> hashmap_pop_loop (num_elems (s_unacked s) + 1) (s_unacked s) (Some 0) [];
     s \<leftarrow> empty_unsent (length (s_unsent s)) (s\<lparr>s_unacked := h\<rparr>);
     empty_sent (length (s_sent s)) s }"

text \<open>The references of the elements taken out of the cache are dropped in the order they come out.\<close>

definition kvpsync_send_free :: "kvpsync_send \<Rightarrow> kvpsync_send option" where
  "kvpsync_send_free s = do {
     s \<leftarrow> drop_data s;
     (as, h) \<leftarrow> hashmap_pop_loop (num_elems (s_cache s) + 1) (s_cache s) (Some 0) [];
     fold_opt data_downref as (s\<lparr>s_cache := h\<rparr>) }"

section \<open>Queueing and sending\<close>

definition data_queue :: "allocator \<Rightarrow> nat \<Rightarrow> kvpsync_send \<Rightarrow> kvpsync_send option" where
  "data_queue A a s = do {
     let i = s_update_id s + 1;
     s \<leftarrow> upd a (\<lambda>d. d\<lparr>sd_update := (sd_update d)\<lparr>sync_id := s_sync_id s, update_id := i\<rparr>\<rparr>) (s\<lparr>s_update_id := i\<rparr>);
     s \<leftarrow> append_unsent a s;
     (old, h) \<leftarrow> hashmap_setu A (s_unacked s) i a;
     if old \<noteq> None \<and> old \<noteq> Some a then None else Some (s\<lparr>s_unacked := h\<rparr>) }"

definition calculate_ok_expiry :: "kvpsync_send \<Rightarrow> xtime \<Rightarrow> (xtime \<times> kvpsync_send) option" where
  "calculate_ok_expiry s now =
     (if \<not> s_recv_ok s then Some (0, s)
      else let e = (if s_last_recv s > s_last_extend_ok s then now + MIN_RESPONSE else s_ok_expiry s) in do {
        e \<leftarrow> (case peek (s_oldest s) of None \<Rightarrow> Some e | Some a \<Rightarrow> map_option (\<lambda>d. min (sd_deadline d) e) (s_mem s a));
        Some (e, if e > s_ok_expiry s then s\<lparr>s_ok_expiry := e, s_last_extend_ok := now\<rparr> else s) })"

definition data_send :: "nat \<Rightarrow> xtime \<Rightarrow> kvpsync_send \<Rightarrow> (kvp_update \<times> kvpsync_send) option" where
  "data_send a now s = do {
     s \<leftarrow> data_remove a s;
     s \<leftarrow> append_sent a s;
     let s = s\<lparr>s_inflight := s_inflight s + 1\<rparr>;
     s \<leftarrow> upd a (\<lambda>d. d\<lparr>sd_sent_time := now, sd_inflight := True, sd_inflight_at_send := s_inflight s,
                       sd_congest_validity := s_congest_validity s\<rparr>) s;
     (e, s) \<leftarrow> calculate_ok_expiry s now;
     s \<leftarrow> upd a (\<lambda>d. d\<lparr>sd_update := (sd_update d)\<lparr>ok_expiry := e\<rparr>\<rparr>) s;
     d \<leftarrow> s_mem s a;
     Some (sd_update d, s) }"

definition queue_start :: "allocator \<Rightarrow> kvpsync_send \<Rightarrow> kvpsync_send option" where
  "queue_start A s = do {
     (a, s) \<leftarrow> send_data_xnew A s;
     s \<leftarrow> upd a (\<lambda>d. d\<lparr>sd_update := (sd_update d)\<lparr>utype := KVP_UPDATE_START, resync_id := s_resync_id s\<rparr>\<rparr>) s;
     data_queue A a s }"

definition queue_one :: "allocator \<Rightarrow> nat \<Rightarrow> kvpsync_send \<times> bool \<Rightarrow> (kvpsync_send \<times> bool) option" where
  "queue_one A a sn = (case s_mem (fst sn) a of
     None \<Rightarrow> None
   | Some d \<Rightarrow> if sd_nrefs d \<noteq> 1 then None
       else do { s \<leftarrow> upd a (\<lambda>d. d\<lparr>sd_nrefs := sd_nrefs d + 1\<rparr>) (fst sn); s \<leftarrow> data_queue A a s; Some (s, True) })"

definition queue_all_inserts :: "allocator \<Rightarrow> kvpsync_send \<Rightarrow> (kvpsync_send \<times> bool) option" where
  "queue_all_inserts A s =
     hashmap_loop (num_elems (s_cache s)) (\<lambda>(s, _). s_cache s) (queue_one A) (hashmap_iter (s_cache s)) (s, False)"

definition queue_flush :: "allocator \<Rightarrow> kvpsync_send \<Rightarrow> kvpsync_send option" where
  "queue_flush A s = do {
     (a, s) \<leftarrow> send_data_xnew A s;
     s \<leftarrow> upd a (\<lambda>d. d\<lparr>sd_update := (sd_update d)\<lparr>utype := KVP_UPDATE_FLUSH\<rparr>\<rparr>) s;
     data_queue A a s }"

definition queue_empty :: "allocator \<Rightarrow> kvpsync_send \<Rightarrow> kvpsync_send option" where
  "queue_empty A s = do {
     (a, s) \<leftarrow> send_data_xnew A s;
     s \<leftarrow> upd a (\<lambda>d. d\<lparr>sd_update := (sd_update d)\<lparr>utype := KVP_UPDATE_EMPTY\<rparr>\<rparr>) s;
     data_queue A a s }"

definition kvpsync_send_resync :: "u32 \<Rightarrow> kvpsync_send \<Rightarrow> kvpsync_send option" where
  "kvpsync_send_resync i s = do {
     s \<leftarrow> drop_data (s\<lparr>s_resync_id := i, s_sync_id := s_sync_id s + (1 + of_bool (s_sync_id s = - 1)), s_update_id := 0,
                       s_recv_ok := False, s_last_extend_ok := 0\<rparr>);
     Some (s\<lparr>s_inflight := 0, s_ok_expiry := 0, s_blocked := False, s_synced := False, s_start_done := False,
             s_start_sent := False, s_sync_done := False, s_sync_sent := False\<rparr>) }"

text \<open>The three stages of the initial sync; the flag says that the stage returns early.\<close>

definition start_stage :: "allocator \<Rightarrow> kvpsync_send \<Rightarrow> (bool \<times> kvpsync_send) option" where
  "start_stage A s =
     (if s_start_done s then Some (False, s)
      else do {
        s \<leftarrow> (if s_start_sent s then Some s
              else do { s \<leftarrow> queue_start A s; Some (s\<lparr>s_blocked := True, s_start_sent := True\<rparr>) });
        Some (if s_blocked s then (True, s) else (False, s\<lparr>s_start_done := True\<rparr>)) })"

definition sync_stage :: "allocator \<Rightarrow> kvpsync_send \<Rightarrow> (bool \<times> kvpsync_send) option" where
  "sync_stage A s =
     (if s_sync_done s then Some (False, s)
      else do {
        s \<leftarrow> (if s_sync_sent s then Some s
              else do { (s, nonempty) \<leftarrow> queue_all_inserts A s; Some (s\<lparr>s_blocked := nonempty, s_sync_sent := True\<rparr>) });
        Some (if s_blocked s then (True, s) else (False, s\<lparr>s_sync_done := True\<rparr>)) })"

definition advance_state :: "allocator \<Rightarrow> kvpsync_send \<Rightarrow> xtime \<Rightarrow> kvpsync_send option" where
  "advance_state A s now =
     (if s_synced s then Some s
      else do {
        (ret, s) \<leftarrow> start_stage A s;
        if ret then Some s else do {
          (ret, s) \<leftarrow> sync_stage A s;
          if ret then Some s else do {
            (_, s) \<leftarrow> calculate_ok_expiry (s\<lparr>s_recv_ok := True\<rparr>) now;
            s \<leftarrow> queue_flush A s;
            Some (s\<lparr>s_synced := True\<rparr>) } } })"

definition successful_packet :: "send_data \<Rightarrow> kvpsync_send \<Rightarrow> kvpsync_send" where
  "successful_packet d s =
     (if sd_congest_validity d \<noteq> s_congest_validity s then s
      else if sd_inflight_at_send d < s_inflight_limit s then s
      else s\<lparr>s_inflight_limit := s_inflight_limit s + INCREASE_PKTS, s_congest_validity := s_congest_validity s + 1\<rparr>)"

definition handle_ack :: "kvpsync_send \<Rightarrow> kvp_ack \<Rightarrow> xtime \<Rightarrow> kvpsync_send option" where
  "handle_ack s ack now =
     (let s = s\<lparr>s_last_recv := now\<rparr> in
      if ack_update_id ack = 0 then
        (if ack_sync_id ack = s_resync_id s then Some s else kvpsync_send_resync (ack_sync_id ack) s)
      else if ack_sync_id ack \<noteq> s_sync_id s then Some s
      else do {
        (elem, h) \<leftarrow> hashmap_delu (s_unacked s) (ack_update_id ack);
        case elem of
          None \<Rightarrow> Some s
        | Some a \<Rightarrow> do {
            s \<leftarrow> data_remove a (s\<lparr>s_unacked := h\<rparr>);
            let s = (if s_sent s = [] \<and> s_unsent s = [] then s\<lparr>s_blocked := False\<rparr> else s);
            d \<leftarrow> s_mem s a;
            let s = successful_packet d s;
            s \<leftarrow> (case sd_cb d of
                    None \<Rightarrow> Some s
                  | Some c \<Rightarrow> upd a (\<lambda>d. d\<lparr>sd_cb := None\<rparr>)
                      (s\<lparr>s_oldest := remove1 a (s_oldest s), s_calls := s_calls s @ [Add_key_cb c]\<rparr>));
            data_downref a s } })"

definition kvpsync_send_handle_ack :: "kvpsync_send \<Rightarrow> kvp_ack \<Rightarrow> xtime \<Rightarrow> kvpsync_send option" where
  "kvpsync_send_handle_ack s ack now = map_option maybe_state_cb (handle_ack s ack now)"

definition fault_time :: "send_data \<Rightarrow> xtime" where
  "fault_time d = sd_sent_time d + 1 * SECOND"

definition inflight_is_full :: "kvpsync_send \<Rightarrow> bool" where
  "inflight_is_full s \<longleftrightarrow> s_inflight s \<ge> s_inflight_limit s"

definition fault_detected :: "send_data \<Rightarrow> xtime \<Rightarrow> kvpsync_send \<Rightarrow> kvpsync_send" where
  "fault_detected d now s =
     (if sd_congest_validity d \<noteq> s_congest_validity s then s
      else if now < s_decrease_backoff s then s
      else s\<lparr>s_inflight_limit := max (DECREASE_BY_FACTOR (s_inflight_limit s)) MIN_INFLIGHT,
             s_decrease_backoff := now + DECREASE_BACKOFF, s_congest_validity := s_congest_validity s + 1\<rparr>)"

text \<open>The two loops that move packets from \<open>sent\<close> back to \<open>unsent\<close>.\<close>

fun resend_all :: "nat \<Rightarrow> nat option \<Rightarrow> kvpsync_send \<Rightarrow> kvpsync_send option" where
  "resend_all fuel ptr s =
     (case peek (s_sent s) of
        None \<Rightarrow> Some s
      | Some a \<Rightarrow> (case fuel of 0 \<Rightarrow> None | Suc f \<Rightarrow> do { s \<leftarrow> data_remove a s; s \<leftarrow> insert_before ptr a s; resend_all f ptr s }))"

fun resend_faulty :: "nat \<Rightarrow> xtime \<Rightarrow> kvpsync_send \<Rightarrow> kvpsync_send option" where
  "resend_faulty fuel now s =
     (case peek (s_sent s) of
        None \<Rightarrow> Some s
      | Some a \<Rightarrow> do {
          d \<leftarrow> s_mem s a;
          if now < fault_time d then Some s
          else case fuel of 0 \<Rightarrow> None | Suc f \<Rightarrow> do {
            s \<leftarrow> data_remove a s; s \<leftarrow> append_unsent a s; resend_faulty f now (fault_detected d now s) } })"

definition check_unresponsive :: "kvpsync_send \<Rightarrow> xtime \<Rightarrow> kvpsync_send option" where
  "check_unresponsive s now =
     (case peek (s_sent s) of
        None \<Rightarrow> Some s
      | Some a \<Rightarrow> do {
          d \<leftarrow> s_mem s a;
          if now \<ge> fault_time d \<and> s_last_recv s \<le> sd_sent_time d
          then do {
            s \<leftarrow> resend_all (length (s_sent s)) (peek (s_unsent s)) s;
            if s_inflight s \<noteq> 0 then None else Some (s\<lparr>s_inflight_limit := MIN_INFLIGHT\<rparr>) }
          else Some s })"

text \<open>What is sent now, and the deadline before its adjustment.\<close>

definition first_fault :: "kvpsync_send \<Rightarrow> xtime option" where
  "first_fault s = do { a \<leftarrow> peek (s_sent s); d \<leftarrow> s_mem s a; Some (fault_time d) }"

definition choose_packet :: "allocator \<Rightarrow> kvpsync_send \<Rightarrow> xtime \<Rightarrow> (kvp_update option \<times> xtime \<times> kvpsync_send) option" where
  "choose_packet A s now =
     (if \<not> inflight_is_full s \<and> s_unsent s \<noteq> [] then do {
        (pkt, s) \<leftarrow> data_send (hd (s_unsent s)) now s;
        deadline \<leftarrow> (if \<not> inflight_is_full s \<and> s_unsent s \<noteq> [] then Some 0 else first_fault s);
        Some (Some pkt, deadline, s) }
      else if s_sent s \<noteq> [] then do { deadline \<leftarrow> first_fault s; Some (None, deadline, s) }
      else if now + 3 * SECOND < s_ok_expiry s then Some (None, s_ok_expiry s - 3 * SECOND, s)
      else do {
        s \<leftarrow> queue_empty A (s\<lparr>s_recv_ok := True\<rparr>);
        a \<leftarrow> peek (s_unsent s);
        (pkt, s) \<leftarrow> data_send a now s;
        d \<leftarrow> s_mem s a;
        Some (Some pkt, fault_time d, s) })"

definition send_run :: "allocator \<Rightarrow> kvpsync_send \<Rightarrow> xtime \<Rightarrow> (kvp_update option \<times> xtime \<times> kvpsync_send) option" where
  "send_run A s now = do {
     s \<leftarrow> advance_state A s now;
     let s = (if s_recv_ok s \<and> now \<ge> s_ok_expiry s then s\<lparr>s_recv_ok := False\<rparr> else s);
     s \<leftarrow> check_unresponsive s now;
     s \<leftarrow> resend_faulty (length (s_sent s)) now s;
     (pkt, deadline, s) \<leftarrow> choose_packet A s now;
     Some (pkt, if s_recv_ok s \<and> deadline > s_ok_expiry s then s_ok_expiry s else deadline, s) }"

definition kvpsync_send_run :: "allocator \<Rightarrow> kvpsync_send \<Rightarrow> xtime \<Rightarrow> (kvp_update option \<times> xtime \<times> kvpsync_send) option" where
  "kvpsync_send_run A s now = map_option (\<lambda>(pkt, deadline, s). (pkt, deadline, maybe_state_cb s)) (send_run A s now)"

section \<open>Keys\<close>

definition queue_delete_and_downref :: "allocator \<Rightarrow> nat \<Rightarrow> kvpsync_send \<Rightarrow> kvpsync_send option" where
  "queue_delete_and_downref A old s = do {
     od \<leftarrow> s_mem s old;
     s \<leftarrow> (if s_sync_sent s \<and> sync_id (sd_update od) = s_sync_id s
           then do {
             (a, s) \<leftarrow> send_data_xnew A s;
             s \<leftarrow> upd a (\<lambda>d. d\<lparr>sd_update := (sd_update d)\<lparr>utype := KVP_UPDATE_DELETE, klen := klen (sd_update od),
                    key := copy_into (take (unat (klen (sd_update od))) (key (sd_update od))) (key (sd_update d)),
                    delete_id := update_id (sd_update od)\<rparr>\<rparr>) s;
             data_queue A a s }
           else Some s);
     data_downref old s }"

definition kvpsync_send_add_key :: "allocator \<Rightarrow> kvpsync_send \<Rightarrow> xtime \<Rightarrow> byte list \<Rightarrow> byte list \<Rightarrow> nat option \<Rightarrow> kvpsync_send option" where
  "kvpsync_send_add_key A s now k v cb =
     (if length k > KVPSYNC_MAX_LEN \<or> length v > KVPSYNC_MAX_LEN then None
      else do {
        (a, s) \<leftarrow> send_data_xnew A s;
        s \<leftarrow> upd a (\<lambda>d. d\<lparr>sd_update := (sd_update d)\<lparr>utype := KVP_UPDATE_INSERT, klen := of_nat (length k),
                 key := copy_into k (key (sd_update d)), vlen := of_nat (length v), val := copy_into v (val (sd_update d))\<rparr>,
               sd_cb := cb, sd_deadline := now + MIN_RESPONSE, sd_key := k\<rparr>) (s\<lparr>s_oldest := s_oldest s @ [a]\<rparr>);
        (old, h) \<leftarrow> hashmap_sets A (s_cache s) k a;
        let s = s\<lparr>s_cache := h\<rparr>;
        s \<leftarrow> (case old of None \<Rightarrow> Some s | Some b \<Rightarrow> queue_delete_and_downref A b s);
        if s_sync_sent s then do { s \<leftarrow> upd a (\<lambda>d. d\<lparr>sd_nrefs := sd_nrefs d + 1\<rparr>) s; data_queue A a s }
        else Some s })"

definition kvpsync_send_delete_key :: "allocator \<Rightarrow> kvpsync_send \<Rightarrow> byte list \<Rightarrow> kvpsync_send option" where
  "kvpsync_send_delete_key A s k = do {
     (elem, h) \<leftarrow> hashmap_dels (s_cache s) k;
     case elem of
       None \<Rightarrow> Some s
     | Some a \<Rightarrow> do {
         s \<leftarrow> upd a (\<lambda>d. d\<lparr>sd_cb := None\<rparr>) (s\<lparr>s_cache := h\<rparr>);
         queue_delete_and_downref A a s } }"

section \<open>Well-formed senders\<close>

abbreviation cached :: "kvpsync_send \<Rightarrow> byte list \<Rightarrow> nat option" where
  "cached s k \<equiv> hm_map (s_cache s) (Str k)"

abbreviation waiting :: "kvpsync_send \<Rightarrow> u32 \<Rightarrow> nat option" where
  "waiting s i \<equiv> hm_map (s_unacked s) (Uint i)"

abbreviation in_cache :: "kvpsync_send \<Rightarrow> nat set" where
  "in_cache s \<equiv> set (elem_ids (s_cache s))"

abbreviation in_unacked :: "kvpsync_send \<Rightarrow> nat set" where
  "in_unacked s \<equiv> set (elem_ids (s_unacked s))"

definition insert_like :: "send_data \<Rightarrow> bool" where
  "insert_like d \<longleftrightarrow> utype (sd_update d) = KVP_UPDATE_INSERT \<and> delete_id (sd_update d) = 0 \<and>
     unat (klen (sd_update d)) = length (sd_key d) \<and> take (unat (klen (sd_update d))) (key (sd_update d)) = sd_key d"

text \<open>
  A structure is referenced by the cache, by \<open>unacked\<close>, and by the operation that works on it (\<open>X\<close>);
  what waits for an acknowledgement is in exactly one of \<open>unsent\<close> and \<open>sent\<close> (as is \<open>Y\<close>, what an
  operation is about to take out of them), and the latter is counted.
\<close>

definition refs :: "kvpsync_send \<Rightarrow> nat set \<Rightarrow> nat \<Rightarrow> nat" where
  "refs s X a = of_bool (a \<in> in_cache s) + of_bool (a \<in> in_unacked s) + of_bool (a \<in> X)"

definition node_ok :: "kvpsync_send \<Rightarrow> nat set \<Rightarrow> nat \<Rightarrow> send_data \<Rightarrow> bool" where
  "node_ok s X a d \<longleftrightarrow> a < s_brk s \<and> sd_nrefs d = refs s X a \<and> sd_nrefs d \<noteq> 0 \<and> (sd_inflight d \<longleftrightarrow> a \<in> set (s_sent s))"

definition cache_node :: "kvpsync_send \<Rightarrow> nat \<Rightarrow> send_data \<Rightarrow> bool" where
  "cache_node s a d \<longleftrightarrow> cached s (sd_key d) = Some a \<and> insert_like d"

definition wait_node :: "kvpsync_send \<Rightarrow> nat \<Rightarrow> send_data \<Rightarrow> bool" where
  "wait_node s a d \<longleftrightarrow> waiting s (update_id (sd_update d)) = Some a \<and> sync_id (sd_update d) = s_sync_id s \<and>
     update_id (sd_update d) \<noteq> 0 \<and> update_id (sd_update d) \<le> s_update_id s"

definition send_ok :: "kvpsync_send \<Rightarrow> nat set \<Rightarrow> nat set \<Rightarrow> bool" where
  "send_ok s X Y \<longleftrightarrow> hm_ok (s_cache s) \<and> hm_ok (s_unacked s) \<and>
     (\<forall>a \<in> in_cache s. \<exists>d. s_mem s a = Some d \<and> cache_node s a d) \<and>
     (\<forall>a \<in> in_unacked s. \<exists>d. s_mem s a = Some d \<and> wait_node s a d) \<and>
     distinct (s_unsent s @ s_sent s) \<and> set (s_unsent s @ s_sent s) = in_unacked s \<union> Y \<and>
     (\<forall>a d. s_mem s a = Some d \<longrightarrow> node_ok s X a d) \<and> (\<forall>a \<in> X. s_mem s a \<noteq> None) \<and> Y \<subseteq> X \<and>
     s_inflight s = int (length (s_sent s)) \<and> 1 \<le> s_inflight_limit s \<and> distinct (s_oldest s) \<and> set (s_oldest s) \<subseteq> dom (s_mem s)"

lemma send_ok_parts:
  assumes "send_ok s X Y"
  shows "hm_ok (s_cache s)" "hm_ok (s_unacked s)"
    "\<forall>a \<in> in_cache s. \<exists>d. s_mem s a = Some d \<and> cache_node s a d"
    "\<forall>a \<in> in_unacked s. \<exists>d. s_mem s a = Some d \<and> wait_node s a d"
    "distinct (s_unsent s @ s_sent s)" "set (s_unsent s @ s_sent s) = in_unacked s \<union> Y"
    "\<forall>a d. s_mem s a = Some d \<longrightarrow> node_ok s X a d" "\<forall>a \<in> X. s_mem s a \<noteq> None" "Y \<subseteq> X"
    "s_inflight s = int (length (s_sent s))" "1 \<le> s_inflight_limit s" "distinct (s_oldest s)" "set (s_oldest s) \<subseteq> dom (s_mem s)"
  using assms unfolding send_ok_def by - (elim conjE, assumption)+

lemmas send_okD = send_ok_parts [rule_format]

lemma held: "hm_ok h \<Longrightarrow> hm_map h k = Some a \<Longrightarrow> a \<in> set (elem_ids h)"
  by (simp add: elem_ids_ran ranI)

lemma cached_mem:
  assumes "send_ok s X Y" "cached s k = Some a"
  shows "\<exists>d. s_mem s a = Some d \<and> sd_key d = k \<and> insert_like d"
proof -
  have "a \<in> in_cache s" using held [OF send_okD(1) [OF assms(1)] assms(2)] .
  from send_okD(3) [OF assms(1) this] obtain d where d: "s_mem s a = Some d" "cached s (sd_key d) = Some a" "insert_like d"
    by (auto simp: cache_node_def)
  with hm_map_inj [OF send_okD(1) [OF assms(1)] assms(2) d(2)] show ?thesis by auto
qed

lemma waiting_mem:
  assumes "send_ok s X Y" "waiting s i = Some a"
  shows "\<exists>d. s_mem s a = Some d \<and> update_id (sd_update d) = i \<and> wait_node s a d \<and> a \<in> in_unacked s"
proof -
  have a: "a \<in> in_unacked s" using held [OF send_okD(2) [OF assms(1)] assms(2)] .
  from send_okD(4) [OF assms(1) this] obtain d where d: "s_mem s a = Some d" "wait_node s a d" by blast
  then have "waiting s (update_id (sd_update d)) = Some a" by (simp add: wait_node_def)
  from hm_map_inj [OF send_okD(2) [OF assms(1)] assms(2) this] d a show ?thesis by auto
qed

text \<open>Only these fields matter.\<close>

lemma node_cong:
  assumes "s_cache s' = s_cache s" "s_unacked s' = s_unacked s"
  shows "refs s' X a = refs s X a" "cache_node s' a d = cache_node s a d"
    "s_sync_id s' = s_sync_id s \<Longrightarrow> s_update_id s' = s_update_id s \<Longrightarrow> wait_node s' a d = wait_node s a d"
    "s_brk s' = s_brk s \<Longrightarrow> s_sent s' = s_sent s \<Longrightarrow> node_ok s' X a d = node_ok s X a d"
  using assms by (simp_all add: refs_def node_ok_def cache_node_def wait_node_def)

lemma send_ok_cong:
  assumes "send_ok s X Y" "s_cache s' = s_cache s" "s_unacked s' = s_unacked s" "s_mem s' = s_mem s" "s_sync_id s' = s_sync_id s"
    "s_update_id s' = s_update_id s" "s_unsent s' = s_unsent s" "s_sent s' = s_sent s" "s_brk s' = s_brk s"
    "s_inflight s' = s_inflight s" "1 \<le> s_inflight_limit s'" "s_oldest s' = s_oldest s"
  shows "send_ok s' X Y"
  using assms(1) node_cong [of s' s] unfolding send_ok_def assms(2-10,12) by (simp add: assms(2-11))

lemma send_ok_mem:
  assumes ok: "send_ok s X Y" and m: "s_mem s a = Some d" and d: "sd_nrefs d' = sd_nrefs d" "sd_inflight d' = sd_inflight d"
    and c: "a \<in> in_cache s \<Longrightarrow> sd_key d' = sd_key d \<and> insert_like d'"
    and u: "a \<in> in_unacked s \<Longrightarrow> update_id (sd_update d') = update_id (sd_update d) \<and> sync_id (sd_update d') = sync_id (sd_update d)"
  shows "send_ok (s\<lparr>s_mem := (s_mem s)(a \<mapsto> d')\<rparr>) X Y"
proof -
  let ?s = "s\<lparr>s_mem := (s_mem s)(a \<mapsto> d')\<rparr>"
  have n: "cache_node ?s b e = cache_node s b e" "wait_node ?s b e = wait_node s b e" "node_ok ?s X b e = node_ok s X b e" for b e
    by (simp_all add: node_cong [of ?s s])
  have "\<exists>e. s_mem ?s b = Some e \<and> cache_node s b e" if "b \<in> in_cache s" for b
    using send_okD(3) [OF ok that] m c that by (cases "b = a") (auto simp: cache_node_def)
  moreover have "\<exists>e. s_mem ?s b = Some e \<and> wait_node s b e" if "b \<in> in_unacked s" for b
    using send_okD(4) [OF ok that] m u that by (cases "b = a") (auto simp: wait_node_def)
  moreover have "node_ok s X b e" if "s_mem ?s b = Some e" for b e
    using send_okD(7) [OF ok, of b] that m d by (cases "b = a") (auto simp: node_ok_def)
  ultimately show ?thesis using send_okD(1,2,5,6,8-) [OF ok] unfolding send_ok_def n by auto
qed

section \<open>Queueing\<close>

lemma succ_less: "(i :: u32) + 1 \<noteq> 0 \<Longrightarrow> i < i + 1"
  by unat_arith

definition blank :: send_data where
  "blank = \<lparr>sd_update = zero_update, sd_key = [], sd_nrefs = 1, sd_inflight = False, sd_inflight_at_send = 0,
     sd_congest_validity = 0, sd_sent_time = 0, sd_cb = None, sd_deadline = 0\<rparr>"

lemma send_ok_fresh:
  assumes "send_ok s X Y"
  shows "s_mem s (s_brk s) = None" "s_brk s \<notin> in_cache s" "s_brk s \<notin> in_unacked s" "s_brk s \<notin> set (s_sent s)" "s_brk s \<notin> set (s_unsent s)"
    "s_brk s \<notin> set (s_oldest s)"
proof -
  show m: "s_mem s (s_brk s) = None"
  proof (cases "s_mem s (s_brk s)")
    case (Some d)
    then show ?thesis using send_okD(7) [OF assms Some] by (simp add: node_ok_def)
  qed
  show "s_brk s \<notin> in_cache s" "s_brk s \<notin> in_unacked s" using send_okD(3,4) [OF assms, of "s_brk s"] m by auto
  moreover have "s_brk s \<notin> Y" using send_okD(8) [OF assms, of "s_brk s"] send_okD(9) [OF assms] m by auto
  ultimately show "s_brk s \<notin> set (s_sent s)" "s_brk s \<notin> set (s_unsent s)" using send_okD(6) [OF assms] by auto
  show "s_brk s \<notin> set (s_oldest s)" using send_okD(13) [OF assms] m by auto
qed

lemma xnew_ok:
  assumes ok: "send_ok s X {}"
  shows "send_data_xnew alloc_ok s = Some (s_brk s, s\<lparr>s_brk := s_brk s + 1, s_mem := (s_mem s)(s_brk s \<mapsto> blank)\<rparr>)"
    "send_ok (s\<lparr>s_brk := s_brk s + 1, s_mem := (s_mem s)(s_brk s \<mapsto> blank)\<rparr>) (insert (s_brk s) X) {}"
proof -
  let ?s = "s\<lparr>s_brk := s_brk s + 1, s_mem := (s_mem s)(s_brk s \<mapsto> blank)\<rparr>"
  note f = send_ok_fresh [OF ok]
  show "send_data_xnew alloc_ok s = Some (s_brk s, ?s)" by (simp add: send_data_xnew_def blank_def)
  have n: "cache_node ?s b e = cache_node s b e" "wait_node ?s b e = wait_node s b e" for b e
    by (simp_all add: cache_node_def wait_node_def)
  have "\<exists>e. s_mem ?s b = Some e \<and> cache_node s b e" if "b \<in> in_cache s" for b
    using send_okD(3) [OF ok that] f(2) that by (cases "b = s_brk s") auto
  moreover have "\<exists>e. s_mem ?s b = Some e \<and> wait_node s b e" if "b \<in> in_unacked s" for b
    using send_okD(4) [OF ok that] f(3) that by (cases "b = s_brk s") auto
  moreover have "node_ok ?s (insert (s_brk s) X) b e" if "s_mem ?s b = Some e" for b e
    using send_okD(7) [OF ok, of b] send_okD(8) [OF ok, of "s_brk s"] that f by (cases "b = s_brk s") (auto simp: node_ok_def refs_def blank_def)
  ultimately show "send_ok ?s (insert (s_brk s) X) {}" using send_okD(1,2,5,6,8,10-) [OF ok] unfolding send_ok_def n by auto
qed

lemma data_queue_ok:
  assumes ok: "send_ok s (insert a X) {}" and a: "a \<notin> in_unacked s" "s_mem s a = Some d" "a \<notin> X" and w: "s_update_id s + 1 \<noteq> 0"
  defines "d' \<equiv> d\<lparr>sd_update := (sd_update d)\<lparr>sync_id := s_sync_id s, update_id := s_update_id s + 1\<rparr>\<rparr>"
  shows "\<exists>h. data_queue alloc_ok a s = Some (s\<lparr>s_update_id := s_update_id s + 1, s_mem := (s_mem s)(a \<mapsto> d'), s_unsent := s_unsent s @ [a], s_unacked := h\<rparr>) \<and>
    (\<forall>j. hm_map h (Uint j) = (if j = s_update_id s + 1 then Some a else waiting s j)) \<and> set (elem_ids h) = insert a (in_unacked s) \<and>
    send_ok (s\<lparr>s_update_id := s_update_id s + 1, s_mem := (s_mem s)(a \<mapsto> d'), s_unsent := s_unsent s @ [a], s_unacked := h\<rparr>) X {}"
proof -
  let ?i = "s_update_id s + 1"
  have lt: "s_update_id s < ?i" using w by (rule succ_less)
  have none: "waiting s ?i = None"
  proof (cases "waiting s ?i")
    case (Some b)
    from waiting_mem [OF ok Some] have "?i \<le> s_update_id s" by (auto simp: wait_node_def)
    then show ?thesis using lt by (simp add: leD)
  qed
  from uint_table.put_law [OF send_okD(2) [OF ok] a(1), of alloc_ok ?i] none obtain h where
    h: "hashmap_setu alloc_ok (s_unacked s) ?i a = Some (None, h)" "hm_ok h" "\<And>j. hm_map h (Uint j) = (if j = ?i then Some a else waiting s j)"
    "set (elem_ids h) = insert a (in_unacked s)" by (auto simp: fun_eq_iff)
  let ?s = "s\<lparr>s_update_id := ?i, s_mem := (s_mem s)(a \<mapsto> d'), s_unsent := s_unsent s @ [a], s_unacked := h\<rparr>"
  have nl: "a \<notin> set (s_unsent s)" "a \<notin> set (s_sent s)" using a(1) send_okD(6) [OF ok] by auto
  have "data_queue alloc_ok a s = Some ?s"
    using a(2) nl h(1) by (simp add: data_queue_def upd_def append_unsent_def Let_def d'_def)
  moreover have "send_ok ?s X {}"
  proof -
    have "\<exists>e. s_mem ?s b = Some e \<and> cache_node ?s b e" if "b \<in> in_cache s" for b
      using send_okD(3) [OF ok that] a(2) by (cases "b = a") (auto simp: cache_node_def d'_def insert_like_def)
    moreover have "\<exists>e. s_mem ?s b = Some e \<and> wait_node ?s b e" if b: "b \<in> insert a (in_unacked s)" for b
    proof (cases "b = a")
      case True
      then show ?thesis using h(3) w by (auto simp: wait_node_def d'_def)
    next
      case False
      then obtain e where e: "s_mem s b = Some e" "wait_node s b e" using send_okD(4) [OF ok, of b] b by auto
      then have "update_id (sd_update e) < ?i" using lt by (auto simp: wait_node_def)
      then show ?thesis using e False h(3) by (auto simp: wait_node_def less_imp_le)
    qed
    moreover have "node_ok ?s X b e" if e: "s_mem ?s b = Some e" for b e
    proof (cases "b = a")
      case True
      have "refs ?s X a = refs s (insert a X) a" using a(1,3) h(4) by (simp add: refs_def)
      moreover have "e = d'" using True e by simp
      ultimately show ?thesis using True send_okD(7) [OF ok a(2)] nl unfolding node_ok_def by (simp add: d'_def)
    next
      case False
      then have "refs ?s X b = refs s (insert a X) b" using h(4) by (simp add: refs_def)
      then show ?thesis using False e send_okD(7) [OF ok, of b e] by (simp add: node_ok_def)
    qed
    moreover have "distinct (s_unsent ?s @ s_sent ?s)" "set (s_unsent ?s @ s_sent ?s) = insert a (in_unacked s)"
      using send_okD(5,6) [OF ok] nl by auto
    ultimately show ?thesis using send_okD(1,8,10-) [OF ok] h(2,4) unfolding send_ok_def by auto
  qed
  ultimately show ?thesis using h(3,4) by blast
qed

text \<open>A new packet that is in no table yet: \<open>queue_start\<close>, \<open>queue_flush\<close>, \<open>queue_empty\<close> and deletions.\<close>

definition queue_new :: "allocator \<Rightarrow> (kvp_update \<Rightarrow> kvp_update) \<Rightarrow> kvpsync_send \<Rightarrow> kvpsync_send option" where
  "queue_new A f s = do { (a, s) \<leftarrow> send_data_xnew A s; s \<leftarrow> upd a (\<lambda>d. d\<lparr>sd_update := f (sd_update d)\<rparr>) s; data_queue A a s }"

text \<open>What queueing the structure at \<open>a\<close> with the update \<open>u\<close> does.\<close>

definition queued :: "kvpsync_send \<Rightarrow> nat \<Rightarrow> kvp_update \<Rightarrow> kvpsync_send \<Rightarrow> bool" where
  "queued s a u s' \<longleftrightarrow> (\<exists>h d. s' = s\<lparr>s_update_id := s_update_id s + 1, s_brk := s_brk s', s_mem := (s_mem s)(a \<mapsto> d), s_unsent := s_unsent s @ [a], s_unacked := h\<rparr> \<and>
     sd_update d = u\<lparr>sync_id := s_sync_id s, update_id := s_update_id s + 1\<rparr> \<and>
     (case s_mem s a of None \<Rightarrow> sd_cb d = None | Some e \<Rightarrow> sd_cb d = sd_cb e \<and> sd_deadline d = sd_deadline e \<and> sd_key d = sd_key e) \<and>
     (\<forall>j. hm_map h (Uint j) = (if j = s_update_id s + 1 then Some a else waiting s j)) \<and> set (elem_ids h) = insert a (in_unacked s))"

lemma data_queue_queued:
  assumes "send_ok s (insert a X) {}" "a \<notin> in_unacked s" "s_mem s a = Some d" "a \<notin> X" "s_update_id s + 1 \<noteq> 0"
  shows "\<exists>s'. data_queue alloc_ok a s = Some s' \<and> send_ok s' X {} \<and> queued s a (sd_update d) s'"
proof -
  let ?d = "d\<lparr>sd_update := (sd_update d)\<lparr>sync_id := s_sync_id s, update_id := s_update_id s + 1\<rparr>\<rparr>"
  from data_queue_ok [OF assms] obtain h where
    h: "data_queue alloc_ok a s = Some (s\<lparr>s_update_id := s_update_id s + 1, s_mem := (s_mem s)(a \<mapsto> ?d), s_unsent := s_unsent s @ [a], s_unacked := h\<rparr>)"
    "\<forall>j. hm_map h (Uint j) = (if j = s_update_id s + 1 then Some a else waiting s j)" "set (elem_ids h) = insert a (in_unacked s)"
    "send_ok (s\<lparr>s_update_id := s_update_id s + 1, s_mem := (s_mem s)(a \<mapsto> ?d), s_unsent := s_unsent s @ [a], s_unacked := h\<rparr>) X {}" by auto
  then show ?thesis using assms(3) unfolding queued_def
    by (intro exI [of _ "s\<lparr>s_update_id := s_update_id s + 1, s_mem := (s_mem s)(a \<mapsto> ?d), s_unsent := s_unsent s @ [a], s_unacked := h\<rparr>"]
      conjI exI [of _ h] exI [of _ ?d]) simp_all
qed

lemma queue_new_ok:
  assumes ok: "send_ok s X {}" and w: "s_update_id s + 1 \<noteq> 0"
  shows "\<exists>s'. queue_new alloc_ok f s = Some s' \<and> send_ok s' X {} \<and> queued s (s_brk s) (f zero_update) s' \<and> s_brk s \<notin> in_cache s \<and> s_brk s \<notin> in_unacked s"
proof -
  note f = send_ok_fresh [OF ok]
  let ?a = "s_brk s"
  let ?s = "s\<lparr>s_brk := s_brk s + 1, s_mem := (s_mem s)(s_brk s \<mapsto> blank\<lparr>sd_update := f zero_update\<rparr>)\<rparr>"
  have x: "?a \<notin> X" using send_okD(8) [OF ok, of ?a] f by auto
  have "send_ok ?s (insert ?a X) {}"
    using send_ok_mem [OF xnew_ok(2) [OF ok], of ?a blank "blank\<lparr>sd_update := f zero_update\<rparr>"] f by simp
  from data_queue_ok [OF this, of "blank\<lparr>sd_update := f zero_update\<rparr>"] f w x obtain h where
    h: "data_queue alloc_ok ?a ?s = Some (?s\<lparr>s_update_id := s_update_id s + 1, s_mem := (s_mem ?s)(?a \<mapsto> blank\<lparr>sd_update := (f zero_update)\<lparr>sync_id := s_sync_id s, update_id := s_update_id s + 1\<rparr>\<rparr>),
      s_unsent := s_unsent s @ [?a], s_unacked := h\<rparr>)" "\<forall>j. hm_map h (Uint j) = (if j = s_update_id s + 1 then Some ?a else waiting s j)"
    "set (elem_ids h) = insert ?a (in_unacked s)" "send_ok (?s\<lparr>s_update_id := s_update_id s + 1, s_mem := (s_mem ?s)(?a \<mapsto> blank\<lparr>sd_update := (f zero_update)\<lparr>sync_id := s_sync_id s, update_id := s_update_id s + 1\<rparr>\<rparr>),
      s_unsent := s_unsent s @ [?a], s_unacked := h\<rparr>) X {}" by auto
  have e: "queue_new alloc_ok f s = data_queue alloc_ok ?a ?s"
    by (simp add: queue_new_def xnew_ok(1) [OF ok] upd_def) (simp add: blank_def)
  show ?thesis using h f e unfolding queued_def
    by (intro exI [of _ "?s\<lparr>s_update_id := s_update_id s + 1, s_mem := (s_mem ?s)(?a \<mapsto> blank\<lparr>sd_update := (f zero_update)\<lparr>sync_id := s_sync_id s, update_id := s_update_id s + 1\<rparr>\<rparr>),
      s_unsent := s_unsent s @ [?a], s_unacked := h\<rparr>"] conjI exI [of _ h]
      exI [of _ "blank\<lparr>sd_update := (f zero_update)\<lparr>sync_id := s_sync_id s, update_id := s_update_id s + 1\<rparr>\<rparr>"]) (simp_all add: blank_def)
qed

lemma queue_new_simps:
  "queue_start A s = queue_new A (\<lambda>u. u\<lparr>utype := KVP_UPDATE_START, resync_id := s_resync_id s\<rparr>) s"
  "queue_flush A s = queue_new A (\<lambda>u. u\<lparr>utype := KVP_UPDATE_FLUSH\<rparr>) s"
  "queue_empty A s = queue_new A (\<lambda>u. u\<lparr>utype := KVP_UPDATE_EMPTY\<rparr>) s"
  by (auto simp: queue_start_def queue_flush_def queue_empty_def queue_new_def send_data_xnew_def)

section \<open>Moving, releasing\<close>

text \<open>What the operations that queue nothing leave as it is: the updates up to their \<open>ok_expiry\<close>.\<close>

definition content :: "kvpsync_send \<Rightarrow> nat \<Rightarrow> (kvp_update \<times> xtime) option" where
  "content s a = map_option (\<lambda>d. ((sd_update d)\<lparr>ok_expiry := 0\<rparr>, sd_deadline d)) (s_mem s a)"

definition pending :: "kvpsync_send \<Rightarrow> nat \<Rightarrow> nat option" where
  "pending s a = Option.bind (s_mem s a) sd_cb"

abbreviation flags :: "kvpsync_send \<Rightarrow> u32 \<times> bool \<times> bool \<times> bool \<times> bool \<times> bool \<times> bool" where
  "flags s \<equiv> (s_resync_id s, s_blocked s, s_start_sent s, s_start_done s, s_sync_sent s, s_sync_done s, s_synced s)"

definition same_log :: "kvpsync_send \<Rightarrow> kvpsync_send \<Rightarrow> bool" where
  "same_log s s' \<longleftrightarrow> s_cache s' = s_cache s \<and> s_unacked s' = s_unacked s \<and> s_sync_id s' = s_sync_id s \<and> s_update_id s' = s_update_id s \<and>
     flags s' = flags s \<and> s_oldest s' = s_oldest s \<and> content s' = content s \<and> pending s' = pending s"

lemma same_log_refl [simp]: "same_log s s"
  by (simp add: same_log_def)

lemma same_log_trans: "same_log s s' \<Longrightarrow> same_log s' s'' \<Longrightarrow> same_log s s''"
  by (simp add: same_log_def)

lemma content_upd: "s_mem s a = Some d \<Longrightarrow> (sd_update d')\<lparr>ok_expiry := 0\<rparr> = (sd_update d)\<lparr>ok_expiry := 0\<rparr> \<Longrightarrow>
    sd_deadline d' = sd_deadline d \<Longrightarrow> sd_cb d' = sd_cb d \<Longrightarrow> s_mem s' = (s_mem s)(a \<mapsto> d') \<Longrightarrow> content s' = content s \<and> pending s' = pending s"
  by (simp add: content_def pending_def fun_eq_iff)

lemma relist_ok:
  assumes ok: "send_ok s X Y" and m: "s_mem s a = Some d"
    and d: "sd_nrefs d' = sd_nrefs d" "sd_key d' = sd_key d" "(sd_update d')\<lparr>ok_expiry := 0\<rparr> = (sd_update d)\<lparr>ok_expiry := 0\<rparr>" "sd_inflight d' \<longleftrightarrow> a \<in> set ss" "sd_deadline d' = sd_deadline d" "sd_cb d' = sd_cb d"
    and l: "distinct (us @ ss)" "set (us @ ss) = in_unacked s \<union> Y'" "Y' \<subseteq> X" "\<And>b. b \<noteq> a \<Longrightarrow> b \<in> set ss \<longleftrightarrow> b \<in> set (s_sent s)"
  shows "send_ok (s\<lparr>s_unsent := us, s_sent := ss, s_inflight := int (length ss), s_mem := (s_mem s)(a \<mapsto> d')\<rparr>) X Y'"
    "same_log s (s\<lparr>s_unsent := us, s_sent := ss, s_inflight := int (length ss), s_mem := (s_mem s)(a \<mapsto> d')\<rparr>)"
proof -
  let ?s = "s\<lparr>s_unsent := us, s_sent := ss, s_inflight := int (length ss), s_mem := (s_mem s)(a \<mapsto> d')\<rparr>"
  have u: "sync_id (sd_update d') = sync_id (sd_update d)" "update_id (sd_update d') = update_id (sd_update d)" "insert_like d' = insert_like d"
    using d(2,3) by (cases "sd_update d"; cases "sd_update d'"; simp add: insert_like_def)+
  have n: "cache_node ?s b e = cache_node s b e" "wait_node ?s b e = wait_node s b e" "refs ?s X b = refs s X b" for b e
    by (simp_all add: cache_node_def wait_node_def refs_def)
  have "\<exists>e. s_mem ?s b = Some e \<and> cache_node s b e" if "b \<in> in_cache s" for b
    using send_okD(3) [OF ok that] m u d(2) by (cases "b = a") (auto simp: cache_node_def)
  moreover have "\<exists>e. s_mem ?s b = Some e \<and> wait_node s b e" if "b \<in> in_unacked s" for b
    using send_okD(4) [OF ok that] m u by (cases "b = a") (auto simp: wait_node_def)
  moreover have "node_ok ?s X b e" if "s_mem ?s b = Some e" for b e
  proof (cases "b = a")
    case True
    then have "e = d'" using that by simp
    then show ?thesis using True send_okD(7) [OF ok m] d(1,4) n(3) by (simp add: node_ok_def)
  next
    case False
    then show ?thesis using send_okD(7) [OF ok, of b e] that l(4) n(3) by (simp add: node_ok_def)
  qed
  moreover have "\<forall>b \<in> X. s_mem ?s b \<noteq> None" using send_okD(8) [OF ok] by auto
  moreover have "set (s_oldest s) \<subseteq> dom (s_mem ?s)" using send_okD(13) [OF ok] by auto
  ultimately show "send_ok ?s X Y'" using send_okD(1,2,11,12) [OF ok] l(1-3) unfolding send_ok_def n(1,2) by auto
  show "same_log s ?s" using content_upd [OF m d(3,5,6)] by (simp add: same_log_def)
qed

lemma data_remove_eq:
  assumes ok: "send_ok s X Y" and m: "s_mem s a = Some d"
  shows "data_remove a s = Some (s\<lparr>s_unsent := remove1 a (s_unsent s), s_sent := remove1 a (s_sent s),
    s_inflight := int (length (remove1 a (s_sent s))), s_mem := (s_mem s)(a \<mapsto> d\<lparr>sd_inflight := False\<rparr>)\<rparr>)"
proof -
  have "sd_inflight d \<longleftrightarrow> a \<in> set (s_sent s)" using send_okD(7) [OF ok m] by (simp add: node_ok_def)
  then have n: "s_inflight s - of_bool (sd_inflight d) = int (length (remove1 a (s_sent s)))"
    using send_okD(10) [OF ok] by (auto simp: length_remove1 int_ops(6) simp del: of_nat_diff)
  show ?thesis by (simp add: data_remove_def m n Let_def)
qed

text \<open>Taking what is no longer in \<open>unacked\<close> out of its list.\<close>

lemma data_remove_ok:
  assumes ok: "send_ok s X Y" and m: "s_mem s a = Some d" and a: "a \<in> Y" "a \<notin> in_unacked s"
  shows "\<exists>s'. data_remove a s = Some s' \<and> send_ok s' X (Y - {a}) \<and> same_log s s' \<and> s_mem s' a = Some (d\<lparr>sd_inflight := False\<rparr>) \<and>
    s_unsent s' = remove1 a (s_unsent s) \<and> s_sent s' = remove1 a (s_sent s) \<and> s_oldest s' = s_oldest s"
proof -
  let ?s = "s\<lparr>s_unsent := remove1 a (s_unsent s), s_sent := remove1 a (s_sent s),
    s_inflight := int (length (remove1 a (s_sent s))), s_mem := (s_mem s)(a \<mapsto> d\<lparr>sd_inflight := False\<rparr>)\<rparr>"
  have dl: "distinct (s_unsent s)" "distinct (s_sent s)" "set (s_unsent s) \<inter> set (s_sent s) = {}" using send_okD(5) [OF ok] by auto
  have "distinct (remove1 a (s_unsent s) @ remove1 a (s_sent s))" "set (remove1 a (s_unsent s) @ remove1 a (s_sent s)) = in_unacked s \<union> (Y - {a})"
    using dl send_okD(6) [OF ok] a by auto
  moreover have "Y - {a} \<subseteq> X" using send_okD(9) [OF ok] by auto
  ultimately have "send_ok ?s X (Y - {a})" "same_log s ?s"
    using relist_ok [OF ok m, of "d\<lparr>sd_inflight := False\<rparr>" "remove1 a (s_sent s)" "remove1 a (s_unsent s)" "Y - {a}"] dl by auto
  then show ?thesis using data_remove_eq [OF ok m] by (intro exI [of _ ?s]) simp
qed

lemma data_downref_gen:
  assumes ok: "send_ok s X Y" and a: "a \<in> X" "a \<notin> Y" and m: "s_mem s a = Some d"
  defines "keep \<equiv> a \<in> in_cache s \<or> a \<in> in_unacked s"
  defines "s' \<equiv> s\<lparr>s_mem := (s_mem s)(a := (if keep then Some (d\<lparr>sd_nrefs := sd_nrefs d - 1\<rparr>) else None)), s_oldest := (if keep then s_oldest s else remove1 a (s_oldest s))\<rparr>"
  shows "data_downref a s = Some s'" "send_ok s' (X - {a}) Y"
proof -
  have r: "sd_nrefs d = of_bool (a \<in> in_cache s) + of_bool (a \<in> in_unacked s) + 1" using send_okD(7) [OF ok m] a by (simp add: node_ok_def refs_def)
  then show "data_downref a s = Some s'" using m by (auto simp: data_downref_def s'_def keep_def)
  have n: "cache_node s' b e = cache_node s b e" "wait_node s' b e = wait_node s b e" for b e
    by (simp_all add: cache_node_def wait_node_def s'_def)
  have "\<exists>e. s_mem s' b = Some e \<and> cache_node s b e" if "b \<in> in_cache s" for b
    using send_okD(3) [OF ok that] m that by (cases "b = a") (auto simp: cache_node_def insert_like_def s'_def keep_def)
  moreover have "\<exists>e. s_mem s' b = Some e \<and> wait_node s b e" if "b \<in> in_unacked s" for b
    using send_okD(4) [OF ok that] m that by (cases "b = a") (auto simp: wait_node_def s'_def keep_def)
  moreover have "node_ok s' (X - {a}) b e" if e: "s_mem s' b = Some e" for b e
  proof (cases "b = a")
    case True
    then have "keep" "e = d\<lparr>sd_nrefs := sd_nrefs d - 1\<rparr>" using e by (auto simp: s'_def split: if_splits)
    then show ?thesis using True send_okD(7) [OF ok m] a r by (auto simp: node_ok_def refs_def s'_def keep_def)
  next
    case False
    then have "s_mem s b = Some e" using e by (simp add: s'_def)
    moreover have "refs s' (X - {a}) b = refs s X b" using False by (simp add: refs_def s'_def)
    ultimately show ?thesis using send_okD(7) [OF ok, of b e] by (simp add: node_ok_def s'_def)
  qed
  moreover have "\<forall>b \<in> X - {a}. s_mem s' b \<noteq> None" using send_okD(8) [OF ok] by (auto simp: s'_def)
  moreover have "distinct (s_oldest s')" "set (s_oldest s') \<subseteq> dom (s_mem s')" using send_okD(12,13) [OF ok] by (auto simp: s'_def)
  moreover have "Y \<subseteq> X - {a}" using send_okD(9) [OF ok] a(2) by auto
  moreover have "s_cache s' = s_cache s" "s_unacked s' = s_unacked s" "s_unsent s' = s_unsent s" "s_sent s' = s_sent s" "s_inflight s' = s_inflight s" "s_inflight_limit s' = s_inflight_limit s"
    by (simp_all add: s'_def)
  ultimately show "send_ok s' (X - {a}) Y" using send_okD(1,2,5,6,10,11) [OF ok] unfolding send_ok_def n by auto
qed

lemma data_downref_ok:
  assumes ok: "send_ok s X Y" and a: "a \<in> X" "a \<notin> Y" "a \<notin> in_unacked s" and m: "s_mem s a = Some d"
  shows "\<exists>s'. data_downref a s = Some s' \<and> send_ok s' (X - {a}) Y \<and>
    s' = s\<lparr>s_mem := (s_mem s)(a := (if a \<in> in_cache s then Some (d\<lparr>sd_nrefs := 1\<rparr>) else None)),
           s_oldest := (if a \<in> in_cache s then s_oldest s else remove1 a (s_oldest s))\<rparr>"
proof -
  have "a \<in> in_cache s \<Longrightarrow> sd_nrefs d - 1 = 1" using send_okD(7) [OF ok m] a by (simp add: node_ok_def refs_def)
  then show ?thesis using data_downref_gen [OF ok a(1,2) m] a(3) by (cases "a \<in> in_cache s") simp_all
qed

section \<open>Dropping everything\<close>

text \<open>The fields that emptying the lists leaves alone.\<close>

definition rest :: "kvpsync_send \<Rightarrow> kvpsync_send" where
  "rest s = s\<lparr>s_mem := Map.empty, s_unsent := [], s_sent := [], s_oldest := [], s_inflight := 0\<rparr>"

lemma rest_fields:
  assumes "rest s' = rest s"
  shows "s_cache s' = s_cache s" "s_unacked s' = s_unacked s" "s_sync_id s' = s_sync_id s" "s_update_id s' = s_update_id s" "s_brk s' = s_brk s"
    "s_sync_sent s' = s_sync_sent s" "s_synced s' = s_synced s" "s_calls s' = s_calls s" "s_inflight_limit s' = s_inflight_limit s"
  using assms by (cases s; cases s'; simp add: rest_def)+

definition core :: "send_data \<Rightarrow> kvp_update \<times> byte list \<times> nat option \<times> xtime" where
  "core d = (sd_update d, sd_key d, sd_cb d, sd_deadline d)"

definition keeps :: "kvpsync_send \<Rightarrow> kvpsync_send \<Rightarrow> bool" where
  "keeps s s' \<longleftrightarrow> rest s' = rest s \<and> (\<forall>a \<in> in_cache s. map_option core (s_mem s' a) = map_option core (s_mem s a)) \<and>
     (\<exists>P. s_oldest s' = filter P (s_oldest s) \<and> (\<forall>a \<in> in_cache s. P a))"

lemma keeps_refl [simp]: "keeps s s"
  by (auto simp: keeps_def intro!: exI [of _ "\<lambda>_. True"])

lemma keeps_trans:
  assumes "keeps s s'" "keeps s' s''"
  shows "keeps s s''"
proof -
  obtain P P' where P: "s_oldest s' = filter P (s_oldest s)" "\<forall>a \<in> in_cache s. P a" "s_oldest s'' = filter P' (s_oldest s')" "\<forall>a \<in> in_cache s'. P' a"
    using assms unfolding keeps_def by blast
  have c: "s_cache s' = s_cache s" using assms(1) rest_fields(1) [of s' s] by (simp add: keeps_def)
  have "s_oldest s'' = filter (\<lambda>a. P a \<and> P' a) (s_oldest s) \<and> (\<forall>a \<in> in_cache s. P a \<and> P' a)" using P c by (simp add: conj_commute)
  then show ?thesis using assms c unfolding keeps_def by (intro conjI exI [of _ "\<lambda>a. P a \<and> P' a"]) auto
qed

lemma release_ok:
  assumes ok: "send_ok s X Y" and a: "a \<in> Y" and u: "in_unacked s = {}"
  shows "\<exists>s1 s'. data_remove a s = Some s1 \<and> data_downref a s1 = Some s' \<and> send_ok s' (X - {a}) (Y - {a}) \<and> keeps s s' \<and>
    s_unsent s' = remove1 a (s_unsent s) \<and> s_sent s' = remove1 a (s_sent s)"
proof -
  have X: "a \<in> X" using a send_okD(9) [OF ok] by auto
  from send_okD(8) [OF ok X] obtain d where m: "s_mem s a = Some d" by auto
  from data_remove_ok [OF ok m a] u obtain s1 where s1: "data_remove a s = Some s1" "send_ok s1 X (Y - {a})" "same_log s s1"
    "s_mem s1 a = Some (d\<lparr>sd_inflight := False\<rparr>)" "s_unsent s1 = remove1 a (s_unsent s)" "s_sent s1 = remove1 a (s_sent s)" by auto
  have c1: "in_cache s1 = in_cache s" "in_unacked s1 = {}" using s1(3) u by (simp_all add: same_log_def)
  let ?s = "s1\<lparr>s_mem := (s_mem s1)(a := (if a \<in> in_cache s1 then Some (d\<lparr>sd_inflight := False, sd_nrefs := 1\<rparr>) else None)),
           s_oldest := (if a \<in> in_cache s1 then s_oldest s1 else remove1 a (s_oldest s1))\<rparr>"
  from data_downref_ok [OF s1(2) X _ _ s1(4)] c1 have s': "data_downref a s1 = Some ?s" "send_ok ?s (X - {a}) (Y - {a})" by auto
  have s1e: "s1 = s\<lparr>s_unsent := remove1 a (s_unsent s), s_sent := remove1 a (s_sent s),
    s_inflight := int (length (remove1 a (s_sent s))), s_mem := (s_mem s)(a \<mapsto> d\<lparr>sd_inflight := False\<rparr>)\<rparr>"
    using data_remove_eq [OF ok m] s1(1) by simp
  have "distinct (s_oldest s)" using send_okD(12) [OF ok] .
  then have "s_oldest ?s = filter (\<lambda>b. b = a \<longrightarrow> a \<in> in_cache s) (s_oldest s)"
    by (auto simp: s1e distinct_remove1_removeAll removeAll_filter_not_eq intro!: filter_cong)
  then have "keeps s ?s" unfolding keeps_def using c1(1) m
    by (intro conjI exI [of _ "\<lambda>b. b = a \<longrightarrow> a \<in> in_cache s"]) (auto simp: rest_def core_def s1e)
  then show ?thesis using s' s1(1,5,6) by (intro exI [of _ s1] exI [of _ ?s]) simp
qed

lemma empty_unsent_ok:
  assumes "send_ok s X X" "X = set (s_unsent s @ s_sent s)" "in_unacked s = {}" "length (s_unsent s) \<le> fuel"
  shows "\<exists>s'. empty_unsent fuel s = Some s' \<and> send_ok s' (set (s_sent s)) (set (s_sent s)) \<and> keeps s s' \<and> s_unsent s' = [] \<and> s_sent s' = s_sent s"
  using assms
proof (induction "s_unsent s" arbitrary: s X fuel)
  case Nil
  then show ?case by (intro exI [of _ s]) (auto simp flip: Nil(1))
next
  case (Cons a as)
  obtain f where f: "fuel = Suc f" using Cons.prems(4) Cons.hyps(2) [symmetric] by (cases fuel) auto
  have hd: "s_unsent s = a # as" using Cons.hyps(2) by simp
  have dl: "a \<notin> set as" "a \<notin> set (s_sent s)" using send_okD(5) [OF Cons.prems(1)] hd by auto
  from release_ok [OF Cons.prems(1) _ Cons.prems(3), of a] Cons.prems(2) hd obtain s1 s2 where
    s2: "data_remove a s = Some s1" "data_downref a s1 = Some s2" "send_ok s2 (X - {a}) (X - {a})" "keeps s s2" "s_unsent s2 = as" "s_sent s2 = s_sent s"
    using dl(2) by (auto simp: remove1_idem)
  have u2: "in_unacked s2 = {}" using s2(4) rest_fields(2) [of s2 s] Cons.prems(3) by (simp add: keeps_def)
  have X2: "X - {a} = set (s_unsent s2 @ s_sent s2)" using Cons.prems(2) hd dl s2(5,6) by auto
  from Cons.hyps(1) [OF s2(5) [symmetric] s2(3) X2 u2, of f] Cons.prems(4) hd f s2(5) obtain s' where
    s': "empty_unsent f s2 = Some s'" "send_ok s' (set (s_sent s2)) (set (s_sent s2))" "keeps s2 s'" "s_unsent s' = []" "s_sent s' = s_sent s2" by auto
  have "empty_unsent fuel s = Some s'" using f hd s2(1,2) s'(1) by simp
  then show ?case using s' s2(4,6) keeps_trans by auto
qed

lemma empty_sent_ok:
  assumes "send_ok s X X" "X = set (s_sent s)" "s_unsent s = []" "in_unacked s = {}" "length (s_sent s) \<le> fuel"
  shows "\<exists>s'. empty_sent fuel s = Some s' \<and> send_ok s' {} {} \<and> keeps s s' \<and> s_unsent s' = [] \<and> s_sent s' = []"
  using assms
proof (induction "s_sent s" arbitrary: s X fuel)
  case Nil
  then show ?case by (intro exI [of _ s]) (auto simp flip: Nil(1))
next
  case (Cons a as)
  obtain f where f: "fuel = Suc f" using Cons.prems(5) Cons.hyps(2) [symmetric] by (cases fuel) auto
  have hd: "s_sent s = a # as" using Cons.hyps(2) by simp
  have dl: "a \<notin> set as" using send_okD(5) [OF Cons.prems(1)] hd by auto
  from release_ok [OF Cons.prems(1) _ Cons.prems(4), of a] Cons.prems(2,3) hd obtain s1 s2 where
    s2: "data_remove a s = Some s1" "data_downref a s1 = Some s2" "send_ok s2 (X - {a}) (X - {a})" "keeps s s2" "s_unsent s2 = []" "s_sent s2 = as" by auto
  have u2: "in_unacked s2 = {}" using s2(4) rest_fields(2) [of s2 s] Cons.prems(4) by (simp add: keeps_def)
  have X2: "X - {a} = set (s_sent s2)" using Cons.prems(2) hd dl s2(6) by auto
  from Cons.hyps(1) [OF s2(6) [symmetric] s2(3) X2 s2(5) u2, of f] Cons.prems(5) hd f s2(6) obtain s' where
    s': "empty_sent f s2 = Some s'" "send_ok s' {} {}" "keeps s2 s'" "s_unsent s' = []" "s_sent s' = []" by auto
  have "empty_sent fuel s = Some s'" using f hd s2(1,2) s'(1) by simp
  then show ?case using s' s2(4) keeps_trans by auto
qed

text \<open>All of \<open>unacked\<close> is taken out first, so that the lists are all that is left of the packets.\<close>

lemma pop_ok:
  assumes ok: "send_ok s {} {}" and h: "hm_ok h" "elem_ids h = []"
    and s': "s' = s\<lparr>s_resync_id := i, s_sync_id := j, s_update_id := k, s_recv_ok := b, s_last_extend_ok := l\<rparr>"
  shows "send_ok (s'\<lparr>s_unacked := h\<rparr>) (in_unacked s) (in_unacked s)"
proof -
  let ?s = "s'\<lparr>s_unacked := h\<rparr>"
  have n: "cache_node ?s b e = cache_node s b e" "refs ?s (in_unacked s) b = refs s {} b" for b e
    by (simp_all add: cache_node_def refs_def s' h(2))
  have "node_ok ?s (in_unacked s) b e" if "s_mem s b = Some e" for b e
    using send_okD(7) [OF ok that] n(2) by (simp add: node_ok_def s')
  moreover have "\<forall>a \<in> in_unacked s. s_mem s a \<noteq> None" using send_okD(4) [OF ok] by fastforce
  moreover have "\<forall>a \<in> in_cache s. \<exists>d. s_mem s a = Some d \<and> cache_node ?s a d" using send_okD(3) [OF ok] n(1) by blast
  ultimately show ?thesis using send_okD(1,5,6,10-) [OF ok] h unfolding send_ok_def by (simp add: s')
qed

lemma drop_data_ok:
  assumes ok: "send_ok s {} {}" and s': "s' = s\<lparr>s_resync_id := i, s_sync_id := j, s_update_id := k, s_recv_ok := b, s_last_extend_ok := l\<rparr>"
  shows "\<exists>h s''. drop_data s' = Some s'' \<and> send_ok s'' {} {} \<and> hm_ok h \<and> elem_ids h = [] \<and> keeps (s'\<lparr>s_unacked := h\<rparr>) s'' \<and> s_unsent s'' = [] \<and> s_sent s'' = []"
proof -
  have un: "s_unacked s' = s_unacked s" "s_unsent s' = s_unsent s" "s_sent s' = s_sent s" by (simp_all add: s')
  have "num_elems (s_unacked s) = length (elem_ids (s_unacked s))" using send_okD(2) [OF ok] by (simp add: hm_ok_def elem_ids_def)
  with hashmap_pop_loop_all [OF send_okD(2) [OF ok], of 0 "num_elems (s_unacked s) + 1" "[]"] obtain h where
    h: "hashmap_pop_loop (num_elems (s_unacked s) + 1) (s_unacked s) (Some 0) [] = Some (elem_ids (s_unacked s), h)" "hm_ok h" "elem_ids h = []" by auto
  note ok1 = pop_ok [OF ok h(2,3) s']
  let ?s = "s'\<lparr>s_unacked := h\<rparr>"
  have X: "in_unacked s = set (s_unsent ?s @ s_sent ?s)" using send_okD(6) [OF ok] un by simp
  from empty_unsent_ok [OF ok1 X, of "length (s_unsent s)"] h(3) un obtain s1 where
    s1: "empty_unsent (length (s_unsent s')) ?s = Some s1" "send_ok s1 (set (s_sent s)) (set (s_sent s))" "keeps ?s s1" "s_unsent s1 = []" "s_sent s1 = s_sent s" by auto
  have u1: "in_unacked s1 = {}" using s1(3) rest_fields(2) [of s1 ?s] h(3) by (simp add: keeps_def)
  from empty_sent_ok [OF s1(2) _ s1(4) u1, of "length (s_sent s1)"] s1(5) obtain s2 where
    s2: "empty_sent (length (s_sent s1)) s1 = Some s2" "send_ok s2 {} {}" "keeps s1 s2" "s_unsent s2 = []" "s_sent s2 = []" by auto
  have "drop_data s' = Some s2" using h(1) s1(1) s2(1) by (simp add: drop_data_def un)
  then show ?thesis using s2 h(2,3) keeps_trans [OF s1(3) s2(3)] by blast
qed

text \<open>Freeing leaves no structure behind.\<close>

lemma downref_all:
  assumes "send_ok s (set as) {}" "distinct as" "in_unacked s = {}" "in_cache s = {}"
  shows "\<exists>s'. fold_opt data_downref as s = Some s' \<and> send_ok s' {} {} \<and> in_unacked s' = {} \<and> in_cache s' = {}"
  using assms
proof (induction as arbitrary: s)
  case (Cons a as)
  from send_okD(8) [OF Cons.prems(1), of a] obtain d where m: "s_mem s a = Some d" by auto
  from data_downref_ok [OF Cons.prems(1) _ _ _ m] Cons.prems(3) obtain s1 where
    s1: "data_downref a s = Some s1" "send_ok s1 (set (a # as) - {a}) {}" "in_unacked s1 = {}" "in_cache s1 = {}" using Cons.prems(4) by auto
  have "set (a # as) - {a} = set as" using Cons.prems(2) by auto
  then show ?case using Cons.IH [of s1] s1 Cons.prems(2) by simp
qed simp

lemma send_free_ok:
  assumes ok: "send_ok s {} {}"
  shows "\<exists>s'. kvpsync_send_free s = Some s' \<and> s_mem s' = Map.empty \<and> s_oldest s' = []"
proof -
  have "s = s\<lparr>s_resync_id := s_resync_id s, s_sync_id := s_sync_id s, s_update_id := s_update_id s, s_recv_ok := s_recv_ok s, s_last_extend_ok := s_last_extend_ok s\<rparr>" by simp
  from drop_data_ok [OF ok this] obtain h s1 where s1: "drop_data s = Some s1" "send_ok s1 {} {}" "elem_ids h = []" "keeps (s\<lparr>s_unacked := h\<rparr>) s1" "s_unsent s1 = []" "s_sent s1 = []" by blast
  have u1: "in_unacked s1 = {}" using s1(3,4) rest_fields(2) [of s1 "s\<lparr>s_unacked := h\<rparr>"] by (simp add: keeps_def)
  have "num_elems (s_cache s1) = length (elem_ids (s_cache s1))" using send_okD(1) [OF s1(2)] by (simp add: hm_ok_def elem_ids_def)
  with hashmap_pop_loop_all [OF send_okD(1) [OF s1(2)], of 0 "num_elems (s_cache s1) + 1" "[]"] obtain c where
    c: "hashmap_pop_loop (num_elems (s_cache s1) + 1) (s_cache s1) (Some 0) [] = Some (elem_ids (s_cache s1), c)" "hm_ok c" "elem_ids c = []" by auto
  let ?s = "s1\<lparr>s_cache := c\<rparr>"
  have "refs ?s (in_cache s1) b = refs s1 {} b" for b using u1 c(3) by (simp add: refs_def)
  then have "node_ok ?s (in_cache s1) b e" if "s_mem s1 b = Some e" for b e
    using send_okD(7) [OF s1(2) that] by (simp add: node_ok_def)
  moreover have "\<forall>a \<in> in_cache s1. s_mem s1 a \<noteq> None" using send_okD(3) [OF s1(2)] by fastforce
  ultimately have "send_ok ?s (in_cache s1) {}" using send_okD(2,5,6,10-) [OF s1(2)] c(2,3) u1 unfolding send_ok_def by simp
  moreover have "distinct (elem_ids (s_cache s1))" using send_okD(1) [OF s1(2)] by (simp add: hm_ok_def)
  ultimately obtain s' where s': "fold_opt data_downref (elem_ids (s_cache s1)) ?s = Some s'" "send_ok s' {} {}" "in_unacked s' = {}" "in_cache s' = {}"
    using downref_all [of ?s "elem_ids (s_cache s1)"] u1 c(3) by auto
  have "s_mem s' a = None" for a
  proof (cases "s_mem s' a")
    case (Some d)
    have "refs s' {} a = 0" using s'(3,4) by (simp add: refs_def)
    with send_okD(7) [OF s'(2) Some] show ?thesis by (auto simp: node_ok_def)
  qed
  then have m: "s_mem s' = Map.empty" by auto
  moreover have "s_oldest s' = []" using send_okD(13) [OF s'(2)] m by simp
  moreover have "kvpsync_send_free s = Some s'" using s1(1) c(1) s'(1) by (simp add: kvpsync_send_free_def)
  ultimately show ?thesis by blast
qed

section \<open>Sending\<close>

lemma unacked_mem: "send_ok s X Y \<Longrightarrow> a \<in> in_unacked s \<Longrightarrow> \<exists>d. s_mem s a = Some d \<and> wait_node s a d"
  using send_okD(4) by blast

lemma calculate_ok:
  assumes ok: "send_ok s X Y"
  shows "\<exists>e s'. calculate_ok_expiry s now = Some (e, s') \<and> send_ok s' X Y \<and> same_log s s' \<and> s_mem s' = s_mem s \<and> s_unsent s' = s_unsent s \<and>
    s_sent s' = s_sent s \<and> e \<le> max (now + MIN_RESPONSE) (s_ok_expiry s) \<and> s_ok_expiry s' \<le> max (now + MIN_RESPONSE) (s_ok_expiry s) \<and>
    (e \<noteq> 0 \<longrightarrow> (\<forall>a d. peek (s_oldest s) = Some a \<longrightarrow> s_mem s a = Some d \<longrightarrow> e \<le> sd_deadline d))"
proof -
  have same: "send_ok (s\<lparr>s_ok_expiry := e, s_last_extend_ok := t\<rparr>) X Y \<and> same_log s (s\<lparr>s_ok_expiry := e, s_last_extend_ok := t\<rparr>)" for e t
    using send_ok_cong [OF ok] send_okD(11) [OF ok] by (simp add: same_log_def content_def pending_def fun_eq_iff)
  show ?thesis
  proof (cases "peek (s_oldest s)")
    case None
    then show ?thesis using ok same by (auto simp: calculate_ok_expiry_def Let_def le_max_iff_disj)
  next
    case (Some a)
    then have "a \<in> set (s_oldest s)" by (cases "s_oldest s") auto
    then obtain d where "s_mem s a = Some d" using send_okD(13) [OF ok] by blast
    then show ?thesis using ok same Some by (auto simp: calculate_ok_expiry_def Let_def le_max_iff_disj min_le_iff_disj)
  qed
qed

lemma data_send_ok:
  assumes ok: "send_ok s {} {}" and a: "a \<in> in_unacked s" and m: "s_mem s a = Some d"
  shows "\<exists>e s'. data_send a now s = Some ((sd_update d)\<lparr>ok_expiry := e\<rparr>, s') \<and> send_ok s' {} {} \<and> same_log s s' \<and> s_sent s' \<noteq> [] \<and>
    s_mem s' a \<noteq> None \<and> e \<le> max (now + MIN_RESPONSE) (s_ok_expiry s) \<and> s_ok_expiry s' \<le> max (now + MIN_RESPONSE) (s_ok_expiry s) \<and>
    (e \<noteq> 0 \<longrightarrow> (\<forall>b d. peek (s_oldest s) = Some b \<longrightarrow> s_mem s b = Some d \<longrightarrow> e \<le> sd_deadline d))"
proof -
  let ?n = "int (length (remove1 a (s_sent s))) + 1"
  let ?us = "remove1 a (s_unsent s)" and ?ss = "remove1 a (s_sent s) @ [a]"
  let ?d = "d\<lparr>sd_sent_time := now, sd_inflight := True, sd_inflight_at_send := ?n, sd_congest_validity := s_congest_validity s\<rparr>"
  let ?s = "s\<lparr>s_unsent := ?us, s_sent := ?ss, s_inflight := ?n, s_mem := (s_mem s)(a \<mapsto> ?d)\<rparr>"
  have dl: "distinct (s_unsent s)" "distinct (s_sent s)" "set (s_unsent s) \<inter> set (s_sent s) = {}" using send_okD(5) [OF ok] by auto
  have "distinct (?us @ ?ss)" "set (?us @ ?ss) = in_unacked s \<union> {}" using dl send_okD(6) [OF ok] a by auto
  moreover have "int (length ?ss) = ?n" by simp
  ultimately have ok1: "send_ok ?s {} {}" "same_log s ?s"
    using relist_ok [OF ok m, of ?d ?ss ?us "{}"] dl by (auto simp: add.commute)
  from calculate_ok [OF ok1(1), of now] obtain e s2 where s2: "calculate_ok_expiry ?s now = Some (e, s2)" "send_ok s2 {} {}" "same_log ?s s2"
    "s_mem s2 = s_mem ?s" "s_sent s2 = ?ss" "e \<noteq> 0 \<longrightarrow> (\<forall>a d. peek (s_oldest s) = Some a \<longrightarrow> s_mem ?s a = Some d \<longrightarrow> e \<le> sd_deadline d)"
    "e \<le> max (now + MIN_RESPONSE) (s_ok_expiry s)" "s_ok_expiry s2 \<le> max (now + MIN_RESPONSE) (s_ok_expiry s)" by auto
  let ?d2 = "?d\<lparr>sd_update := (sd_update d)\<lparr>ok_expiry := e\<rparr>\<rparr>"
  let ?s2 = "s2\<lparr>s_mem := (s_mem s2)(a \<mapsto> ?d2)\<rparr>"
  have m2: "s_mem s2 a = Some ?d" using s2(4) by simp
  have il: "insert_like ?d2 = insert_like d" by (simp add: insert_like_def)
  have c2: "in_cache s2 = in_cache s" "s_cache s2 = s_cache s" using s2(3) by (simp_all add: same_log_def)
  have "send_ok ?s2 {} {}"
  proof (rule send_ok_mem [OF s2(2) m2])
    show "sd_key ?d2 = sd_key ?d \<and> insert_like ?d2" if "a \<in> in_cache s2"
      using send_okD(3) [OF ok, of a] that c2(1) m il by (simp add: cache_node_def)
  qed simp_all
  moreover have "same_log s2 ?s2" using content_upd [OF m2, of ?d2 ?s2] by (simp add: same_log_def)
  moreover have "e \<le> sd_deadline x" if "e \<noteq> 0" "peek (s_oldest s) = Some b" "s_mem s b = Some x" for b x
    using s2(6) that m by (cases "b = a") auto
  moreover have "data_send a now s = Some ((sd_update d)\<lparr>ok_expiry := e\<rparr>, ?s2)"
  proof -
    have "a \<notin> set (remove1 a (s_unsent s)) \<union> set (remove1 a (s_sent s))" using dl by auto
    then show ?thesis using s2(1) m2 by (simp add: data_send_def data_remove_eq [OF ok m] append_sent_def upd_def Let_def)
  qed
  ultimately show ?thesis using same_log_trans [OF same_log_trans [OF ok1(2) s2(3)]] s2(5,7,8) by (intro exI [of _ e] exI [of _ ?s2]) auto
qed

section \<open>Resending\<close>

lemma same_log_cong:
  assumes "s_cache s' = s_cache s" "s_unacked s' = s_unacked s" "s_mem s' = s_mem s" "s_sync_id s' = s_sync_id s" "s_update_id s' = s_update_id s"
    "flags s' = flags s" "s_oldest s' = s_oldest s"
  shows "same_log s s'"
  using assms by (simp add: same_log_def content_def pending_def fun_eq_iff)

lemma move_ok:
  assumes ok: "send_ok s {} {}" and a: "s_sent s = a # as" and xs: "distinct xs" "set xs = insert a (set (s_unsent s))"
  shows "\<exists>d. s_mem s a = Some d \<and> data_remove a s = Some (s\<lparr>s_sent := as, s_inflight := int (length as), s_mem := (s_mem s)(a \<mapsto> d\<lparr>sd_inflight := False\<rparr>)\<rparr>) \<and>
    a \<notin> set (s_unsent s) \<and> a \<notin> set as \<and>
    send_ok (s\<lparr>s_sent := as, s_inflight := int (length as), s_mem := (s_mem s)(a \<mapsto> d\<lparr>sd_inflight := False\<rparr>), s_unsent := xs\<rparr>) {} {} \<and>
    same_log s (s\<lparr>s_sent := as, s_inflight := int (length as), s_mem := (s_mem s)(a \<mapsto> d\<lparr>sd_inflight := False\<rparr>), s_unsent := xs\<rparr>)"
proof -
  have "a \<in> in_unacked s" using send_okD(6) [OF ok] a by auto
  from unacked_mem [OF ok this] obtain d where m: "s_mem s a = Some d" by blast
  have dl: "a \<notin> set as" "a \<notin> set (s_unsent s)" "distinct as" "distinct (s_unsent s)" "set (s_unsent s) \<inter> set as = {}" using send_okD(5) [OF ok] a by auto
  have "distinct (xs @ as)" "set (xs @ as) = in_unacked s \<union> {}" using dl xs send_okD(6) [OF ok] a by auto
  note r = relist_ok [OF ok m, of "d\<lparr>sd_inflight := False\<rparr>" as xs "{}", OF _ _ _ _ _ _ this]
  have e: "s\<lparr>s_unsent := xs, s_sent := as, s_inflight := int (length as), s_mem := (s_mem s)(a \<mapsto> d\<lparr>sd_inflight := False\<rparr>)\<rparr> =
    s\<lparr>s_sent := as, s_inflight := int (length as), s_mem := (s_mem s)(a \<mapsto> d\<lparr>sd_inflight := False\<rparr>), s_unsent := xs\<rparr>" by simp
  have "remove1 a (s_unsent s) = s_unsent s" using dl(2) by (simp add: remove1_idem)
  then show ?thesis using data_remove_eq [OF ok m] r dl a m unfolding e by (intro exI [of _ d]) simp
qed

lemma resend_all_ok:
  assumes "send_ok s {} {}" "s_unsent s = pre @ old" "ptr = peek old" "length (s_sent s) \<le> fuel"
  shows "\<exists>s'. resend_all fuel ptr s = Some s' \<and> send_ok s' {} {} \<and> same_log s s' \<and> s_unsent s' = pre @ s_sent s @ old \<and> s_sent s' = [] \<and> s_inflight s' = 0"
  using assms
proof (induction "s_sent s" arbitrary: s pre fuel)
  case Nil
  then show ?case using send_okD(10) [OF Nil(2)] by (intro exI [of _ s]) (simp flip: Nil(1))
next
  case (Cons a as)
  obtain f where f: "fuel = Suc f" using Cons.prems(4) Cons.hyps(2) [symmetric] by (cases fuel) auto
  have hd: "s_sent s = a # as" using Cons.hyps(2) by simp
  have dl: "a \<notin> set pre" "a \<notin> set old" "distinct (pre @ old)" using send_okD(5) [OF Cons.prems(1)] hd Cons.prems(2) by auto
  have "distinct (pre @ [a] @ old)" "set (pre @ [a] @ old) = insert a (set (s_unsent s))" using dl Cons.prems(2) by auto
  from move_ok [OF Cons.prems(1) hd this] obtain d where d: "data_remove a s = Some (s\<lparr>s_sent := as, s_inflight := int (length as), s_mem := (s_mem s)(a \<mapsto> d\<lparr>sd_inflight := False\<rparr>)\<rparr>)"
    "a \<notin> set (s_unsent s)" "a \<notin> set as"
    "send_ok (s\<lparr>s_sent := as, s_inflight := int (length as), s_mem := (s_mem s)(a \<mapsto> d\<lparr>sd_inflight := False\<rparr>), s_unsent := pre @ [a] @ old\<rparr>) {} {}"
    "same_log s (s\<lparr>s_sent := as, s_inflight := int (length as), s_mem := (s_mem s)(a \<mapsto> d\<lparr>sd_inflight := False\<rparr>), s_unsent := pre @ [a] @ old\<rparr>)" by blast
  let ?s = "s\<lparr>s_sent := as, s_inflight := int (length as), s_mem := (s_mem s)(a \<mapsto> d\<lparr>sd_inflight := False\<rparr>), s_unsent := pre @ [a] @ old\<rparr>"
  have tw: "takeWhile (\<lambda>b. b \<noteq> p) (pre @ old) = pre" "dropWhile (\<lambda>b. b \<noteq> p) (pre @ old) = old" if po: "peek old = Some p" for p
  proof -
    obtain r where o: "old = p # r" using po by (cases old) auto
    then have "p \<notin> set pre" using dl(3) by auto
    then have "\<forall>x \<in> set pre. x \<noteq> p" by auto
    then show "takeWhile (\<lambda>b. b \<noteq> p) (pre @ old) = pre" "dropWhile (\<lambda>b. b \<noteq> p) (pre @ old) = old"
      using o by (simp_all add: takeWhile_append2 dropWhile_append2)
  qed
  have ib: "insert_before ptr a (s\<lparr>s_sent := as, s_inflight := int (length as), s_mem := (s_mem s)(a \<mapsto> d\<lparr>sd_inflight := False\<rparr>)\<rparr>) = Some ?s"
  proof (cases ptr)
    case None
    then have "old = []" using Cons.prems(3) by (cases old) auto
    then show ?thesis using None d(2,3) Cons.prems(2) by (simp add: insert_before_def)
  next
    case (Some p)
    then show ?thesis using d(2,3) Cons.prems(2,3) tw [of p] by (simp add: insert_before_def)
  qed
  have "as = s_sent ?s" "s_unsent ?s = (pre @ [a]) @ old" "length (s_sent ?s) \<le> f" using Cons.prems(4) hd f by auto
  from Cons.hyps(1) [OF this(1) d(4) this(2) Cons.prems(3) this(3)] obtain s' where
    s': "resend_all f ptr ?s = Some s'" "send_ok s' {} {}" "same_log ?s s'" "s_unsent s' = (pre @ [a]) @ as @ old" "s_sent s' = []" "s_inflight s' = 0" by auto
  have "resend_all fuel ptr s = Some s'" using f hd d(1) ib s'(1) by simp
  then show ?case using s' same_log_trans [OF d(5) s'(3)] hd by (intro exI [of _ s']) simp
qed

lemma check_unresponsive_ok:
  assumes ok: "send_ok s {} {}"
  shows "\<exists>s'. check_unresponsive s now = Some s' \<and> send_ok s' {} {} \<and> same_log s s'"
proof (cases "s_sent s")
  case Nil
  then show ?thesis using ok by (auto simp: check_unresponsive_def)
next
  case (Cons a as)
  have "a \<in> in_unacked s" using send_okD(6) [OF ok] Cons by auto
  from unacked_mem [OF ok this] obtain d where m: "s_mem s a = Some d" by blast
  from resend_all_ok [OF ok, of "[]" "s_unsent s" "peek (s_unsent s)" "length (s_sent s)"] obtain s' where
    s': "resend_all (length (s_sent s)) (peek (s_unsent s)) s = Some s'" "send_ok s' {} {}" "same_log s s'" "s_inflight s' = 0" by auto
  have "send_ok (s'\<lparr>s_inflight_limit := MIN_INFLIGHT\<rparr>) {} {}" using send_ok_cong [OF s'(2)] by (simp add: MIN_INFLIGHT_def)
  moreover have "same_log s (s'\<lparr>s_inflight_limit := MIN_INFLIGHT\<rparr>)" by (rule same_log_trans [OF s'(3)]) (rule same_log_cong, simp_all)
  ultimately show ?thesis using Cons m s' ok by (cases "now \<ge> fault_time d \<and> s_last_recv s \<le> sd_sent_time d") (auto simp: check_unresponsive_def)
qed

lemma fault_detected_ok:
  assumes "send_ok s {} {}"
  shows "send_ok (fault_detected d now s) {} {} \<and> same_log s (fault_detected d now s) \<and> s_sent (fault_detected d now s) = s_sent s"
proof -
  let ?s = "fault_detected d now s"
  have "1 \<le> s_inflight_limit ?s" using send_okD(11) [OF assms] by (auto simp: fault_detected_def MIN_INFLIGHT_def)
  then show ?thesis using send_ok_cong [OF assms, of ?s] same_log_cong [of ?s s] by (simp add: fault_detected_def)
qed

lemma resend_faulty_ok:
  assumes "send_ok s {} {}" "length (s_sent s) \<le> fuel"
  shows "\<exists>s'. resend_faulty fuel now s = Some s' \<and> send_ok s' {} {} \<and> same_log s s'"
  using assms
proof (induction "s_sent s" arbitrary: s fuel)
  case Nil
  then show ?case by (intro exI [of _ s]) (simp flip: Nil(1))
next
  case (Cons a as)
  obtain f where f: "fuel = Suc f" using Cons.prems(2) Cons.hyps(2) [symmetric] by (cases fuel) auto
  have hd: "s_sent s = a # as" using Cons.hyps(2) by simp
  have dl: "a \<notin> set (s_unsent s)" "distinct (s_unsent s)" using send_okD(5) [OF Cons.prems(1)] hd by auto
  have "distinct (s_unsent s @ [a])" "set (s_unsent s @ [a]) = insert a (set (s_unsent s))" using dl by auto
  from move_ok [OF Cons.prems(1) hd this] obtain d where d: "s_mem s a = Some d" "data_remove a s = Some (s\<lparr>s_sent := as, s_inflight := int (length as), s_mem := (s_mem s)(a \<mapsto> d\<lparr>sd_inflight := False\<rparr>)\<rparr>)"
    "a \<notin> set (s_unsent s)" "a \<notin> set as"
    "send_ok (s\<lparr>s_sent := as, s_inflight := int (length as), s_mem := (s_mem s)(a \<mapsto> d\<lparr>sd_inflight := False\<rparr>), s_unsent := s_unsent s @ [a]\<rparr>) {} {}"
    "same_log s (s\<lparr>s_sent := as, s_inflight := int (length as), s_mem := (s_mem s)(a \<mapsto> d\<lparr>sd_inflight := False\<rparr>), s_unsent := s_unsent s @ [a]\<rparr>)" by blast
  let ?s = "s\<lparr>s_sent := as, s_inflight := int (length as), s_mem := (s_mem s)(a \<mapsto> d\<lparr>sd_inflight := False\<rparr>), s_unsent := s_unsent s @ [a]\<rparr>"
  show ?case
  proof (cases "now < fault_time d")
    case True
    then show ?thesis using hd d(1) Cons.prems(1) by (intro exI [of _ s]) (simp add: resend_faulty.simps)
  next
    case False
    note fd = fault_detected_ok [OF d(5), of d now]
    have "as = s_sent (fault_detected d now ?s)" "length (s_sent (fault_detected d now ?s)) \<le> f" using fd Cons.prems(2) hd f by auto
    from Cons.hyps(1) [OF this(1) _ this(2)] fd obtain s' where
      s': "resend_faulty f now (fault_detected d now ?s) = Some s'" "send_ok s' {} {}" "same_log (fault_detected d now ?s) s'" by blast
    have au: "append_unsent a (s\<lparr>s_sent := as, s_inflight := int (length as), s_mem := (s_mem s)(a \<mapsto> d\<lparr>sd_inflight := False\<rparr>)\<rparr>) = Some ?s"
      using d(3,4) by (simp add: append_unsent_def)
    have "resend_faulty fuel now s = Some s'" using f hd d(1,2) False s'(1) au by (simp add: resend_faulty.simps [of fuel])
    then show ?thesis using s'(2) same_log_trans [OF same_log_trans [OF d(6)] s'(3)] fd by blast
  qed
qed

end
