(* ===== verification/Kvp_Log.thy ===== *)
theory Kvp_Log
  imports Kvp_Send Kvp_Converge
begin

text \<open>
  What the sender of \<open>src/server/libkvpsync/send.c\<close> promises its receivers: within a sync its packets
  are copies of the entries of a log (\<open>log_run\<close>) whose map is the cache, every entry waits for its
  acknowledgement or has it, and no packet extends the receiver's \<open>ok\<close> state beyond the deadline of an
  insertion that is still waiting.
\<close>

section \<open>The log of the current sync\<close>

text \<open>The update at an address, up to the \<open>ok_expiry\<close> that is filled in whenever it is sent.\<close>

definition copy :: "kvpsync_send \<Rightarrow> nat \<Rightarrow> kvp_update option" where
  "copy s a = map_option (\<lambda>d. (sd_update d)\<lparr>ok_expiry := 0\<rparr>) (s_mem s a)"

definition stamp :: "kvpsync_send \<Rightarrow> nat \<Rightarrow> u32 \<times> byte list" where
  "stamp s a = (case copy s a of None \<Rightarrow> (0, []) | Some p \<Rightarrow> (update_id p, uval p))"

definition plain :: "kvp_update \<Rightarrow> bool" where
  "plain p \<longleftrightarrow> ok_expiry p = 0 \<and> (\<forall>b. utype p \<noteq> KVP_UPDATE_UNKNOWN b)"

definition ack_of :: "kvp_update \<Rightarrow> kvp_ack" where
  "ack_of p = \<lparr>ack_sync_id = sync_id p, ack_update_id = update_id p\<rparr>"

text \<open>
  \<open>F\<close> is what was queued in this sync, \<open>M\<close> the map of keys to addresses that it describes and \<open>K\<close>
  the acknowledgements so far.
\<close>

definition logged :: "kvpsync_send \<Rightarrow> (byte list \<rightharpoonup> nat) \<Rightarrow> kvp_update list \<Rightarrow> kvp_ack set \<Rightarrow> bool" where
  "logged s M F K \<longleftrightarrow>
     (\<exists>hi. log_run (s_sync_id s) (filter is_data F) = Some (hi, \<lambda>k. map_option (stamp s) (M k)) \<and> hi \<le> s_update_id s) \<and>
     (\<forall>p \<in> set F. plain p \<and> sync_id p = s_sync_id s \<and> update_id p \<noteq> 0 \<and> update_id p \<le> s_update_id s) \<and>
     (\<forall>p \<in> set F. \<forall>q \<in> set F. update_id p = update_id q \<longrightarrow> p = q) \<and>
     (\<forall>a \<in> in_unacked s. \<exists>p \<in> set F. copy s a = Some p) \<and>
     (\<forall>p \<in> set F. waiting s (update_id p) \<noteq> None \<or> ack_of p \<in> K) \<and>
     (\<forall>a \<in> ran M. \<exists>p \<in> set F. copy s a = Some p)"

lemma logged_parts:
  assumes "logged s M F K"
  shows "\<exists>hi. log_run (s_sync_id s) (filter is_data F) = Some (hi, \<lambda>k. map_option (stamp s) (M k)) \<and> hi \<le> s_update_id s"
    "\<forall>p \<in> set F. plain p \<and> sync_id p = s_sync_id s \<and> update_id p \<noteq> 0 \<and> update_id p \<le> s_update_id s"
    "\<forall>p \<in> set F. \<forall>q \<in> set F. update_id p = update_id q \<longrightarrow> p = q"
    "\<forall>a \<in> in_unacked s. \<exists>p \<in> set F. copy s a = Some p"
    "\<forall>p \<in> set F. waiting s (update_id p) \<noteq> None \<or> ack_of p \<in> K" "\<forall>a \<in> ran M. \<exists>p \<in> set F. copy s a = Some p"
  using assms unfolding logged_def by - (elim conjE, assumption)+

lemmas loggedD = logged_parts [rule_format]

lemma stamp_cong: "copy s' a = copy s a \<Longrightarrow> stamp s' a = stamp s a"
  by (simp add: stamp_def)

lemma logged_cong:
  assumes l: "logged s M F K" and s': "s_sync_id s' = s_sync_id s" "s_update_id s' = s_update_id s" "s_unacked s' = s_unacked s"
    and c: "\<And>a. a \<in> in_unacked s \<union> ran M \<Longrightarrow> copy s' a = copy s a"
  shows "logged s' M F K"
proof -
  have m: "(\<lambda>k. map_option (stamp s') (M k)) = (\<lambda>k. map_option (stamp s) (M k))"
    using c stamp_cong by (auto simp: fun_eq_iff ran_def intro!: map_option_cong)
  have "\<forall>a \<in> in_unacked s. \<exists>p \<in> set F. copy s' a = Some p" "\<forall>a \<in> ran M. \<exists>p \<in> set F. copy s' a = Some p" using loggedD(4,6) [OF l] c by simp_all
  then show ?thesis using l unfolding logged_def s' m by simp
qed

lemma copy_content: "content s' a = content s a \<Longrightarrow> copy s' a = copy s a"
  by (cases "s_mem s a"; cases "s_mem s' a") (auto simp: copy_def content_def)

lemma logged_same:
  assumes "logged s M F K" "same_log s s'"
  shows "logged s' M F K"
proof (rule logged_cong [OF assms(1)])
  have "content s' = content s" using assms(2) by (simp add: same_log_def)
  then show "copy s' a = copy s a" for a by (intro copy_content) (rule fun_cong)
qed (use assms(2) in \<open>simp_all add: same_log_def\<close>)

lemma logged_ack:
  assumes l: "logged s M F K" and s': "s_sync_id s' = s_sync_id s" "s_update_id s' = s_update_id s"
    and w: "\<And>j. waiting s' j = (if j = i then None else waiting s j)" "in_unacked s' \<subseteq> in_unacked s"
    and c: "\<And>a. a \<in> in_unacked s' \<union> ran M \<Longrightarrow> copy s' a = copy s a"
  shows "logged s' M F (insert \<lparr>ack_sync_id = s_sync_id s, ack_update_id = i\<rparr> K)"
proof -
  have m: "(\<lambda>k. map_option (stamp s') (M k)) = (\<lambda>k. map_option (stamp s) (M k))"
    using c stamp_cong by (auto simp: fun_eq_iff ran_def intro!: map_option_cong)
  have "waiting s' (update_id p) \<noteq> None \<or> ack_of p \<in> insert \<lparr>ack_sync_id = s_sync_id s, ack_update_id = i\<rparr> K" if "p \<in> set F" for p
    using loggedD(2,5) [OF l that] w(1) by (auto simp: ack_of_def)
  moreover have "\<forall>a \<in> in_unacked s'. \<exists>p \<in> set F. copy s' a = Some p" using loggedD(4) [OF l] w(2) c by auto
  moreover have "\<forall>a \<in> ran M. \<exists>p \<in> set F. copy s' a = Some p" using loggedD(6) [OF l] c by simp
  ultimately show ?thesis using loggedD(1-3) [OF l] unfolding logged_def s' m by blast
qed

lemma logged_mono: "logged s M F K \<Longrightarrow> K \<subseteq> K' \<Longrightarrow> logged s M F K'"
  unfolding logged_def by blast

lemma logged_fresh:
  assumes "in_unacked s = {}"
  shows "logged s Map.empty [] K"
  using assms by (simp add: logged_def log_run_def)

text \<open>What queueing appends to the log, and what becomes of the map.\<close>

definition log_move :: "kvpsync_send \<Rightarrow> (byte list \<rightharpoonup> nat) \<Rightarrow> nat \<Rightarrow> kvp_update \<Rightarrow> (byte list \<rightharpoonup> nat) \<Rightarrow> bool" where
  "log_move s M a u M' \<longleftrightarrow>
     (case utype u of
        KVP_UPDATE_INSERT \<Rightarrow> delete_id u = 0 \<and> M (ukey u) = None \<and> M' = M(ukey u \<mapsto> a)
      | KVP_UPDATE_DELETE \<Rightarrow> delete_id u \<noteq> 0 \<and> (\<exists>b. M (ukey u) = Some b \<and> fst (stamp s b) = delete_id u) \<and> M' = M(ukey u := None)
      | KVP_UPDATE_UNKNOWN _ \<Rightarrow> False
      | _ \<Rightarrow> M' = M)"

lemma update_sel [simp]:
  "ukey (u\<lparr>ok_expiry := e\<rparr>) = ukey u" "uval (u\<lparr>ok_expiry := e\<rparr>) = uval u" "is_data (u\<lparr>ok_expiry := e\<rparr>) = is_data u"
  "ukey (u\<lparr>sync_id := i\<rparr>) = ukey u" "uval (u\<lparr>sync_id := i\<rparr>) = uval u" "is_data (u\<lparr>sync_id := i\<rparr>) = is_data u"
  "ukey (u\<lparr>update_id := i\<rparr>) = ukey u" "uval (u\<lparr>update_id := i\<rparr>) = uval u" "is_data (u\<lparr>update_id := i\<rparr>) = is_data u"
  by (simp_all add: ukey_def uval_def is_data_def)

definition entry :: "kvpsync_send \<Rightarrow> kvp_update \<Rightarrow> kvp_update" where
  "entry s u = u\<lparr>sync_id := s_sync_id s, update_id := s_update_id s + 1, ok_expiry := 0\<rparr>"

lemma queued_mem:
  assumes "queued s a u s'"
  shows "\<exists>d. s_mem s' = (s_mem s)(a \<mapsto> d) \<and>
    (case s_mem s a of None \<Rightarrow> sd_cb d = None | Some e \<Rightarrow> sd_cb d = sd_cb e \<and> sd_deadline d = sd_deadline e \<and> sd_key d = sd_key e)"
proof -
  obtain h d where s': "s' = s\<lparr>s_update_id := s_update_id s + 1, s_brk := s_brk s', s_mem := (s_mem s)(a \<mapsto> d), s_unsent := s_unsent s @ [a], s_unacked := h\<rparr>"
    and d: "case s_mem s a of None \<Rightarrow> sd_cb d = None | Some e \<Rightarrow> sd_cb d = sd_cb e \<and> sd_deadline d = sd_deadline e \<and> sd_key d = sd_key e"
    using assms unfolding queued_def by blast
  have "s_mem s' = (s_mem s)(a \<mapsto> d)" by (subst s', simp)
  then show ?thesis using d by blast
qed

lemma queued_copy:
  assumes "queued s a u s'"
  shows "copy s' a = Some (entry s u)" "b \<noteq> a \<Longrightarrow> copy s' b = copy s b" "s_sync_id s' = s_sync_id s" "s_update_id s' = s_update_id s + 1"
    "in_unacked s' = insert a (in_unacked s)" "waiting s' j = (if j = s_update_id s + 1 then Some a else waiting s j)"
    "s_cache s' = s_cache s" "s_sync_sent s' = s_sync_sent s" "s_synced s' = s_synced s" "s_oldest s' = s_oldest s" "s_ok_expiry s' = s_ok_expiry s"
    "pending s' = pending s" "s_resync_id s' = s_resync_id s" "s_start_sent s' = s_start_sent s" "s_start_done s' = s_start_done s" "s_blocked s' = s_blocked s"
    "s_recv_ok s' = s_recv_ok s" "s_unsent s' = s_unsent s @ [a]" "s_sync_done s' = s_sync_done s"
proof -
  obtain h d where s': "s' = s\<lparr>s_update_id := s_update_id s + 1, s_brk := s_brk s', s_mem := (s_mem s)(a \<mapsto> d), s_unsent := s_unsent s @ [a], s_unacked := h\<rparr>"
    and d: "sd_update d = u\<lparr>sync_id := s_sync_id s, update_id := s_update_id s + 1\<rparr>"
      "case s_mem s a of None \<Rightarrow> sd_cb d = None | Some e \<Rightarrow> sd_cb d = sd_cb e \<and> sd_deadline d = sd_deadline e \<and> sd_key d = sd_key e"
    and h: "\<forall>j. hm_map h (Uint j) = (if j = s_update_id s + 1 then Some a else waiting s j)" "set (elem_ids h) = insert a (in_unacked s)"
    using assms unfolding queued_def by blast
  have f: "s_mem s' = (s_mem s)(a \<mapsto> d)" "s_unacked s' = h" by (subst s', simp)+
  show "copy s' a = Some (entry s u)" "b \<noteq> a \<Longrightarrow> copy s' b = copy s b" using d(1) by (simp_all add: copy_def f entry_def)
  show "pending s' = pending s" using d(2) by (auto simp: pending_def f fun_eq_iff split: option.splits)
  show "in_unacked s' = insert a (in_unacked s)" "waiting s' j = (if j = s_update_id s + 1 then Some a else waiting s j)" using h f by simp_all
  show "s_sync_id s' = s_sync_id s" "s_update_id s' = s_update_id s + 1" "s_cache s' = s_cache s" "s_sync_sent s' = s_sync_sent s" "s_synced s' = s_synced s" "s_oldest s' = s_oldest s" "s_ok_expiry s' = s_ok_expiry s"
    "s_resync_id s' = s_resync_id s" "s_start_sent s' = s_start_sent s" "s_start_done s' = s_start_done s" "s_blocked s' = s_blocked s"
    "s_recv_ok s' = s_recv_ok s" "s_unsent s' = s_unsent s @ [a]" "s_sync_done s' = s_sync_done s" by (subst s', simp)+
qed

lemma logged_queue:
  assumes l: "logged s M F K" and q: "queued s a u s'" and a: "a \<notin> in_unacked s" "a \<notin> ran M" and w: "s_update_id s + 1 \<noteq> 0"
    and m: "log_move s M a u M'"
  shows "logged s' M' (F @ [entry s u]) K"
proof -
  note c = queued_copy [OF q]
  let ?p = "entry s u" and ?cur = "\<lambda>k. map_option (stamp s) (M k)" and ?cur' = "\<lambda>k. map_option (stamp s') (M' k)"
  have p: "sync_id ?p = s_sync_id s" "update_id ?p = s_update_id s + 1" "utype ?p = utype u" "delete_id ?p = delete_id u" "ukey ?p = ukey u" "uval ?p = uval u"
    "is_data ?p = is_data u" "ok_expiry ?p = 0" by (simp_all add: entry_def)
  have lt: "s_update_id s < s_update_id s + 1" using w by (rule succ_less)
  have st: "stamp s' b = stamp s b" if "M k = Some b" for k b
    using a(2) that by (intro stamp_cong c(2)) (auto simp: ran_def)
  have sta: "stamp s' a = (s_update_id s + 1, uval u)" using c(1) p by (simp add: stamp_def)
  obtain hi where hi: "log_run (s_sync_id s) (filter is_data F) = Some (hi, ?cur)" "hi \<le> s_update_id s" using loggedD(1) [OF l] by blast
  have "\<exists>hi'. log_run (s_sync_id s) (filter is_data (F @ [?p])) = Some (hi', ?cur') \<and> hi' \<le> s_update_id s + 1"
  proof (cases "is_data u")
    case True
    have step: "log_step (s_sync_id s) ?p (hi, ?cur) = Some (s_update_id s + 1, ?cur')"
    proof -
      have nle: "\<not> s_update_id s + 1 \<le> hi" using hi(2) lt by (meson leD le_less_trans)
      from True consider (ins) "utype u = KVP_UPDATE_INSERT" | (del) "utype u = KVP_UPDATE_DELETE" by (auto simp: is_data_def)
      then show ?thesis
      proof cases
        case ins
        then have i: "delete_id u = 0" "M (ukey u) = None" "M' = M(ukey u \<mapsto> a)" using m by (simp_all add: log_move_def)
        have "?cur' = ?cur(ukey u \<mapsto> (s_update_id s + 1, uval u))" using i(3) sta st by (auto simp: fun_eq_iff intro!: map_option_cong)
        then show ?thesis using nle p ins i(1,2) by simp
      next
        case del
        then obtain b where i: "delete_id u \<noteq> 0" "M (ukey u) = Some b" "fst (stamp s b) = delete_id u" "M' = M(ukey u := None)" using m by (auto simp: log_move_def)
        have "?cur' = ?cur(ukey u := None)" using i(4) st by (auto simp: fun_eq_iff intro!: map_option_cong)
        then show ?thesis using nle p del i(1-3) by simp
      qed
    qed
    then show ?thesis using hi True p(7) by (simp add: log_run_def fold_opt_append)
  next
    case False
    then have "M' = M" using m by (auto simp: log_move_def is_data_def split: kvp_update_type.splits)
    then have "?cur' = ?cur" using st by (auto simp: fun_eq_iff intro!: map_option_cong)
    moreover have "hi \<le> s_update_id s + 1" using hi(2) lt by simp
    ultimately show ?thesis using hi(1) False p(7) by simp
  qed
  moreover have "plain q \<and> sync_id q = s_sync_id s \<and> update_id q \<noteq> 0 \<and> update_id q \<le> s_update_id s + 1" if "q \<in> set (F @ [?p])" for q
  proof (cases "q = ?p")
    case True
    moreover have "plain ?p" using m p(3,8) by (auto simp: plain_def log_move_def)
    ultimately show ?thesis using p w by simp
  next
    case False
    then have "q \<in> set F" using that by simp
    from loggedD(2) [OF l this] show ?thesis using lt by (meson less_imp_le order_trans)
  qed
  moreover have "q = q'" if "q \<in> set (F @ [?p])" "q' \<in> set (F @ [?p])" "update_id q = update_id q'" for q q'
  proof -
    have old: "update_id x \<noteq> update_id ?p" if "x \<in> set F" for x using loggedD(2) [OF l that] lt p(2) by auto
    from that(1,2) consider "q \<in> set F" "q' \<in> set F" | "q = ?p" "q' = ?p" | "q \<in> set F" "q' = ?p" | "q = ?p" "q' \<in> set F" by auto
    then show ?thesis
    proof cases
      case 1
      then show ?thesis using loggedD(3) [OF l] that(3) by blast
    next
      case 3
      then show ?thesis using old that(3) by metis
    next
      case 4
      then show ?thesis using old that(3) by metis
    qed simp
  qed
  moreover have "\<exists>q \<in> set (F @ [?p]). copy s' b = Some q" if "b \<in> insert a (in_unacked s)" for b
    using that c(1,2) loggedD(4) [OF l, of b] by (cases "b = a") auto
  moreover have "waiting s' (update_id q) \<noteq> None \<or> ack_of q \<in> K" if "q \<in> set (F @ [?p])" for q
    using that c(6) p(2) loggedD(5) [OF l, of q] by auto
  moreover have "\<exists>q \<in> set (F @ [?p]). copy s' b = Some q" if b: "b \<in> ran M'" for b
  proof (cases "b = a")
    case False
    moreover have "ran M' \<subseteq> insert a (ran M)"
      using m by (auto simp: log_move_def ran_def split: kvp_update_type.splits if_splits)
    ultimately show ?thesis using b c(2) loggedD(6) [OF l, of b] by auto
  qed (simp add: c(1))
  ultimately show ?thesis unfolding logged_def c(3-5) by blast
qed

section \<open>Deadlines\<close>

definition dl :: "kvpsync_send \<Rightarrow> nat \<Rightarrow> xtime" where
  "dl s a = (case content s a of None \<Rightarrow> 0 | Some (_, t) \<Rightarrow> t)"

text \<open>
  \<open>oldest\<close> is in the order of the deadlines, whoever waits for a callback is in it, and the packets
  \<open>A\<close> sent until the time \<open>t\<close> do not extend the \<open>ok\<close> state beyond any of its deadlines.
\<close>

definition ready :: "kvpsync_send \<Rightarrow> xtime \<Rightarrow> kvp_update set \<Rightarrow> bool" where
  "ready s t A \<longleftrightarrow> t < 2 ^ 63 \<and> sorted_wrt (\<lambda>a b. dl s a \<le> dl s b) (s_oldest s) \<and>
     (\<forall>a \<in> set (s_oldest s). dl s a \<le> t + MIN_RESPONSE) \<and> (\<forall>a. pending s a \<noteq> None \<longrightarrow> a \<in> set (s_oldest s)) \<and>
     s_ok_expiry s \<le> t + MIN_RESPONSE \<and> (\<forall>u \<in> A. ok_expiry u \<le> t + MIN_RESPONSE) \<and>
     (\<forall>u \<in> A. \<forall>a \<in> set (s_oldest s). ok_expiry u \<le> dl s a)"

lemma ready_parts:
  assumes "ready s t A"
  shows "t < 2 ^ 63" "sorted_wrt (\<lambda>a b. dl s a \<le> dl s b) (s_oldest s)" "\<forall>a \<in> set (s_oldest s). dl s a \<le> t + MIN_RESPONSE"
    "\<forall>a. pending s a \<noteq> None \<longrightarrow> a \<in> set (s_oldest s)" "s_ok_expiry s \<le> t + MIN_RESPONSE" "\<forall>u \<in> A. ok_expiry u \<le> t + MIN_RESPONSE"
    "\<forall>u \<in> A. \<forall>a \<in> set (s_oldest s). ok_expiry u \<le> dl s a"
  using assms unfolding ready_def by - (elim conjE, assumption)+

lemmas readyD = ready_parts [rule_format]

lemma unat_response:
  assumes "t < 2 ^ 63"
  shows "unat (t + MIN_RESPONSE) = unat t + 15000000000"
proof -
  have "unat t < 9223372036854775808" using assms by (simp add: word_less_nat_alt)
  then show ?thesis by (simp add: MIN_RESPONSE_def SECOND_def unat_word_ariths)
qed

lemma response_mono: "t \<le> t' \<Longrightarrow> t' < 2 ^ 63 \<Longrightarrow> t + MIN_RESPONSE \<le> t' + MIN_RESPONSE"
  using unat_response [of t] unat_response [of t'] le_less_trans [of t t' "2 ^ 63"] by (simp add: word_le_nat_alt)

lemma ready_later:
  assumes "ready s t A" "t \<le> t'" "t' < 2 ^ 63"
  shows "ready s t' A"
proof -
  note le = order_trans [OF _ response_mono [OF assms(2,3)]]
  show ?thesis unfolding ready_def
    using assms(3) ready_parts(2,4,7) [OF assms(1)] le [OF readyD(3) [OF assms(1)]] le [OF readyD(5) [OF assms(1)]] le [OF readyD(6) [OF assms(1)]]
    by (intro conjI ballI) (assumption | blast)+
qed

lemma ready_cong:
  assumes r: "ready s t A" and o: "s_oldest s' = filter P (s_oldest s)" and d: "\<And>a. a \<in> set (s_oldest s) \<Longrightarrow> P a \<Longrightarrow> dl s' a = dl s a"
    and p: "\<And>a. pending s' a \<noteq> None \<Longrightarrow> pending s a \<noteq> None \<and> P a" and e: "s_ok_expiry s' \<le> t + MIN_RESPONSE"
  shows "ready s' t A"
proof -
  have "sorted_wrt (\<lambda>a b. dl s a \<le> dl s b) (filter P (s_oldest s))" using readyD(2) [OF r] by (rule sorted_wrt_filter)
  then have "sorted_wrt (\<lambda>a b. dl s' a \<le> dl s' b) (filter P (s_oldest s))" by (rule sorted_wrt_mono_rel [rotated]) (simp add: d)
  then show ?thesis using readyD(1,3-) [OF r] p e by (auto simp: ready_def o d)
qed

lemma dl_same: "same_log s s' \<Longrightarrow> dl s' = dl s"
  by (simp add: same_log_def dl_def fun_eq_iff)

lemma ready_same:
  assumes "ready s t A" "same_log s s'" "s_ok_expiry s' \<le> t + MIN_RESPONSE"
  shows "ready s' t A"
proof (rule ready_cong [OF assms(1), of _ "\<lambda>_. True"])
  have e: "s_oldest s' = s_oldest s" "pending s' = pending s" using assms(2) by (simp_all add: same_log_def)
  then show "s_oldest s' = filter (\<lambda>_. True) (s_oldest s)" by simp
  show "pending s' a \<noteq> None \<Longrightarrow> pending s a \<noteq> None \<and> True" for a unfolding e(2) by simp
qed (simp_all add: dl_same [OF assms(2)] assms(3))

lemma ready_queue:
  assumes r: "ready s t A" and q: "queued s a u s'" and ok: "send_ok s X Y"
  shows "ready s' t A"
proof (rule ready_cong [OF r, of _ "\<lambda>_. True"])
  note c = queued_copy [OF q]
  show "s_oldest s' = filter (\<lambda>_. True) (s_oldest s)" using c(10) by simp
  show "pending s' b \<noteq> None \<Longrightarrow> pending s b \<noteq> None \<and> True" for b unfolding c(12) by simp
  show "s_ok_expiry s' \<le> t + MIN_RESPONSE" using c(11) readyD(5) [OF r] by simp
  fix b assume "b \<in> set (s_oldest s)"
  then obtain e where e: "s_mem s b = Some e" using send_okD(13) [OF ok] by blast
  obtain d where "s_mem s' = (s_mem s)(a \<mapsto> d)" "case s_mem s a of None \<Rightarrow> sd_cb d = None | Some e \<Rightarrow> sd_cb d = sd_cb e \<and> sd_deadline d = sd_deadline e \<and> sd_key d = sd_key e"
    using queued_mem [OF q] by blast
  then show "dl s' b = dl s b" using e by (cases "b = a") (simp_all add: dl_def content_def)
qed

text \<open>A packet that is sent extends the \<open>ok\<close> state no further than the first deadline.\<close>

lemma ready_emit:
  assumes r: "ready s t A" and e: "e \<le> t + MIN_RESPONSE" "e \<noteq> 0 \<longrightarrow> (\<forall>a d. peek (s_oldest s) = Some a \<longrightarrow> s_mem s a = Some d \<longrightarrow> e \<le> sd_deadline d)"
    and ok: "send_ok s X Y" and u: "ok_expiry u = e"
  shows "ready s t (insert u A)"
proof -
  have "e \<le> dl s b" if b: "b \<in> set (s_oldest s)" for b
  proof (cases "s_oldest s")
    case (Cons a as)
    then obtain d where d: "s_mem s a = Some d" using send_okD(13) [OF ok] by auto
    have "e \<le> dl s a" using e(2) Cons d by (cases "e = 0") (auto simp: dl_def content_def)
    also have "dl s a \<le> dl s b" using readyD(2) [OF r] Cons b by auto
    finally show ?thesis .
  qed (use b in simp)
  then show ?thesis using r e(1) u by (simp add: ready_def)
qed

section \<open>Queueing\<close>

definition core_inv :: "kvpsync_send \<Rightarrow> (byte list \<rightharpoonup> nat) \<Rightarrow> kvp_update list \<Rightarrow> kvp_ack set \<Rightarrow> kvp_update set \<Rightarrow> xtime \<Rightarrow> bool" where
  "core_inv s M F K A t \<longleftrightarrow> send_ok s {} {} \<and> logged s M F K \<and> ready s t A"

lemma coreD:
  assumes "core_inv s M F K A t"
  shows "send_ok s {} {}" "logged s M F K" "ready s t A"
  using assms by (simp_all add: core_inv_def)

lemma core_same: "core_inv s M F K A t \<Longrightarrow> send_ok s' {} {} \<Longrightarrow> same_log s s' \<Longrightarrow> s_ok_expiry s' \<le> t + MIN_RESPONSE \<Longrightarrow> core_inv s' M F K A t"
  unfolding core_inv_def using logged_same ready_same by blast

lemma core_queue:
  assumes c: "core_inv s M F K A t" and q: "queued s a u s'" "send_ok s' {} {}" "a \<notin> in_unacked s" "a \<notin> ran M" and w: "s_update_id s + 1 \<noteq> 0"
    and m: "log_move s M a u M'"
  shows "core_inv s' M' (F @ [entry s u]) K A t"
  using q(2) logged_queue [OF coreD(2) [OF c] q(1,3,4) w m] ready_queue [OF coreD(3) [OF c] q(1) coreD(1) [OF c]] by (simp add: core_inv_def)

lemma core_new:
  assumes c: "core_inv s M F K A t" and w: "s_update_id s + 1 \<noteq> 0" and m: "\<And>a. log_move s M a (f zero_update) M'"
  shows "\<exists>s'. queue_new alloc_ok f s = Some s' \<and> queued s (s_brk s) (f zero_update) s' \<and> s_brk s \<notin> in_cache s \<and> core_inv s' M' (F @ [entry s (f zero_update)]) K A t"
proof -
  from queue_new_ok [OF coreD(1) [OF c] w, of f] obtain s' where s': "queue_new alloc_ok f s = Some s'" "send_ok s' {} {}"
    "queued s (s_brk s) (f zero_update) s'" "s_brk s \<notin> in_cache s" "s_brk s \<notin> in_unacked s" by blast
  have "s_brk s \<notin> ran M" using loggedD(6) [OF coreD(2) [OF c], of "s_brk s"] send_ok_fresh(1) [OF coreD(1) [OF c]] by (auto simp: copy_def)
  from core_queue [OF c s'(3,2,5) this w m] show ?thesis using s' by blast
qed

text \<open>One more reference, for a structure that is queued again.\<close>

lemma upref_ok:
  assumes ok: "send_ok s {} {}" and m: "s_mem s a = Some d"
  shows "send_ok (s\<lparr>s_mem := (s_mem s)(a \<mapsto> d\<lparr>sd_nrefs := sd_nrefs d + 1\<rparr>)\<rparr>) {a} {}"
proof -
  let ?s = "s\<lparr>s_mem := (s_mem s)(a \<mapsto> d\<lparr>sd_nrefs := sd_nrefs d + 1\<rparr>)\<rparr>"
  have n: "cache_node ?s b e = cache_node s b e" "wait_node ?s b e = wait_node s b e" for b e
    by (simp_all add: cache_node_def wait_node_def)
  have "\<exists>e. s_mem ?s b = Some e \<and> cache_node s b e" if "b \<in> in_cache s" for b
    using send_okD(3) [OF ok that] m by (cases "b = a") (auto simp: cache_node_def insert_like_def)
  moreover have "\<exists>e. s_mem ?s b = Some e \<and> wait_node s b e" if "b \<in> in_unacked s" for b
    using send_okD(4) [OF ok that] m by (cases "b = a") (auto simp: wait_node_def)
  moreover have "node_ok ?s {a} b e" if "s_mem ?s b = Some e" for b e
    using send_okD(7) [OF ok, of b] that m by (cases "b = a") (auto simp: node_ok_def refs_def)
  ultimately show ?thesis using send_okD(1,2,5,6,10-) [OF ok] unfolding send_ok_def n by auto
qed

lemma insert_like_key: "insert_like d \<Longrightarrow> ukey (sd_update d) = sd_key d"
  unfolding insert_like_def ukey_def by blast

lemma requeue_ok:
  assumes c: "core_inv s M F K A t" and a: "a \<in> in_cache s" "a \<notin> in_unacked s" "s_mem s a = Some d" "a \<notin> ran M" "M (sd_key d) = None" and w: "s_update_id s + 1 \<noteq> 0"
  shows "\<exists>s'. data_queue alloc_ok a (s\<lparr>s_mem := (s_mem s)(a \<mapsto> d\<lparr>sd_nrefs := sd_nrefs d + 1\<rparr>)\<rparr>) = Some s' \<and>
    core_inv s' (M(sd_key d \<mapsto> a)) (F @ [entry s (sd_update d)]) K A t \<and> s_cache s' = s_cache s \<and> in_unacked s' = insert a (in_unacked s) \<and>
    flags s' = flags s \<and> s_update_id s' = s_update_id s + 1 \<and> s_recv_ok s' = s_recv_ok s \<and> s_sync_id s' = s_sync_id s \<and>
    copy s' a = Some (entry s (sd_update d))"
proof -
  let ?d = "d\<lparr>sd_nrefs := sd_nrefs d + 1\<rparr>"
  let ?s = "s\<lparr>s_mem := (s_mem s)(a \<mapsto> ?d)\<rparr>"
  note ok = coreD(1) [OF c]
  have m: "s_mem ?s a = Some ?d" by simp
  from data_queue_queued [OF upref_ok [OF ok a(3)] _ m] a(2) w obtain s' where
    s': "data_queue alloc_ok a ?s = Some s'" "send_ok s' {} {}" "queued ?s a (sd_update d) s'" by auto
  have sl: "same_log s ?s" using content_upd [OF a(3), of ?d ?s] by (simp add: same_log_def)
  have il: "insert_like d" "cached s (sd_key d) = Some a" using send_okD(3) [OF ok a(1)] a(3) by (auto simp: cache_node_def)
  have mv: "log_move ?s M a (sd_update d) (M(sd_key d \<mapsto> a))" using il(1) insert_like_key [OF il(1)] a(5) by (simp add: log_move_def insert_like_def)
  have e: "entry ?s (sd_update d) = entry s (sd_update d)" by (simp add: entry_def)
  note r = readyD(5) [OF coreD(3) [OF c]]
  have "logged s' (M(sd_key d \<mapsto> a)) (F @ [entry s (sd_update d)]) K"
    using logged_queue [OF logged_same [OF coreD(2) [OF c] sl] s'(3) _ a(4) _ mv] a(2) w e by simp
  moreover have "ready s' t A" using ready_queue [OF ready_same [OF coreD(3) [OF c] sl] s'(3) upref_ok [OF ok a(3)]] r by simp
  ultimately have "core_inv s' (M(sd_key d \<mapsto> a)) (F @ [entry s (sd_update d)]) K A t" using s'(2) by (simp add: core_inv_def)
  then show ?thesis using s'(1) e queued_copy [OF s'(3)] by (intro exI [of _ s']) simp
qed

lemma queue_one_ok:
  assumes c: "core_inv s M F K A t" and a: "a \<in> in_cache s" "a \<notin> in_unacked s" "s_mem s a = Some d" "a \<notin> ran M" "M (sd_key d) = None" and w: "s_update_id s + 1 \<noteq> 0"
  shows "\<exists>s'. queue_one alloc_ok a (s, b) = Some (s', True) \<and>
    core_inv s' (M(sd_key d \<mapsto> a)) (F @ [entry s (sd_update d)]) K A t \<and> s_cache s' = s_cache s \<and> in_unacked s' = insert a (in_unacked s) \<and>
    flags s' = flags s \<and> s_update_id s' = s_update_id s + 1 \<and> s_recv_ok s' = s_recv_ok s \<and> s_sync_id s' = s_sync_id s"
proof -
  have "sd_nrefs d = 1" using send_okD(7) [OF coreD(1) [OF c] a(3)] a(1,2) by (simp add: node_ok_def refs_def)
  then show ?thesis using requeue_ok [OF assms] a(3) by (auto simp: queue_one_def upd_def)
qed

text \<open>The map of what is already queued, while the addresses \<open>es\<close> of the cache are not.\<close>

definition cached_but :: "kvpsync_send \<Rightarrow> nat set \<Rightarrow> byte list \<rightharpoonup> nat" where
  "cached_but s B = (\<lambda>k. case cached s k of None \<Rightarrow> None | Some a \<Rightarrow> if a \<in> B then None else Some a)"

lemma cached_but_step:
  assumes ok: "send_ok s X Y" and a: "s_mem s a = Some d" "cached s (sd_key d) = Some a" "a \<notin> B" and s': "s_cache s' = s_cache s"
  shows "cached_but s (insert a B) (sd_key d) = None" "a \<notin> ran (cached_but s (insert a B))" "(cached_but s (insert a B))(sd_key d \<mapsto> a) = cached_but s' B"
proof -
  have u: "k = sd_key d" if "cached s k = Some a" for k using hm_map_inj [OF send_okD(1) [OF ok] that a(2)] by simp
  show "cached_but s (insert a B) (sd_key d) = None" "a \<notin> ran (cached_but s (insert a B))"
    using a(2) by (auto simp: cached_but_def ran_def split: option.splits if_splits)
  show "(cached_but s (insert a B))(sd_key d \<mapsto> a) = cached_but s' B"
  proof
    fix k
    show "((cached_but s (insert a B))(sd_key d \<mapsto> a)) k = cached_but s' B k"
    proof (cases "k = sd_key d")
      case True
      then show ?thesis using a(2,3) s' by (simp add: cached_but_def)
    next
      case False
      then have "cached s k \<noteq> Some a" using u by blast
      then show ?thesis using False s' by (cases "cached s k") (auto simp: cached_but_def)
    qed
  qed
qed

lemma fold_opt_inv:
  assumes "\<And>x xs s. I (x # xs) s \<Longrightarrow> \<exists>s'. f x s = Some s' \<and> I xs s'" "I xs s"
  shows "\<exists>s'. fold_opt f xs s = Some s' \<and> I [] s'"
  using assms(2)
proof (induction xs arbitrary: s)
  case (Cons x xs)
  from assms(1) [OF Cons.prems] obtain s' where "f x s = Some s'" "I xs s'" by blast
  then show ?case using Cons.IH by simp
qed simp

lemma succ_room:
  assumes "unat (i :: u32) + n < 4294967296" "0 < n"
  shows "i + 1 \<noteq> 0 \<and> unat (i + 1) = unat i + 1"
proof -
  have "unat (i + 1) = unat i + 1" using assms by (simp add: unat_word_ariths)
  then show ?thesis by (metis Suc_eq_plus1 nat.distinct(1) unat_0)
qed

definition all_inv :: "kvp_update list \<Rightarrow> kvp_ack set \<Rightarrow> kvp_update set \<Rightarrow> xtime \<Rightarrow> kvpsync_send \<Rightarrow> nat list \<Rightarrow> kvpsync_send \<times> bool \<Rightarrow> bool" where
  "all_inv F K A t s0 es sb \<longleftrightarrow> (case sb of (s, b) \<Rightarrow>
     (\<exists>G. core_inv s (cached_but s (set es)) (F @ G) K A t \<and> (\<forall>p \<in> set G. is_data p)) \<and> distinct es \<and> set es \<subseteq> in_cache s \<and> set es \<inter> in_unacked s = {} \<and>
     s_cache s = s_cache s0 \<and> flags s = flags s0 \<and> s_recv_ok s = s_recv_ok s0 \<and> s_sync_id s = s_sync_id s0 \<and>
     unat (s_update_id s) + length es = unat (s_update_id s0) + length (elem_ids (s_cache s0)))"

lemma all_inv_step:
  assumes I: "all_inv F K A t s0 (a # es) sb" and room: "unat (s_update_id s0) + length (elem_ids (s_cache s0)) < 4294967296"
  shows "\<exists>sb'. queue_one alloc_ok a sb = Some sb' \<and> all_inv F K A t s0 es sb'"
proof -
  obtain s b where sb: "sb = (s, b)" by (cases sb)
  from I obtain G where G: "core_inv s (cached_but s (set (a # es))) (F @ G) K A t" "\<forall>p \<in> set G. is_data p"
    and i: "distinct (a # es)" "set (a # es) \<subseteq> in_cache s" "set (a # es) \<inter> in_unacked s = {}" "s_cache s = s_cache s0" "flags s = flags s0" "s_recv_ok s = s_recv_ok s0" "s_sync_id s = s_sync_id s0"
      "unat (s_update_id s) + length (a # es) = unat (s_update_id s0) + length (elem_ids (s_cache s0))" unfolding all_inv_def sb prod.case by blast
  note ok = coreD(1) [OF G(1)]
  have ac: "a \<in> in_cache s" "a \<notin> in_unacked s" "a \<notin> set es" using i(1-3) by auto
  from send_okD(3) [OF ok ac(1)] obtain d where d: "s_mem s a = Some d" "cached s (sd_key d) = Some a" "insert_like d" by (auto simp: cache_node_def)
  note cb = cached_but_step [OF ok d(1,2) ac(3)]
  have w: "s_update_id s + 1 \<noteq> 0" "unat (s_update_id s + 1) = unat (s_update_id s) + 1" using succ_room [of "s_update_id s" "length (a # es)"] i(8) room by auto
  from queue_one_ok [OF G(1) ac(1,2) d(1) _ _ w(1), of b] cb(1,2) obtain s' where s': "queue_one alloc_ok a (s, b) = Some (s', True)"
    "core_inv s' ((cached_but s (insert a (set es)))(sd_key d \<mapsto> a)) (F @ G @ [entry s (sd_update d)]) K A t" "s_cache s' = s_cache s" "in_unacked s' = insert a (in_unacked s)"
    "flags s' = flags s" "s_update_id s' = s_update_id s + 1" "s_recv_ok s' = s_recv_ok s" "s_sync_id s' = s_sync_id s" by auto
  have "is_data (entry s (sd_update d))" using d(3) by (simp add: entry_def is_data_def insert_like_def)
  then have "\<exists>G. core_inv s' (cached_but s' (set es)) (F @ G) K A t \<and> (\<forall>p \<in> set G. is_data p)"
    using s'(2) cb(3) [OF s'(3)] G(2) by (intro exI [of _ "G @ [entry s (sd_update d)]"]) auto
  moreover have "set es \<subseteq> in_cache s'" "set es \<inter> in_unacked s' = {}" using i(1-3) s'(3,4) by auto
  ultimately have "all_inv F K A t s0 es (s', True)" using i s'(3,5-8) w(2) unfolding all_inv_def prod.case by simp
  then show ?thesis using s'(1) sb by blast
qed

lemma queue_all_ok:
  assumes c: "core_inv s Map.empty F K A t" and n: "in_cache s \<inter> in_unacked s = {}" and room: "unat (s_update_id s) + num_elems (s_cache s) < 4294967296"
  shows "\<exists>s' b G. queue_all_inserts alloc_ok s = Some (s', b) \<and> core_inv s' (cached s') (F @ G) K A t \<and> (\<forall>p \<in> set G. is_data p) \<and> s_cache s' = s_cache s \<and> flags s' = flags s \<and>
    s_recv_ok s' = s_recv_ok s \<and> s_sync_id s' = s_sync_id s \<and> unat (s_update_id s') = unat (s_update_id s) + num_elems (s_cache s)"
proof -
  note ok = send_okD(1) [OF coreD(1) [OF c]]
  have len: "num_elems (s_cache s) = length (elem_ids (s_cache s))" "distinct (elem_ids (s_cache s))" using ok by (simp_all add: hm_ok_def elem_ids_def)
  let ?es = "elem_ids (s_cache s)" and ?I = "all_inv F K A t s"
  have "cached_but s (set ?es) = Map.empty" using held [OF ok] by (auto simp: cached_but_def fun_eq_iff split: option.splits)
  then have I: "?I ?es (s, False)" using c n len(2) unfolding all_inv_def by (auto intro!: exI [of _ "[]"])
  have step: "\<exists>sb'. queue_one alloc_ok a sb = Some sb' \<and> ?I es sb'" if "?I (a # es) sb" for a es sb
    using all_inv_step [OF that] room len(1) by simp
  have tab: "s_cache (fst sb) = s_cache s" if "?I es sb" for es sb using that by (auto simp: all_inv_def split: prod.splits)
  have es: "?es = elem_ids (s_cache (fst (s, False)))" by simp
  have loop: "queue_all_inserts alloc_ok s = fold_opt (queue_one alloc_ok) ?es (s, False)"
  proof -
    have "hashmap_loop (num_elems (s_cache s)) (\<lambda>sb. s_cache (fst sb)) (queue_one alloc_ok) (hashmap_iter (s_cache (fst (s, False)))) (s, False) = fold_opt (queue_one alloc_ok) ?es (s, False) \<and>
      fold_opt (queue_one alloc_ok) ?es (s, False) \<noteq> None"
      unfolding es
    proof (rule hashmap_iter_fold [where Inv = ?I and tab = "\<lambda>sb. s_cache (fst sb)"])
      show "\<exists>s'. queue_one alloc_ok e x = Some s' \<and> ?I es s' \<and> (buckets (s_cache (fst s')) = buckets (s_cache (fst x)) \<or> buckets (s_cache (fst s')) = without e (buckets (s_cache (fst x))))"
        if "?I (e # es) x" for e es x using step [OF that] tab [OF that] tab by metis
      show "hm_ok (s_cache (fst x))" if "?I es x" for es x using tab [OF that] ok by simp
    qed (use I len ok in simp_all)
    then show ?thesis by (simp add: queue_all_inserts_def case_prod_unfold)
  qed
  from fold_opt_inv [where I = ?I and f = "queue_one alloc_ok", OF step I] obtain s' b where s': "fold_opt (queue_one alloc_ok) ?es (s, False) = Some (s', b)" "?I [] (s', b)" by auto
  have "cached_but s' {} = cached s'" by (auto simp: cached_but_def fun_eq_iff split: option.splits)
  with s'(2) obtain G where "core_inv s' (cached s') (F @ G) K A t" "\<forall>p \<in> set G. is_data p" unfolding all_inv_def by auto
  then show ?thesis using loop s' len(1) by (intro exI [of _ s'] exI [of _ b] exI [of _ G]) (simp add: all_inv_def)
qed

section \<open>The stages of a sync\<close>

text \<open>
  Data is queued only once the first packet was acknowledged; what is queued before is no data and no
  flush, and names the receiver the sync is for.
\<close>

definition stages :: "kvpsync_send \<Rightarrow> kvp_update list \<Rightarrow> kvp_ack set \<Rightarrow> bool" where
  "stages s F K \<longleftrightarrow> s_sync_id s \<noteq> 0 \<and>
     (s_synced s \<longrightarrow> s_sync_sent s \<and> (\<exists>p \<in> set F. utype p = KVP_UPDATE_FLUSH)) \<and> (s_sync_sent s \<longrightarrow> s_start_done s) \<and> (s_start_done s \<longrightarrow> s_start_sent s) \<and>
     (\<not> s_sync_sent s \<longrightarrow> in_cache s \<inter> in_unacked s = {}) \<and>
     (\<not> s_start_done s \<longrightarrow> (\<forall>p \<in> set F. \<not> is_data p \<and> utype p \<noteq> KVP_UPDATE_FLUSH)) \<and>
     (\<forall>p \<in> set F. utype p = KVP_UPDATE_START \<longrightarrow> resync_id p = s_resync_id s) \<and>
     (s_start_sent s \<longrightarrow> (\<exists>p \<in> set F. utype p = KVP_UPDATE_START)) \<and>
     (s_start_sent s \<and> (s_start_done s \<or> \<not> s_blocked s) \<longrightarrow> (\<exists>p \<in> set F. utype p = KVP_UPDATE_START \<and> ack_of p \<in> K)) \<and>
     (s_sync_done s \<longrightarrow> s_sync_sent s)"

lemma stages_parts:
  assumes "stages s F K"
  shows "s_sync_id s \<noteq> 0" "s_synced s \<longrightarrow> s_sync_sent s \<and> (\<exists>p \<in> set F. utype p = KVP_UPDATE_FLUSH)" "s_sync_sent s \<longrightarrow> s_start_done s" "s_start_done s \<longrightarrow> s_start_sent s"
    "\<not> s_sync_sent s \<longrightarrow> in_cache s \<inter> in_unacked s = {}"
    "\<not> s_start_done s \<longrightarrow> (\<forall>p \<in> set F. \<not> is_data p \<and> utype p \<noteq> KVP_UPDATE_FLUSH)"
    "\<forall>p \<in> set F. utype p = KVP_UPDATE_START \<longrightarrow> resync_id p = s_resync_id s"
    "s_start_sent s \<longrightarrow> (\<exists>p \<in> set F. utype p = KVP_UPDATE_START)"
    "s_start_sent s \<and> (s_start_done s \<or> \<not> s_blocked s) \<longrightarrow> (\<exists>p \<in> set F. utype p = KVP_UPDATE_START \<and> ack_of p \<in> K)"
    "s_sync_done s \<longrightarrow> s_sync_sent s"
  using assms unfolding stages_def by - (elim conjE, assumption)+

lemmas stagesD = stages_parts [rule_format]

definition log_map :: "kvpsync_send \<Rightarrow> byte list \<rightharpoonup> nat" where
  "log_map s = (if s_sync_sent s then cached s else Map.empty)"

definition sender_inv :: "kvpsync_send \<Rightarrow> kvp_update list \<Rightarrow> kvp_ack set \<Rightarrow> kvp_update set \<Rightarrow> xtime \<Rightarrow> bool" where
  "sender_inv s F K A t \<longleftrightarrow> core_inv s (log_map s) F K A t \<and> stages s F K"

lemma stages_same: "stages s F K \<Longrightarrow> same_log s s' \<Longrightarrow> stages s' F K"
  unfolding stages_def same_log_def by simp

lemma sender_inv_same:
  assumes "sender_inv s F K A t" "send_ok s' {} {}" "same_log s s'" "s_ok_expiry s' \<le> t + MIN_RESPONSE"
  shows "sender_inv s' F K A t"
proof -
  have "log_map s' = log_map s" using assms(3) by (simp add: log_map_def same_log_def)
  then show ?thesis using assms core_same stages_same unfolding sender_inv_def by metis
qed

lemma entry_sel [simp]:
  "utype (entry s u) = utype u" "is_data (entry s u) = is_data u" "resync_id (entry s u) = resync_id u" "delete_id (entry s u) = delete_id u" "ukey (entry s u) = ukey u"
  by (simp_all add: entry_def)

lemma zero_update_sel [simp]: "utype zero_update = KVP_UPDATE_EMPTY" "delete_id zero_update = 0" "resync_id zero_update = 0"
  by (simp_all add: zero_update_def)

text \<open>The room for update numbers that an operation may need.\<close>

definition room :: "kvpsync_send \<Rightarrow> bool" where
  "room s \<longleftrightarrow> unat (s_update_id s) + num_elems (s_cache s) + 4 < 4294967296"

lemma core_flags:
  assumes "core_inv s M F K A t" "s_cache s' = s_cache s" "s_unacked s' = s_unacked s" "s_mem s' = s_mem s" "s_sync_id s' = s_sync_id s"
    "s_update_id s' = s_update_id s" "s_unsent s' = s_unsent s" "s_sent s' = s_sent s" "s_brk s' = s_brk s"
    "s_inflight s' = s_inflight s" "1 \<le> s_inflight_limit s'" "s_oldest s' = s_oldest s" "s_ok_expiry s' \<le> t + MIN_RESPONSE"
  shows "core_inv s' M F K A t"
proof -
  have c: "copy s' = copy s" "dl s' = dl s" "pending s' = pending s" using assms(4) by (simp_all add: copy_def dl_def content_def pending_def fun_eq_iff)
  have "logged s' M F K" using coreD(2) [OF assms(1)] by (rule logged_cong) (simp_all add: assms c)
  moreover have "ready s' t A" using coreD(3) [OF assms(1)] assms(12,13) c by (simp add: ready_def)
  ultimately show ?thesis using send_ok_cong [OF coreD(1) [OF assms(1)] assms(2-12)] by (simp add: core_inv_def)
qed

lemma start_stage_ok:
  assumes I: "sender_inv s F K A t" and r: "room s" and n: "\<not> s_synced s"
  shows "\<exists>b s' G. start_stage alloc_ok s = Some (b, s') \<and> sender_inv s' (F @ G) K A t \<and> (\<not> b \<longrightarrow> s_start_done s') \<and> \<not> s_synced s' \<and>
    s_cache s' = s_cache s \<and> unat (s_update_id s') \<le> unat (s_update_id s) + 1 \<and> s_sync_id s' = s_sync_id s \<and> s_resync_id s' = s_resync_id s"
proof -
  have c: "core_inv s (log_map s) F K A t" and st: "stages s F K" using I by (simp_all add: sender_inv_def)
  note lim = send_okD(11) [OF coreD(1) [OF c]] and e5 = readyD(5) [OF coreD(3) [OF c]]
  consider (fin) "s_start_done s" | (sent) "\<not> s_start_done s" "s_start_sent s" | (new) "\<not> s_start_done s" "\<not> s_start_sent s" by blast
  then show ?thesis
  proof cases
    case fin
    then show ?thesis using I n by (intro exI [of _ False] exI [of _ s] exI [of _ "[]"]) (simp add: start_stage_def)
  next
    case sent
    show ?thesis
    proof (cases "s_blocked s")
      case True
      then show ?thesis using I n sent by (intro exI [of _ True] exI [of _ s] exI [of _ "[]"]) (simp add: start_stage_def)
    next
      case False
      let ?s = "s\<lparr>s_start_done := True\<rparr>"
      have "log_map ?s = log_map s" by (simp add: log_map_def)
      moreover have "core_inv ?s (log_map s) F K A t" using core_flags [OF c, of ?s] lim e5 by simp
      moreover have "stages ?s F K" using st sent False n unfolding stages_def by auto
      ultimately show ?thesis using sent False n by (intro exI [of _ False] exI [of _ ?s] exI [of _ "[]"]) (simp add: start_stage_def sender_inv_def)
    qed
  next
    case new
    have ns: "\<not> s_sync_sent s" using stagesD(3) [OF st] new by blast
    have w: "s_update_id s + 1 \<noteq> 0 \<and> unat (s_update_id s + 1) = unat (s_update_id s) + 1" using succ_room [of "s_update_id s" 4] r by (simp add: room_def)
    let ?f = "\<lambda>u. u\<lparr>utype := KVP_UPDATE_START, resync_id := s_resync_id s\<rparr>"
    let ?p = "entry s (?f zero_update)"
    from core_new [OF c, of ?f "log_map s"] w obtain s1 where s1: "queue_start alloc_ok s = Some s1" "queued s (s_brk s) (?f zero_update) s1" "s_brk s \<notin> in_cache s" "core_inv s1 (log_map s) (F @ [?p]) K A t"
      by (auto simp: queue_new_simps log_move_def)
    note q = queued_copy [OF s1(2)]
    let ?s = "s1\<lparr>s_blocked := True, s_start_sent := True\<rparr>"
    have "log_map ?s = log_map s" using q(7,8) by (simp add: log_map_def)
    moreover have "core_inv ?s (log_map s) (F @ [?p]) K A t"
      using core_flags [OF s1(4), of ?s] send_okD(11) [OF coreD(1) [OF s1(4)]] readyD(5) [OF coreD(3) [OF s1(4)]] by simp
    moreover have "stages ?s (F @ [?p]) K" using st new ns n q s1(3) unfolding stages_def by (auto simp: is_data_def)
    ultimately show ?thesis using s1(1) new n q w by (intro exI [of _ True] exI [of _ ?s] exI [of _ "[?p]"]) (simp add: start_stage_def sender_inv_def)
  qed
qed

lemma sync_stage_ok:
  assumes I: "sender_inv s F K A t" and r: "unat (s_update_id s) + num_elems (s_cache s) + 3 < 4294967296" and n: "\<not> s_synced s" "s_start_done s"
  shows "\<exists>b s' G. sync_stage alloc_ok s = Some (b, s') \<and> sender_inv s' (F @ G) K A t \<and> (\<not> b \<longrightarrow> s_sync_sent s') \<and> \<not> s_synced s' \<and> s_start_done s' \<and>
    s_cache s' = s_cache s \<and> unat (s_update_id s') + 3 < 4294967296 \<and> s_sync_id s' = s_sync_id s \<and> s_resync_id s' = s_resync_id s"
proof -
  have c: "core_inv s (log_map s) F K A t" and st: "stages s F K" using I by (simp_all add: sender_inv_def)
  note lim = send_okD(11) [OF coreD(1) [OF c]] and e5 = readyD(5) [OF coreD(3) [OF c]]
  show ?thesis
  proof (cases "s_sync_sent s")
    case True
    let ?s = "s\<lparr>s_sync_done := True\<rparr>"
    have "log_map ?s = log_map s" by (simp add: log_map_def)
    moreover have "core_inv ?s (log_map s) F K A t" using core_flags [OF c, of ?s] lim e5 by simp
    moreover have "stages ?s F K" using st True unfolding stages_def by simp
    ultimately have "sender_inv ?s F K A t" by (simp add: sender_inv_def)
    then show ?thesis using I n r True
      by (intro exI [of _ "\<not> s_sync_done s \<and> s_blocked s"] exI [of _ "if s_sync_done s \<or> s_blocked s then s else ?s"] exI [of _ "[]"]) (simp add: sync_stage_def)
  next
    case False
    have m: "log_map s = Map.empty" using False by (simp add: log_map_def)
    from queue_all_ok [of s F K A t] c m stagesD(5) [OF st False] r obtain s1 b G where
      s1: "queue_all_inserts alloc_ok s = Some (s1, b)" "core_inv s1 (cached s1) (F @ G) K A t" "\<forall>p \<in> set G. is_data p" "s_cache s1 = s_cache s" "flags s1 = flags s"
        "s_sync_id s1 = s_sync_id s" "unat (s_update_id s1) = unat (s_update_id s) + num_elems (s_cache s)" by auto
    note lim1 = send_okD(11) [OF coreD(1) [OF s1(2)]] and e51 = readyD(5) [OF coreD(3) [OF s1(2)]]
    define s2 where "s2 = s1\<lparr>s_blocked := b, s_sync_sent := True, s_sync_done := \<not> b\<rparr>"
    have "log_map s2 = cached s1" by (simp add: log_map_def s2_def)
    moreover have "core_inv s2 (cached s1) (F @ G) K A t" using core_flags [OF s1(2), of s2] lim1 e51 by (simp add: s2_def)
    moreover have "stages s2 (F @ G) K" using st s1(3-6) n False unfolding stages_def s2_def by (auto simp: is_data_def)
    ultimately have i2: "sender_inv s2 (F @ G) K A t" by (simp add: sender_inv_def)
    show ?thesis
    proof (cases "s_sync_done s")
      case True
      then show ?thesis using stagesD(10) [OF st] False by blast
    next
      case nd: False
      have "sync_stage alloc_ok s = Some (b, s2)" using False nd s1(1,5) by (simp add: sync_stage_def s2_def)
      then show ?thesis using i2 n s1(4-7) r by (intro exI [of _ b] exI [of _ s2] exI [of _ G]) (simp add: s2_def)
    qed
  qed
qed

lemma queue_plain_ok:
  assumes I: "sender_inv s F K A t" and w: "s_update_id s + 1 \<noteq> 0" and f: "utype (f zero_update) = KVP_UPDATE_EMPTY \<or> utype (f zero_update) = KVP_UPDATE_FLUSH \<and> s_start_done s"
  shows "\<exists>s'. queue_new alloc_ok f s = Some s' \<and> queued s (s_brk s) (f zero_update) s' \<and> sender_inv s' (F @ [entry s (f zero_update)]) K A t"
proof -
  have c: "core_inv s (log_map s) F K A t" and st: "stages s F K" using I by (simp_all add: sender_inv_def)
  have "log_move s (log_map s) a (f zero_update) (log_map s)" for a using f by (auto simp: log_move_def)
  from core_new [OF c w, of f "log_map s", OF this] obtain s' where s': "queue_new alloc_ok f s = Some s'" "queued s (s_brk s) (f zero_update) s'" "s_brk s \<notin> in_cache s"
    "core_inv s' (log_map s) (F @ [entry s (f zero_update)]) K A t" by blast
  note q = queued_copy [OF s'(2)]
  have "log_map s' = log_map s" using q(7,8) by (simp add: log_map_def)
  moreover have "stages s' (F @ [entry s (f zero_update)]) K"
    using st s'(3) f unfolding stages_def q(3,5,7-9,13-16,19) by (auto simp: is_data_def)
  ultimately show ?thesis using s' by (auto simp: sender_inv_def)
qed

lemma calculate_inv:
  assumes I: "sender_inv s F K A t"
  shows "\<exists>e s'. calculate_ok_expiry s t = Some (e, s') \<and> sender_inv s' F K A t \<and> same_log s s'"
proof -
  have c: "core_inv s (log_map s) F K A t" using I by (simp add: sender_inv_def)
  from calculate_ok [OF coreD(1) [OF c], of t] obtain e s' where s': "calculate_ok_expiry s t = Some (e, s')" "send_ok s' {} {}" "same_log s s'"
    "s_ok_expiry s' \<le> max (t + MIN_RESPONSE) (s_ok_expiry s)" by blast
  have "s_ok_expiry s' \<le> t + MIN_RESPONSE" using s'(4) readyD(5) [OF coreD(3) [OF c]] by simp
  then show ?thesis using s' sender_inv_same [OF I s'(2,3)] by blast
qed

lemma sender_inv_flag:
  assumes I: "sender_inv s F K A t" and s': "s' = s\<lparr>s_recv_ok := b, s_old_recv_ok := b', s_calls := cs\<rparr>"
  shows "sender_inv s' F K A t"
proof -
  have c: "core_inv s (log_map s) F K A t" using I by (simp add: sender_inv_def)
  have "send_ok s' {} {}" by (rule send_ok_cong [OF coreD(1) [OF c]]) (use send_okD(11) [OF coreD(1) [OF c]] in \<open>simp_all add: s'\<close>)
  moreover have "same_log s s'" by (rule same_log_cong) (simp_all add: s')
  ultimately show ?thesis using sender_inv_same [OF I] readyD(5) [OF coreD(3) [OF c]] by (simp add: s')
qed

lemma advance_ok:
  assumes I: "sender_inv s F K A t" and r: "room s"
  shows "\<exists>s' G. advance_state alloc_ok s t = Some s' \<and> sender_inv s' (F @ G) K A t \<and> unat (s_update_id s') + 1 < 4294967296 \<and>
    s_cache s' = s_cache s \<and> s_sync_id s' = s_sync_id s \<and> s_resync_id s' = s_resync_id s"
proof (cases "s_synced s")
  case True
  then show ?thesis using I r by (intro exI [of _ s] exI [of _ "[]"]) (simp add: advance_state_def room_def)
next
  case False
  from start_stage_ok [OF I r False] obtain b1 s1 G1 where s1: "start_stage alloc_ok s = Some (b1, s1)" "sender_inv s1 (F @ G1) K A t" "\<not> b1 \<longrightarrow> s_start_done s1" "\<not> s_synced s1"
    "s_cache s1 = s_cache s" "unat (s_update_id s1) \<le> unat (s_update_id s) + 1" "s_sync_id s1 = s_sync_id s" "s_resync_id s1 = s_resync_id s" by blast
  show ?thesis
  proof (cases b1)
    case True
    then show ?thesis using False s1 r by (intro exI [of _ s1] exI [of _ G1]) (simp add: advance_state_def room_def)
  next
    case nb1: False
    have "unat (s_update_id s1) + num_elems (s_cache s1) + 3 < 4294967296" using s1(5,6) r by (simp add: room_def)
    from sync_stage_ok [OF s1(2) this s1(4)] s1(3) nb1 obtain b2 s2 G2 where s2: "sync_stage alloc_ok s1 = Some (b2, s2)" "sender_inv s2 ((F @ G1) @ G2) K A t" "\<not> b2 \<longrightarrow> s_sync_sent s2" "\<not> s_synced s2" "s_start_done s2"
      "s_cache s2 = s_cache s1" "unat (s_update_id s2) + 3 < 4294967296" "s_sync_id s2 = s_sync_id s1" "s_resync_id s2 = s_resync_id s1" by blast
    show ?thesis
    proof (cases b2)
      case True
      then show ?thesis using False s1 s2 nb1 by (intro exI [of _ s2] exI [of _ "G1 @ G2"]) (simp add: advance_state_def)
    next
      case nb2: False
      have "sender_inv (s2\<lparr>s_recv_ok := True\<rparr>) ((F @ G1) @ G2) K A t" by (rule sender_inv_flag [OF s2(2), where b = True and b' = "s_old_recv_ok s2" and cs = "s_calls s2"]) simp
      from calculate_inv [OF this] obtain e s3 where s3: "calculate_ok_expiry (s2\<lparr>s_recv_ok := True\<rparr>) t = Some (e, s3)" "sender_inv s3 ((F @ G1) @ G2) K A t" "same_log (s2\<lparr>s_recv_ok := True\<rparr>) s3" by blast
      have f3: "s_update_id s3 = s_update_id s2" "s_start_done s3" "s_sync_sent s3" "s_cache s3 = s_cache s" "s_sync_id s3 = s_sync_id s" "s_resync_id s3 = s_resync_id s"
        using s3(3) s2(3-9) s1(5,7,8) nb2 by (simp_all add: same_log_def)
      have w: "s_update_id s3 + 1 \<noteq> 0 \<and> unat (s_update_id s3 + 1) = unat (s_update_id s3) + 1" using succ_room [of "s_update_id s3" 1] s2(7) f3(1) by simp
      let ?f = "\<lambda>u. u\<lparr>utype := KVP_UPDATE_FLUSH\<rparr>"
      from queue_plain_ok [OF s3(2), of ?f] w f3(2) obtain s4 where s4: "queue_flush alloc_ok s3 = Some s4" "queued s3 (s_brk s3) (?f zero_update) s4"
        "sender_inv s4 (((F @ G1) @ G2) @ [entry s3 (?f zero_update)]) K A t" by (auto simp: queue_new_simps)
      note q = queued_copy [OF s4(2)]
      let ?s = "s4\<lparr>s_synced := True\<rparr>" and ?F = "((F @ G1) @ G2) @ [entry s3 (?f zero_update)]"
      have c4: "core_inv s4 (log_map s4) ?F K A t" and st4: "stages s4 ?F K" using s4(3) by (simp_all add: sender_inv_def)
      have "core_inv ?s (log_map s4) ?F K A t" using core_flags [OF c4, of ?s] send_okD(11) [OF coreD(1) [OF c4]] readyD(5) [OF coreD(3) [OF c4]] by simp
      moreover have "log_map ?s = log_map s4" by (simp add: log_map_def)
      moreover have "stages ?s ?F K" using st4 f3(3) q(8) unfolding stages_def by simp
      ultimately have "sender_inv ?s ?F K A t" by (simp add: sender_inv_def)
      moreover have "advance_state alloc_ok s t = Some ?s" using False s1(1) s2(1) s3(1) s4(1) nb1 nb2 by (simp add: advance_state_def)
      ultimately show ?thesis using f3 q w s2(7) by (intro exI [of _ ?s] exI [of _ "G1 @ G2 @ [entry s3 (?f zero_update)]"]) simp
    qed
  qed
qed

end
