(* ===== verification/Kvp_Sender.thy ===== *)
theory Kvp_Sender
  imports Kvp_Log
begin

text \<open>
  Every operation of the sender of \<open>src/server/libkvpsync/send.c\<close> keeps the invariant of
  \<open>Kvp_Log\<close>, whatever acknowledgements arrive, so that a sender never aborts.
\<close>

section \<open>Running\<close>

lemma sender_invD:
  assumes "sender_inv s F K A t"
  shows "core_inv s (log_map s) F K A t" "stages s F K" "send_ok s {} {}" "logged s (log_map s) F K" "ready s t A"
  using assms by (simp_all add: sender_inv_def core_inv_def)

lemma sender_inv_later: "sender_inv s F K A t \<Longrightarrow> t \<le> t' \<Longrightarrow> t' < 2 ^ 63 \<Longrightarrow> sender_inv s F K A t'"
  unfolding sender_inv_def core_inv_def using ready_later by blast

lemma data_send_inv:
  assumes I: "sender_inv s F K A t" and a: "a \<in> in_unacked s"
  shows "\<exists>u s'. data_send a t s = Some (u, s') \<and> sender_inv s' F K (insert u A) t \<and> u\<lparr>ok_expiry := 0\<rparr> \<in> set F \<and> same_log s s' \<and> s_sent s' \<noteq> [] \<and> s_mem s' a \<noteq> None"
proof -
  note ok = sender_invD(3) [OF I] and rd = sender_invD(5) [OF I]
  from unacked_mem [OF ok a] obtain d where m: "s_mem s a = Some d" by blast
  from data_send_ok [OF ok a m, of t] obtain e s' where s': "data_send a t s = Some ((sd_update d)\<lparr>ok_expiry := e\<rparr>, s')" "send_ok s' {} {}" "same_log s s'" "s_sent s' \<noteq> []" "s_mem s' a \<noteq> None"
    and e: "e \<le> max (t + MIN_RESPONSE) (s_ok_expiry s)" "s_ok_expiry s' \<le> max (t + MIN_RESPONSE) (s_ok_expiry s)"
      "e \<noteq> 0 \<longrightarrow> (\<forall>b d. peek (s_oldest s) = Some b \<longrightarrow> s_mem s b = Some d \<longrightarrow> e \<le> sd_deadline d)" by blast
  let ?u = "(sd_update d)\<lparr>ok_expiry := e\<rparr>"
  have e': "e \<le> t + MIN_RESPONSE" "s_ok_expiry s' \<le> t + MIN_RESPONSE" using e(1,2) readyD(5) [OF rd] by simp_all
  have "ready s t (insert ?u A)" using ready_emit [OF rd e'(1) e(3) ok] by simp
  then have "sender_inv s F K (insert ?u A) t" using I by (simp add: sender_inv_def core_inv_def)
  from sender_inv_same [OF this s'(2,3) e'(2)] have "sender_inv s' F K (insert ?u A) t" .
  moreover have "?u\<lparr>ok_expiry := 0\<rparr> \<in> set F" using loggedD(4) [OF sender_invD(4) [OF I] a] m by (auto simp: copy_def)
  ultimately show ?thesis using s' by blast
qed

lemma first_fault_ok: "send_ok s {} {} \<Longrightarrow> s_sent s \<noteq> [] \<Longrightarrow> \<exists>x. first_fault s = Some x"
proof -
  assume ok: "send_ok s {} {}" and "s_sent s \<noteq> []"
  then obtain a as where a: "s_sent s = a # as" by (cases "s_sent s") auto
  then have "a \<in> in_unacked s" using send_okD(6) [OF ok] by auto
  from unacked_mem [OF ok this] show ?thesis using a by (auto simp: first_fault_def)
qed

lemma choose_ok:
  assumes I: "sender_inv s F K A t" and w: "s_update_id s + 1 \<noteq> 0"
  shows "\<exists>pkt x s' G. choose_packet alloc_ok s t = Some (pkt, x, s') \<and> sender_inv s' (F @ G) K (A \<union> set_option pkt) t \<and>
    (\<forall>u \<in> set_option pkt. u\<lparr>ok_expiry := 0\<rparr> \<in> set (F @ G)) \<and> s_cache s' = s_cache s \<and> s_sync_id s' = s_sync_id s \<and> s_resync_id s' = s_resync_id s"
proof -
  note ok = sender_invD(3) [OF I]
  consider (send) "\<not> inflight_is_full s" "s_unsent s \<noteq> []" | (wait) "inflight_is_full s \<or> s_unsent s = []" "s_sent s \<noteq> []"
    | (idle) "inflight_is_full s \<or> s_unsent s = []" "s_sent s = []" by blast
  then show ?thesis
  proof cases
    case send
    then have a: "hd (s_unsent s) \<in> in_unacked s" using send_okD(6) [OF ok] hd_in_set [of "s_unsent s"] by auto
    from data_send_inv [OF I a] obtain u s' where s': "data_send (hd (s_unsent s)) t s = Some (u, s')" "sender_inv s' F K (insert u A) t" "u\<lparr>ok_expiry := 0\<rparr> \<in> set F" "same_log s s'" "s_sent s' \<noteq> []" by blast
    from first_fault_ok [OF sender_invD(3) [OF s'(2)] s'(5)] obtain x where "first_fault s' = Some x" by blast
    then show ?thesis using send s' by (intro exI [of _ "Some u"] exI [of _ "if \<not> inflight_is_full s' \<and> s_unsent s' \<noteq> [] then 0 else x"] exI [of _ s'] exI [of _ "[]"])
      (simp add: choose_packet_def same_log_def)
  next
    case wait
    from first_fault_ok [OF ok wait(2)] obtain x where "first_fault s = Some x" by blast
    then show ?thesis using wait I by (intro exI [of _ None] exI [of _ x] exI [of _ s] exI [of _ "[]"]) (auto simp: choose_packet_def)
  next
    case idle
    have "s_inflight s = 0" "1 \<le> s_inflight_limit s" using send_okD(10,11) [OF ok] idle(2) by simp_all
    then have un: "s_unsent s = []" using idle(1) by (simp add: inflight_is_full_def)
    show ?thesis
    proof (cases "t + 3 * SECOND < s_ok_expiry s")
      case True
      then show ?thesis using idle un I by (intro exI [of _ None] exI [of _ "s_ok_expiry s - 3 * SECOND"] exI [of _ s] exI [of _ "[]"]) (simp add: choose_packet_def)
    next
      case False
      let ?s = "s\<lparr>s_recv_ok := True\<rparr>" and ?f = "\<lambda>u. u\<lparr>utype := KVP_UPDATE_EMPTY\<rparr>"
      have "sender_inv ?s F K A t" by (rule sender_inv_flag [OF I, where b = True and b' = "s_old_recv_ok s" and cs = "s_calls s"]) simp
      from queue_plain_ok [OF this, of ?f] w obtain s1 where s1: "queue_empty alloc_ok ?s = Some s1" "queued ?s (s_brk s) (?f zero_update) s1"
        "sender_inv s1 (F @ [entry ?s (?f zero_update)]) K A t" by (auto simp: queue_new_simps)
      note q = queued_copy [OF s1(2)]
      have "s_unsent s1 = [s_brk s]" "s_brk s \<in> in_unacked s1" using q(5,18) un by simp_all
      from data_send_inv [OF s1(3) this(2)] this(1) obtain u s' where s': "peek (s_unsent s1) = Some (s_brk s)" "data_send (s_brk s) t s1 = Some (u, s')" "sender_inv s' (F @ [entry ?s (?f zero_update)]) K (insert u A) t"
        "u\<lparr>ok_expiry := 0\<rparr> \<in> set (F @ [entry ?s (?f zero_update)])" "same_log s1 s'" "s_mem s' (s_brk s) \<noteq> None" by auto
      then obtain d where "s_mem s' (s_brk s) = Some d" by blast
      then have "choose_packet alloc_ok s t = Some (Some u, fault_time d, s')" using idle un False s1(1) s'(1,2) by (simp add: choose_packet_def)
      moreover have "s_cache s' = s_cache s" "s_sync_id s' = s_sync_id s" "s_resync_id s' = s_resync_id s" using s'(5) q(3,7,13) by (simp_all add: same_log_def)
      ultimately show ?thesis using s'(3,4) by (intro exI [of _ "Some u"] exI [of _ "fault_time d"] exI [of _ s'] exI [of _ "[entry ?s (?f zero_update)]"]) simp
    qed
  qed
qed

lemma data_remove_frame: "data_remove a s = Some s' \<Longrightarrow> s_ok_expiry s' = s_ok_expiry s"
  by (auto simp: data_remove_def Let_def split: option.splits if_splits)

lemma append_frame: "insert_before ptr a s = Some s' \<Longrightarrow> s_ok_expiry s' = s_ok_expiry s" "append_unsent a s = Some s' \<Longrightarrow> s_ok_expiry s' = s_ok_expiry s"
  by (auto simp: insert_before_def append_unsent_def split: if_splits)

lemma fault_frame: "s_ok_expiry (fault_detected d now s) = s_ok_expiry s"
  by (simp add: fault_detected_def)

lemma resend_all_frame: "resend_all fuel ptr s = Some s' \<Longrightarrow> s_ok_expiry s' = s_ok_expiry s"
proof (induction fuel arbitrary: s)
  case 0
  then show ?case by (simp split: option.splits)
next
  case (Suc f)
  show ?case
  proof (cases "peek (s_sent s)")
    case (Some a)
    with Suc.prems obtain s1 s2 where "data_remove a s = Some s1" "insert_before ptr a s1 = Some s2" "resend_all f ptr s2 = Some s'"
      by (auto simp: resend_all.simps [of "Suc f"] bind_eq_Some_conv)
    then show ?thesis using Suc.IH data_remove_frame append_frame(1) by metis
  qed (use Suc.prems in simp)
qed

lemma resend_faulty_frame: "resend_faulty fuel now s = Some s' \<Longrightarrow> s_ok_expiry s' = s_ok_expiry s"
proof (induction fuel arbitrary: s)
  case 0
  then show ?case by (simp split: option.splits bind_splits if_splits)
next
  case (Suc f)
  show ?case
  proof (cases "peek (s_sent s)")
    case (Some a)
    with Suc.prems obtain d where d: "s_mem s a = Some d" by (cases "s_mem s a") (simp_all add: resend_faulty.simps)
    show ?thesis
    proof (cases "now < fault_time d")
      case True
      then show ?thesis using Suc.prems Some d by (simp add: resend_faulty.simps)
    next
      case False
      with Suc.prems Some d obtain s1 s2 where "data_remove a s = Some s1" "append_unsent a s1 = Some s2" "resend_faulty f now (fault_detected d now s2) = Some s'"
        by (auto simp: resend_faulty.simps [of "Suc f"] bind_eq_Some_conv)
      then show ?thesis using Suc.IH data_remove_frame append_frame(2) fault_frame by metis
    qed
  qed (use Suc.prems in simp)
qed

lemma check_unresponsive_frame: "check_unresponsive s now = Some s' \<Longrightarrow> s_ok_expiry s' = s_ok_expiry s"
  by (auto simp: check_unresponsive_def bind_eq_Some_conv split: option.splits if_splits dest!: resend_all_frame simp del: resend_all.simps)

lemma maybe_state_cb_inv: "sender_inv s F K A t \<Longrightarrow> sender_inv (maybe_state_cb s) F K A t"
  by (erule sender_inv_flag [where b = "s_recv_ok s" and b' = "if \<not> s_state_cb s \<or> s_old_recv_ok s = s_recv_ok s then s_old_recv_ok s else s_recv_ok s" and
    cs = "if \<not> s_state_cb s \<or> s_old_recv_ok s = s_recv_ok s then s_calls s else s_calls s @ [State_cb (s_recv_ok s)]"]) (simp add: maybe_state_cb_def)

lemma maybe_state_cb_sel [simp]:
  "s_cache (maybe_state_cb s) = s_cache s" "s_sync_id (maybe_state_cb s) = s_sync_id s" "s_resync_id (maybe_state_cb s) = s_resync_id s"
  by (simp_all add: maybe_state_cb_def)

lemma run_ok:
  assumes I: "sender_inv s F K A t" and r: "room s"
  shows "\<exists>pkt x s' G. kvpsync_send_run alloc_ok s t = Some (pkt, x, s') \<and> sender_inv s' (F @ G) K (A \<union> set_option pkt) t \<and>
    (\<forall>u \<in> set_option pkt. u\<lparr>ok_expiry := 0\<rparr> \<in> set (F @ G)) \<and> s_cache s' = s_cache s \<and> s_sync_id s' = s_sync_id s \<and> s_resync_id s' = s_resync_id s"
proof -
  from advance_ok [OF I r] obtain s1 G1 where s1: "advance_state alloc_ok s t = Some s1" "sender_inv s1 (F @ G1) K A t" "unat (s_update_id s1) + 1 < 4294967296"
    "s_cache s1 = s_cache s" "s_sync_id s1 = s_sync_id s" "s_resync_id s1 = s_resync_id s" by blast
  define s2 where "s2 = (if s_recv_ok s1 \<and> t \<ge> s_ok_expiry s1 then s1\<lparr>s_recv_ok := False\<rparr> else s1)"
  have i2: "sender_inv s2 (F @ G1) K A t"
    by (rule sender_inv_flag [OF s1(2), where b = "s_recv_ok s2" and b' = "s_old_recv_ok s1" and cs = "s_calls s1"]) (simp add: s2_def)
  have f2: "s_update_id s2 = s_update_id s1" "s_cache s2 = s_cache s" "s_sync_id s2 = s_sync_id s" "s_resync_id s2 = s_resync_id s" using s1(4-) by (simp_all add: s2_def)
  from check_unresponsive_ok [OF sender_invD(3) [OF i2], of t] obtain s3 where s3: "check_unresponsive s2 t = Some s3" "send_ok s3 {} {}" "same_log s2 s3" by blast
  note i3 = sender_inv_same [OF i2 s3(2,3)]
  have e3: "s_ok_expiry s3 \<le> t + MIN_RESPONSE" using check_unresponsive_frame [OF s3(1)] readyD(5) [OF sender_invD(5) [OF i2]] by simp
  from resend_faulty_ok [OF s3(2), of "length (s_sent s3)" t] obtain s4 where s4: "resend_faulty (length (s_sent s3)) t s3 = Some s4" "send_ok s4 {} {}" "same_log s3 s4" by blast
  have e4: "s_ok_expiry s4 \<le> t + MIN_RESPONSE" using resend_faulty_frame [OF s4(1)] e3 by simp
  note i4 = sender_inv_same [OF i3 [OF e3] s4(2,3) e4]
  have f4: "s_update_id s4 = s_update_id s1" "s_cache s4 = s_cache s" "s_sync_id s4 = s_sync_id s" "s_resync_id s4 = s_resync_id s" using f2 s3(3) s4(3) by (simp_all add: same_log_def)
  have "s_update_id s4 + 1 \<noteq> 0" using succ_room [of "s_update_id s4" 1] s1(3) f4(1) by simp
  from choose_ok [OF i4 this] obtain pkt x s5 G2 where s5: "choose_packet alloc_ok s4 t = Some (pkt, x, s5)" "sender_inv s5 ((F @ G1) @ G2) K (A \<union> set_option pkt) t"
    "\<forall>u \<in> set_option pkt. u\<lparr>ok_expiry := 0\<rparr> \<in> set ((F @ G1) @ G2)" "s_cache s5 = s_cache s4" "s_sync_id s5 = s_sync_id s4" "s_resync_id s5 = s_resync_id s4" by blast
  have "send_run alloc_ok s t = Some (pkt, if s_recv_ok s5 \<and> x > s_ok_expiry s5 then s_ok_expiry s5 else x, s5)"
    using s1(1) s3(1) s4(1) s5(1) by (simp add: send_run_def s2_def [symmetric] Let_def)
  then show ?thesis using maybe_state_cb_inv [OF s5(2)] s5(3-) f4
    by (intro exI [of _ pkt] exI [of _ "if s_recv_ok s5 \<and> x > s_ok_expiry s5 then s_ok_expiry s5 else x"] exI [of _ "maybe_state_cb s5"] exI [of _ "G1 @ G2"])
      (simp add: kvpsync_send_run_def)
qed

section \<open>Acknowledgements\<close>

lemma sender_inv_K:
  assumes "sender_inv s F K A t" "K \<subseteq> K'"
  shows "sender_inv s F K' A t"
proof -
  have "stages s F K'" using sender_invD(2) [OF assms(1)] assms(2) unfolding stages_def by blast
  then show ?thesis using assms logged_mono unfolding sender_inv_def core_inv_def by blast
qed

lemma sender_inv_recv:
  assumes "sender_inv s F K A t"
  shows "sender_inv (s\<lparr>s_last_recv := x\<rparr>) F K A t"
proof (rule sender_inv_same [OF assms])
  show "send_ok (s\<lparr>s_last_recv := x\<rparr>) {} {}" by (rule send_ok_cong [OF sender_invD(3) [OF assms]]) (use send_okD(11) [OF sender_invD(3) [OF assms]] in simp_all)
  show "same_log s (s\<lparr>s_last_recv := x\<rparr>)" by (rule same_log_cong) simp_all
qed (use readyD(5) [OF sender_invD(5) [OF assms]] in simp)

lemma core_sel: "map_option core (s_mem s' a) = map_option core (s_mem s a) \<Longrightarrow> copy s' a = copy s a \<and> dl s' a = dl s a \<and> pending s' a = pending s a"
  by (cases "s_mem s a"; cases "s_mem s' a") (auto simp: core_def copy_def dl_def content_def pending_def)

lemma resync_ok:
  assumes I: "sender_inv s F K A t"
  shows "\<exists>s'. kvpsync_send_resync i s = Some s' \<and> sender_inv s' [] K A t \<and> s_cache s' = s_cache s \<and> s_resync_id s' = i \<and> s_sync_id s' \<noteq> s_sync_id s"
proof -
  note ok = sender_invD(3) [OF I] and rd = sender_invD(5) [OF I]
  define j where "j = s_sync_id s + (1 + of_bool (s_sync_id s = - 1))"
  have j: "j \<noteq> 0" "j \<noteq> s_sync_id s"
  proof -
    show "j \<noteq> 0" using add_eq_0_iff2 [of "s_sync_id s" 1] by (auto simp: j_def add.commute)
    show "j \<noteq> s_sync_id s" by (cases "s_sync_id s = - 1") (simp_all add: j_def)
  qed
  let ?s = "s\<lparr>s_resync_id := i, s_sync_id := j, s_update_id := 0, s_recv_ok := False, s_last_extend_ok := 0\<rparr>"
  from drop_data_ok [OF ok, where s' = ?s and i = i and j = j and k = 0 and b = False and l = 0, OF refl] obtain h s1 where s1: "drop_data ?s = Some s1" "send_ok s1 {} {}" "elem_ids h = []" "keeps (?s\<lparr>s_unacked := h\<rparr>) s1"
    "s_unsent s1 = []" "s_sent s1 = []" by blast
  note f = rest_fields [of s1 "?s\<lparr>s_unacked := h\<rparr>"]
  have r1: "rest s1 = rest (?s\<lparr>s_unacked := h\<rparr>)" using s1(4) by (simp add: keeps_def)
  have f1: "s_cache s1 = s_cache s" "s_sync_id s1 = j" "s_update_id s1 = 0" "in_unacked s1 = {}" using f [OF r1] s1(3) by simp_all
  have rs1: "s_resync_id s1 = i" using arg_cong [OF r1, of s_resync_id] by (simp add: rest_def)
  let ?s2 = "s1\<lparr>s_inflight := 0, s_ok_expiry := 0, s_blocked := False, s_synced := False, s_start_done := False,
             s_start_sent := False, s_sync_done := False, s_sync_sent := False\<rparr>"
  have ok2: "send_ok ?s2 {} {}" by (rule send_ok_cong [OF s1(2)]) (use send_okD(10,11) [OF s1(2)] s1(6) in simp_all)
  obtain P where P: "s_oldest s1 = filter P (s_oldest s)" "\<forall>a \<in> in_cache s. P a" using s1(4) unfolding keeps_def by auto
  have same: "copy ?s2 a = copy s a \<and> dl ?s2 a = dl s a \<and> pending ?s2 a = pending s a" if a: "s_mem s1 a = Some d" for a d
  proof -
    have "a \<in> in_cache s" using send_okD(7) [OF s1(2) a] f1 by (auto simp: node_ok_def refs_def)
    then have "map_option core (s_mem ?s2 a) = map_option core (s_mem s a)" using s1(4) by (simp add: keeps_def)
    then show ?thesis by (rule core_sel)
  qed
  have "ready ?s2 t A"
  proof (rule ready_cong [OF rd, of _ P])
    show "s_oldest ?s2 = filter P (s_oldest s)" using P(1) by simp
    fix a assume "a \<in> set (s_oldest s)" "P a"
    then have "a \<in> set (s_oldest s1)" using P(1) by simp
    then show "dl ?s2 a = dl s a" using send_okD(13) [OF s1(2)] same by blast
  next
    fix a assume p: "pending ?s2 a \<noteq> None"
    then obtain d where d: "s_mem s1 a = Some d" by (cases "s_mem s1 a") (auto simp: pending_def)
    then have "a \<in> in_cache s" using send_okD(7) [OF s1(2) d] f1 by (auto simp: node_ok_def refs_def)
    then show "pending s a \<noteq> None \<and> P a" using same [OF d] p P(2) by simp
  qed simp
  moreover have "logged ?s2 (log_map ?s2) [] K" using logged_fresh [of ?s2] f1(4) by (simp add: log_map_def)
  moreover have "stages ?s2 [] K" using f1 j by (simp add: stages_def)
  ultimately have "sender_inv ?s2 [] K A t" using ok2 by (simp add: sender_inv_def core_inv_def)
  moreover have "kvpsync_send_resync i s = Some ?s2" using s1(1) by (simp add: kvpsync_send_resync_def j_def)
  ultimately show ?thesis using f1 j rs1 by (intro exI [of _ ?s2]) simp
qed

lemma del_unacked_ok:
  assumes ok: "send_ok s {} {}" and a: "waiting s i = Some a" and h: "hm_ok h" "\<And>j. hm_map h (Uint j) = (if j = i then None else waiting s j)" "set (elem_ids h) = in_unacked s - {a}"
  shows "send_ok (s\<lparr>s_unacked := h\<rparr>) {a} {a}"
proof -
  let ?s = "s\<lparr>s_unacked := h\<rparr>"
  have au: "a \<in> in_unacked s" using held [OF send_okD(2) [OF ok] a] .
  have n: "cache_node ?s b e = cache_node s b e" "refs ?s {a} b = refs s {} b" for b e using h(3) au by (auto simp: cache_node_def refs_def)
  have "\<exists>e. s_mem s b = Some e \<and> wait_node ?s b e" if b: "b \<in> in_unacked s - {a}" for b
  proof -
    obtain e where e: "s_mem s b = Some e" "wait_node s b e" using send_okD(4) [OF ok, of b] b by blast
    then have "update_id (sd_update e) \<noteq> i" using a b by (auto simp: wait_node_def)
    then show ?thesis using e h(2) by (auto simp: wait_node_def)
  qed
  moreover have "node_ok ?s {a} b e" if "s_mem s b = Some e" for b e using send_okD(7) [OF ok that] n(2) by (simp add: node_ok_def)
  moreover have "set (s_unsent s @ s_sent s) = in_unacked ?s \<union> {a}" using send_okD(6) [OF ok] h(3) au by auto
  moreover have "s_mem s a \<noteq> None" using send_okD(4) [OF ok au] by auto
  moreover have "\<forall>b \<in> in_cache s. \<exists>d. s_mem s b = Some d \<and> cache_node ?s b d" using send_okD(3) [OF ok] n(1) by blast
  ultimately show ?thesis using send_okD(1,5,10-) [OF ok] h(1,3) unfolding send_ok_def by simp
qed

lemma send_ok_oldest:
  assumes ok: "send_ok s X Y" and o: "distinct os" "set os \<subseteq> dom (s_mem s)"
  shows "send_ok (s\<lparr>s_oldest := os, s_calls := cs\<rparr>) X Y"
proof -
  let ?s = "s\<lparr>s_oldest := os, s_calls := cs\<rparr>"
  have n: "cache_node ?s b e = cache_node s b e" "wait_node ?s b e = wait_node s b e" "node_ok ?s X b e = node_ok s X b e" for b e
    by (simp_all add: cache_node_def wait_node_def node_ok_def refs_def)
  show ?thesis using send_ok_parts(1-11) [OF ok] o unfolding send_ok_def n by simp
qed

text \<open>After the structure left its list: the callback, and the reference of \<open>unacked\<close>.\<close>

definition ack_finish :: "nat \<Rightarrow> send_data \<Rightarrow> kvpsync_send \<Rightarrow> kvpsync_send option" where
  "ack_finish a d s = do {
     s \<leftarrow> (case sd_cb d of
             None \<Rightarrow> Some s
           | Some c \<Rightarrow> upd a (\<lambda>d. d\<lparr>sd_cb := None\<rparr>) (s\<lparr>s_oldest := remove1 a (s_oldest s), s_calls := s_calls s @ [Add_key_cb c]\<rparr>));
     data_downref a s }"

lemma ack_finish_ok:
  assumes ok: "send_ok s {a} {}" and a: "a \<notin> in_unacked s" "s_mem s a = Some d"
  shows "\<exists>s' cs. ack_finish a d s = Some s' \<and> send_ok s' {} {} \<and>
    s' = s\<lparr>s_mem := (s_mem s)(a := (if a \<in> in_cache s then Some (d\<lparr>sd_cb := None, sd_nrefs := 1\<rparr>) else None)), s_calls := cs,
      s_oldest := filter (\<lambda>b. b \<noteq> a \<or> (sd_cb d = None \<and> a \<in> in_cache s)) (s_oldest s)\<rparr>"
proof -
  have dist: "distinct (s_oldest s)" using send_okD(12) [OF ok] .
  then have rm: "remove1 a (s_oldest s) = filter (\<lambda>b. b \<noteq> a) (s_oldest s)"
    by (simp add: distinct_remove1_removeAll removeAll_filter_not_eq) (rule filter_cong, auto)
  show ?thesis
  proof (cases "sd_cb d")
    case None
    have d: "d\<lparr>sd_cb := None\<rparr> = d" using None by simp
    let ?s = "s\<lparr>s_mem := (s_mem s)(a := (if a \<in> in_cache s then Some (d\<lparr>sd_nrefs := 1\<rparr>) else None)),
           s_oldest := (if a \<in> in_cache s then s_oldest s else remove1 a (s_oldest s))\<rparr>"
    have "data_downref a s = Some ?s" and ok': "send_ok ?s {} {}" using data_downref_ok [OF ok _ _ a] by auto
    then have fin: "ack_finish a d s = Some ?s" using None by (simp add: ack_finish_def)
    have eq: "?s = s\<lparr>s_mem := (s_mem s)(a := (if a \<in> in_cache s then Some (d\<lparr>sd_cb := None, sd_nrefs := 1\<rparr>) else None)), s_calls := s_calls s,
      s_oldest := filter (\<lambda>b. b \<noteq> a \<or> (sd_cb d = None \<and> a \<in> in_cache s)) (s_oldest s)\<rparr>"
    proof -
      have "filter (\<lambda>b. b \<noteq> a \<or> (sd_cb d = None \<and> a \<in> in_cache s)) (s_oldest s) = (if a \<in> in_cache s then s_oldest s else remove1 a (s_oldest s))"
        unfolding rm using None by simp
      then show ?thesis unfolding d by simp
    qed
    show ?thesis by (rule exI [of _ ?s], rule exI [of _ "s_calls s"], intro conjI fin ok' eq)
  next
    case (Some c)
    let ?d = "d\<lparr>sd_cb := None\<rparr>"
    let ?s = "s\<lparr>s_mem := (s_mem s)(a \<mapsto> ?d), s_oldest := remove1 a (s_oldest s), s_calls := s_calls s @ [Add_key_cb c]\<rparr>"
    have "send_ok (s\<lparr>s_mem := (s_mem s)(a \<mapsto> ?d)\<rparr>) {a} {}" (is "send_ok ?r _ _")
      by (rule send_ok_mem [OF ok a(2)]) (use send_okD(3) [OF ok, of a] a(2) in \<open>auto simp: cache_node_def insert_like_def\<close>)
    then have oks: "send_ok ?s {a} {}" using dist send_ok_oldest [of ?r "{a}" "{}" "remove1 a (s_oldest s)" "s_calls s @ [Add_key_cb c]"] send_okD(13) [OF ok]
      by (auto dest: in_set_remove1)
    let ?t = "?s\<lparr>s_mem := (s_mem ?s)(a := (if a \<in> in_cache ?s then Some (?d\<lparr>sd_nrefs := 1\<rparr>) else None)),
        s_oldest := (if a \<in> in_cache ?s then s_oldest ?s else remove1 a (s_oldest ?s))\<rparr>"
    from data_downref_ok [OF oks, of a ?d] a(1) have t: "data_downref a ?s = Some ?t" and ok': "send_ok ?t {} {}" by auto
    have "upd a (\<lambda>d. d\<lparr>sd_cb := None\<rparr>) (s\<lparr>s_oldest := remove1 a (s_oldest s), s_calls := s_calls s @ [Add_key_cb c]\<rparr>) = Some ?s" using a(2) by (simp add: upd_def)
    then have fin: "ack_finish a d s = Some ?t" using Some t by (simp add: ack_finish_def)
    have "filter (\<lambda>b. b \<noteq> a \<or> (sd_cb d = None \<and> a \<in> in_cache s)) (s_oldest s) = remove1 a (s_oldest s)" unfolding rm using Some by simp
    moreover have "remove1 a (remove1 a (s_oldest s)) = remove1 a (s_oldest s)" using dist by (simp add: remove1_idem)
    ultimately have eq: "?t = s\<lparr>s_mem := (s_mem s)(a := (if a \<in> in_cache s then Some (d\<lparr>sd_cb := None, sd_nrefs := 1\<rparr>) else None)), s_calls := s_calls s @ [Add_key_cb c],
      s_oldest := filter (\<lambda>b. b \<noteq> a \<or> (sd_cb d = None \<and> a \<in> in_cache s)) (s_oldest s)\<rparr>" by simp
    show ?thesis by (rule exI [of _ ?t], rule exI [of _ "s_calls s @ [Add_key_cb c]"], intro conjI fin ok' eq)
  qed
qed

lemma take_ack_ok:
  assumes I: "sender_inv s F K A t" and w: "waiting s i = Some a" and h: "hashmap_delu (s_unacked s) i = Some (Some a, h)"
  shows "\<exists>s'. handle_ack s \<lparr>ack_sync_id = s_sync_id s, ack_update_id = i\<rparr> now = Some s' \<and> sender_inv s' F (insert \<lparr>ack_sync_id = s_sync_id s, ack_update_id = i\<rparr> K) A t \<and>
    s_cache s' = s_cache s \<and> s_sync_id s' = s_sync_id s \<and> s_resync_id s' = s_resync_id s"
proof -
  let ?s = "s\<lparr>s_last_recv := now\<rparr>" and ?ack = "\<lparr>ack_sync_id = s_sync_id s, ack_update_id = i\<rparr>"
  note I' = sender_inv_recv [OF I, of now]
  note ok = sender_invD(3) [OF I'] and st = sender_invD(2) [OF I]
  from uint_table.del_law [OF send_okD(2) [OF ok], of i] w h have h': "hm_ok h" "\<And>j. hm_map h (Uint j) = (if j = i then None else waiting s j)" "set (elem_ids h) = in_unacked s - {a}"
    by (auto simp: fun_eq_iff)
  have i0: "i \<noteq> 0" using waiting_mem [OF sender_invD(3) [OF I] w] by (auto simp: wait_node_def)
  let ?s1 = "?s\<lparr>s_unacked := h\<rparr>"
  have ok1: "send_ok ?s1 {a} {a}" using del_unacked_ok [OF ok _ h'(1), of i a] w h'(2,3) by simp
  obtain d where m: "s_mem s a = Some d" using waiting_mem [OF sender_invD(3) [OF I] w] by blast
  from data_remove_ok [OF ok1, of a d] m h'(3) obtain s2 where s2: "data_remove a ?s1 = Some s2" "send_ok s2 {a} {}" "same_log ?s1 s2" "s_mem s2 a = Some (d\<lparr>sd_inflight := False\<rparr>)"
    "s_ok_expiry s2 = s_ok_expiry s" using data_remove_frame by fastforce
  let ?d = "d\<lparr>sd_inflight := False\<rparr>"
  let ?s3 = "if s_sent s2 = [] \<and> s_unsent s2 = [] then s2\<lparr>s_blocked := False\<rparr> else s2"
  define s4 where "s4 = successful_packet ?d ?s3"
  have f4: "s_cache s4 = s_cache s2" "s_unacked s4 = s_unacked s2" "s_mem s4 = s_mem s2" "s_sync_id s4 = s_sync_id s2" "s_update_id s4 = s_update_id s2" "s_unsent s4 = s_unsent s2"
    "s_sent s4 = s_sent s2" "s_brk s4 = s_brk s2" "s_inflight s4 = s_inflight s2" "s_inflight_limit s2 \<le> s_inflight_limit s4" "s_oldest s4 = s_oldest s2" "s_ok_expiry s4 = s_ok_expiry s2"
    "flags s4 = (let (r, b, fs) = flags s2 in (r, b \<and> \<not> (s_sent s2 = [] \<and> s_unsent s2 = []), fs))"
    by (simp_all add: s4_def successful_packet_def INCREASE_PKTS_def)
  have ok4: "send_ok s4 {a} {}" by (rule send_ok_cong [OF s2(2) f4(1-9) _ f4(11)]) (use send_okD(11) [OF s2(2)] f4(10) in simp)
  have u2: "in_unacked s2 = in_unacked s - {a}" "s_cache s2 = s_cache s" "s_unacked s2 = h" using s2(3) h'(3) by (simp_all add: same_log_def)
  from ack_finish_ok [OF ok4, of ?d] s2(4) f4(2,3) u2 obtain s' cs where s': "ack_finish a ?d s4 = Some s'" "send_ok s' {} {}"
    "s' = s4\<lparr>s_mem := (s_mem s4)(a := (if a \<in> in_cache s4 then Some (?d\<lparr>sd_cb := None, sd_nrefs := 1\<rparr>) else None)), s_calls := cs,
      s_oldest := filter (\<lambda>b. b \<noteq> a \<or> (sd_cb ?d = None \<and> a \<in> in_cache s4)) (s_oldest s4)\<rparr>" by auto
  have ev: "handle_ack s ?ack now = Some s'"
    using s2(1,4) h s'(1) i0 unfolding s4_def by (cases "s_sent s2 = [] \<and> s_unsent s2 = []") (auto simp: handle_ack_def Let_def ack_finish_def)
  have f': "s_mem s' = (s_mem s2)(a := (if a \<in> in_cache s then Some (?d\<lparr>sd_cb := None, sd_nrefs := 1\<rparr>) else None))" "s_cache s' = s_cache s" "s_unacked s' = h" "s_sync_id s' = s_sync_id s" "s_update_id s' = s_update_id s"
    "s_oldest s' = filter (\<lambda>b. b \<noteq> a \<or> (sd_cb d = None \<and> a \<in> in_cache s)) (s_oldest s)" "s_ok_expiry s' = s_ok_expiry s" "flags s' = flags s4"
    "s_unsent s' = s_unsent s2" "s_sent s' = s_sent s2"
    unfolding s'(3) using f4 u2 s2(3,5) by (simp_all add: same_log_def)
  have "content ?s1 = content s" "pending ?s1 = pending s" by (simp_all add: content_def pending_def fun_eq_iff)
  then have cont: "content s2 = content s" "pending s2 = pending s" using s2(3) by (simp_all add: same_log_def)
  have c2: "copy s2 b = copy s b" "dl s2 b = dl s b" for b using copy_content [of s2 b s] cont by (simp_all add: dl_def)
  have ca: "copy s' b = copy s b" "dl s' b = dl s b" if "b \<noteq> a \<or> a \<in> in_cache s" for b
    using that c2 [of b] s2(4) by (auto simp: f'(1) copy_def dl_def content_def)
  have ranM: "ran (log_map s) \<subseteq> in_cache s" using held [OF send_okD(1) [OF ok]] by (auto simp: log_map_def ran_def)
  have lm: "log_map s' = log_map s" using f'(2,8) f4(13) s2(3) by (simp add: log_map_def same_log_def Let_def split: prod.splits)
  have lg: "logged s' (log_map s') F (insert ?ack K)" unfolding lm
  proof (rule logged_ack [OF sender_invD(4) [OF I] f'(4,5)])
    show "waiting s' j = (if j = i then None else waiting s j)" for j unfolding f'(3) by (rule h'(2))
    show "in_unacked s' \<subseteq> in_unacked s" unfolding f'(3) h'(3) by blast
    show "copy s' b = copy s b" if "b \<in> in_unacked s' \<union> ran (log_map s)" for b
      using that ranM unfolding f'(3) h'(3) by (intro ca(1)) auto
  qed
  moreover have "ready s' t A"
  proof (rule ready_cong [OF sender_invD(5) [OF I] f'(6)])
    fix b assume "b \<noteq> a \<or> (sd_cb d = None \<and> a \<in> in_cache s)"
    then show "dl s' b = dl s b" using ca(2) by blast
  next
    fix b assume p: "pending s' b \<noteq> None"
    then have "b \<noteq> a" by (auto simp: pending_def f'(1) split: if_splits)
    moreover have "pending s' b = pending s2 b" using calculation by (simp add: pending_def f'(1))
    ultimately show "pending s b \<noteq> None \<and> (b \<noteq> a \<or> (sd_cb d = None \<and> a \<in> in_cache s))" using p cont by simp
  qed (use readyD(5) [OF sender_invD(5) [OF I]] f'(7) in simp)
  moreover have "stages s' F (insert ?ack K)"
  proof -
    have acked: "ack_of p \<in> insert ?ack K" if "s_sent s' = []" "s_unsent s' = []" "p \<in> set F" for p
    proof -
      have "in_unacked s' = {}" using send_okD(6) [OF s'(2)] that by simp
      then have "waiting s' (update_id p) = None" using held [OF send_okD(2) [OF s'(2)]] by (metis empty_iff option.exhaust)
      then show ?thesis using loggedD(5) [OF lg that(3)] by blast
    qed
    have fl: "s_resync_id s' = s_resync_id s" "s_start_sent s' = s_start_sent s" "s_start_done s' = s_start_done s" "s_sync_sent s' = s_sync_sent s" "s_sync_done s' = s_sync_done s" "s_synced s' = s_synced s"
      "s_blocked s' \<longleftrightarrow> s_blocked s \<and> \<not> (s_sent s' = [] \<and> s_unsent s' = [])"
      using f'(8-10) f4(13) s2(3) by (simp_all add: same_log_def Let_def split: prod.splits)
    have "in_unacked s' \<subseteq> in_unacked s" using f'(3) h'(3) by auto
    then show ?thesis using st acked unfolding stages_def fl f'(2,4) by blast
  qed
  ultimately show ?thesis using ev s'(2) f'(2,4,8) f4(13) s2(3)
    by (intro exI [of _ s']) (simp add: sender_inv_def core_inv_def same_log_def Let_def split: prod.splits)
qed

lemma handle_ack_ok:
  assumes I: "sender_inv s F K A t"
  shows "\<exists>s' F'. kvpsync_send_handle_ack s ack now = Some s' \<and> sender_inv s' F' (insert ack K) A t \<and> s_cache s' = s_cache s \<and>
    (if ack_update_id ack = 0 \<and> ack_sync_id ack \<noteq> s_resync_id s then s_resync_id s' = ack_sync_id ack \<and> s_sync_id s' \<noteq> s_sync_id s \<and> F' = []
     else s_resync_id s' = s_resync_id s \<and> s_sync_id s' = s_sync_id s \<and> F' = F)"
proof -
  let ?s = "s\<lparr>s_last_recv := now\<rparr>"
  note I' = sender_inv_K [OF sender_inv_recv [OF I, of now], of "insert ack K"]
  obtain i j where ack: "ack = \<lparr>ack_sync_id = i, ack_update_id = j\<rparr>" by (cases ack)
  have "\<exists>s' F'. handle_ack s ack now = Some s' \<and> sender_inv s' F' (insert ack K) A t \<and> s_cache s' = s_cache s \<and>
    (if j = 0 \<and> i \<noteq> s_resync_id s then s_resync_id s' = i \<and> s_sync_id s' \<noteq> s_sync_id s \<and> F' = []
     else s_resync_id s' = s_resync_id s \<and> s_sync_id s' = s_sync_id s \<and> F' = F)"
  proof -
    consider (resync) "j = 0" "i \<noteq> s_resync_id s" | (take) a where "j \<noteq> 0" "i = s_sync_id s" "waiting s j = Some a"
      | (skip) "j = 0 \<and> i = s_resync_id s \<or> j \<noteq> 0 \<and> (i \<noteq> s_sync_id s \<or> waiting s j = None)" by (cases "waiting s j") auto
    then show ?thesis
    proof cases
      case resync
      from resync_ok [OF I', of i] obtain s' where "kvpsync_send_resync i ?s = Some s'" "sender_inv s' [] (insert ack K) A t" "s_cache s' = s_cache s" "s_resync_id s' = i" "s_sync_id s' \<noteq> s_sync_id s" by auto
      then show ?thesis using resync ack by (intro exI [of _ s'] exI [of _ "[]"]) (simp add: handle_ack_def Let_def)
    next
      case take
      from uint_table.del_law [OF send_okD(2) [OF sender_invD(3) [OF I]], of j] take(3) obtain h where "hashmap_delu (s_unacked s) j = Some (Some a, h)" by auto
      from take_ack_ok [OF I take(3) this] show ?thesis using take(1,2) ack by auto
    next
      case skip
      from uint_table.del_law [OF send_okD(2) [OF sender_invD(3) [OF I]], of j] obtain h where "hashmap_delu (s_unacked s) j = Some (waiting s j, h)" by auto
      then have "handle_ack s ack now = Some ?s" using skip ack by (auto simp: handle_ack_def Let_def)
      then show ?thesis using I' skip by (intro exI [of _ ?s] exI [of _ F]) auto
    qed
  qed
  then obtain s' F' where s': "handle_ack s ack now = Some s'" "sender_inv s' F' (insert ack K) A t" "s_cache s' = s_cache s"
    "if j = 0 \<and> i \<noteq> s_resync_id s then s_resync_id s' = i \<and> s_sync_id s' \<noteq> s_sync_id s \<and> F' = []
     else s_resync_id s' = s_resync_id s \<and> s_sync_id s' = s_sync_id s \<and> F' = F" by blast
  then show ?thesis using maybe_state_cb_inv [OF s'(2)] ack
    by (intro exI [of _ "maybe_state_cb s'"] exI [of _ F']) (simp add: kvpsync_send_handle_ack_def)
qed

section \<open>Keys\<close>

text \<open>
  Taking the structure \<open>b\<close> of the key \<open>k\<close> out of the cache: its deletion is queued if its insertion was,
  and the reference of the cache is dropped.
\<close>

lemma recache_ok:
  assumes ok: "send_ok s X {}" and h: "hm_ok h" "\<And>j. hm_map h (Str j) = (if j = k then new else cached s j)" "set (elem_ids h) = set_option new \<union> (in_cache s - set_option (cached s k))"
    and X: "set_option new \<subseteq> X" "X \<inter> in_cache s = {}"
    and new: "\<And>a. new = Some a \<Longrightarrow> \<exists>d. s_mem s a = Some d \<and> sd_key d = k \<and> insert_like d"
  shows "send_ok (s\<lparr>s_cache := h\<rparr>) (set_option (cached s k) \<union> (X - set_option new)) {}"
proof -
  let ?s = "s\<lparr>s_cache := h\<rparr>" and ?O = "set_option (cached s k)" and ?N = "set_option new"
  have O: "?O \<subseteq> in_cache s" using held [OF send_okD(1) [OF ok], of "Str k"] by auto
  have w: "wait_node ?s c e = wait_node s c e" for c e by (simp add: wait_node_def)
  have r: "refs ?s (?O \<union> (X - ?N)) c = refs s X c" for c using h(3) X O by (auto simp: refs_def)
  have "\<exists>d. s_mem s c = Some d \<and> cache_node ?s c d" if c: "c \<in> ?N \<union> (in_cache s - ?O)" for c
  proof (cases "c \<in> ?N")
    case True
    then show ?thesis using new h(2) by (auto simp: cache_node_def)
  next
    case False
    then obtain d where d: "s_mem s c = Some d" "cached s (sd_key d) = Some c" "insert_like d" using send_okD(3) [OF ok, of c] c by (auto simp: cache_node_def)
    then have "sd_key d \<noteq> k" using c False by auto
    then show ?thesis using d h(2) by (auto simp: cache_node_def)
  qed
  moreover have "node_ok ?s (?O \<union> (X - ?N)) c e" if "s_mem s c = Some e" for c e using send_okD(7) [OF ok that] r by (simp add: node_ok_def)
  moreover have "\<forall>c \<in> ?O \<union> (X - ?N). s_mem s c \<noteq> None" using send_okD(3) [OF ok] send_okD(8) [OF ok] O by fastforce
  ultimately show ?thesis using send_ok_parts(2,4-6,10-) [OF ok] h(1,3) unfolding send_ok_def w by simp
qed

lemma drop_ref_ok:
  assumes ok: "send_ok s {b} {}" and b: "b \<notin> in_cache s" "s_mem s b = Some d" "b \<notin> ran M" and lg: "logged s M F K" and rd: "ready s t A"
  shows "\<exists>s'. data_downref b s = Some s' \<and> send_ok s' {} {} \<and> logged s' M F K \<and> ready s' t A \<and> flags s' = flags s \<and> s_cache s' = s_cache s \<and> s_unacked s' = s_unacked s \<and>
    s_sync_id s' = s_sync_id s \<and> s_update_id s' = s_update_id s \<and> (\<forall>c. c \<noteq> b \<longrightarrow> s_mem s' c = s_mem s c)"
proof -
  let ?keep = "b \<in> in_cache s \<or> b \<in> in_unacked s"
  let ?s = "s\<lparr>s_mem := (s_mem s)(b := (if ?keep then Some (d\<lparr>sd_nrefs := sd_nrefs d - 1\<rparr>) else None)), s_oldest := (if ?keep then s_oldest s else remove1 b (s_oldest s))\<rparr>"
  have s': "data_downref b s = Some ?s" "send_ok ?s {} {}" using data_downref_gen [OF ok _ _ b(2)] by simp_all
  have c: "copy ?s c = copy s c" "dl ?s c = dl s c" "pending ?s c = pending s c" if "c \<noteq> b \<or> ?keep" for c
    using that b(2) by (auto simp: copy_def dl_def content_def pending_def)
  have "logged ?s M F K"
  proof (rule logged_cong [OF lg])
    show "copy ?s c = copy s c" if "c \<in> in_unacked s \<union> ran M" for c using that b(3) by (intro c(1)) auto
  qed simp_all
  moreover have "ready ?s t A"
  proof (rule ready_cong [OF rd, of _ "\<lambda>c. c \<noteq> b \<or> ?keep"])
    have "remove1 b (s_oldest s) = filter (\<lambda>c. c \<noteq> b) (s_oldest s)" using send_okD(12) [OF ok]
      by (simp add: distinct_remove1_removeAll removeAll_filter_not_eq) (rule filter_cong, auto)
    then show "s_oldest ?s = filter (\<lambda>c. c \<noteq> b \<or> ?keep) (s_oldest s)" by simp
    show "dl ?s c = dl s c" if "c \<noteq> b \<or> ?keep" for c using c(2) [OF that] .
    show "pending s c \<noteq> None \<and> (c \<noteq> b \<or> ?keep)" if p: "pending ?s c \<noteq> None" for c
    proof (cases "c \<noteq> b \<or> ?keep")
      case True
      then show ?thesis using c(3) [OF True] p by argo
    next
      case False
      then show ?thesis using p by (simp add: pending_def)
    qed
  qed (use readyD(5) [OF rd] in simp)
  ultimately show ?thesis using s' by (intro exI [of _ ?s]) simp
qed

lemma copy_into_take: "n = length k \<Longrightarrow> take n (copy_into k arr) = k"
  by (simp add: copy_into_def)

lemma queue_delete_ok:
  assumes ok: "send_ok s {b} {}" and b: "b \<notin> in_cache s" "s_mem s b = Some od" "insert_like od" "sd_key od = k"
    and lg: "logged s M F K" and rd: "ready s t A" and w: "s_update_id s + 1 \<noteq> 0"
    and M: "s_sync_sent s \<Longrightarrow> M k = Some b" "\<And>j. M j = Some b \<Longrightarrow> j = k" "\<not> s_sync_sent s \<Longrightarrow> M = Map.empty"
  shows "\<exists>s' G. queue_delete_and_downref alloc_ok b s = Some s' \<and> send_ok s' {} {} \<and> logged s' (M(k := None)) (F @ G) K \<and> ready s' t A \<and> (\<forall>p \<in> set G. is_data p) \<and>
    (\<not> s_sync_sent s \<longrightarrow> G = [] \<and> s_unacked s' = s_unacked s) \<and> flags s' = flags s \<and> s_cache s' = s_cache s \<and> s_sync_id s' = s_sync_id s \<and>
    s_update_id s' \<in> {s_update_id s, s_update_id s + 1} \<and> (\<forall>a \<in> in_cache s. s_mem s' a = s_mem s a \<and> (a \<in> in_unacked s' \<longrightarrow> a \<in> in_unacked s))"
proof (cases "s_sync_sent s")
  case False
  have "b \<notin> ran M" using M(3) False by simp
  from drop_ref_ok [OF ok b(1,2) this lg rd] obtain s' where s': "data_downref b s = Some s'" "send_ok s' {} {}" "logged s' M F K" "ready s' t A" "flags s' = flags s" "s_cache s' = s_cache s" "s_unacked s' = s_unacked s"
    "s_sync_id s' = s_sync_id s" "s_update_id s' = s_update_id s" "\<forall>c. c \<noteq> b \<longrightarrow> s_mem s' c = s_mem s c" by blast
  have "M(k := None) = M" using M(3) False by auto
  then show ?thesis using s' False b(1,2) by (intro exI [of _ s'] exI [of _ "[]"]) (auto simp: queue_delete_and_downref_def)
next
  case True
  let ?f = "\<lambda>u. u\<lparr>utype := KVP_UPDATE_DELETE, klen := klen (sd_update od), key := copy_into (take (unat (klen (sd_update od))) (key (sd_update od))) (key u), delete_id := update_id (sd_update od)\<rparr>"
  let ?u = "?f zero_update"
  obtain p where p: "p \<in> set F" "copy s b = Some p" using loggedD(6) [OF lg, of b] M(1) [OF True] by (auto simp: ran_def)
  have "sync_id p = sync_id (sd_update od)" "update_id p = update_id (sd_update od)" using p(2) b(2) by (auto simp: copy_def)
  then have sy: "sync_id (sd_update od) = s_sync_id s" "update_id (sd_update od) \<noteq> 0" using loggedD(2) [OF lg p(1)] by simp_all
  from queue_new_ok [OF ok w, of ?f] obtain s1 where s1: "queue_new alloc_ok ?f s = Some s1" "send_ok s1 {b} {}" "queued s (s_brk s) ?u s1" "s_brk s \<notin> in_cache s" "s_brk s \<notin> in_unacked s" by blast
  have bb: "b \<noteq> s_brk s" using b(2) send_ok_fresh(1) [OF ok] by auto
  have q: "s_mem s1 c = s_mem s c" if "c \<noteq> s_brk s" for c using queued_mem [OF s1(3)] that by auto
  note qc = queued_copy [OF s1(3)]
  have "take (unat (klen (sd_update od))) (key (sd_update od)) = k" "unat (klen (sd_update od)) = length k" using b(3,4) unfolding insert_like_def by blast+
  then have uk: "ukey ?u = k" unfolding ukey_def by (simp add: copy_into_take)
  have rM: "s_brk s \<notin> ran M" using loggedD(6) [OF lg, of "s_brk s"] send_ok_fresh(1) [OF ok] by (auto simp: copy_def)
  have "log_move s M (s_brk s) ?u (M(k := None))" using sy(2) M(1) [OF True] uk b(2) by (simp add: log_move_def stamp_def copy_def)
  from logged_queue [OF lg s1(3,5) rM w this] have lg1: "logged s1 (M(k := None)) (F @ [entry s ?u]) K" .
  have bM: "b \<notin> ran (M(k := None))" using M(2) by (auto simp: ran_def split: if_splits)
  have b1: "b \<notin> in_cache s1" "s_mem s1 b = Some od" using b qc(7) q [OF bb] by simp_all
  from drop_ref_ok [OF s1(2) b1 bM lg1 ready_queue [OF rd s1(3) ok]] obtain s' where s': "data_downref b s1 = Some s'" "send_ok s' {} {}" "logged s' (M(k := None)) (F @ [entry s ?u]) K" "ready s' t A"
    "flags s' = flags s1" "s_cache s' = s_cache s1" "s_unacked s' = s_unacked s1" "s_sync_id s' = s_sync_id s1" "s_update_id s' = s_update_id s1" "\<forall>c. c \<noteq> b \<longrightarrow> s_mem s' c = s_mem s1 c" by blast
  have "queue_delete_and_downref alloc_ok b s = Some s'" using s1(1) s'(1) b(2) True sy(1) by (simp add: queue_delete_and_downref_def queue_new_def)
  moreover have "s_mem s' a = s_mem s a \<and> (a \<in> in_unacked s' \<longrightarrow> a \<in> in_unacked s)" if a: "a \<in> in_cache s" for a
  proof -
    have "a \<noteq> s_brk s" "a \<noteq> b" using a s1(4) b(1) by auto
    then show ?thesis using s'(7,10) qc(5) q by simp
  qed
  moreover have "is_data (entry s ?u)" by (simp add: is_data_def)
  ultimately show ?thesis using s'(2-9) qc True by (intro exI [of _ s'] exI [of _ "[entry s ?u]"]) simp
qed

text \<open>Data is queued only after \<open>sync_sent\<close>.\<close>

lemma stages_data:
  assumes st: "stages s F K" and G: "\<forall>p \<in> set G. is_data p" and f: "flags s' = flags s" "s_sync_id s' = s_sync_id s"
    and n: "\<not> s_sync_sent s \<Longrightarrow> G = [] \<and> in_cache s' \<inter> in_unacked s' = {}"
  shows "stages s' (F @ G) K"
proof -
  have fl: "s_resync_id s' = s_resync_id s" "s_blocked s' = s_blocked s" "s_start_sent s' = s_start_sent s" "s_start_done s' = s_start_done s"
    "s_sync_sent s' = s_sync_sent s" "s_sync_done s' = s_sync_done s" "s_synced s' = s_synced s" using f(1) by simp_all
  have ns: "utype p \<noteq> KVP_UPDATE_START" if "p \<in> set G" for p using G that by (auto simp: is_data_def)
  show ?thesis
  proof (cases "s_sync_sent s")
    case True
    then have "s_start_done s" "s_start_sent s" using stagesD(3,4) [OF st] by blast+
    then show ?thesis using True stages_parts(1,2,7-9) [OF st] ns unfolding stages_def fl f(2) by (auto simp: ball_Un bex_Un)
  next
    case False
    then show ?thesis using n [OF False] st unfolding stages_def fl f(2) by simp
  qed
qed

lemma log_map_at:
  assumes "send_ok s X Y" "cached s k = Some b"
  shows "s_sync_sent s \<Longrightarrow> log_map s k = Some b" "log_map s j = Some b \<Longrightarrow> j = k" "\<not> s_sync_sent s \<Longrightarrow> log_map s = Map.empty"
proof -
  show "s_sync_sent s \<Longrightarrow> log_map s k = Some b" "\<not> s_sync_sent s \<Longrightarrow> log_map s = Map.empty" using assms(2) by (simp_all add: log_map_def)
  assume "log_map s j = Some b"
  then have "cached s j = Some b" by (simp add: log_map_def split: if_splits)
  from hm_map_inj [OF send_okD(1) [OF assms(1)] this assms(2)] show "j = k" by simp
qed

lemma delete_key_ok:
  assumes I: "sender_inv s F K A t" and r: "room s"
  shows "\<exists>s' G. kvpsync_send_delete_key alloc_ok s k = Some s' \<and> sender_inv s' (F @ G) K A t \<and> cached s' = (cached s)(k := None) \<and>
    s_sync_id s' = s_sync_id s \<and> s_resync_id s' = s_resync_id s"
proof -
  note ok = sender_invD(3) [OF I] and st = sender_invD(2) [OF I] and lg = sender_invD(4) [OF I] and rd = sender_invD(5) [OF I]
  from str_table.del_law [OF send_okD(1) [OF ok], of k] obtain h where h: "hashmap_dels (s_cache s) k = Some (cached s k, h)" "hm_ok h"
    "(\<lambda>j. hm_map h (Str j)) = (cached s)(k := None)" "set (elem_ids h) = in_cache s - set_option (cached s k)" by auto
  show ?thesis
  proof (cases "cached s k")
    case None
    then have "kvpsync_send_delete_key alloc_ok s k = Some s" using h(1) by (simp add: kvpsync_send_delete_key_def)
    moreover have "cached s = (cached s)(k := None)" using None by auto
    ultimately show ?thesis using I by (intro exI [of _ s] exI [of _ "[]"]) simp
  next
    case (Some a)
    from cached_mem [OF ok Some] obtain d where d: "s_mem s a = Some d" "sd_key d = k" "insert_like d" by blast
    have a: "a \<in> in_cache s" using held [OF send_okD(1) [OF ok] Some] .
    let ?s1 = "s\<lparr>s_cache := h\<rparr>"
    have ok1: "send_ok ?s1 {a} {}"
      using recache_ok [OF ok h(2), of k None] h(3,4) Some by (simp add: fun_eq_iff)
    let ?d = "d\<lparr>sd_cb := None\<rparr>"
    let ?s2 = "?s1\<lparr>s_mem := (s_mem ?s1)(a \<mapsto> ?d)\<rparr>"
    have a1: "a \<notin> in_cache ?s1" using h(4) Some by simp
    have ok2: "send_ok ?s2 {a} {}" by (rule send_ok_mem [OF ok1, of a d]) (use d(1) a1 in simp_all)
    have cp: "copy ?s2 = copy s" "dl ?s2 = dl s" using d(1) by (simp_all add: copy_def dl_def content_def fun_eq_iff)
    have lg2: "logged ?s2 (log_map s) F K" by (rule logged_cong [OF lg _ _ _ fun_cong [OF cp(1)]]) simp_all
    have rd2: "ready ?s2 t A"
    proof (rule ready_cong [OF rd, of _ "\<lambda>_. True"])
      show "dl ?s2 b = dl s b" for b by (rule fun_cong [OF cp(2)])
      show "pending s b \<noteq> None \<and> True" if "pending ?s2 b \<noteq> None" for b using that d(1) by (cases "b = a") (simp_all add: pending_def)
    qed (use readyD(5) [OF rd] in simp_all)
    have "insert_like ?d = insert_like d" by (simp add: insert_like_def)
    then have il: "insert_like ?d" "sd_key ?d = k" using d(2,3) by simp_all
    have w: "s_update_id ?s2 + 1 \<noteq> 0" using succ_room [of "s_update_id s" 4] r by (simp add: room_def)
    have ss: "s_sync_sent ?s2 = s_sync_sent s" by simp
    have M: "s_sync_sent ?s2 \<Longrightarrow> log_map s k = Some a" "\<And>j. log_map s j = Some a \<Longrightarrow> j = k" "\<not> s_sync_sent ?s2 \<Longrightarrow> log_map s = Map.empty"
      using log_map_at [OF ok Some] unfolding ss by blast+
    have "a \<notin> in_cache ?s2" "s_mem ?s2 a = Some ?d" using a1 by simp_all
    from queue_delete_ok [OF ok2 this il lg2 rd2 w M] obtain s' G where s': "queue_delete_and_downref alloc_ok a ?s2 = Some s'" "send_ok s' {} {}" "logged s' ((log_map s)(k := None)) (F @ G) K" "ready s' t A"
      "\<forall>p \<in> set G. is_data p" "\<not> s_sync_sent s \<longrightarrow> G = [] \<and> s_unacked s' = s_unacked s" "flags s' = flags s" "s_cache s' = h" "s_sync_id s' = s_sync_id s" by auto
    have ca: "cached s' = (cached s)(k := None)" using h(3) s'(8) by simp
    then have "log_map s' = (log_map s)(k := None)" using s'(7) by (auto simp: log_map_def)
    moreover have "stages s' (F @ G) K"
    proof -
      have "in_cache s' \<subseteq> in_cache s" using s'(8) h(4) by auto
      moreover have "\<not> s_sync_sent s \<Longrightarrow> in_cache s \<inter> in_unacked s = {}" using stagesD(5) [OF st] .
      ultimately show ?thesis by (intro stages_data [OF st s'(5,7,9)]) (use s'(6) in auto)
    qed
    moreover have "kvpsync_send_delete_key alloc_ok s k = Some s'" using h(1) Some d(1) s'(1) by (simp add: kvpsync_send_delete_key_def upd_def)
    ultimately show ?thesis using s'(2-4,7,9) ca by (intro exI [of _ s'] exI [of _ G]) (simp add: sender_inv_def core_inv_def)
  qed
qed

text \<open>The new structure of \<open>kvpsync_send_add_key\<close>, before it is in the cache.\<close>

definition new_insert :: "xtime \<Rightarrow> byte list \<Rightarrow> byte list \<Rightarrow> nat option \<Rightarrow> send_data" where
  "new_insert now k v cb = blank\<lparr>sd_update := zero_update\<lparr>utype := KVP_UPDATE_INSERT, klen := of_nat (length k),
     key := copy_into k (key zero_update), vlen := of_nat (length v), val := copy_into v (val zero_update)\<rparr>, sd_cb := cb, sd_deadline := now + MIN_RESPONSE, sd_key := k\<rparr>"

lemma new_insert_like: "length k \<le> KVPSYNC_MAX_LEN \<Longrightarrow> insert_like (new_insert now k v cb)"
  by (simp add: insert_like_def new_insert_def copy_into_take KVPSYNC_MAX_LEN_def unat_of_nat)

lemma new_insert_val: "length v \<le> KVPSYNC_MAX_LEN \<Longrightarrow> uval (sd_update (new_insert now k v cb)) = v"
  by (simp add: uval_def new_insert_def copy_into_take KVPSYNC_MAX_LEN_def unat_of_nat)

lemma add_fresh_ok:
  fixes k v cb
  assumes I: "sender_inv s F K A t"
  defines "a \<equiv> s_brk s"
  defines "s1 \<equiv> s\<lparr>s_oldest := s_oldest s @ [a], s_brk := s_brk s + 1, s_mem := (s_mem s)(a \<mapsto> new_insert t k v cb)\<rparr>"
  shows "send_ok s1 {a} {}" "logged s1 (log_map s) F K" "ready s1 t A"
proof -
  note ok = sender_invD(3) [OF I] and lg = sender_invD(4) [OF I] and rd = sender_invD(5) [OF I]
  note f = send_ok_fresh [OF ok]
  let ?r = "s\<lparr>s_brk := s_brk s + 1, s_mem := (s_mem s)(a \<mapsto> blank)\<rparr>" and ?d = "new_insert t k v cb"
  have "send_ok ?r {a} {}" using xnew_ok(2) [OF ok] by (simp add: a_def)
  then have "send_ok (?r\<lparr>s_mem := (s_mem ?r)(a \<mapsto> ?d)\<rparr>) {a} {}" using send_ok_mem [of ?r "{a}" "{}" a blank ?d] f(2,3) by (simp add: a_def new_insert_def)
  moreover have "distinct (s_oldest s @ [a])" "set (s_oldest s @ [a]) \<subseteq> dom (s_mem (?r\<lparr>s_mem := (s_mem ?r)(a \<mapsto> ?d)\<rparr>))"
    using send_okD(12,13) [OF ok] f(6) by (auto simp: a_def)
  ultimately have "send_ok ((?r\<lparr>s_mem := (s_mem ?r)(a \<mapsto> ?d)\<rparr>)\<lparr>s_oldest := s_oldest s @ [a], s_calls := s_calls s\<rparr>) {a} {}" by (rule send_ok_oldest)
  moreover have "(?r\<lparr>s_mem := (s_mem ?r)(a \<mapsto> ?d)\<rparr>)\<lparr>s_oldest := s_oldest s @ [a], s_calls := s_calls s\<rparr> = s1" by (simp add: s1_def)
  ultimately show "send_ok s1 {a} {}" by simp
  have m: "s_mem s1 b = s_mem s b" if "b \<noteq> a" for b using that by (simp add: s1_def)
  have c: "copy s1 b = copy s b" "dl s1 b = dl s b" "pending s1 b = pending s b" if "b \<noteq> a" for b
    using m [OF that] by (simp_all add: copy_def dl_def content_def pending_def)
  show "logged s1 (log_map s) F K"
  proof (rule logged_cong [OF lg])
    fix b assume b: "b \<in> in_unacked s \<union> ran (log_map s)"
    have "copy s a = None" using f(1) by (simp add: copy_def a_def)
    then have "b \<noteq> a" using b f(3) loggedD(6) [OF lg, of b] by (auto simp: a_def)
    then show "copy s1 b = copy s b" by (rule c(1))
  qed (simp_all add: s1_def)
  have o: "b \<noteq> a" if "b \<in> set (s_oldest s)" for b using that f(6) by (auto simp: a_def)
  have da: "dl s1 a = t + MIN_RESPONSE" by (simp add: s1_def dl_def content_def new_insert_def)
  have "sorted_wrt (\<lambda>x y. dl s1 x \<le> dl s1 y) (s_oldest s)" using readyD(2) [OF rd] by (rule sorted_wrt_mono_rel [rotated]) (simp add: c(2) o)
  then have "sorted_wrt (\<lambda>x y. dl s1 x \<le> dl s1 y) (s_oldest s @ [a])" using readyD(3) [OF rd] o da by (auto simp: sorted_wrt_append c(2))
  moreover have "b \<in> set (s_oldest s @ [a])" if "pending s1 b \<noteq> None" for b using that c(3) [of b] readyD(4) [OF rd, of b] by (cases "b = a") auto
  moreover have "dl s1 b \<le> t + MIN_RESPONSE" if "b \<in> set (s_oldest s @ [a])" for b using that o readyD(3) [OF rd, of b] c(2) [of b] da by (cases "b = a") auto
  moreover have "ok_expiry u \<le> dl s1 b" if "u \<in> A" "b \<in> set (s_oldest s @ [a])" for u b
    using that o readyD(6,7) [OF rd, of u] c(2) [of b] da by (cases "b = a") auto
  moreover have "s_oldest s1 = s_oldest s @ [a]" "s_ok_expiry s1 = s_ok_expiry s" by (simp_all add: s1_def)
  ultimately show "ready s1 t A" using readyD(1,5,6) [OF rd] unfolding ready_def by metis
qed

lemma add_key_ok:
  assumes I: "sender_inv s F K A t" and r: "room s" and len: "length k \<le> KVPSYNC_MAX_LEN" "length v \<le> KVPSYNC_MAX_LEN"
  shows "\<exists>s' G a d. kvpsync_send_add_key alloc_ok s t k v cb = Some s' \<and> sender_inv s' (F @ G) K A t \<and> cached s' = (cached s)(k \<mapsto> a) \<and>
    s_mem s' a = Some d \<and> uval (sd_update d) = v \<and> s_sync_id s' = s_sync_id s \<and> s_resync_id s' = s_resync_id s"
proof -
  note ok = sender_invD(3) [OF I] and st = sender_invD(2) [OF I]
  define a where "a = s_brk s"
  let ?d = "new_insert t k v cb"
  define s1 where "s1 = s\<lparr>s_oldest := s_oldest s @ [a], s_brk := s_brk s + 1, s_mem := (s_mem s)(a \<mapsto> ?d)\<rparr>"
  have s1: "send_ok s1 {a} {}" "logged s1 (log_map s) F K" "ready s1 t A" using add_fresh_ok [OF I, of k v cb] by (simp_all add: a_def s1_def)
  have f1: "s_cache s1 = s_cache s" "s_unacked s1 = s_unacked s" "s_sync_id s1 = s_sync_id s" "flags s1 = flags s" "s_update_id s1 = s_update_id s" "s_mem s1 a = Some ?d" by (simp_all add: s1_def)
  have af: "a \<notin> in_cache s" "a \<notin> in_unacked s" using send_ok_fresh [OF ok] by (simp_all add: a_def)
  from str_table.put_law [OF send_okD(1) [OF ok] af(1), of alloc_ok k] obtain h where h: "hashmap_sets alloc_ok (s_cache s) k a = Some (cached s k, h)" "hm_ok h"
    "(\<lambda>j. hm_map h (Str j)) = (cached s)(k \<mapsto> a)" "set (elem_ids h) = insert a (in_cache s - set_option (cached s k))" by auto
  define s2 where "s2 = s1\<lparr>s_cache := h\<rparr>"
  have f2: "s_cache s2 = h" "s_unacked s2 = s_unacked s" "s_sync_id s2 = s_sync_id s" "flags s2 = flags s" "s_update_id s2 = s_update_id s" "s_mem s2 = s_mem s1" "s_ok_expiry s2 = s_ok_expiry s1"
    using f1 by (simp_all add: s2_def)
  have "send_ok (s1\<lparr>s_cache := h\<rparr>) (set_option (cached s1 k) \<union> ({a} - set_option (Some a))) {}"
    by (rule recache_ok [OF s1(1) h(2)]) (use h(3,4) f1 af(1) new_insert_like [OF len(1), of t v cb] in \<open>auto simp: fun_eq_iff new_insert_def\<close>)
  then have ok2: "send_ok s2 (set_option (cached s k)) {}" using f1(1) by (simp add: s2_def)
  have lg2: "logged s2 (log_map s) F K" by (rule logged_cong [OF s1(2)]) (simp_all add: s2_def copy_def)
  have rd2: "ready s2 t A"
    using s1(3) unfolding ready_def by (simp add: s2_def dl_def content_def pending_def)
  have w: "s_update_id s + 1 \<noteq> 0 \<and> unat (s_update_id s + 1) = unat (s_update_id s) + 1" using succ_room [of "s_update_id s" 4] r by (simp add: room_def)
  have "\<exists>s3 G. (case cached s k of None \<Rightarrow> Some s2 | Some b \<Rightarrow> queue_delete_and_downref alloc_ok b s2) = Some s3 \<and> send_ok s3 {} {} \<and> logged s3 ((log_map s)(k := None)) (F @ G) K \<and>
    ready s3 t A \<and> (\<forall>p \<in> set G. is_data p) \<and> (\<not> s_sync_sent s \<longrightarrow> G = [] \<and> s_unacked s3 = s_unacked s) \<and> flags s3 = flags s \<and> s_cache s3 = h \<and> s_sync_id s3 = s_sync_id s \<and>
    s_update_id s3 \<in> {s_update_id s, s_update_id s + 1} \<and> s_mem s3 a = Some ?d \<and> a \<notin> in_unacked s3"
  proof (cases "cached s k")
    case None
    then have "(log_map s)(k := None) = log_map s" by (auto simp: log_map_def)
    then show ?thesis using None ok2 lg2 rd2 f2 f1(6) af(2) by (intro exI [of _ s2] exI [of _ "[]"]) simp
  next
    case (Some b)
    from cached_mem [OF ok Some] obtain od where od: "s_mem s b = Some od" "sd_key od = k" "insert_like od" by blast
    have bc: "b \<in> in_cache s" using held [OF send_okD(1) [OF ok] Some] .
    then have ba: "b \<noteq> a" using af(1) by auto
    have b2: "b \<notin> in_cache s2" "s_mem s2 b = Some od" using h(4) Some ba f2(1,6) od(1) by (simp_all add: s1_def)
    have ss: "s_sync_sent s2 = s_sync_sent s" using f2(4) by simp
    have M: "s_sync_sent s2 \<Longrightarrow> log_map s k = Some b" "\<And>j. log_map s j = Some b \<Longrightarrow> j = k" "\<not> s_sync_sent s2 \<Longrightarrow> log_map s = Map.empty"
      unfolding ss using log_map_at [OF ok Some] by blast+
    have ok2': "send_ok s2 {b} {}" using ok2 Some by simp
    have w2: "s_update_id s2 + 1 \<noteq> 0" using w f2(5) by simp
    from queue_delete_ok [OF ok2' b2 od(3,2) lg2 rd2 w2 M] obtain s3 G where s3: "queue_delete_and_downref alloc_ok b s2 = Some s3" "send_ok s3 {} {}" "logged s3 ((log_map s)(k := None)) (F @ G) K" "ready s3 t A"
      "\<forall>p \<in> set G. is_data p" "\<not> s_sync_sent s2 \<longrightarrow> G = [] \<and> s_unacked s3 = s_unacked s2" "flags s3 = flags s2" "s_cache s3 = s_cache s2" "s_sync_id s3 = s_sync_id s2"
      "s_update_id s3 \<in> {s_update_id s2, s_update_id s2 + 1}" "\<forall>a \<in> in_cache s2. s_mem s3 a = s_mem s2 a \<and> (a \<in> in_unacked s3 \<longrightarrow> a \<in> in_unacked s2)" by blast
    have "a \<in> in_cache s2" using h(4) f2(1) by simp
    then have "s_mem s3 a = Some ?d" "a \<notin> in_unacked s3" using s3(11) f2(2,6) f1(6) af(2) by auto
    then show ?thesis using s3 f2 Some by (intro exI [of _ s3] exI [of _ G]) simp
  qed
  then obtain s3 G where s3: "(case cached s k of None \<Rightarrow> Some s2 | Some b \<Rightarrow> queue_delete_and_downref alloc_ok b s2) = Some s3" "send_ok s3 {} {}" "logged s3 ((log_map s)(k := None)) (F @ G) K"
    "ready s3 t A" "\<forall>p \<in> set G. is_data p" "\<not> s_sync_sent s \<longrightarrow> G = [] \<and> s_unacked s3 = s_unacked s" "flags s3 = flags s" "s_cache s3 = h" "s_sync_id s3 = s_sync_id s"
    "s_update_id s3 \<in> {s_update_id s, s_update_id s + 1}" "s_mem s3 a = Some ?d" "a \<notin> in_unacked s3" by blast
  have c3: "cached s3 = (cached s)(k \<mapsto> a)" using h(3) s3(8) by simp
  have start: "kvpsync_send_add_key alloc_ok s t k v cb =
      (if s_sync_sent s3 then do { s \<leftarrow> upd a (\<lambda>d. d\<lparr>sd_nrefs := sd_nrefs d + 1\<rparr>) s3; data_queue alloc_ok a s } else Some s3)"
  proof -
    have "send_data_xnew alloc_ok s = Some (a, s\<lparr>s_brk := s_brk s + 1, s_mem := (s_mem s)(a \<mapsto> blank)\<rparr>)" using xnew_ok(1) [OF ok] by (simp add: a_def)
    moreover have "upd a (\<lambda>d. d\<lparr>sd_update := (sd_update d)\<lparr>utype := KVP_UPDATE_INSERT, klen := of_nat (length k),
                 key := copy_into k (key (sd_update d)), vlen := of_nat (length v), val := copy_into v (val (sd_update d))\<rparr>,
               sd_cb := cb, sd_deadline := t + MIN_RESPONSE, sd_key := k\<rparr>) ((s\<lparr>s_brk := s_brk s + 1, s_mem := (s_mem s)(a \<mapsto> blank)\<rparr>)\<lparr>s_oldest := s_oldest s @ [a]\<rparr>) = Some s1"
      by (simp add: upd_def s1_def new_insert_def blank_def)
    moreover have "s_sync_sent s1 = s_sync_sent s2" by (simp add: s2_def)
    ultimately show ?thesis using len h(1) s3(1) f1(1) by (cases "cached s k") (simp_all add: kvpsync_send_add_key_def s2_def [symmetric] Let_def not_less)
  qed
  show ?thesis
  proof (cases "s_sync_sent s")
    case False
    have "sender_inv s3 (F @ G) K A t"
    proof -
      have "log_map s3 = (log_map s)(k := None)" using False s3(7) by (auto simp: log_map_def)
      moreover have "in_cache s3 \<inter> in_unacked s3 = {}" using stagesD(5) [OF st False] s3(6,8) False h(4) af(2) by auto
      then have "stages s3 (F @ G) K" by (intro stages_data [OF st s3(5,7,9)]) (use s3(6) in auto)
      ultimately show ?thesis using s3(2-4) by (simp add: sender_inv_def core_inv_def)
    qed
    moreover have "kvpsync_send_add_key alloc_ok s t k v cb = Some s3" using start False s3(7) by simp
    ultimately show ?thesis using c3 s3(7,9,11) new_insert_val [OF len(2), of t k cb] by (intro exI [of _ s3] exI [of _ G] exI [of _ a] exI [of _ ?d]) simp
  next
    case True
    have ci: "core_inv s3 ((log_map s)(k := None)) (F @ G) K A t" using s3(2-4) by (simp add: core_inv_def)
    have ac: "a \<in> in_cache s3" using h(4) s3(8) by simp
    have "s_update_id s3 + 1 \<noteq> 0" using s3(10) w succ_room [of "s_update_id s + 1" 1] r by (auto simp: room_def)
    moreover have "a \<notin> ran ((log_map s)(k := None))" using af(1) held [OF send_okD(1) [OF ok]] by (auto simp: ran_def log_map_def split: if_splits)
    moreover have "sd_key ?d = k" by (simp add: new_insert_def)
    ultimately obtain s4 where s4: "data_queue alloc_ok a (s3\<lparr>s_mem := (s_mem s3)(a \<mapsto> ?d\<lparr>sd_nrefs := sd_nrefs ?d + 1\<rparr>)\<rparr>) = Some s4" "core_inv s4 ((log_map s)(k := None, k \<mapsto> a)) ((F @ G) @ [entry s3 (sd_update ?d)]) K A t"
      "s_cache s4 = s_cache s3" "in_unacked s4 = insert a (in_unacked s3)" "flags s4 = flags s3" "s_sync_id s4 = s_sync_id s3" "copy s4 a = Some (entry s3 (sd_update ?d))"
      using requeue_ok [OF ci ac s3(12,11)] by auto
    have ev: "kvpsync_send_add_key alloc_ok s t k v cb = Some s4" using start True s3(7,11) s4(1) by (simp add: upd_def)
    have lm: "log_map s4 = (log_map s)(k := None, k \<mapsto> a)" using True s3(7,8) s4(3,5) h(3) by (simp add: log_map_def)
    have "\<forall>p \<in> set (G @ [entry s3 (sd_update ?d)]). is_data p" using s3(5) by (auto simp: is_data_def new_insert_def)
    moreover have "flags s4 = flags s" "s_sync_id s4 = s_sync_id s" using s3(7,9) s4(5,6) by simp_all
    ultimately have "stages s4 (F @ (G @ [entry s3 (sd_update ?d)])) K" using stages_data [OF st] True by blast
    then have si: "sender_inv s4 (F @ G @ [entry s3 (sd_update ?d)]) K A t" using s4(2) lm by (simp add: sender_inv_def)
    have "a \<in> in_unacked s4" using s4(4) by simp
    from unacked_mem [OF sender_invD(3) [OF si] this] obtain d4 where d4: "s_mem s4 a = Some d4" by blast
    then have "(sd_update d4)\<lparr>ok_expiry := 0\<rparr> = entry s3 (sd_update ?d)" using s4(7) by (simp add: copy_def)
    then have "uval (sd_update d4) = uval (entry s3 (sd_update ?d))" using update_sel(2) by metis
    then have "uval (sd_update d4) = v" using new_insert_val [OF len(2), of t k cb] by (simp add: entry_def)
    then show ?thesis using ev si d4 c3 s3(7,9) s4(3,5,6) by (intro exI [of _ s4] exI [of _ "G @ [entry s3 (sd_update ?d)]"] exI [of _ a] exI [of _ d4]) simp
  qed
qed

end
