(* ===== verification/Kvp_Reach.thy ===== *)
theory Kvp_Reach
  imports Kvp_Sender
begin

text \<open>
  The sender of \<open>src/server/libkvpsync/send.c\<close> in every state it can get into, whatever the
  application does and whatever acknowledgements arrive.
\<close>

section \<open>Values\<close>

text \<open>
  No operation changes the value of a structure that exists: the map of an application is what it
  put there.
\<close>

definition vals :: "kvpsync_send \<Rightarrow> kvpsync_send \<Rightarrow> bool" where
  "vals s s' \<longleftrightarrow> s_brk s \<le> s_brk s' \<and>
     (\<forall>a d'. a < s_brk s \<longrightarrow> s_mem s' a = Some d' \<longrightarrow> (\<exists>d. s_mem s a = Some d \<and> uval (sd_update d') = uval (sd_update d)))"

lemma vals_refl [simp]: "vals s s"
  by (simp add: vals_def)

lemma vals_trans [trans]:
  assumes "vals s s'" "vals s' s''"
  shows "vals s s''"
proof -
  have "\<exists>d. s_mem s a = Some d \<and> uval (sd_update d'') = uval (sd_update d)" if lt: "a < s_brk s" and m: "s_mem s'' a = Some d''" for a d''
  proof -
    have "a < s_brk s'" using lt assms(1) by (simp add: vals_def)
    then obtain d' where "s_mem s' a = Some d'" "uval (sd_update d'') = uval (sd_update d')" using assms(2) m unfolding vals_def by blast
    then show ?thesis using assms(1) lt unfolding vals_def by fastforce
  qed
  then show ?thesis using assms by (simp add: vals_def)
qed

lemma vals_same_mem: "s_mem s' = s_mem s \<Longrightarrow> s_brk s' = s_brk s \<Longrightarrow> vals s s'"
  by (simp add: vals_def)

lemma vals_upd: "upd a f s = Some s' \<Longrightarrow> (\<And>d. uval (sd_update (f d)) = uval (sd_update d)) \<Longrightarrow> vals s s'"
  by (auto simp: upd_def vals_def split: option.splits if_splits)

lemma vals_xnew: "send_data_xnew A s = Some (a, s') \<Longrightarrow> vals s s'"
  by (auto simp: send_data_xnew_def vals_def split: if_splits)

lemma vals_moves:
  "data_remove a s = Some s' \<Longrightarrow> vals s s'" "append_unsent a s = Some s' \<Longrightarrow> vals s s'" "append_sent a s = Some s' \<Longrightarrow> vals s s'"
  "insert_before p a s = Some s' \<Longrightarrow> vals s s'" "data_downref a s = Some s' \<Longrightarrow> vals s s'"
  by (auto simp: data_remove_def append_unsent_def append_sent_def insert_before_def data_downref_def vals_def Let_def split: option.splits if_splits)

lemma vals_calculate: "calculate_ok_expiry s now = Some (e, s') \<Longrightarrow> vals s s'"
  by (auto simp: calculate_ok_expiry_def Let_def bind_eq_Some_conv split: if_splits intro!: vals_same_mem)

lemma vals_queue: "data_queue A a s = Some s' \<Longrightarrow> vals s s'"
proof -
  assume q: "data_queue A a s = Some s'"
  then obtain s1 s2 h where "upd a (\<lambda>d. d\<lparr>sd_update := (sd_update d)\<lparr>sync_id := s_sync_id s, update_id := s_update_id s + 1\<rparr>\<rparr>) (s\<lparr>s_update_id := s_update_id s + 1\<rparr>) = Some s1"
    "append_unsent a s1 = Some s2" "s' = s2\<lparr>s_unacked := h\<rparr>"
    by (auto simp: data_queue_def Let_def bind_eq_Some_conv split: if_splits)
  then have "vals (s\<lparr>s_update_id := s_update_id s + 1\<rparr>) s1" "vals s1 s2" "vals s2 s'" by (auto intro: vals_upd vals_moves vals_same_mem)
  moreover have "vals s (s\<lparr>s_update_id := s_update_id s + 1\<rparr>)" by (rule vals_same_mem) simp_all
  ultimately show ?thesis using vals_trans by blast
qed

lemma vals_queue_new: "queue_new A f s = Some s' \<Longrightarrow> (\<And>u. uval (f u) = uval u) \<Longrightarrow> vals s s'"
proof -
  assume "queue_new A f s = Some s'" and f: "\<And>u. uval (f u) = uval u"
  then obtain a s1 s2 where "send_data_xnew A s = Some (a, s1)" "upd a (\<lambda>d. d\<lparr>sd_update := f (sd_update d)\<rparr>) s1 = Some s2" "data_queue A a s2 = Some s'"
    by (auto simp: queue_new_def bind_eq_Some_conv)
  then have "vals s s1" "vals s1 s2" "vals s2 s'" using f by (auto intro: vals_xnew vals_upd vals_queue)
  then show ?thesis using vals_trans by blast
qed

lemma vals_plain: "queue_start A s = Some s' \<Longrightarrow> vals s s'" "queue_flush A s = Some s' \<Longrightarrow> vals s s'" "queue_empty A s = Some s' \<Longrightarrow> vals s s'"
  unfolding queue_new_simps by (erule vals_queue_new, simp add: uval_def)+

lemma vals_send: "data_send a now s = Some (u, s') \<Longrightarrow> vals s s'"
proof -
  assume "data_send a now s = Some (u, s')"
  then obtain s1 s2 s3 s4 e where s: "data_remove a s = Some s1" "append_sent a s1 = Some s2"
    "upd a (\<lambda>d. d\<lparr>sd_sent_time := now, sd_inflight := True, sd_inflight_at_send := s_inflight s2 + 1, sd_congest_validity := s_congest_validity s2\<rparr>) (s2\<lparr>s_inflight := s_inflight s2 + 1\<rparr>) = Some s3"
    "calculate_ok_expiry s3 now = Some (e, s4)" "upd a (\<lambda>d. d\<lparr>sd_update := (sd_update d)\<lparr>ok_expiry := e\<rparr>\<rparr>) s4 = Some s'"
    by (auto simp: data_send_def Let_def bind_eq_Some_conv)
  have "vals s s1" "vals s1 s2" "vals s2 (s2\<lparr>s_inflight := s_inflight s2 + 1\<rparr>)" "vals (s2\<lparr>s_inflight := s_inflight s2 + 1\<rparr>) s3" "vals s3 s4" "vals s4 s'"
    using s by (auto intro: vals_moves vals_upd vals_calculate vals_same_mem)
  then show ?thesis using vals_trans by metis
qed

lemma vals_loop:
  assumes "\<And>e x x'. body e x = Some x' \<Longrightarrow> vals (f x) (f x')"
  shows "hashmap_loop fuel tab body et x = Some x' \<Longrightarrow> vals (f x) (f x')"
proof (induction fuel arbitrary: et x)
  case 0
  then show ?case by (cases et; cases "fst et") auto
next
  case (Suc fuel)
  obtain e t where et: "et = (e, t)" by (cases et)
  show ?case
  proof (cases e)
    case (Some a)
    then obtain x1 where "body a x = Some x1" "hashmap_loop fuel tab body (hashmap_next (tab x1) t) x1 = Some x'" using Suc.prems et by (auto split: option.splits)
    then show ?thesis using Suc.IH assms vals_trans by metis
  qed (use Suc.prems et in simp)
qed

lemma vals_queue_one: "queue_one A a sb = Some sb' \<Longrightarrow> vals (fst sb) (fst sb')"
proof -
  assume "queue_one A a sb = Some sb'"
  then obtain s1 where "upd a (\<lambda>d. d\<lparr>sd_nrefs := sd_nrefs d + 1\<rparr>) (fst sb) = Some s1" "data_queue A a s1 = Some (fst sb')"
    by (auto simp: queue_one_def bind_eq_Some_conv split: option.splits if_splits)
  then have "vals (fst sb) s1" "vals s1 (fst sb')" by (auto intro: vals_upd vals_queue)
  then show ?thesis by (rule vals_trans)
qed

lemma vals_queue_all: "queue_all_inserts A s = Some (s', b) \<Longrightarrow> vals s s'"
  unfolding queue_all_inserts_def using vals_loop [of "queue_one A" fst, OF vals_queue_one] by fastforce

lemma vals_drain: "empty_unsent fuel s = Some s' \<Longrightarrow> vals s s'" "empty_sent fuel s = Some s' \<Longrightarrow> vals s s'"
proof -
  show "empty_unsent fuel s = Some s' \<Longrightarrow> vals s s'"
  proof (induction fuel arbitrary: s)
    case (Suc f)
    show ?case
    proof (cases "peek (s_unsent s)")
      case (Some a)
      then obtain s1 s2 where "data_remove a s = Some s1" "data_downref a s1 = Some s2" "empty_unsent f s2 = Some s'" using Suc.prems by (auto simp: bind_eq_Some_conv empty_unsent.simps [of "Suc f"])
      then show ?thesis using Suc.IH vals_moves vals_trans by metis
    qed (use Suc.prems in simp)
  qed (simp split: option.splits)
  show "empty_sent fuel s = Some s' \<Longrightarrow> vals s s'"
  proof (induction fuel arbitrary: s)
    case (Suc f)
    show ?case
    proof (cases "peek (s_sent s)")
      case (Some a)
      then obtain s1 s2 where "data_remove a s = Some s1" "data_downref a s1 = Some s2" "empty_sent f s2 = Some s'" using Suc.prems by (auto simp: bind_eq_Some_conv empty_sent.simps [of "Suc f"])
      then show ?thesis using Suc.IH vals_moves vals_trans by metis
    qed (use Suc.prems in simp)
  qed (simp split: option.splits)
qed

lemma vals_resend: "resend_all fuel ptr s = Some s' \<Longrightarrow> vals s s'" "resend_faulty fuel now s = Some s' \<Longrightarrow> vals s s'"
proof -
  show "resend_all fuel ptr s = Some s' \<Longrightarrow> vals s s'"
  proof (induction fuel arbitrary: s)
    case (Suc f)
    show ?case
    proof (cases "peek (s_sent s)")
      case (Some a)
      then obtain s1 s2 where "data_remove a s = Some s1" "insert_before ptr a s1 = Some s2" "resend_all f ptr s2 = Some s'" using Suc.prems by (auto simp: bind_eq_Some_conv resend_all.simps [of "Suc f"])
      then show ?thesis using Suc.IH vals_moves vals_trans by metis
    qed (use Suc.prems in simp)
  qed (simp split: option.splits)
  show "resend_faulty fuel now s = Some s' \<Longrightarrow> vals s s'"
  proof (induction fuel arbitrary: s)
    case (Suc f)
    show ?case
    proof (cases "peek (s_sent s)")
      case (Some a)
      show ?thesis
      proof (cases "s' = s")
        case False
        then obtain d s1 s2 where s2: "data_remove a s = Some s1" "append_unsent a s1 = Some s2" "resend_faulty f now (fault_detected d now s2) = Some s'"
          using Suc.prems Some by (auto simp: bind_eq_Some_conv resend_faulty.simps [of "Suc f"] split: if_splits)
        moreover have "vals s2 (fault_detected d now s2)" by (rule vals_same_mem) (simp_all add: fault_detected_def)
        ultimately show ?thesis using Suc.IH vals_moves vals_trans by metis
      qed simp
    qed (use Suc.prems in simp)
  qed (simp split: option.splits bind_splits if_splits)
qed

lemma vals_drop: "drop_data s = Some s' \<Longrightarrow> vals s s'"
proof -
  assume "drop_data s = Some s'"
  then obtain h s1 where "empty_unsent (length (s_unsent s)) (s\<lparr>s_unacked := h\<rparr>) = Some s1" "empty_sent (length (s_sent s1)) s1 = Some s'"
    by (auto simp: drop_data_def bind_eq_Some_conv simp del: empty_unsent.simps empty_sent.simps)
  then have "vals (s\<lparr>s_unacked := h\<rparr>) s1" "vals s1 s'" by (auto dest: vals_drain simp del: empty_unsent.simps empty_sent.simps)
  moreover have "vals s (s\<lparr>s_unacked := h\<rparr>)" by (rule vals_same_mem) simp_all
  ultimately show ?thesis using vals_trans by blast
qed

lemma vals_resync: "kvpsync_send_resync i s = Some s' \<Longrightarrow> vals s s'"
proof -
  let ?s = "s\<lparr>s_resync_id := i, s_sync_id := s_sync_id s + (1 + of_bool (s_sync_id s = - 1)), s_update_id := 0, s_recv_ok := False, s_last_extend_ok := 0\<rparr>"
  assume "kvpsync_send_resync i s = Some s'"
  then obtain s1 where s1: "drop_data ?s = Some s1" "s_mem s' = s_mem s1" "s_brk s' = s_brk s1" by (auto simp: kvpsync_send_resync_def bind_eq_Some_conv)
  have "vals s ?s" by (rule vals_same_mem) simp_all
  then show ?thesis using vals_drop [OF s1(1)] vals_same_mem [OF s1(2,3)] vals_trans by blast
qed

lemma vals_start_stage: "start_stage A s = Some (b, s') \<Longrightarrow> vals s s'"
proof -
  assume a: "start_stage A s = Some (b, s')"
  show ?thesis
  proof (cases "s_start_done s \<or> s_start_sent s")
    case True
    then show ?thesis using a by (auto simp: start_stage_def split: if_splits intro!: vals_same_mem)
  next
    case False
    then obtain s1 where "queue_start A s = Some s1" "s_mem s' = s_mem s1" "s_brk s' = s_brk s1" using a by (auto simp: start_stage_def bind_eq_Some_conv split: if_splits)
    then show ?thesis using vals_plain(1) vals_same_mem vals_trans by metis
  qed
qed

lemma vals_sync_stage: "sync_stage A s = Some (b, s') \<Longrightarrow> vals s s'"
proof -
  assume a: "sync_stage A s = Some (b, s')"
  show ?thesis
  proof (cases "s_sync_done s \<or> s_sync_sent s")
    case True
    then show ?thesis using a by (auto simp: sync_stage_def split: if_splits intro!: vals_same_mem)
  next
    case False
    then obtain s1 n where "queue_all_inserts A s = Some (s1, n)" "s_mem s' = s_mem s1" "s_brk s' = s_brk s1" using a by (auto simp: sync_stage_def bind_eq_Some_conv split: if_splits)
    then show ?thesis using vals_queue_all vals_same_mem vals_trans by metis
  qed
qed

lemma vals_advance: "advance_state A s now = Some s' \<Longrightarrow> vals s s'"
proof -
  assume a: "advance_state A s now = Some s'"
  show ?thesis
  proof (cases "s_synced s")
    case True
    then show ?thesis using a by (simp add: advance_state_def)
  next
    case False
    then obtain r1 s1 where 1: "start_stage A s = Some (r1, s1)" "(if r1 then Some s1 else do { (ret, s) \<leftarrow> sync_stage A s1;
          if ret then Some s else do { (_, s) \<leftarrow> calculate_ok_expiry (s\<lparr>s_recv_ok := True\<rparr>) now; s \<leftarrow> queue_flush A s; Some (s\<lparr>s_synced := True\<rparr>) } }) = Some s'"
      using a by (auto simp: advance_state_def bind_eq_Some_conv)
    show ?thesis
    proof (cases r1)
      case True
      then show ?thesis using 1 vals_start_stage by simp
    next
      case False
      then obtain r2 s2 where 2: "sync_stage A s1 = Some (r2, s2)" "(if r2 then Some s2 else do { (_, s) \<leftarrow> calculate_ok_expiry (s2\<lparr>s_recv_ok := True\<rparr>) now; s \<leftarrow> queue_flush A s; Some (s\<lparr>s_synced := True\<rparr>) }) = Some s'"
        using 1(2) by (auto simp: bind_eq_Some_conv)
      have v: "vals s s2" using 1(1) 2(1) vals_start_stage vals_sync_stage vals_trans by blast
      show ?thesis
      proof (cases r2)
        case True
        then show ?thesis using 2 v by simp
      next
        case False
        then obtain e s3 s4 where 3: "calculate_ok_expiry (s2\<lparr>s_recv_ok := True\<rparr>) now = Some (e, s3)" "queue_flush A s3 = Some s4" "s' = s4\<lparr>s_synced := True\<rparr>"
          using 2(2) by (auto simp: bind_eq_Some_conv)
        have "vals s2 (s2\<lparr>s_recv_ok := True\<rparr>)" "vals s4 s'" using 3(3) by (auto intro: vals_same_mem)
        then show ?thesis using v vals_calculate [OF 3(1)] vals_plain(2) [OF 3(2)] vals_trans by meson
      qed
    qed
  qed
qed

lemma vals_choose: "choose_packet A s now = Some (pkt, x, s') \<Longrightarrow> vals s s'"
proof -
  assume a: "choose_packet A s now = Some (pkt, x, s')"
  consider (send) "\<not> inflight_is_full s \<and> s_unsent s \<noteq> []" | (wait) "\<not> (\<not> inflight_is_full s \<and> s_unsent s \<noteq> [])" "s_sent s \<noteq> [] \<or> now + 3 * SECOND < s_ok_expiry s"
    | (idle) "\<not> (\<not> inflight_is_full s \<and> s_unsent s \<noteq> [])" "\<not> (s_sent s \<noteq> [] \<or> now + 3 * SECOND < s_ok_expiry s)" by blast
  then show ?thesis
  proof cases
    case send
    then obtain u where "data_send (hd (s_unsent s)) now s = Some (u, s')" using a by (auto simp: choose_packet_def bind_eq_Some_conv)
    then show ?thesis by (rule vals_send)
  next
    case wait
    then have "s' = s" using a by (auto simp: choose_packet_def bind_eq_Some_conv split: if_splits)
    then show ?thesis by simp
  next
    case idle
    then obtain b s1 u where "queue_empty A (s\<lparr>s_recv_ok := True\<rparr>) = Some s1" "data_send b now s1 = Some (u, s')" using a by (auto simp: choose_packet_def bind_eq_Some_conv)
    then have "vals (s\<lparr>s_recv_ok := True\<rparr>) s1" "vals s1 s'" by (auto intro: vals_plain vals_send)
    moreover have "vals s (s\<lparr>s_recv_ok := True\<rparr>)" by (rule vals_same_mem) simp_all
    ultimately show ?thesis using vals_trans by blast
  qed
qed

lemma vals_state_cb: "vals s (maybe_state_cb s)"
  by (rule vals_same_mem) (simp_all add: maybe_state_cb_def)

lemma vals_check: "check_unresponsive s now = Some s' \<Longrightarrow> vals s s'"
proof -
  assume c: "check_unresponsive s now = Some s'"
  show ?thesis
  proof (cases "s' = s")
    case False
    then obtain s1 where s1: "resend_all (length (s_sent s)) (peek (s_unsent s)) s = Some s1" "s' = s1\<lparr>s_inflight_limit := MIN_INFLIGHT\<rparr>"
      using c by (auto simp: check_unresponsive_def bind_eq_Some_conv simp del: resend_all.simps split: option.splits if_splits)
    have "vals s1 s'" by (rule vals_same_mem) (simp_all add: s1(2))
    then show ?thesis using vals_resend(1) [OF s1(1)] vals_trans by blast
  qed simp
qed

lemma vals_run: "kvpsync_send_run A s now = Some (pkt, x, s') \<Longrightarrow> vals s s'"
proof -
  assume "kvpsync_send_run A s now = Some (pkt, x, s')"
  then obtain s1 s3 s4 s5 y where 1: "advance_state A s now = Some s1" "check_unresponsive (if s_recv_ok s1 \<and> now \<ge> s_ok_expiry s1 then s1\<lparr>s_recv_ok := False\<rparr> else s1) now = Some s3"
    "resend_faulty (length (s_sent s3)) now s3 = Some s4" "choose_packet A s4 now = Some (pkt, y, s5)" "s' = maybe_state_cb s5"
    by (auto simp: kvpsync_send_run_def send_run_def Let_def bind_eq_Some_conv simp del: resend_faulty.simps)
  let ?s2 = "if s_recv_ok s1 \<and> now \<ge> s_ok_expiry s1 then s1\<lparr>s_recv_ok := False\<rparr> else s1"
  have "vals s1 ?s2" by (rule vals_same_mem) simp_all
  then show ?thesis using vals_advance [OF 1(1)] vals_check [OF 1(2)] vals_resend(2) [OF 1(3)] vals_choose [OF 1(4)] vals_state_cb [of s5] 1(5) vals_trans by meson
qed

lemma vals_finish: "ack_finish a d s = Some s' \<Longrightarrow> vals s s'"
proof -
  assume "ack_finish a d s = Some s'"
  then obtain s1 where s1: "(case sd_cb d of None \<Rightarrow> Some s
      | Some c \<Rightarrow> upd a (\<lambda>d. d\<lparr>sd_cb := None\<rparr>) (s\<lparr>s_oldest := remove1 a (s_oldest s), s_calls := s_calls s @ [Add_key_cb c]\<rparr>)) = Some s1" "data_downref a s1 = Some s'"
    by (auto simp: ack_finish_def bind_eq_Some_conv)
  have "vals s s1"
  proof (cases "sd_cb d")
    case (Some c)
    let ?s = "s\<lparr>s_oldest := remove1 a (s_oldest s), s_calls := s_calls s @ [Add_key_cb c]\<rparr>"
    have "vals s ?s" by (rule vals_same_mem) simp_all
    moreover have "vals ?s s1" by (rule vals_upd [of a "\<lambda>d. d\<lparr>sd_cb := None\<rparr>"]) (use s1(1) Some in simp_all)
    ultimately show ?thesis by (rule vals_trans)
  qed (use s1(1) in simp)
  then show ?thesis using vals_moves(5) [OF s1(2)] by (rule vals_trans)
qed

lemma vals_ack: "kvpsync_send_handle_ack s ack now = Some s' \<Longrightarrow> vals s s'"
proof -
  assume "kvpsync_send_handle_ack s ack now = Some s'"
  then obtain s1 where s1: "handle_ack s ack now = Some s1" "s' = maybe_state_cb s1" by (auto simp: kvpsync_send_handle_ack_def)
  let ?s = "s\<lparr>s_last_recv := now\<rparr>"
  have v: "vals s ?s" by (rule vals_same_mem) simp_all
  have "vals ?s s1"
  proof (cases "ack_update_id ack = 0")
    case True
    then show ?thesis using s1(1) vals_resync by (auto simp: handle_ack_def Let_def split: if_splits)
  next
    case nz: False
    show ?thesis
    proof (cases "ack_sync_id ack = s_sync_id s")
      case True
      obtain e h where h: "hashmap_delu (s_unacked s) (ack_update_id ack) = Some (e, h)" using s1(1) nz True by (auto simp: handle_ack_def Let_def bind_eq_Some_conv)
      show ?thesis
      proof (cases e)
        case None
        then show ?thesis using s1(1) nz True h by (simp add: handle_ack_def Let_def)
      next
        case (Some a)
        obtain s2 where s2: "data_remove a (?s\<lparr>s_unacked := h\<rparr>) = Some s2" using s1(1) nz True h Some by (auto simp: handle_ack_def Let_def bind_eq_Some_conv)
        define s3 where "s3 = (if s_sent s2 = [] \<and> s_unsent s2 = [] then s2\<lparr>s_blocked := False\<rparr> else s2)"
        obtain d where d: "s_mem s3 a = Some d" "ack_finish a d (successful_packet d s3) = Some s1"
          using s1(1) nz True h Some s2 by (auto simp: handle_ack_def Let_def bind_eq_Some_conv ack_finish_def s3_def)
        have "vals ?s (?s\<lparr>s_unacked := h\<rparr>)" "vals s2 s3" "vals s3 (successful_packet d s3)" by (auto intro: vals_same_mem simp: s3_def successful_packet_def)
        then show ?thesis using vals_moves(1) [OF s2] vals_finish [OF d(2)] vals_trans by meson
      qed
    qed (use s1(1) nz in \<open>simp add: handle_ack_def Let_def\<close>)
  qed
  then show ?thesis using v s1(2) vals_state_cb vals_trans by blast
qed

lemma vals_delete: "queue_delete_and_downref A b s = Some s' \<Longrightarrow> vals s s'"
proof -
  assume q: "queue_delete_and_downref A b s = Some s'"
  then obtain od where od: "s_mem s b = Some od" by (auto simp: queue_delete_and_downref_def bind_eq_Some_conv)
  show ?thesis
  proof (cases "s_sync_sent s \<and> sync_id (sd_update od) = s_sync_id s")
    case True
    let ?f = "\<lambda>u. u\<lparr>utype := KVP_UPDATE_DELETE, klen := klen (sd_update od), key := copy_into (take (unat (klen (sd_update od))) (key (sd_update od))) (key u), delete_id := update_id (sd_update od)\<rparr>"
    obtain s1 where s1: "queue_new A ?f s = Some s1" "data_downref b s1 = Some s'" using q od True by (auto simp: queue_delete_and_downref_def queue_new_def bind_eq_Some_conv)
    show ?thesis using vals_queue_new [OF s1(1)] vals_moves(5) [OF s1(2)] vals_trans by (auto simp: uval_def)
  next
    case False
    then have "data_downref b s = Some s'" using q od by (auto simp: queue_delete_and_downref_def)
    then show ?thesis by (rule vals_moves(5))
  qed
qed

lemma vals_add: "kvpsync_send_add_key A s now k v cb = Some s' \<Longrightarrow> vals s s'"
proof -
  assume q: "kvpsync_send_add_key A s now k v cb = Some s'"
  then obtain a s1 s2 old h s3 where s1: "send_data_xnew A s = Some (a, s1)"
    "upd a (\<lambda>d. d\<lparr>sd_update := (sd_update d)\<lparr>utype := KVP_UPDATE_INSERT, klen := of_nat (length k),
                 key := copy_into k (key (sd_update d)), vlen := of_nat (length v), val := copy_into v (val (sd_update d))\<rparr>,
               sd_cb := cb, sd_deadline := now + MIN_RESPONSE, sd_key := k\<rparr>) (s1\<lparr>s_oldest := s_oldest s1 @ [a]\<rparr>) = Some s2"
    "(case old of None \<Rightarrow> Some (s2\<lparr>s_cache := h\<rparr>) | Some b \<Rightarrow> queue_delete_and_downref A b (s2\<lparr>s_cache := h\<rparr>)) = Some s3"
    "(if s_sync_sent s3 then do { s \<leftarrow> upd a (\<lambda>d. d\<lparr>sd_nrefs := sd_nrefs d + 1\<rparr>) s3; data_queue A a s } else Some s3) = Some s'"
    by (auto simp: kvpsync_send_add_key_def Let_def bind_eq_Some_conv split: if_splits)
  have "vals s s2" using s1(1,2) by (auto simp: send_data_xnew_def upd_def vals_def split: if_splits)
  moreover have "vals s2 (s2\<lparr>s_cache := h\<rparr>)" by (rule vals_same_mem) simp_all
  moreover have "vals (s2\<lparr>s_cache := h\<rparr>) s3" using s1(3) vals_delete by (cases old) auto
  moreover have "vals s3 s'"
  proof (cases "s_sync_sent s3")
    case True
    then obtain s4 where "upd a (\<lambda>d. d\<lparr>sd_nrefs := sd_nrefs d + 1\<rparr>) s3 = Some s4" "data_queue A a s4 = Some s'" using s1(4) by (auto simp: bind_eq_Some_conv)
    then show ?thesis using vals_queue vals_upd vals_trans by (metis (no_types, lifting) send_data.select_convs(1) send_data.surjective send_data.update_convs(3))
  qed (use s1(4) in simp)
  ultimately show ?thesis using vals_trans by blast
qed

lemma vals_del: "kvpsync_send_delete_key A s k = Some s' \<Longrightarrow> vals s s'"
proof -
  assume q: "kvpsync_send_delete_key A s k = Some s'"
  then obtain e h where h: "hashmap_dels (s_cache s) k = Some (e, h)" by (auto simp: kvpsync_send_delete_key_def bind_eq_Some_conv)
  show ?thesis
  proof (cases e)
    case None
    then show ?thesis using q h by (simp add: kvpsync_send_delete_key_def)
  next
    case (Some a)
    then obtain s1 where s1: "upd a (\<lambda>d. d\<lparr>sd_cb := None\<rparr>) (s\<lparr>s_cache := h\<rparr>) = Some s1" "queue_delete_and_downref A a s1 = Some s'"
      using q h by (auto simp: kvpsync_send_delete_key_def bind_eq_Some_conv)
    have "vals s (s\<lparr>s_cache := h\<rparr>)" by (rule vals_same_mem) simp_all
    moreover have "vals (s\<lparr>s_cache := h\<rparr>) s1" using s1(1) by (rule vals_upd) simp
    ultimately show ?thesis using vals_delete [OF s1(2)] vals_trans by blast
  qed
qed

text \<open>The map of the application.\<close>

definition kv :: "kvpsync_send \<Rightarrow> byte list \<rightharpoonup> byte list" where
  "kv s k = (case cached s k of None \<Rightarrow> None | Some a \<Rightarrow> map_option (\<lambda>d. uval (sd_update d)) (s_mem s a))"

lemma kv_vals:
  assumes v: "vals s s'" and ok: "send_ok s {} {}" "send_ok s' {} {}" and k: "cached s' k = cached s k"
  shows "kv s' k = kv s k"
proof (cases "cached s k")
  case None
  then show ?thesis using k by (simp add: kv_def)
next
  case (Some a)
  obtain d where d: "s_mem s a = Some d" using cached_mem [OF ok(1) Some] by blast
  obtain d' where d': "s_mem s' a = Some d'" using cached_mem [OF ok(2)] k Some by metis
  have "a < s_brk s" using send_okD(7) [OF ok(1) d] by (simp add: node_ok_def)
  then have "uval (sd_update d') = uval (sd_update d)" using v d d' unfolding vals_def by fastforce
  then show ?thesis using Some k d d' by (simp add: kv_def)
qed

section \<open>Reachable senders\<close>

text \<open>
  \<open>send_reach s A E K t\<close>: at the time \<open>t\<close> the sender is in the state \<open>s\<close>, has sent the packets \<open>A\<close>, of
  which \<open>E\<close> since the last resync, and has received the acknowledgements \<open>K\<close>.  Time does not go
  backwards and stays below $2^{63}$ nanoseconds, there is memory, and the counter of updates is not
  about to wrap around (\<open>room\<close>).
\<close>

inductive send_reach :: "kvpsync_send \<Rightarrow> kvp_update set \<Rightarrow> kvp_update set \<Rightarrow> kvp_ack set \<Rightarrow> xtime \<Rightarrow> bool" where
  init: "kvpsync_send_init alloc_ok rnd now cb = Some (E_NONE, Some s) \<Longrightarrow> now < 2 ^ 63 \<Longrightarrow> send_reach s {} {} {} now"
| add_key: "send_reach s A E K t \<Longrightarrow> t \<le> now \<Longrightarrow> now < 2 ^ 63 \<Longrightarrow> room s \<Longrightarrow>
    kvpsync_send_add_key alloc_ok s now k v cb = Some s' \<Longrightarrow> send_reach s' A E K now"
| delete_key: "send_reach s A E K t \<Longrightarrow> room s \<Longrightarrow> kvpsync_send_delete_key alloc_ok s k = Some s' \<Longrightarrow> send_reach s' A E K t"
| run: "send_reach s A E K t \<Longrightarrow> t \<le> now \<Longrightarrow> now < 2 ^ 63 \<Longrightarrow> room s \<Longrightarrow>
    kvpsync_send_run alloc_ok s now = Some (pkt, deadline, s') \<Longrightarrow> send_reach s' (A \<union> set_option pkt) (E \<union> set_option pkt) K now"
| ack: "send_reach s A E K t \<Longrightarrow> t \<le> now \<Longrightarrow> now < 2 ^ 63 \<Longrightarrow>
    kvpsync_send_handle_ack s a now = Some s' \<Longrightarrow> send_reach s' A (if s_sync_id s' = s_sync_id s then E else {}) (insert a K) now"
| later: "send_reach s A E K t \<Longrightarrow> t \<le> now \<Longrightarrow> now < 2 ^ 63 \<Longrightarrow> send_reach s A E K now"

definition send_inv :: "kvpsync_send \<Rightarrow> kvp_update set \<Rightarrow> kvp_update set \<Rightarrow> kvp_ack set \<Rightarrow> xtime \<Rightarrow> kvp_update list \<Rightarrow> bool" where
  "send_inv s A E K t F \<longleftrightarrow> sender_inv s F K A t \<and> E \<subseteq> A \<and> (\<forall>u \<in> E. u\<lparr>ok_expiry := 0\<rparr> \<in> set F)"

lemma nonzero_sync: "nonzero_sync_id xs = Some i \<Longrightarrow> i \<noteq> 0"
  by (induction xs) (auto split: if_splits)

lemma empty_table: "hm_ok h \<Longrightarrow> hm_map h = Map.empty \<Longrightarrow> elem_ids h = []"
  using elem_ids_ran [of h] by simp

lemma init_inv:
  assumes "kvpsync_send_init alloc_ok rnd now cb = Some (E_NONE, Some s)" "now < 2 ^ 63"
  shows "sender_inv s [] {} {} now \<and> kv s = Map.empty"
proof -
  from assms(1) obtain i cache unacked where s: "nonzero_sync_id rnd = Some i" "hashmap_init alloc_ok = (E_NONE, Some unacked)" "hashmap_init alloc_ok = (E_NONE, Some cache)"
    "s = \<lparr>s_state_cb = cb, s_sync_id = i, s_resync_id = 0, s_update_id = 0, s_cache = cache, s_unsent = [],
               s_unacked = unacked, s_sent = [], s_oldest = [], s_inflight = 0, s_inflight_limit = MIN_INFLIGHT,
               s_decrease_backoff = 0, s_congest_validity = 0, s_last_recv = 0, s_recv_ok = False, s_old_recv_ok = False,
               s_ok_expiry = now + MIN_RESPONSE, s_last_extend_ok = 0, s_blocked = False, s_synced = False, s_start_done = False,
               s_start_sent = False, s_sync_done = False, s_sync_sent = False, s_mem = Map.empty, s_brk = 0, s_calls = []\<rparr>"
    by (auto simp: kvpsync_send_init_def hashmap_init_def split: option.splits prod.splits if_splits)
  note h = hashmap_init_ok [OF s(2)] hashmap_init_ok [OF s(3)]
  have e: "elem_ids cache = []" "elem_ids unacked = []" using h empty_table by blast+
  have ok: "send_ok s {} {}" using h e by (simp add: send_ok_def s(4) MIN_INFLIGHT_def)
  moreover have "logged s (log_map s) [] {}" using logged_fresh [of s "{}"] e by (simp add: log_map_def s(4))
  moreover have "ready s now {}" using assms(2) by (simp add: ready_def s(4) pending_def)
  moreover have "stages s [] {}" using nonzero_sync [OF s(1)] e by (simp add: stages_def s(4))
  moreover have "kv s = Map.empty" using h by (simp add: kv_def fun_eq_iff s(4))
  ultimately show ?thesis by (simp add: sender_inv_def core_inv_def)
qed

lemma send_reach_inv: "send_reach s A E K t \<Longrightarrow> \<exists>F. send_inv s A E K t F"
proof (induction rule: send_reach.induct)
  case (init rnd now cb s)
  from init_inv [OF init] show ?case by (auto simp: send_inv_def)
next
  case (add_key s A E K t now k v cb s')
  then obtain F where F: "send_inv s A E K t F" by blast
  note I = sender_inv_later [of s F K A t now]
  have len: "length k \<le> KVPSYNC_MAX_LEN" "length v \<le> KVPSYNC_MAX_LEN" using add_key.hyps(5) by (auto simp: kvpsync_send_add_key_def split: if_splits)
  from add_key_ok [OF I add_key.hyps(4) len, of cb] F add_key.hyps obtain G where "sender_inv s' (F @ G) K A now" by (auto simp: send_inv_def)
  then show ?case using F by (auto simp: send_inv_def)
next
  case (delete_key s A E K t k s')
  then obtain F where F: "send_inv s A E K t F" by blast
  from delete_key_ok [OF _ delete_key.hyps(2), of F K A t k] F delete_key.hyps(3) obtain G where "sender_inv s' (F @ G) K A t" by (auto simp: send_inv_def)
  then show ?case using F by (auto simp: send_inv_def)
next
  case (run s A E K t now pkt deadline s')
  then obtain F where F: "send_inv s A E K t F" by blast
  from run_ok [OF sender_inv_later run.hyps(4), of F K A t now] F run.hyps obtain G where "sender_inv s' (F @ G) K (A \<union> set_option pkt) now"
    "\<forall>u \<in> set_option pkt. u\<lparr>ok_expiry := 0\<rparr> \<in> set (F @ G)" by (auto simp: send_inv_def)
  then show ?case using F by (auto simp: send_inv_def)
next
  case (ack s A E K t now a s')
  then obtain F where F: "send_inv s A E K t F" by blast
  from handle_ack_ok [OF sender_inv_later, of s F K A t now a now] F ack.hyps obtain F' where F': "sender_inv s' F' (insert a K) A now"
    "if ack_update_id a = 0 \<and> ack_sync_id a \<noteq> s_resync_id s then s_resync_id s' = ack_sync_id a \<and> s_sync_id s' \<noteq> s_sync_id s \<and> F' = []
     else s_resync_id s' = s_resync_id s \<and> s_sync_id s' = s_sync_id s \<and> F' = F" by (auto simp: send_inv_def)
  then show ?case using F by (auto simp: send_inv_def split: if_splits)
next
  case (later s A E K t now)
  then show ?case using sender_inv_later unfolding send_inv_def by blast
qed

lemma send_reach_ok:
  assumes "send_reach s A E K t"
  shows "\<exists>F. sender_inv s F K A t"
  using send_reach_inv [OF assms] by (auto simp: send_inv_def)

text \<open>What the sender offers to an application: a map.\<close>

lemma add_key_kv:
  assumes "sender_inv s F K A t" "t \<le> now" "now < 2 ^ 63" "room s" "length k \<le> KVPSYNC_MAX_LEN" "length v \<le> KVPSYNC_MAX_LEN"
  shows "\<exists>s'. kvpsync_send_add_key alloc_ok s now k v cb = Some s' \<and> kv s' = (kv s)(k \<mapsto> v) \<and> s_sync_id s' = s_sync_id s \<and> s_resync_id s' = s_resync_id s"
proof -
  from add_key_ok [OF sender_inv_later [OF assms(1-3)] assms(4-6), of cb] obtain s' G a d where s': "kvpsync_send_add_key alloc_ok s now k v cb = Some s'" "sender_inv s' (F @ G) K A now"
    "cached s' = (cached s)(k \<mapsto> a)" "s_mem s' a = Some d" "uval (sd_update d) = v" "s_sync_id s' = s_sync_id s" "s_resync_id s' = s_resync_id s" by blast
  have "kv s' j = ((kv s)(k \<mapsto> v)) j" for j
  proof (cases "j = k")
    case True
    then show ?thesis using s'(3-5) fun_cong [OF s'(3), of j] by (simp add: kv_def)
  next
    case False
    then have "cached s' j = cached s j" using fun_cong [OF s'(3), of j] by simp
    then show ?thesis using kv_vals [OF vals_add [OF s'(1)] sender_invD(3) [OF assms(1)] sender_invD(3) [OF s'(2)]] False by simp
  qed
  then show ?thesis using s' by blast
qed

lemma delete_key_kv:
  assumes "sender_inv s F K A t" "room s"
  shows "\<exists>s'. kvpsync_send_delete_key alloc_ok s k = Some s' \<and> kv s' = (kv s)(k := None) \<and> s_sync_id s' = s_sync_id s \<and> s_resync_id s' = s_resync_id s"
proof -
  from delete_key_ok [OF assms, of k] obtain s' G where s': "kvpsync_send_delete_key alloc_ok s k = Some s'" "sender_inv s' (F @ G) K A t" "cached s' = (cached s)(k := None)"
    "s_sync_id s' = s_sync_id s" "s_resync_id s' = s_resync_id s" by blast
  have "kv s' j = ((kv s)(k := None)) j" for j
  proof (cases "j = k")
    case True
    then show ?thesis using fun_cong [OF s'(3), of j] by (simp add: kv_def)
  next
    case False
    then have "cached s' j = cached s j" using fun_cong [OF s'(3), of j] by simp
    then show ?thesis using kv_vals [OF vals_del [OF s'(1)] sender_invD(3) [OF assms(1)] sender_invD(3) [OF s'(2)]] False by simp
  qed
  then show ?thesis using s' by blast
qed

lemma run_kv:
  assumes "sender_inv s F K A t" "t \<le> now" "now < 2 ^ 63" "room s"
  shows "\<exists>pkt x s'. kvpsync_send_run alloc_ok s now = Some (pkt, x, s') \<and> kv s' = kv s \<and> s_sync_id s' = s_sync_id s \<and> s_resync_id s' = s_resync_id s"
proof -
  from run_ok [OF sender_inv_later [OF assms(1-3)] assms(4)] obtain pkt x s' G where s': "kvpsync_send_run alloc_ok s now = Some (pkt, x, s')"
    "sender_inv s' (F @ G) K (A \<union> set_option pkt) now" "s_cache s' = s_cache s" "s_sync_id s' = s_sync_id s" "s_resync_id s' = s_resync_id s" by blast
  have "kv s' = kv s" using kv_vals [OF vals_run [OF s'(1)] sender_invD(3) [OF assms(1)] sender_invD(3) [OF s'(2)]] s'(3) by (simp add: fun_eq_iff)
  then show ?thesis using s' by blast
qed

lemma ack_kv:
  assumes "sender_inv s F K A t"
  shows "\<exists>s'. kvpsync_send_handle_ack s a now = Some s' \<and> kv s' = kv s \<and>
    (if ack_update_id a = 0 \<and> ack_sync_id a \<noteq> s_resync_id s then s_resync_id s' = ack_sync_id a \<and> s_sync_id s' \<noteq> s_sync_id s
     else s_resync_id s' = s_resync_id s \<and> s_sync_id s' = s_sync_id s)"
proof -
  from handle_ack_ok [OF assms, of a now] obtain s' F' where s': "kvpsync_send_handle_ack s a now = Some s'" "sender_inv s' F' (insert a K) A t" "s_cache s' = s_cache s"
    "if ack_update_id a = 0 \<and> ack_sync_id a \<noteq> s_resync_id s then s_resync_id s' = ack_sync_id a \<and> s_sync_id s' \<noteq> s_sync_id s \<and> F' = []
     else s_resync_id s' = s_resync_id s \<and> s_sync_id s' = s_sync_id s \<and> F' = F" by blast
  have "kv s' = kv s" using kv_vals [OF vals_ack [OF s'(1)] sender_invD(3) [OF assms(1)] sender_invD(3) [OF s'(2)]] s'(3) by (simp add: fun_eq_iff)
  then show ?thesis using s'(1,4) by (intro exI [of _ s']) (auto split: if_splits)
qed

text \<open>
  C2. The sender never aborts.  In every state that any interleaving of added and deleted keys, runs and
  acknowledgements leads to, whatever the acknowledgements say, the sender's structures agree: the
  references of every structure are counted, what is unacknowledged is in exactly one of the lists of
  unsent and sent packets, the sent packets are counted, and the cache and the table of
  unacknowledged packets are in order (\<open>send_ok\<close>).  While the update counter has room every
  operation returns, none of its checks fails and no freed memory is touched; and the sender can be
  freed, after which nothing is left allocated.
\<close>

theorem kvpsync_send_safe:
  assumes "send_reach s A E K t"
  shows "send_ok s {} {} \<and> (\<forall>a now. \<exists>s'. kvpsync_send_handle_ack s a now = Some s') \<and>
    (\<exists>s'. kvpsync_send_free s = Some s' \<and> s_mem s' = Map.empty \<and> s_oldest s' = []) \<and>
    (room s \<longrightarrow> (\<forall>k. \<exists>s'. kvpsync_send_delete_key alloc_ok s k = Some s') \<and>
      (\<forall>now. t \<le> now \<and> now < 2 ^ 63 \<longrightarrow> (\<exists>pkt x s'. kvpsync_send_run alloc_ok s now = Some (pkt, x, s')) \<and>
        (\<forall>k v cb. length k \<le> KVPSYNC_MAX_LEN \<and> length v \<le> KVPSYNC_MAX_LEN \<longrightarrow> (\<exists>s'. kvpsync_send_add_key alloc_ok s now k v cb = Some s'))))"
proof -
  obtain F where I: "sender_inv s F K A t" using send_reach_ok [OF assms] by blast
  show ?thesis using sender_invD(3) [OF I] ack_kv [OF I] send_free_ok [OF sender_invD(3) [OF I]] delete_key_kv [OF I] run_kv [OF I] add_key_kv [OF I] by meson
qed

text \<open>
  C3. The sender refines a map.  To the application the sender is the map \<open>kv\<close> of keys to values: it
  starts empty, adding a key sets its value whatever the state of the sync, deleting it removes
  it, and neither sending packets nor acknowledgements nor a resync changes it.
\<close>

theorem kvpsync_send_map:
  assumes "send_reach s A E K t"
  shows "(kvpsync_send_add_key alloc_ok s now k v cb = Some s' \<and> t \<le> now \<and> now < 2 ^ 63 \<and> room s \<longrightarrow> kv s' = (kv s)(k \<mapsto> v)) \<and>
    (kvpsync_send_delete_key alloc_ok s k = Some s' \<and> room s \<longrightarrow> kv s' = (kv s)(k := None)) \<and>
    (kvpsync_send_run alloc_ok s now = Some (pkt, x, s') \<and> t \<le> now \<and> now < 2 ^ 63 \<and> room s \<longrightarrow> kv s' = kv s) \<and>
    (kvpsync_send_handle_ack s a now = Some s' \<longrightarrow> kv s' = kv s) \<and>
    (kvpsync_send_init alloc_ok rnd now b = Some (E_NONE, Some s') \<and> now < 2 ^ 63 \<longrightarrow> kv s' = Map.empty)"
proof -
  obtain F where I: "sender_inv s F K A t" using send_reach_ok [OF assms] by blast
  have len: "length k \<le> KVPSYNC_MAX_LEN \<and> length v \<le> KVPSYNC_MAX_LEN" if "kvpsync_send_add_key alloc_ok s now k v cb = Some s'"
    using that by (auto simp: kvpsync_send_add_key_def split: if_splits)
  show ?thesis using len add_key_kv [OF I, of now k v cb] delete_key_kv [OF I, of k] run_kv [OF I, of now] ack_kv [OF I, of a now] init_inv by fastforce
qed

text \<open>
  The readiness guarantee.  While the callback of an insertion is still to come, no packet that the
  sender ever sent extends the \<open>ok\<close> state of a receiver beyond the deadline of that insertion, which is
  \<open>MIN_RESPONSE\<close> after the insertion.  So a receiver that does not know the key yet does not deny it
  after the deadline.
\<close>

lemma send_readiness:
  assumes "send_reach s A E K t" "u \<in> A" "s_mem s a = Some d" "sd_cb d \<noteq> None"
  shows "ok_expiry u \<le> sd_deadline d"
proof -
  obtain F where I: "sender_inv s F K A t" using send_reach_ok [OF assms(1)] by blast
  note rd = sender_invD(5) [OF I]
  have "pending s a \<noteq> None" "dl s a = sd_deadline d" using assms(3,4) by (simp_all add: pending_def dl_def content_def)
  then show ?thesis using readyD(4) [OF rd] readyD(7) [OF rd assms(2)] by metis
qed

section \<open>A reachable sender\<close>

text \<open>A sender that began a sync and was then given a key with a callback.\<close>

lemma room_code [code]: "room s \<longleftrightarrow> uint (s_update_id s) + int (num_elems (s_cache s)) + 4 < 4294967296"
proof -
  have "int (unat (s_update_id s)) = uint (s_update_id s)" by simp
  then show ?thesis unfolding room_def by linarith
qed

definition example_sender :: "(kvp_update option \<times> kvpsync_send) option" where
  "example_sender = do {
     (_, init) \<leftarrow> kvpsync_send_init alloc_ok [0, 5] 10 True;
     s \<leftarrow> init;
     (pkt, _, s) \<leftarrow> (if room s then kvpsync_send_run alloc_ok s 11 else None);
     s \<leftarrow> (if room s then kvpsync_send_add_key alloc_ok s 12 [7] [9] (Some 1) else None);
     Some (pkt, s) }"

lemma example_sender_value:
  "case example_sender of
     Some (pkt, s) \<Rightarrow> pkt \<noteq> None \<and> room s \<and> kv s [7] = Some [9] \<and> map_option sd_cb (s_mem s 1) = Some (Some 1)
   | None \<Rightarrow> False"
  by code_simp

lemma example_sender_reach:
  obtains u s d where "example_sender = Some (Some u, s)" "send_reach s {u} {u} {} 12" "room s" "kv s [7] = Some [9]"
    "s_mem s 1 = Some d" "sd_cb d \<noteq> None"
proof -
  obtain u s where v: "example_sender = Some (Some u, s)" "room s" "kv s [7] = Some [9]" "map_option sd_cb (s_mem s 1) = Some (Some 1)"
    using example_sender_value by (auto split: option.splits prod.splits)
  from v(1) obtain e s0 x s1 where s: "kvpsync_send_init alloc_ok [0, 5] 10 True = Some (e, Some s0)" "room s0"
    "kvpsync_send_run alloc_ok s0 11 = Some (Some u, x, s1)" "room s1" "kvpsync_send_add_key alloc_ok s1 12 [7] [9] (Some 1) = Some s"
    unfolding example_sender_def by (auto split: Option.bind_splits prod.splits if_splits)
  have "e = E_NONE" using s(1) by (auto simp: kvpsync_send_init_def hashmap_init_def split: option.splits prod.splits if_splits)
  then have r0: "send_reach s0 {} {} {} 10" using s(1) by (intro send_reach.init) simp_all
  have "send_reach s1 {u} {u} {} 11" using send_reach.run [OF r0 _ _ s(2,3)] by simp
  from send_reach.add_key [OF this _ _ s(4,5)] have "send_reach s {u} {u} {} 12" by simp
  moreover obtain d where "s_mem s 1 = Some d" "sd_cb d = Some 1" using v(4) by auto
  ultimately show thesis using v by (intro that [of u s d]) simp_all
qed

theorem kvpsync_send_safe_witness:
  "\<exists>u s. example_sender = Some (Some u, s) \<and> send_reach s {u} {u} {} 12 \<and> room s \<and> send_ok s {} {} \<and>
     (\<exists>s'. kvpsync_send_free s = Some s' \<and> s_mem s' = Map.empty \<and> s_oldest s' = []) \<and>
     (\<exists>pkt x s'. kvpsync_send_run alloc_ok s 20 = Some (pkt, x, s')) \<and> (\<exists>s'. kvpsync_send_add_key alloc_ok s 20 [7] [8] None = Some s')"
proof -
  obtain u s d where e: "example_sender = Some (Some u, s)" "send_reach s {u} {u} {} 12" "room s" by (rule example_sender_reach)
  have t: "(12 :: xtime) \<le> 20 \<and> (20 :: xtime) < 2 ^ 63" by simp
  have l: "length [7 :: byte] \<le> KVPSYNC_MAX_LEN \<and> length [8 :: byte] \<le> KVPSYNC_MAX_LEN" by (simp add: KVPSYNC_MAX_LEN_def)
  show ?thesis using kvpsync_send_safe [OF e(2)] e t l by blast
qed

theorem kvpsync_send_map_witness:
  "\<exists>u s s'. example_sender = Some (Some u, s) \<and> send_reach s {u} {u} {} 12 \<and> room s \<and> kvpsync_send_delete_key alloc_ok s [7] = Some s' \<and>
     kv s [7] = Some [9] \<and> kv s' = (kv s)([7] := None)"
proof -
  obtain u s d where e: "example_sender = Some (Some u, s)" "send_reach s {u} {u} {} 12" "room s" "kv s [7] = Some [9]" by (rule example_sender_reach)
  obtain F where I: "sender_inv s F {} {u} 12" using send_reach_ok [OF e(2)] by blast
  obtain s' where d: "kvpsync_send_delete_key alloc_ok s [7] = Some s'" using delete_key_kv [OF I e(3)] by blast
  then show ?thesis using kvpsync_send_map [OF e(2)] e by blast
qed

end
