(* ===== verification/Kvp_Session.thy ===== *)
theory Kvp_Session
  imports Kvp_Reach
begin

text \<open>
  A sender and a receiver of \<open>src/server/libkvpsync\<close> that have just started, and a network between them that
  delivers any packet and any acknowledgement that was sent, at any time, any number of times, or
  never.
\<close>

section \<open>The system\<close>

record net =
  n_send :: kvpsync_send
  n_recv :: kvpsync_recv
  n_sent :: "kvp_update list"
  n_acks :: "kvp_ack list"
  n_events :: "event list"
  n_now :: xtime

text \<open>\<open>n_events\<close> records what reaches the receiver once it has acknowledged the start of a sync.\<close>

datatype cmd =
    Add_key xtime "byte list" "byte list" "nat option"
  | Delete_key "byte list"
  | Run xtime
  | Ack xtime nat
  | Deliver xtime nat
  | Ask xtime "byte list"

definition tick :: "xtime \<Rightarrow> net \<Rightarrow> bool" where
  "tick now n \<longleftrightarrow> n_now n \<le> now \<and> now < 2 ^ 63"

fun enabled :: "cmd \<Rightarrow> net \<Rightarrow> bool" where
  "enabled (Add_key now k v cb) n \<longleftrightarrow> tick now n \<and> room (n_send n) \<and> length k \<le> KVPSYNC_MAX_LEN \<and> length v \<le> KVPSYNC_MAX_LEN"
| "enabled (Delete_key k) n \<longleftrightarrow> room (n_send n)"
| "enabled (Run now) n \<longleftrightarrow> tick now n \<and> room (n_send n)"
| "enabled (Ack now i) n \<longleftrightarrow> tick now n \<and> i < length (n_acks n)"
| "enabled (Deliver now i) n \<longleftrightarrow> tick now n \<and> i < length (n_sent n)"
| "enabled (Ask now k) n \<longleftrightarrow> tick now n"

definition record_event :: "event \<Rightarrow> net \<Rightarrow> event list" where
  "record_event e n = (if r_initial_sync_acked (n_recv n) then n_events n @ [e] else n_events n)"

fun net_step :: "cmd \<Rightarrow> net \<Rightarrow> net option" where
  "net_step (Add_key now k v cb) n = do { s \<leftarrow> kvpsync_send_add_key alloc_ok (n_send n) now k v cb; Some (n\<lparr>n_send := s, n_now := now\<rparr>) }"
| "net_step (Delete_key k) n = do { s \<leftarrow> kvpsync_send_delete_key alloc_ok (n_send n) k; Some (n\<lparr>n_send := s\<rparr>) }"
| "net_step (Run now) n = do {
     (pkt, _, s) \<leftarrow> kvpsync_send_run alloc_ok (n_send n) now;
     Some (n\<lparr>n_send := s, n_sent := n_sent n @ (case pkt of None \<Rightarrow> [] | Some u \<Rightarrow> [u]), n_now := now\<rparr>) }"
| "net_step (Ack now i) n = do { s \<leftarrow> kvpsync_send_handle_ack (n_send n) (n_acks n ! i) now; Some (n\<lparr>n_send := s, n_now := now\<rparr>) }"
| "net_step (Deliver now i) n = do {
     (e, r, ack) \<leftarrow> kvpsync_recv_handle_update alloc_ok (n_recv n) now (n_sent n ! i);
     if e \<noteq> E_NONE then None
     else Some (n\<lparr>n_recv := r, n_acks := n_acks n @ [ack], n_events := record_event (Packet now (n_sent n ! i)) n, n_now := now\<rparr>) }"
| "net_step (Ask now k) n = do {
     (_, r) \<leftarrow> kvpsync_recv_get_value (n_recv n) now k;
     Some (n\<lparr>n_recv := r, n_events := record_event (Question now k) n, n_now := now\<rparr>) }"

definition net_init :: "u32 list \<Rightarrow> u32 list \<Rightarrow> bool \<Rightarrow> xtime \<Rightarrow> net option" where
  "net_init rnd rnd' cb now =
     (case (kvpsync_send_init alloc_ok rnd now cb, kvpsync_recv_init alloc_ok rnd') of
        (Some (E_NONE, Some s), Some (E_NONE, Some r)) \<Rightarrow>
          if now < 2 ^ 63 then Some \<lparr>n_send = s, n_recv = r, n_sent = [], n_acks = [], n_events = [], n_now = now\<rparr> else None
      | _ \<Rightarrow> None)"

fun net_run :: "cmd list \<Rightarrow> net \<Rightarrow> net option" where
  "net_run [] n = Some n"
| "net_run (c # cs) n = (if enabled c n then do { n \<leftarrow> net_step c n; net_run cs n } else None)"

section \<open>The invariant of the system\<close>

text \<open>
  A packet of a sync that is over: the only such sync is the one the sender began before it heard of the
  receiver, and it never got to the data.
\<close>

definition old_pkt :: "net \<Rightarrow> kvp_update \<Rightarrow> bool" where
  "old_pkt n u \<longleftrightarrow> \<not> is_data u \<and> utype u \<noteq> KVP_UPDATE_FLUSH \<and> (\<forall>b. utype u \<noteq> KVP_UPDATE_UNKNOWN b) \<and> update_id u \<noteq> 0 \<and>
     sync_id u \<noteq> s_sync_id (n_send n) \<and> (utype u = KVP_UPDATE_START \<longrightarrow> resync_id u \<noteq> r_recv_id (n_recv n))"

definition hello :: "net \<Rightarrow> kvp_ack" where
  "hello n = \<lparr>ack_sync_id = r_recv_id (n_recv n), ack_update_id = 0\<rparr>"

definition delivered :: "net \<Rightarrow> kvp_update \<Rightarrow> bool" where
  "delivered n u \<longleftrightarrow> u \<in> snd ` set (packets (n_events n))"

definition before_start :: "net \<Rightarrow> bool" where
  "before_start n \<longleftrightarrow> \<not> r_initial_sync_acked (n_recv n) \<and> n_events n = [] \<and> set (n_acks n) \<subseteq> {hello n} \<and>
     s_resync_id (n_send n) \<in> {0, r_recv_id (n_recv n)} \<and> (\<forall>k. kept (n_recv n) k = []) \<and> recv_ok (n_recv n) \<and>
     r_sync_id (n_recv n) = 0 \<and> r_ok_expiry (n_recv n) = 0"

definition after_start :: "net \<Rightarrow> bool" where
  "after_start n \<longleftrightarrow> r_initial_sync_acked (n_recv n) \<and> s_resync_id (n_send n) = r_recv_id (n_recv n) \<and>
     (\<forall>a \<in> set (n_acks n). a = hello n \<or> (\<exists>u \<in> set (n_sent n). a = ack_of u \<and> (utype u = KVP_UPDATE_START \<or> delivered n u))) \<and>
     sorted (map at (n_events n)) \<and> (\<forall>e \<in> set (n_events n). at e \<le> n_now n) \<and> (\<forall>(t, u) \<in> set (packets (n_events n)). u \<in> set (n_sent n) \<and> t < 2 ^ 63) \<and>
     (\<exists>r0. run_events (n_events n) r0 = Some (n_recv n) \<and> recv_ok r0 \<and> (\<forall>k. kept r0 k = []) \<and> r_initial_sync_acked r0 \<and> r_sync_id r0 = 0)"

definition net_at :: "net \<Rightarrow> kvp_update set \<Rightarrow> kvp_ack set \<Rightarrow> bool" where
  "net_at n E K \<longleftrightarrow> send_reach (n_send n) (set (n_sent n)) E K (n_now n) \<and> K \<subseteq> set (n_acks n) \<and>
     (\<forall>u \<in> set (n_sent n). u \<in> E \<or> old_pkt n u) \<and> (s_resync_id (n_send n) = 0 \<longrightarrow> set (n_sent n) \<subseteq> E) \<and>
     recv_reach (set (n_sent n)) (n_recv n) \<and> r_recv_id (n_recv n) \<noteq> 0 \<and>
     (r_ok_expiry (n_recv n) = 0 \<or> (\<exists>u \<in> set (n_sent n). r_ok_expiry (n_recv n) \<le> ok_expiry u)) \<and>
     (before_start n \<or> after_start n)"

lemma net_at_parts:
  assumes "net_at n E K"
  shows "send_reach (n_send n) (set (n_sent n)) E K (n_now n)" "K \<subseteq> set (n_acks n)" "\<forall>u \<in> set (n_sent n). u \<in> E \<or> old_pkt n u"
    "s_resync_id (n_send n) = 0 \<longrightarrow> set (n_sent n) \<subseteq> E" "recv_reach (set (n_sent n)) (n_recv n)" "r_recv_id (n_recv n) \<noteq> 0"
    "r_ok_expiry (n_recv n) = 0 \<or> (\<exists>u \<in> set (n_sent n). r_ok_expiry (n_recv n) \<le> ok_expiry u)" "before_start n \<or> after_start n"
  using assms unfolding net_at_def by - (elim conjE, assumption)+

lemmas net_atD = net_at_parts [rule_format]

lemma recv_reach_mono: "recv_reach P r \<Longrightarrow> P \<subseteq> Q \<Longrightarrow> recv_reach Q r"
  by (induction rule: recv_reach.induct) (blast intro: recv_reach.intros)+

lemma gc_time: "(t :: xtime) < 2 ^ 63 \<Longrightarrow> t + GC_DELAY \<noteq> 0"
proof -
  assume "t < 2 ^ 63"
  then have "unat t < 9223372036854775808" by (simp add: word_less_nat_alt)
  then have "unat (t + GC_DELAY) = unat t + 255" by (simp add: GC_DELAY_def unat_word_ariths)
  then show ?thesis by (metis add_eq_0_iff_both_eq_0 unat_0 zero_neq_numeral)
qed

text \<open>The packets of the current sync are honest.\<close>

lemma honest_log:
  assumes I: "send_inv s A E K t F" and o: "\<forall>u \<in> A. u \<in> E \<or> \<not> is_data u \<and> (\<forall>b. utype u \<noteq> KVP_UPDATE_UNKNOWN b)"
  shows "honest A"
proof -
  have lg: "logged s (log_map s) F K" using I sender_invD(4) by (auto simp: send_inv_def)
  obtain hi cur where "log_run (s_sync_id s) (filter is_data F) = Some (hi, cur)" using loggedD(1) [OF lg] by blast
  note L = log_run_inv [OF this]
  have F: "u\<lparr>ok_expiry := 0\<rparr> \<in> set F" if "u \<in> E" for u using I that by (simp add: send_inv_def)
  have D: "u\<lparr>ok_expiry := 0\<rparr> \<in> set (filter is_data F)" if "u \<in> A" "is_data u" for u using F o that by auto
  have "\<forall>b. utype u \<noteq> KVP_UPDATE_UNKNOWN b" if u: "u \<in> A" for u
  proof (cases "u \<in> E")
    case True
    from loggedD(2) [OF lg F [OF True]] show ?thesis by (simp add: plain_def)
  qed (use o u in blast)
  moreover have "update_id u \<noteq> 0" if "u \<in> A" "is_data u" for u using log_invD(1) [OF L D [OF that]] by simp
  moreover have "delete_id p = delete_id q" if "p \<in> A" "q \<in> A" "is_data p" "is_data q" "update_id p = update_id q" for p q
  proof -
    have "p\<lparr>ok_expiry := 0\<rparr> = q\<lparr>ok_expiry := 0\<rparr>" using log_invD(2) [OF L D [OF that(1,3)] D [OF that(2,4)]] that(5) by simp
    from arg_cong [OF this, of delete_id] show ?thesis by simp
  qed
  moreover have "delete_id q = 0" if "p \<in> A" "q \<in> A" "is_data p" "is_data q" "delete_id p \<noteq> 0" "delete_id p = update_id q" for p q
  proof -
    have "delete_id (p\<lparr>ok_expiry := 0\<rparr>) \<noteq> 0" using that(5) by simp
    from log_invD(3) [OF L D [OF that(1,3)] this] obtain p0 where p0: "p0 \<in> set (filter is_data F)" "update_id p0 = delete_id p" "delete_id p0 = 0" by auto
    have "p0 = q\<lparr>ok_expiry := 0\<rparr>" using log_invD(2) [OF L p0(1) D [OF that(2,4)]] p0(2) that(6) by simp
    then show ?thesis using p0(3) by simp
  qed
  ultimately show ?thesis unfolding honest_def by blast
qed

lemma net_honest:
  assumes "net_at n E K"
  shows "honest (set (n_sent n))"
proof -
  obtain F where F: "send_inv (n_send n) (set (n_sent n)) E K (n_now n) F" using send_reach_inv [OF net_atD(1) [OF assms]] by blast
  show ?thesis by (rule honest_log [OF F]) (use net_atD(3) [OF assms] in \<open>auto simp: old_pkt_def\<close>)
qed

lemma sent_id:
  assumes "net_at n E K" "u \<in> set (n_sent n)"
  shows "update_id u \<noteq> 0"
proof (cases "u \<in> E")
  case True
  obtain F where F: "send_inv (n_send n) (set (n_sent n)) E K (n_now n) F" using send_reach_inv [OF net_atD(1) [OF assms(1)]] by blast
  then have "u\<lparr>ok_expiry := 0\<rparr> \<in> set F" using True by (simp add: send_inv_def)
  moreover have "logged (n_send n) (log_map (n_send n)) F K" using F sender_invD(4) by (auto simp: send_inv_def)
  ultimately show ?thesis using loggedD(2) by fastforce
next
  case False
  then show ?thesis using net_atD(3) [OF assms] by (auto simp: old_pkt_def)
qed

section \<open>Steps of the sender\<close>

lemma sender_move:
  assumes n: "net_at n E K" and s': "s_sync_id s' = s_sync_id (n_send n)" "s_resync_id s' = s_resync_id (n_send n)"
    and r: "send_reach s' (set (n_sent n) \<union> set us) (E \<union> set us) K' now" "K' \<subseteq> set (n_acks n)" "n_now n \<le> now"
  shows "net_at (n\<lparr>n_send := s', n_sent := n_sent n @ us, n_now := now\<rparr>) (E \<union> set us) K'"
proof -
  let ?n = "n\<lparr>n_send := s', n_sent := n_sent n @ us, n_now := now\<rparr>"
  have h: "hello ?n = hello n" "delivered ?n = delivered n" by (simp_all add: hello_def delivered_def fun_eq_iff)
  have o: "old_pkt ?n = old_pkt n" using s' by (simp add: old_pkt_def fun_eq_iff)
  have "before_start ?n \<or> after_start ?n"
  proof (rule disjE [OF net_atD(8) [OF n]])
    assume "before_start n"
    then show ?thesis using s' h unfolding before_start_def by simp
  next
    assume a: "after_start n"
    have "\<forall>e \<in> set (n_events n). at e \<le> now" using a r(3) unfolding after_start_def by (meson order_trans)
    then have "after_start ?n" using a s' unfolding after_start_def h by (auto simp del: h)
    then show ?thesis ..
  qed
  moreover have "recv_reach (set (n_sent ?n)) (n_recv ?n)" using recv_reach_mono [OF net_atD(5) [OF n]] by simp
  ultimately show ?thesis using r net_at_parts(3,4,6,7) [OF n] s' unfolding net_at_def o by auto
qed

lemma set_pkt: "set (case pkt of None \<Rightarrow> [] | Some u \<Rightarrow> [u]) = set_option pkt"
  by (cases pkt) auto

lemma net_sender: "net_at n E K \<Longrightarrow> \<exists>F. send_inv (n_send n) (set (n_sent n)) E K (n_now n) F \<and> sender_inv (n_send n) F K (set (n_sent n)) (n_now n)"
  using send_reach_inv [OF net_atD(1)] unfolding send_inv_def by blast

text \<open>The sender learns of the receiver, and starts again.\<close>

lemma resync_move:
  assumes n: "net_at n E K" and a: "a \<in> set (n_acks n)" "ack_update_id a = 0" "ack_sync_id a \<noteq> s_resync_id (n_send n)"
    and s': "s_resync_id s' = ack_sync_id a" "s_sync_id s' \<noteq> s_sync_id (n_send n)" and r: "send_reach s' (set (n_sent n)) {} (insert a K) now" "n_now n \<le> now"
  shows "net_at (n\<lparr>n_send := s', n_now := now\<rparr>) {} (insert a K)"
proof -
  let ?n = "n\<lparr>n_send := s', n_now := now\<rparr>"
  have "\<not> after_start n"
  proof
    assume as: "after_start n"
    then have "a = hello n \<or> (\<exists>u \<in> set (n_sent n). a = ack_of u)" using a(1) unfolding after_start_def by blast
    then show False
    proof
      assume "a = hello n"
      then show False using a(3) as by (simp add: hello_def after_start_def)
    next
      assume "\<exists>u \<in> set (n_sent n). a = ack_of u"
      then show False using a(2) sent_id [OF n] by (auto simp: ack_of_def)
    qed
  qed
  then have bs: "before_start n" using net_atD(8) [OF n] by blast
  then have ah: "a = hello n" using a(1) by (auto simp: before_start_def)
  have z: "s_resync_id (n_send n) = 0" using bs a(3) ah by (auto simp: before_start_def hello_def)
  obtain F where F: "send_inv (n_send n) (set (n_sent n)) E K (n_now n) F" "sender_inv (n_send n) F K (set (n_sent n)) (n_now n)" using net_sender [OF n] by blast
  note st = sender_invD(2) [OF F(2)] and lg = sender_invD(4) [OF F(2)]
  have nd: "\<not> s_start_done (n_send n)"
  proof
    assume "s_start_done (n_send n)"
    then obtain p where p: "p \<in> set F" "ack_of p \<in> K" using stagesD(4,9) [OF st] by blast
    then have "ack_of p = hello n" using net_atD(2) [OF n] bs by (auto simp: before_start_def)
    then show False using loggedD(2) [OF lg p(1)] by (simp add: ack_of_def hello_def)
  qed
  have old: "old_pkt ?n u" if u: "u \<in> set (n_sent n)" for u
  proof -
    have uF: "u\<lparr>ok_expiry := 0\<rparr> \<in> set F" using net_atD(4) [OF n z] u F(1) by (auto simp: send_inv_def)
    have "\<not> is_data u" "utype u \<noteq> KVP_UPDATE_FLUSH" using stagesD(6) [OF st nd uF] by simp_all
    moreover have "\<forall>b. utype u \<noteq> KVP_UPDATE_UNKNOWN b" "update_id u \<noteq> 0" "sync_id u = s_sync_id (n_send n)" using loggedD(2) [OF lg uF] by (simp_all add: plain_def)
    moreover have "utype u = KVP_UPDATE_START \<longrightarrow> resync_id u = 0" using stagesD(7) [OF st uF] z by simp
    ultimately show ?thesis using s'(2) net_atD(6) [OF n] by (auto simp: old_pkt_def)
  qed
  have "before_start ?n" using bs s'(1) ah unfolding before_start_def hello_def by simp
  moreover have "s_resync_id s' \<noteq> 0" using s'(1) ah net_atD(6) [OF n] by (simp add: hello_def)
  ultimately show ?thesis using r old a(1) net_at_parts(2,5-7) [OF n] unfolding net_at_def by auto
qed

lemma ack_step_ok:
  assumes n: "net_at n E K" and e: "enabled (Ack now i) n"
  shows "\<exists>n' E' K'. net_step (Ack now i) n = Some n' \<and> net_at n' E' K'"
proof -
  let ?a = "n_acks n ! i"
  have a: "?a \<in> set (n_acks n)" and t: "n_now n \<le> now" "now < 2 ^ 63" using e by (simp_all add: tick_def)
  obtain F where F: "sender_inv (n_send n) F K (set (n_sent n)) (n_now n)" using net_sender [OF n] by blast
  from ack_kv [OF F, of ?a now] obtain s' where s': "kvpsync_send_handle_ack (n_send n) ?a now = Some s'"
    "if ack_update_id ?a = 0 \<and> ack_sync_id ?a \<noteq> s_resync_id (n_send n) then s_resync_id s' = ack_sync_id ?a \<and> s_sync_id s' \<noteq> s_sync_id (n_send n)
     else s_resync_id s' = s_resync_id (n_send n) \<and> s_sync_id s' = s_sync_id (n_send n)" by blast
  note r = send_reach.ack [OF net_atD(1) [OF n] t s'(1)]
  show ?thesis
  proof (cases "ack_update_id ?a = 0 \<and> ack_sync_id ?a \<noteq> s_resync_id (n_send n)")
    case True
    then have "net_at (n\<lparr>n_send := s', n_now := now\<rparr>) {} (insert ?a K)" using resync_move [OF n a _ _ _ _ _ t(1)] s'(2) r by simp
    then show ?thesis using s'(1) by auto
  next
    case False
    then have "net_at (n\<lparr>n_send := s', n_sent := n_sent n @ [], n_now := now\<rparr>) (E \<union> set []) (insert ?a K)"
      using s'(2) r t(1) a net_atD(2) [OF n] by (intro sender_move [OF n]) auto
    then show ?thesis using s'(1) by auto
  qed
qed

lemma sender_step_ok:
  assumes n: "net_at n E K" and e: "enabled c n" and c: "c = Add_key now k v cb \<or> c = Delete_key k \<or> c = Run now"
  shows "\<exists>n' E' K'. net_step c n = Some n' \<and> net_at n' E' K'"
proof -
  obtain F where F: "sender_inv (n_send n) F K (set (n_sent n)) (n_now n)" using net_sender [OF n] by blast
  note r = net_atD(1) [OF n] and K = net_atD(2) [OF n]
  from c consider (add) "c = Add_key now k v cb" | (del) "c = Delete_key k" | (run) "c = Run now" by blast
  then show ?thesis
  proof cases
    case add
    then have e': "n_now n \<le> now" "now < 2 ^ 63" "room (n_send n)" "length k \<le> KVPSYNC_MAX_LEN" "length v \<le> KVPSYNC_MAX_LEN" using e by (auto simp: tick_def)
    from add_key_kv [OF F e', of cb] obtain s' where s': "kvpsync_send_add_key alloc_ok (n_send n) now k v cb = Some s'" "s_sync_id s' = s_sync_id (n_send n)" "s_resync_id s' = s_resync_id (n_send n)" by blast
    have "net_at (n\<lparr>n_send := s', n_sent := n_sent n @ [], n_now := now\<rparr>) (E \<union> set []) K"
      using send_reach.add_key [OF r e'(1-3) s'(1)] e'(1) K by (intro sender_move [OF n s'(2,3)]) auto
    then show ?thesis using s'(1) add by auto
  next
    case del
    then have e': "room (n_send n)" using e by simp
    from delete_key_kv [OF F e', of k] obtain s' where s': "kvpsync_send_delete_key alloc_ok (n_send n) k = Some s'" "s_sync_id s' = s_sync_id (n_send n)" "s_resync_id s' = s_resync_id (n_send n)" by blast
    have "net_at (n\<lparr>n_send := s', n_sent := n_sent n @ [], n_now := n_now n\<rparr>) (E \<union> set []) K"
      using send_reach.delete_key [OF r e' s'(1)] K by (intro sender_move [OF n s'(2,3)]) auto
    then show ?thesis using s'(1) del by auto
  next
    case run
    then have e': "n_now n \<le> now" "now < 2 ^ 63" "room (n_send n)" using e by (auto simp: tick_def)
    from run_kv [OF F e'] obtain pkt x s' where s': "kvpsync_send_run alloc_ok (n_send n) now = Some (pkt, x, s')" "s_sync_id s' = s_sync_id (n_send n)" "s_resync_id s' = s_resync_id (n_send n)" by blast
    have "net_at (n\<lparr>n_send := s', n_sent := n_sent n @ (case pkt of None \<Rightarrow> [] | Some u \<Rightarrow> [u]), n_now := now\<rparr>) (E \<union> set (case pkt of None \<Rightarrow> [] | Some u \<Rightarrow> [u])) K"
      using send_reach.run [OF r e' s'(1)] e'(1) K by (intro sender_move [OF n s'(2,3)]) (simp_all add: set_pkt)
    then show ?thesis using s'(1) run by auto
  qed
qed

section \<open>Steps of the receiver\<close>

lemma late_reply: "kvpsync_recv_get_value r now k = Some (reply, r') \<Longrightarrow> \<not> now < r_ok_expiry r' \<Longrightarrow> reply \<noteq> NULL"
  by (auto simp: kvpsync_recv_get_value_def Let_def split: option.splits prod.splits if_splits)

lemma net_recv_inv: "net_at n E K \<Longrightarrow> recv_inv (set (n_sent n)) (n_recv n)"
  using reach_inv [OF net_atD(5) net_honest] by blast

lemma ask_step_ok:
  assumes n: "net_at n E K" and e: "enabled (Ask now k) n"
  shows "\<exists>n'. net_step (Ask now k) n = Some n' \<and> net_at n' E K"
proof -
  have t: "n_now n \<le> now" "now < 2 ^ 63" using e by (simp_all add: tick_def)
  have ok: "recv_ok (n_recv n)" using net_recv_inv [OF n] by (simp add: recv_inv_def)
  from get_value_ok [OF ok, of now k] obtain rep r' where r': "kvpsync_recv_get_value (n_recv n) now k = Some (rep, r')" "recv_ok r'" "shrunk now (n_recv n) r'" by blast
  have hd: "r_recv_id r' = r_recv_id (n_recv n)" "r_sync_id r' = r_sync_id (n_recv n)" "r_initial_sync_acked r' = r_initial_sync_acked (n_recv n)" "r_ok_expiry r' = r_ok_expiry (n_recv n)"
    using r'(3) by (simp_all add: shrunk_def same_head_def)
  let ?n = "n\<lparr>n_recv := r', n_events := record_event (Question now k) n, n_now := now\<rparr>"
  have h: "hello ?n = hello n" using hd by (simp add: hello_def)
  have o: "old_pkt ?n = old_pkt n" using hd by (simp add: old_pkt_def fun_eq_iff)
  have p: "packets (record_event (Question now k) n) = packets (n_events n)" by (simp add: record_event_def packets_append)
  then have dv: "delivered ?n = delivered n" by (simp add: delivered_def fun_eq_iff)
  have sr: "send_reach (n_send n) (set (n_sent n)) E K now" using send_reach.later [OF net_atD(1) [OF n] t] .
  have rr: "recv_reach (set (n_sent n)) r'" using recv_reach.question [OF net_atD(5) [OF n] r'(1)] .
  have "before_start ?n \<or> after_start ?n"
  proof (rule disjE [OF net_atD(8) [OF n]])
    assume b: "before_start n"
    moreover have "kept r' j = []" for j using b r'(3) unfolding before_start_def shrunk_def by fastforce
    ultimately have "before_start ?n" using h hd r'(2) unfolding before_start_def by (simp add: record_event_def)
    then show ?thesis ..
  next
    assume a: "after_start n"
    then have ack: "r_initial_sync_acked (n_recv n)" by (simp add: after_start_def)
    obtain r0 where r0: "run_events (n_events n) r0 = Some (n_recv n)" "recv_ok r0" "\<forall>k. kept r0 k = []" "r_initial_sync_acked r0" "r_sync_id r0 = 0" using a unfolding after_start_def by blast
    have "run_events (n_events ?n) r0 = Some r'" using r0(1) r'(1) ack by (simp add: record_event_def run_events_append)
    moreover have "sorted (map at (n_events ?n))" "\<forall>e \<in> set (n_events ?n). at e \<le> now"
      using a t(1) ack unfolding after_start_def by (auto simp: record_event_def sorted_append intro: order_trans)
    ultimately have "after_start ?n" using a r0 hd h dv p unfolding after_start_def by auto
    then show ?thesis ..
  qed
  then have "net_at ?n E K" using net_at_parts(2-4,6,7) [OF n] sr rr hd unfolding net_at_def o by simp
  then show ?thesis using r'(1) by simp
qed

text \<open>A packet that reaches a receiver before the start of a sync: it is answered by the receiver's number, or starts it.\<close>

lemma deliver_before:
  assumes n: "net_at n E K" and b: "before_start n" and t: "n_now n \<le> now" "now < 2 ^ 63" and i: "i < length (n_sent n)"
  shows "\<exists>n'. net_step (Deliver now i) n = Some n' \<and> net_at n' E K"
proof -
  let ?u = "n_sent n ! i" and ?r = "n_recv n"
  have u: "?u \<in> set (n_sent n)" using i by simp
  have na: "\<not> r_initial_sync_acked ?r" using b by (simp add: before_start_def)
  have sr: "send_reach (n_send n) (set (n_sent n)) E K now" using send_reach.later [OF net_atD(1) [OF n] t] .
  let ?go = "utype ?u = KVP_UPDATE_START \<and> resync_id ?u = r_recv_id ?r"
  define r' where "r' = (if ?go then ?r\<lparr>r_initial_sync_acked := True\<rparr> else ?r)"
  define ack where "ack = (if ?go then ack_of ?u else hello n)"
  have hu: "kvpsync_recv_handle_update alloc_ok ?r now ?u = Some (E_NONE, r', ack)"
    using na by (auto simp: kvpsync_recv_handle_update_def Let_def r'_def ack_def hello_def ack_of_def)
  let ?n = "n\<lparr>n_recv := r', n_acks := n_acks n @ [ack], n_events := record_event (Packet now ?u) n, n_now := now\<rparr>"
  have st: "net_step (Deliver now i) n = Some ?n" using hu by simp
  have hd: "r_recv_id r' = r_recv_id ?r" "r_ok_expiry r' = r_ok_expiry ?r" by (simp_all add: r'_def)
  have o: "old_pkt ?n = old_pkt n" using hd by (simp add: old_pkt_def fun_eq_iff)
  have h: "hello ?n = hello n" using hd by (simp add: hello_def)
  have ev: "n_events ?n = []" using b na by (simp add: record_event_def before_start_def)
  have rr: "recv_reach (set (n_sent n)) r'" using recv_reach.packet [OF net_atD(5) [OF n] u gc_time [OF t(2)] hu] .
  have "before_start ?n \<or> after_start ?n"
  proof (cases ?go)
    case False
    then have "before_start ?n" using b h ev unfolding before_start_def by (simp add: r'_def ack_def)
    then show ?thesis ..
  next
    case True
    have "?u \<in> E"
    proof (rule ccontr)
      assume "?u \<notin> E"
      then have "old_pkt n ?u" using net_atD(3) [OF n u] by blast
      then show False using True by (simp add: old_pkt_def)
    qed
    obtain F where F: "send_inv (n_send n) (set (n_sent n)) E K (n_now n) F" "sender_inv (n_send n) F K (set (n_sent n)) (n_now n)" using net_sender [OF n] by blast
    have "?u\<lparr>ok_expiry := 0\<rparr> \<in> set F" using F(1) \<open>?u \<in> E\<close> by (simp add: send_inv_def)
    from stagesD(7) [OF sender_invD(2) [OF F(2)] this] have rs: "s_resync_id (n_send n) = r_recv_id ?r" using True by simp
    have kp: "kept r' = kept ?r" by (rule kept_mem) (simp_all add: r'_def)
    have "recv_ok r'" "\<forall>k. kept r' k = []" "r_sync_id r' = 0" "r_initial_sync_acked r'" using b True kp by (simp_all add: before_start_def r'_def recv_ok_def)
    then have r0: "\<exists>r0. run_events (n_events ?n) r0 = Some r' \<and> recv_ok r0 \<and> (\<forall>k. kept r0 k = []) \<and> r_initial_sync_acked r0 \<and> r_sync_id r0 = 0"
      unfolding ev by (intro exI [of _ r']) simp
    have acks: "a = hello n \<or> (\<exists>u \<in> set (n_sent n). a = ack_of u \<and> utype u = KVP_UPDATE_START)" if "a \<in> set (n_acks ?n)" for a
      using that b True u by (auto simp: before_start_def ack_def)
    have "after_start ?n" unfolding after_start_def h using r0 rs True ev acks by (auto simp: r'_def)
    then show ?thesis ..
  qed
  moreover have "K \<subseteq> set (n_acks ?n)" using net_atD(2) [OF n] by auto
  ultimately have "net_at ?n E K" using net_at_parts(3,4,6,7) [OF n] sr rr hd unfolding net_at_def o by simp
  then show ?thesis using st by blast
qed

lemma deliver_after:
  assumes n: "net_at n E K" and a: "after_start n" and t: "n_now n \<le> now" "now < 2 ^ 63" and i: "i < length (n_sent n)"
  shows "\<exists>n'. net_step (Deliver now i) n = Some n' \<and> net_at n' E K"
proof -
  let ?u = "n_sent n ! i" and ?r = "n_recv n"
  have u: "?u \<in> set (n_sent n)" using i by simp
  have ack: "r_initial_sync_acked ?r" using a by (simp add: after_start_def)
  have sr: "send_reach (n_send n) (set (n_sent n)) E K now" using send_reach.later [OF net_atD(1) [OF n] t] .
  from handle_update_effect [OF net_recv_inv [OF n] net_honest [OF n] u gc_time [OF t(2)] ack] obtain r' where
    r': "kvpsync_recv_handle_update alloc_ok ?r now ?u = Some (E_NONE, r', ack_of ?u)" "r_initial_sync_acked r'" "r_recv_id r' = r_recv_id ?r"
      "r_ok_expiry r' \<le> max (r_ok_expiry ?r) (ok_expiry ?u)" by (auto simp: ack_of_def)
  let ?n = "n\<lparr>n_recv := r', n_acks := n_acks n @ [ack_of ?u], n_events := n_events n @ [Packet now ?u], n_now := now\<rparr>"
  have st: "net_step (Deliver now i) n = Some ?n" using r'(1) ack by (simp add: record_event_def)
  have o: "old_pkt ?n = old_pkt n" using r'(3) by (simp add: old_pkt_def fun_eq_iff)
  have h: "hello ?n = hello n" using r'(3) by (simp add: hello_def)
  have dv: "delivered ?n = (\<lambda>v. v = ?u \<or> delivered n v)" by (auto simp: delivered_def packets_append fun_eq_iff)
  have rr: "recv_reach (set (n_sent n)) r'" using recv_reach.packet [OF net_atD(5) [OF n] u gc_time [OF t(2)] r'(1)] .
  obtain r0 where r0: "run_events (n_events n) r0 = Some ?r" "recv_ok r0" "\<forall>k. kept r0 k = []" "r_initial_sync_acked r0" "r_sync_id r0 = 0" using a unfolding after_start_def by blast
  have "run_events (n_events ?n) r0 = Some r'" using r0(1) r'(1) by (simp add: run_events_append)
  then have "\<exists>r0. run_events (n_events ?n) r0 = Some (n_recv ?n) \<and> recv_ok r0 \<and> (\<forall>k. kept r0 k = []) \<and> r_initial_sync_acked r0 \<and> r_sync_id r0 = 0" using r0(2-) by (intro exI [of _ r0]) simp
  moreover have "sorted (map at (n_events ?n))" "\<forall>e \<in> set (n_events ?n). at e \<le> now"
    using a t(1) unfolding after_start_def by (auto simp: sorted_append intro: order_trans)
  moreover have "\<forall>(t, u) \<in> set (packets (n_events ?n)). u \<in> set (n_sent n) \<and> t < 2 ^ 63" using a u t(2) unfolding after_start_def by (auto simp: packets_append)
  moreover have "a' = hello n \<or> (\<exists>u \<in> set (n_sent n). a' = ack_of u \<and> (utype u = KVP_UPDATE_START \<or> delivered ?n u))" if "a' \<in> set (n_acks ?n)" for a'
    using that a u dv unfolding after_start_def by auto
  ultimately have as: "after_start ?n" using a r'(2,3) h unfolding after_start_def by auto
  have ex: "r_ok_expiry r' = 0 \<or> (\<exists>u \<in> set (n_sent n). r_ok_expiry r' \<le> ok_expiry u)"
  proof (rule disjE [OF net_atD(7) [OF n]])
    assume "r_ok_expiry ?r = 0"
    then show ?thesis using r'(4) u by (auto simp: max_def split: if_splits)
  next
    assume "\<exists>u \<in> set (n_sent n). r_ok_expiry ?r \<le> ok_expiry u"
    then show ?thesis using r'(4) u by (meson le_max_iff_disj order_trans)
  qed
  have "K \<subseteq> set (n_acks ?n)" using net_atD(2) [OF n] by auto
  then have "net_at ?n E K" using net_at_parts(3,4,6) [OF n] sr rr r'(3) as ex unfolding net_at_def o by simp
  then show ?thesis using st by blast
qed

definition net_inv :: "net \<Rightarrow> bool" where
  "net_inv n \<longleftrightarrow> (\<exists>E K. net_at n E K)"

lemma net_step_ok:
  assumes "net_inv n" "enabled c n"
  shows "\<exists>n'. net_step c n = Some n' \<and> net_inv n'"
proof -
  obtain E K where n: "net_at n E K" using assms(1) by (auto simp: net_inv_def)
  show ?thesis
  proof (cases c)
    case (Deliver now i)
    then have "n_now n \<le> now" "now < 2 ^ 63" "i < length (n_sent n)" using assms(2) by (auto simp: tick_def)
    with deliver_before [OF n] deliver_after [OF n] net_atD(8) [OF n] show ?thesis unfolding net_inv_def Deliver by blast
  next
    case (Ack now i)
    with ack_step_ok [OF n, of now i] assms(2) show ?thesis unfolding net_inv_def by blast
  next
    case (Ask now k)
    with ask_step_ok [OF n, of now k] assms(2) show ?thesis unfolding net_inv_def by blast
  next
    case (Add_key now k v b)
    from sender_step_ok [OF n assms(2), of now k v b] Add_key show ?thesis unfolding net_inv_def by blast
  next
    case (Delete_key k)
    from sender_step_ok [OF n assms(2), of 0 k] Delete_key show ?thesis unfolding net_inv_def by blast
  next
    case (Run now)
    from sender_step_ok [OF n assms(2), of now] Run show ?thesis unfolding net_inv_def by blast
  qed
qed

lemma net_run_inv: "net_run cs n = Some n' \<Longrightarrow> net_inv n \<Longrightarrow> net_inv n'"
proof (induction cs arbitrary: n)
  case (Cons c cs)
  then have e: "enabled c n" by (simp split: if_splits)
  from net_step_ok [OF Cons.prems(2) e] obtain n1 where "net_step c n = Some n1" "net_inv n1" by blast
  then show ?case using Cons e by simp
qed simp

lemma recv_id_nonzero: "kvpsync_recv_init alloc_ok rnd = Some (E_NONE, Some r) \<Longrightarrow> r_recv_id r \<noteq> 0"
proof -
  have "nonzero_id xs = Some i \<Longrightarrow> i \<noteq> 0" for xs :: "u32 list" and i by (induction xs) (auto split: if_splits)
  then show "kvpsync_recv_init alloc_ok rnd = Some (E_NONE, Some r) \<Longrightarrow> r_recv_id r \<noteq> 0" by (auto simp: kvpsync_recv_init_def split: option.splits prod.splits)
qed

lemma net_init_inv:
  assumes "net_init rnd rnd' cb now = Some n"
  shows "net_inv n"
proof -
  obtain s r where sr: "kvpsync_send_init alloc_ok rnd now cb = Some (E_NONE, Some s)" "kvpsync_recv_init alloc_ok rnd' = Some (E_NONE, Some r)" "now < 2 ^ 63"
    "n = \<lparr>n_send = s, n_recv = r, n_sent = [], n_acks = [], n_events = [], n_now = now\<rparr>"
    using assms by (auto simp: net_init_def split: option.splits prod.splits derr_type.splits if_splits)
  have r: "\<not> r_initial_sync_acked r" "r_sync_id r = 0" "r_ok_expiry r = 0" using sr(2) by (auto simp: kvpsync_recv_init_def split: option.splits prod.splits)
  have s: "s_resync_id s = 0" using sr(1) by (auto simp: kvpsync_send_init_def split: option.splits prod.splits)
  have "recv_ok r" "\<forall>k. kept r k = []" using boot_inv [OF sr(2)] by (auto simp: recv_inv_def)
  then have "before_start n" using r s sr(4) by (simp add: before_start_def)
  then have "net_at n {} {}" using send_reach.init [OF sr(1,3)] recv_reach.boot [OF sr(2)] recv_id_nonzero [OF sr(2)] r sr(4) by (simp add: net_at_def)
  then show ?thesis by (auto simp: net_inv_def)
qed

section \<open>The protocol\<close>

lemma snd_stamp: "send_ok s {} {} \<Longrightarrow> map_option snd (map_option (stamp s) (cached s k)) = kv s k"
proof (cases "cached s k")
  case (Some a)
  assume ok: "send_ok s {} {}"
  from cached_mem [OF ok Some] show ?thesis using Some by (auto simp: kv_def stamp_def copy_def)
qed (simp add: kv_def)

text \<open>An acknowledged entry of the log was delivered.\<close>

lemma acked_delivered:
  assumes n: "net_at n E K" and a: "after_start n" and F: "send_inv (n_send n) (set (n_sent n)) E K (n_now n) F" and p: "p \<in> set F" "ack_of p \<in> K" "utype p \<noteq> KVP_UPDATE_START"
  shows "\<exists>u \<in> set (n_sent n). delivered n u \<and> u\<lparr>ok_expiry := 0\<rparr> = p"
proof -
  have I: "sender_inv (n_send n) F K (set (n_sent n)) (n_now n)" using F by (simp add: send_inv_def)
  note lg = sender_invD(4) [OF I]
  have "ack_of p \<noteq> hello n" using loggedD(2) [OF lg p(1)] by (simp add: ack_of_def hello_def)
  then obtain u where u: "u \<in> set (n_sent n)" "ack_of p = ack_of u" "utype u = KVP_UPDATE_START \<or> delivered n u"
    using a p(2) net_atD(2) [OF n] unfolding after_start_def by blast
  have ids: "sync_id u = s_sync_id (n_send n)" "update_id u = update_id p" using u(2) loggedD(2) [OF lg p(1)] by (simp_all add: ack_of_def)
  then have "u \<in> E" using net_atD(3) [OF n u(1)] by (auto simp: old_pkt_def)
  then have "u\<lparr>ok_expiry := 0\<rparr> \<in> set F" using F by (simp add: send_inv_def)
  from loggedD(3) [OF lg this p(1)] ids(2) have up: "u\<lparr>ok_expiry := 0\<rparr> = p" by simp
  have "utype u = utype p" using arg_cong [OF up, of utype] by simp
  then show ?thesis using u up p(3) by auto
qed

lemma timely_sub:
  assumes "timely s Q H" "\<And>p. p \<in> P \<Longrightarrow> \<exists>u \<in> Q. update_id u = update_id p \<and> delete_id u = delete_id p"
  shows "timely s P H"
  unfolding timely_iff
proof (intro allI impI)
  fix t u q a b
  assume *: "(t, u) \<in> set H \<and> q \<in> P \<and> is_data u \<and> sync_id u = s \<and> delete_id q \<noteq> 0 \<and> (update_id u = update_id q \<or> update_id u = delete_id q) \<and>
    first_time s H (update_id q) = Some a \<and> first_time s H (delete_id q) = Some b"
  then obtain v where "v \<in> Q" "update_id v = update_id q" "delete_id v = delete_id q" using assms(2) by blast
  with * show "t < max a b + GC_DELAY" using assms(1) [unfolded timely_iff, rule_format, of t u v a b] by simp
qed

lemma session_answers:
  assumes n: "net_inv n" and y: "s_synced (n_send n)" "elem_ids (s_unacked (n_send n)) = []"
    and tm: "timely (s_sync_id (n_send n)) (set (n_sent n)) (packets (n_events n))"
  shows "\<exists>r'. kvpsync_recv_get_value (n_recv n) now k = Some (expected (n_recv n) now (kv (n_send n) k), r')"
proof -
  let ?s = "n_send n" and ?A = "set (n_sent n)"
  obtain E K where at: "net_at n E K" using n by (auto simp: net_inv_def)
  obtain F where F: "send_inv ?s ?A E K (n_now n) F" "sender_inv ?s F K ?A (n_now n)" using net_sender [OF at] by blast
  note lg = sender_invD(4) [OF F(2)] and st = sender_invD(2) [OF F(2)] and ok = sender_invD(3) [OF F(2)]
  have ss: "s_sync_sent ?s" and fl: "\<exists>p \<in> set F. utype p = KVP_UPDATE_FLUSH" using stagesD(2) [OF st y(1)] by blast+
  have w: "waiting ?s i = None" for i using held [OF send_okD(2) [OF ok], of "Uint i"] y(2) by (cases "waiting ?s i") auto
  have acked: "ack_of p \<in> K" if "p \<in> set F" for p using loggedD(5) [OF lg that] w by simp
  have as: "after_start n"
  proof -
    obtain p where "p \<in> set F" using fl by blast
    from acked [OF this] loggedD(2) [OF lg this] have "ack_of p \<in> set (n_acks n)" "ack_of p \<noteq> hello n" using net_atD(2) [OF at] by (auto simp: ack_of_def hello_def)
    then show ?thesis using net_atD(8) [OF at] by (auto simp: before_start_def)
  qed
  obtain hi where L: "log_run (s_sync_id ?s) (filter is_data F) = Some (hi, \<lambda>k. map_option (stamp ?s) (cached ?s k))" using loggedD(1) [OF lg] ss by (auto simp: log_map_def)
  note I = log_run_inv [OF L]
  let ?P = "set (filter is_data F)"
  have got: "\<exists>t u. (t, u) \<in> set (packets (n_events n)) \<and> u \<in> ?A \<and> u\<lparr>ok_expiry := 0\<rparr> = p" if "p \<in> set F" "utype p \<noteq> KVP_UPDATE_START" for p
    using acked_delivered [OF at as F(1) that(1) acked [OF that(1)] that(2)] unfolding delivered_def by fastforce
  have sel: "update_id u = update_id p \<and> delete_id u = delete_id p \<and> sync_id u = sync_id p \<and> utype u = utype p \<and> is_data u = is_data p \<and> ukey u = ukey p \<and> uval u = uval p"
    if "u\<lparr>ok_expiry := 0\<rparr> = p" for u p using that by (auto simp: is_data_def ukey_def uval_def)
  have tmP: "timely (s_sync_id ?s) ?P (packets (n_events n))"
  proof (rule timely_sub [OF tm])
    fix p assume "p \<in> ?P"
    then have "p \<in> set F" "utype p \<noteq> KVP_UPDATE_START" by (auto simp: is_data_def)
    from got [OF this] sel show "\<exists>u \<in> ?A. update_id u = update_id p \<and> delete_id u = delete_id p" by blast
  qed
  have inF: "u\<lparr>ok_expiry := 0\<rparr> \<in> set F" if "u \<in> ?A" "is_data u \<or> utype u = KVP_UPDATE_FLUSH" for u
    using net_atD(3) [OF at that(1)] that(2) F(1) by (auto simp: old_pkt_def send_inv_def)
  have of: "of_sync (s_sync_id ?s) ?P u" if "u \<in> ?A" for u
  proof -
    have "\<exists>p \<in> ?P. copy_of p u" if d: "is_data u"
      using inF [OF \<open>u \<in> ?A\<close>] d by (intro bexI [of _ "u\<lparr>ok_expiry := 0\<rparr>"]) (auto simp: copy_of_def)
    moreover have "sync_id u = s_sync_id ?s" if f: "utype u = KVP_UPDATE_FLUSH" using inF [OF \<open>u \<in> ?A\<close>] f loggedD(2) [OF lg] by fastforce
    ultimately show ?thesis by (simp add: of_sync_def)
  qed
  obtain r0 where r0: "run_events (n_events n) r0 = Some (n_recv n)" "recv_ok r0" "\<forall>k. kept r0 k = []" "r_initial_sync_acked r0" "r_sync_id r0 = 0" using as unfolding after_start_def by blast
  have i0: "recv_inv ?A r0" "\<forall>k. in_sync (s_sync_id ?s) (kept r0 k) = []" using r0(2,3) by (simp_all add: recv_inv_def datums_ok_def in_sync_def)
  have es: "\<forall>(t, u) \<in> set (packets (n_events n)). u \<in> ?A \<and> of_sync (s_sync_id ?s) ?P u \<and> t + GC_DELAY \<noteq> 0" "sorted (map at (n_events n))"
    using as of gc_time unfolding after_start_def by auto
  from events_synced [OF I net_honest [OF at] i0(1) r0(4) i0(2) es tmP] r0(1) have
    sy: "recv_inv ?A (n_recv n)" "\<forall>t. (\<forall>e \<in> set (n_events n). at e \<le> t) \<longrightarrow> synced (s_sync_id ?s) ?P (first_time (s_sync_id ?s) (packets (n_events n))) t (n_recv n)"
    "r_sync_id (n_recv n) = (if \<exists>(t, u) \<in> set (packets (n_events n)). utype u = KVP_UPDATE_FLUSH then s_sync_id ?s else r_sync_id r0)" by auto
  have sid: "r_sync_id (n_recv n) = s_sync_id ?s"
  proof -
    obtain p where p: "p \<in> set F" "utype p = KVP_UPDATE_FLUSH" using fl by blast
    then obtain t u where "(t, u) \<in> set (packets (n_events n))" "u\<lparr>ok_expiry := 0\<rparr> = p" using got [OF p(1)] by auto
    then have "\<exists>(t, u) \<in> set (packets (n_events n)). utype u = KVP_UPDATE_FLUSH" using sel p(2) by (intro bexI [of _ "(t, u)"]) auto
    then show ?thesis using sy(3) by simp
  qed
  have seen: "first_time (s_sync_id ?s) (packets (n_events n)) (update_id p) \<noteq> None" if p: "p \<in> ?P" for p
  proof -
    have "p \<in> set F" "utype p \<noteq> KVP_UPDATE_START" "is_data p" using p by (auto simp: is_data_def)
    then obtain t u where u: "(t, u) \<in> set (packets (n_events n))" "u\<lparr>ok_expiry := 0\<rparr> = p" using got by blast
    then have "copy_of p u" using sel [OF u(2)] \<open>is_data p\<close> by (simp add: copy_of_def)
    then show ?thesis using first_time_seen [OF u(1)] log_invD(1) [OF I p] by blast
  qed
  have "\<forall>e \<in> set (n_events n). at e \<le> - 1" by simp
  then have "synced (s_sync_id ?s) ?P (first_time (s_sync_id ?s) (packets (n_events n))) (- 1) (n_recv n)" using sy(2) by blast
  from synced_answers [OF I stagesD(1) [OF st] _ this sid seen, of now k] sy(1) snd_stamp [OF ok, of k] show ?thesis by (simp add: recv_inv_def)
qed

text \<open>
  C1. End-to-end consistency.  Let a sender and a receiver start, and let anything happen: keys are added and
  deleted, packets and acknowledgements arrive late, in any order, many times or never, and questions are
  asked.  Whenever the sender is through the initial sync and nothing it sent is unacknowledged, and no
  copy of a matched insertion and deletion came \<open>GC_DELAY\<close> or more after the two met, the receiver
  answers every question with what the application put into the sender: the value of a key that is
  there, and for an absent key \<open>NULL\<close>, or \<open>UNSURE\<close> when the sender's promise has expired.
\<close>

theorem kvpsync_end_to_end:
  assumes "net_init rnd rnd' cb t0 = Some n0" "net_run cmds n0 = Some n" "s_synced (n_send n)" "elem_ids (s_unacked (n_send n)) = []"
    "timely (s_sync_id (n_send n)) (set (n_sent n)) (packets (n_events n))"
  shows "\<exists>r'. kvpsync_recv_get_value (n_recv n) now k = Some (expected (n_recv n) now (kv (n_send n) k), r')"
  using session_answers [OF net_run_inv [OF assms(2) net_init_inv [OF assms(1)]] assms(3-5)] .

text \<open>
  C4. The readiness guarantee, end to end.  The callback of an insertion tells the application that the
  receiver knows the key.  While it is still to come, at any time from the deadline of the insertion
  on, which is \<open>MIN_RESPONSE\<close> after it, the receiver denies no key at all: it answers a question with a
  value or with \<open>UNSURE\<close>, never with \<open>NULL\<close>, however packets and acknowledgements were lost, delayed or
  repeated.
\<close>

theorem kvpsync_ready:
  assumes "net_init rnd rnd' cb t0 = Some n0" "net_run cmds n0 = Some n" "s_mem (n_send n) a = Some d" "sd_cb d \<noteq> None" "sd_deadline d \<le> now"
  shows "\<exists>reply r'. kvpsync_recv_get_value (n_recv n) now k = Some (reply, r') \<and> reply \<noteq> NULL"
proof -
  obtain E K where n: "net_at n E K" using net_run_inv [OF assms(2) net_init_inv [OF assms(1)]] by (auto simp: net_inv_def)
  have "r_ok_expiry (n_recv n) = 0 \<or> r_ok_expiry (n_recv n) \<le> sd_deadline d"
    using net_atD(7) [OF n] send_readiness [OF net_atD(1) [OF n] _ assms(3,4)] order_trans by blast
  then have late: "\<not> now < r_ok_expiry (n_recv n)" using assms(5) by auto
  have "recv_ok (n_recv n)" using net_recv_inv [OF n] by (simp add: recv_inv_def)
  from get_value_ok [OF this, of now k] obtain reply r' where r': "kvpsync_recv_get_value (n_recv n) now k = Some (reply, r')" "shrunk now (n_recv n) r'" by blast
  moreover have "reply \<noteq> NULL" using late_reply [OF r'(1)] r'(2) late by (simp add: shrunk_def same_head_def)
  ultimately show ?thesis by blast
qed

section \<open>Two runs\<close>

lemma tick_code [code]: "tick now n \<longleftrightarrow> n_now n \<le> now \<and> now < 9223372036854775808"
  by (simp add: tick_def)

text \<open>
  The receiver answers the first packet with its own id, which makes the sender start again; then the start
  of the sync, one key and the end of the sync are sent and acknowledged one after the other.
\<close>

definition example_cmds :: "cmd list" where
  "example_cmds = [Run 10, Deliver 11 0, Add_key 12 [7] [9] None, Ack 13 0, Run 14, Deliver 15 1, Ack 16 1, Run 17,
     Deliver 18 2, Ack 19 2, Run 20, Deliver 21 3, Ack 22 3]"

definition example_net :: "cmd list \<Rightarrow> (net \<Rightarrow> bool) \<Rightarrow> bool" where
  "example_net cs P = (case net_init [0, 5] [7] False 10 of None \<Rightarrow> False | Some n0 \<Rightarrow> (case net_run cs n0 of None \<Rightarrow> False | Some n \<Rightarrow> P n))"

lemma example_netE:
  assumes "example_net cs P"
  obtains n0 n where "net_init [0, 5] [7] False 10 = Some n0" "net_run cs n0 = Some n" "P n"
  using assms by (auto simp: example_net_def split: option.splits)

lemma example_synced:
  "example_net example_cmds (\<lambda>n. s_synced (n_send n) \<and> elem_ids (s_unacked (n_send n)) = [] \<and>
     timely (s_sync_id (n_send n)) (set (n_sent n)) (packets (n_events n)) \<and> kv (n_send n) [7] = Some [9])"
  by code_simp

theorem kvpsync_end_to_end_witness:
  "\<exists>n0 n. net_init [0, 5] [7] False 10 = Some n0 \<and> net_run example_cmds n0 = Some n \<and> s_synced (n_send n) \<and> elem_ids (s_unacked (n_send n)) = [] \<and>
     timely (s_sync_id (n_send n)) (set (n_sent n)) (packets (n_events n)) \<and> kv (n_send n) [7] = Some [9] \<and>
     (\<exists>r'. kvpsync_recv_get_value (n_recv n) 30 [7] = Some (Answer [9], r'))"
proof (rule example_netE [OF example_synced])
  fix n0 n
  assume n: "net_init [0, 5] [7] False 10 = Some n0" "net_run example_cmds n0 = Some n" "s_synced (n_send n) \<and> elem_ids (s_unacked (n_send n)) = [] \<and>
     timely (s_sync_id (n_send n)) (set (n_sent n)) (packets (n_events n)) \<and> kv (n_send n) [7] = Some [9]"
  then have "\<exists>r'. kvpsync_recv_get_value (n_recv n) 30 [7] = Some (expected (n_recv n) 30 (kv (n_send n) [7]), r')" by (intro kvpsync_end_to_end) blast+
  with n show ?thesis by (auto simp: expected_def)
qed

lemma example_pending:
  "example_net [Run 10, Add_key 12 [7] [9] (Some 1)] (\<lambda>n. case s_mem (n_send n) 1 of None \<Rightarrow> False | Some d \<Rightarrow> sd_cb d = Some 1 \<and> sd_deadline d = 12 + MIN_RESPONSE)"
  by code_simp

theorem kvpsync_ready_witness:
  "\<exists>n0 n d. net_init [0, 5] [7] False 10 = Some n0 \<and> net_run [Run 10, Add_key 12 [7] [9] (Some 1)] n0 = Some n \<and> s_mem (n_send n) 1 = Some d \<and>
     sd_cb d = Some 1 \<and> sd_deadline d = 12 + MIN_RESPONSE \<and> (\<exists>reply r'. kvpsync_recv_get_value (n_recv n) (12 + MIN_RESPONSE) [7] = Some (reply, r') \<and> reply \<noteq> NULL)"
proof (rule example_netE [OF example_pending])
  fix n0 n
  assume n: "net_init [0, 5] [7] False 10 = Some n0" "net_run [Run 10, Add_key 12 [7] [9] (Some 1)] n0 = Some n"
    "case s_mem (n_send n) 1 of None \<Rightarrow> False | Some d \<Rightarrow> sd_cb d = Some 1 \<and> sd_deadline d = 12 + MIN_RESPONSE"
  then obtain d where d: "s_mem (n_send n) 1 = Some d" "sd_cb d = Some 1" "sd_deadline d = 12 + MIN_RESPONSE" by (auto split: option.splits)
  then have "\<exists>reply r'. kvpsync_recv_get_value (n_recv n) (12 + MIN_RESPONSE) [7] = Some (reply, r') \<and> reply \<noteq> NULL"
    by (intro kvpsync_ready [OF n(1,2) d(1)]) simp_all
  with n d show ?thesis by blast
qed

end
