(* ===== verification/Spec2Isabelle.thy ===== *)
theory Spec2Isabelle
  imports Prelude Dstr Dstr_Search Cvt Fmt Maildir_Log Atree Seq_Set Dn_View Dn_Update Dn_Mirror Dn_Search Dn_Cmds Codec Unicode Hashmap Kvp_Pkts Kvp_Recv Kvp_Sync Kvp_Converge Kvp_Send Kvp_Log Kvp_Sender Kvp_Reach Kvp_Session
begin

text \<open>
  A verification development for the splintermail client and server (C sources under \<open>src/\<close>).

  \<^bold>\<open>The program.\<close>  Splintermail is a mail service with encryption at rest.  \<open>libdstr\<close> is its base library:
  byte buffers, containers, text formats.  \<open>libimap\<close> parses and prints IMAP; \<open>libimaildir\<close> keeps a
  mailbox as a maildir with a log of its messages and shows it to several clients, each with its
  own view; \<open>libcitm\<close> ties them together as a local proxy.  On the server, \<open>libkvpsync\<close> replicates a
  small key-value table from one sender to DNS servers over a lossy datagram network.

  \<^bold>\<open>Conventions.\<close>  A function that may fail returns \<open>derr_type \<times> _\<close> (the error type of the C code, with
  what the out parameters hold then); \<open>None\<close> of an option stands for an abort, an access out of bounds
  or to freed memory, or a loop that ran out of fuel, and the theorems show that it does not occur.
  Machine integers are words of their width where they can wrap; sizes of objects in memory are
  natural numbers.  \<open>malloc\<close> is a parameter: a predicate on sizes (\<open>allocator\<close>) or on the number of the
  call (\<open>allocs\<close>).  Structures that are shared or freed live in an explicit store from addresses;
  other structures are values.  Loops are recursive functions, with fuel where the recursion is not
  structural; the fuel is the number of elements left, and each theorem about such a loop states that
  it ends.

  \<^bold>\<open>The theories.\<close>
  \<^item> \<open>Prelude\<close>: error types, words, lists, the allocators, named theorem collections.
  \<^item> \<open>Dstr\<close>: \<open>dstr_t\<close> and \<open>LIST(type)\<close> (\<open>libdstr/common.c\<close>, \<open>common.h\<close>): growth, append, compare, strip, lists.
  \<^item> \<open>Dstr_Search\<close>: find, recode, count, split (\<open>libdstr/common.c\<close>), against declarative specifications.
  \<^item> \<open>Cvt\<close>: integer parsing (\<open>libdstr/cvt.c\<close>), which accumulates in a word that wraps: which texts are accepted
    with which value.
  \<^item> \<open>Fmt\<close>: the formatter (\<open>libdstr/fmt.c\<close>) over the \<open>dstr_t\<close> writer.
  \<^item> \<open>Codec\<close>: base64, hexadecimal and base64url, whole and streamed (\<open>libdstr/common.c\<close>, \<open>libacme/b64url.c\<close>).
  \<^item> \<open>Unicode\<close>: UTF-8 and UTF-16 with a callback per code point (\<open>libdstr/unicode.c\<close>).
  \<^item> \<open>Atree\<close>: the counted Andersson tree (\<open>libdstr/jsw_atree.c\<close>): it refines a sorted list, keeps its
    balance, counts and height, and its traversals visit every node.
  \<^item> \<open>Hashmap\<close>: the hash table (\<open>libdstr/hashmap.c\<close>): it refines a map through rehashing; the locale
    \<open>key_table\<close> states what its clients rely on, and is interpreted for string and for integer keys.
  \<^item> \<open>Maildir_Log\<close>: log entries and file names (\<open>libimaildir/log.c\<close>, \<open>name.c\<close>, \<open>msg.c\<close>): round trips.
  \<^item> \<open>Seq_Set\<close>: IMAP sequence sets (\<open>libimap/expression.c\<close>) and their builder (\<open>libimaildir/util.c\<close>).
  \<^item> \<open>Dn_View\<close>: a client's view (\<open>libimaildir/dn.c\<close>): sequence sets to canonical UID sets to message keys.
  \<^item> \<open>Dn_Update\<close>: how a connection gathers the updates of its mailbox and tells its client (\<open>libimaildir/dn.c\<close>):
    \<open>dn_gather_updates\<close>, the responses to \<open>STORE\<close>, the calls of the mailbox.
  \<^item> \<open>Dn_Mirror\<close>: a client that believes the untagged responses (\<open>hear_all\<close>) keeps the picture of the view.
  \<^item> \<open>Dn_Search\<close>: whether a message matches a search key (\<open>libimaildir/search.c\<close>), against the meaning of the
    key (\<open>matches\<close>).  The parsed message and the parser of dates, which is generated, are parameters.
  \<^item> \<open>Dn_Cmds\<close>: the commands of a connection (\<open>libimaildir/dn.c\<close>): \<open>SELECT\<close>, \<open>SEARCH\<close>, \<open>STORE\<close>, \<open>EXPUNGE\<close>, \<open>COPY\<close>, \<open>IDLE\<close> and the
    disconnection.  \<open>imaildir_dn_request_update\<close> and the loader of messages are parameters.
  \<^item> \<open>Kvp_Pkts\<close>: the datagrams (\<open>server/libkvpsync/pkts.c\<close>): round trip of the wire format.
  \<^item> \<open>Kvp_Recv\<close>: the receiver (\<open>server/libkvpsync/recv.c\<close>) over a store with explicit freeing.
  \<^item> \<open>Kvp_Sync\<close>: its reachable states under every order of delivery, and that none is stuck.
  \<^item> \<open>Kvp_Converge\<close>: its answers converge to the map of the sender's log; at the end, evaluations of what
    late, forged or stale packets can do.
  \<^item> \<open>Kvp_Send\<close>: the sender (\<open>server/libkvpsync/send.c\<close>) over a store with reference counts, its hash
    tables and lists, and the invariant \<open>send_ok\<close> of these structures.
  \<^item> \<open>Kvp_Log\<close>, \<open>Kvp_Sender\<close>: what the sender has queued is a log in the sense of \<open>Kvp_Converge\<close>, and its last
    entries agree with its cache, through syncs, resyncs, resending and every acknowledgement
    (\<open>sender_inv\<close>, kept by every operation).
  \<^item> \<open>Kvp_Reach\<close>: the reachable senders (\<open>send_reach\<close>): no operation aborts, freeing leaves nothing behind, the
    sender refines a map, and the promise of its packets (\<open>ok_expiry\<close>).
  \<^item> \<open>Kvp_Session\<close>: a sender, a receiver and a network that loses, delays, reorders and repeats packets and
    acknowledgements (\<open>net_step\<close>): end-to-end consistency and the readiness guarantee.  The hypotheses
    \<open>room\<close> (the 32-bit update counter does not wrap during a sync) and \<open>now < 2 ^ 63\<close> (a time in
    nanoseconds until the year 2262) are guards of its steps.

  \<^bold>\<open>Simplifications.\<close>  The counters of packets in flight of the sender are C \<open>int\<close>s and integers here: they
  differ only with about \<open>2 ^ 31\<close> packets in flight.  \<open>KVP_UPDATE_UNKNOWN\<close> carries the number of an update type that has no
  name; \<open>type_of_byte\<close> makes it only of such numbers.  \<open>maildir_name_parse\<close> yields no outputs with an error, although
  the C function may have assigned some, which its caller does not use.

  \<^bold>\<open>Not modelled.\<close>  Input and output, libuv, OpenSSL and database code; code generated from grammars
  (\<open>libimap/imap.in\<close>, \<open>libweb/web.in\<close>), which is not in the sources; \<open>FETCH\<close> and the loading of messages
  in \<open>dn.c\<close>; the upstream side \<open>up.c\<close>, the DNS server, HTTP streams and JSON, which are next in the plan.
\<close>

end
